(* ===== verification/Prelude.thy ===== *)
theory Prelude
  imports Main "HOL-Library.Word" "HOL-Library.Monad_Syntax"
begin

text \<open>
  What every component shares: the machine integers of the C code, a byte memory with the
  bounds of its accesses written out, and lemmas on lists and options.

  A C function is a HOL function into \<open>'a option\<close>: \<open>Some r\<close> when the call returns \<open>r\<close> and
  every access on the way is defined, \<open>None\<close> when it does not return normally (an access out
  of bounds or through a null or dangling pointer, a failed assertion, or a loop that never
  ends). What the source itself reports (a return code, \<open>false\<close>, a null result) is a value.
\<close>

unbundle bit_operations_syntax

section \<open>Machine integers\<close>

type_synonym u8 = "8 word"
type_synonym u16 = "16 word"
type_synonym u32 = "32 word"
type_synonym u64 = "64 word"

abbreviation (input) shl :: "'a::len word \<Rightarrow> nat \<Rightarrow> 'a word" where
  "shl x n \<equiv> push_bit n x"

abbreviation (input) shr :: "'a::len word \<Rightarrow> nat \<Rightarrow> 'a word" where
  "shr x n \<equiv> drop_bit n x"

named_theorems mem_simps "rewrite rules for reads and writes of a byte memory"

section \<open>Byte memory\<close>

text \<open>
  \<open>mem_read m off n\<close> is the source side of a \<open>memcpy\<close> of \<open>n\<close> bytes at offset \<open>off\<close>,
  \<open>mem_write m off xs\<close> its destination side. An access past the end is \<open>None\<close>.
\<close>

definition mem_read :: "'a list \<Rightarrow> nat \<Rightarrow> nat \<Rightarrow> 'a list option" where
  "mem_read m off n = (if off + n \<le> length m then Some (take n (drop off m)) else None)"

definition mem_write :: "'a list \<Rightarrow> nat \<Rightarrow> 'a list \<Rightarrow> 'a list option" where
  "mem_write m off xs =
     (if off + length xs \<le> length m
      then Some (take off m @ xs @ drop (off + length xs) m) else None)"

definition guard :: "bool \<Rightarrow> unit option" where
  "guard b = (if b then Some () else None)"

lemma guard_simps [simp]: "guard True = Some ()" "guard False = None"
  by (simp_all add: guard_def)

lemma guard_eq_Some [simp]: "guard b = Some u \<longleftrightarrow> b"
  by (simp add: guard_def)

lemma mem_read_Some [mem_simps]:
  "off + n \<le> length m \<Longrightarrow> mem_read m off n = Some (take n (drop off m))"
  by (simp add: mem_read_def)

lemma mem_write_Some [mem_simps]:
  "off + length xs \<le> length m \<Longrightarrow>
     mem_write m off xs = Some (take off m @ xs @ drop (off + length xs) m)"
  by (simp add: mem_write_def)

lemma mem_write_length: "mem_write m off xs = Some m' \<Longrightarrow> length m' = length m"
  by (auto simp: mem_write_def split: if_splits)

lemma mem_read_length: "mem_read m off n = Some xs \<Longrightarrow> length xs = n"
  by (auto simp: mem_read_def split: if_splits)

lemma mem_write_nth:
  assumes "mem_write m off xs = Some m'" and "i < length m"
  shows "m' ! i = (if off \<le> i \<and> i < off + length xs then xs ! (i - off) else m ! i)"
  using assms by (auto simp: mem_write_def nth_append min_def split: if_splits)

text \<open>The access to a piece of a memory that is given in three parts.\<close>

lemma mem_read_mid: "off = length pre \<Longrightarrow> n = length xs \<Longrightarrow> mem_read (pre @ xs @ post) off n = Some xs"
  by (simp add: mem_read_def)

lemma mem_write_mid:
  "off = length pre \<Longrightarrow> length ys = length xs \<Longrightarrow>
     mem_write (pre @ xs @ post) off ys = Some (pre @ ys @ post)"
  by (simp add: mem_write_def)

section \<open>Words\<close>

lemma unat_plus_small:
  fixes x y :: "'a::len word"
  shows "unat x + unat y < 2 ^ LENGTH('a) \<Longrightarrow> unat (x + y) = unat x + unat y"
  by (simp add: unat_word_ariths)

lemma unat_minus_le:
  fixes x y :: "'a::len word"
  shows "y \<le> x \<Longrightarrow> unat (x - y) = unat x - unat y"
  by (simp add: unat_sub word_le_nat_alt)

lemma u32_less_pow [simp]: "unat (x :: u32) < 4294967296"
  using unsigned_less [of x] by simp

lemma u16_less_pow [simp]: "unat (x :: u16) < 65536"
  using unsigned_less [of x] by simp

lemma u8_less_pow [simp]: "unat (x :: u8) < 256"
  using unsigned_less [of x] by simp

lemma u64_less_pow [simp]: "unat (x :: u64) < 18446744073709551616"
  using unsigned_less [of x] by simp

lemma bit_u8: "bit (x :: u8) n \<Longrightarrow> n < 8"
  by (auto dest: bit_imp_le_length)

text \<open>Masking with \<open>2 ^ k - 1\<close> is the remainder by \<open>2 ^ k\<close>: how both ring buffers index.\<close>

lemma unat_and_mask_pow2:
  fixes x m :: "'a::len word"
  assumes "unat m = 2 ^ k"
  shows "unat (x AND (m - 1)) = unat x mod 2 ^ k"
proof -
  have "m = word_of_nat (2 ^ k)"
    by (metis assms of_nat_unat ucast_id)
  then have "m - 1 = mask k"
    by (simp add: mask_eq_exp_minus_1)
  then have "unat (x AND (m - 1)) = unat (take_bit k x)"
    by (simp only: take_bit_eq_mask)
  also have "\<dots> = take_bit k (unat x)"
    by (rule unsigned_take_bit_eq)
  also have "\<dots> = unat x mod 2 ^ k"
    by (rule take_bit_eq_mod)
  finally show ?thesis .
qed

end
