(* ===== verification/Crc.thy ===== *)
theory Crc
  imports Prelude
begin

text \<open>
  The cyclic redundancy checks of \<open>src/bscl_crc.c\<close>: the table-driven and the bitwise CRC-16
  (CCITT polynomial) and the reflected table-driven CRC-32, whose polynomial the caller chooses
  with \<open>bscl_crc32_init\<close>. A pointer and a length are the list of the bytes they denote.

  The locale \<open>crc_register\<close> is what the three have in common: a register that is clocked by
  a linear step. The CRC-16 clock and the CRC-32 clock for any polynomial interpret it.
\<close>

section \<open>The code\<close>

definition POLY :: u16 where
  "POLY = 0x1021"

definition ccitt_table :: "u16 list" where
  "ccitt_table = [
     0x0000, 0x1021, 0x2042, 0x3063, 0x4084, 0x50A5, 0x60C6, 0x70E7, 0x8108, 0x9129, 0xA14A, 0xB16B,
     0xC18C, 0xD1AD, 0xE1CE, 0xF1EF, 0x1231, 0x0210, 0x3273, 0x2252, 0x52B5, 0x4294, 0x72F7, 0x62D6,
     0x9339, 0x8318, 0xB37B, 0xA35A, 0xD3BD, 0xC39C, 0xF3FF, 0xE3DE, 0x2462, 0x3443, 0x0420, 0x1401,
     0x64E6, 0x74C7, 0x44A4, 0x5485, 0xA56A, 0xB54B, 0x8528, 0x9509, 0xE5EE, 0xF5CF, 0xC5AC, 0xD58D,
     0x3653, 0x2672, 0x1611, 0x0630, 0x76D7, 0x66F6, 0x5695, 0x46B4, 0xB75B, 0xA77A, 0x9719, 0x8738,
     0xF7DF, 0xE7FE, 0xD79D, 0xC7BC, 0x48C4, 0x58E5, 0x6886, 0x78A7, 0x0840, 0x1861, 0x2802, 0x3823,
     0xC9CC, 0xD9ED, 0xE98E, 0xF9AF, 0x8948, 0x9969, 0xA90A, 0xB92B, 0x5AF5, 0x4AD4, 0x7AB7, 0x6A96,
     0x1A71, 0x0A50, 0x3A33, 0x2A12, 0xDBFD, 0xCBDC, 0xFBBF, 0xEB9E, 0x9B79, 0x8B58, 0xBB3B, 0xAB1A,
     0x6CA6, 0x7C87, 0x4CE4, 0x5CC5, 0x2C22, 0x3C03, 0x0C60, 0x1C41, 0xEDAE, 0xFD8F, 0xCDEC, 0xDDCD,
     0xAD2A, 0xBD0B, 0x8D68, 0x9D49, 0x7E97, 0x6EB6, 0x5ED5, 0x4EF4, 0x3E13, 0x2E32, 0x1E51, 0x0E70,
     0xFF9F, 0xEFBE, 0xDFDD, 0xCFFC, 0xBF1B, 0xAF3A, 0x9F59, 0x8F78, 0x9188, 0x81A9, 0xB1CA, 0xA1EB,
     0xD10C, 0xC12D, 0xF14E, 0xE16F, 0x1080, 0x00A1, 0x30C2, 0x20E3, 0x5004, 0x4025, 0x7046, 0x6067,
     0x83B9, 0x9398, 0xA3FB, 0xB3DA, 0xC33D, 0xD31C, 0xE37F, 0xF35E, 0x02B1, 0x1290, 0x22F3, 0x32D2,
     0x4235, 0x5214, 0x6277, 0x7256, 0xB5EA, 0xA5CB, 0x95A8, 0x8589, 0xF56E, 0xE54F, 0xD52C, 0xC50D,
     0x34E2, 0x24C3, 0x14A0, 0x0481, 0x7466, 0x6447, 0x5424, 0x4405, 0xA7DB, 0xB7FA, 0x8799, 0x97B8,
     0xE75F, 0xF77E, 0xC71D, 0xD73C, 0x26D3, 0x36F2, 0x0691, 0x16B0, 0x6657, 0x7676, 0x4615, 0x5634,
     0xD94C, 0xC96D, 0xF90E, 0xE92F, 0x99C8, 0x89E9, 0xB98A, 0xA9AB, 0x5844, 0x4865, 0x7806, 0x6827,
     0x18C0, 0x08E1, 0x3882, 0x28A3, 0xCB7D, 0xDB5C, 0xEB3F, 0xFB1E, 0x8BF9, 0x9BD8, 0xABBB, 0xBB9A,
     0x4A75, 0x5A54, 0x6A37, 0x7A16, 0x0AF1, 0x1AD0, 0x2AB3, 0x3A92, 0xFD2E, 0xED0F, 0xDD6C, 0xCD4D,
     0xBDAA, 0xAD8B, 0x9DE8, 0x8DC9, 0x7C26, 0x6C07, 0x5C64, 0x4C45, 0x3CA2, 0x2C83, 0x1CE0, 0x0CC1,
     0xEF1F, 0xFF3E, 0xCF5D, 0xDF7C, 0xAF9B, 0xBFBA, 0x8FD9, 0x9FF8, 0x6E17, 0x7E36, 0x4E55, 0x5E74,
     0x2E93, 0x3EB2, 0x0ED1, 0x1EF0]"

fun crc16_loop :: "u8 list \<Rightarrow> u16 \<Rightarrow> u16" where
  "crc16_loop [] crc = crc"
| "crc16_loop (q # qs) crc =
     crc16_loop qs
       (ccitt_table ! unat ((shr crc 8 XOR ucast q) AND 0xff) XOR shl crc 8)"

definition bscl_crc16_ccitt :: "u8 list \<Rightarrow> u16" where
  "bscl_crc16_ccitt q = NOT (crc16_loop q 0)"

definition crc16_bit :: "u16 \<Rightarrow> u16" where
  "crc16_bit crc = (if crc AND 0x8000 \<noteq> 0 then shl crc 1 XOR POLY else shl crc 1)"

fun crc_ccitt_cacu :: "u8 list \<Rightarrow> u16 \<Rightarrow> u16" where
  "crc_ccitt_cacu [] crc = crc"
| "crc_ccitt_cacu (a # addr) crc =
     crc_ccitt_cacu addr (((crc16_bit ^^ 8) (crc XOR shl (ucast a) 8)) AND 0xFFFF)"

text \<open>The global \<open>crc32_table\<close> is an argument of the functions that read it.\<close>

definition crc32_bit :: "u32 \<Rightarrow> u32 \<Rightarrow> u32" where
  "crc32_bit poly c = (if c AND 1 \<noteq> 0 then poly XOR shr c 1 else shr c 1)"

definition crc32_make_table :: "u32 \<Rightarrow> u32 list" where
  "crc32_make_table poly = map (\<lambda>i. (crc32_bit poly ^^ 8) (word_of_nat i)) [0..<0x100]"

definition bscl_crc32_init :: "u32 \<Rightarrow> u32 list" where
  "bscl_crc32_init poly = crc32_make_table poly"

fun crc32_loop :: "u32 list \<Rightarrow> u8 list \<Rightarrow> u32 \<Rightarrow> u32" where
  "crc32_loop tbl [] crc = crc"
| "crc32_loop tbl (p # ps) crc =
     crc32_loop tbl ps (tbl ! unat ((crc XOR ucast p) AND 0xFF) XOR shr crc 8)"

definition bscl_crc32 :: "u32 list \<Rightarrow> u8 list \<Rightarrow> u32 \<Rightarrow> u32" where
  "bscl_crc32 tbl buf init = crc32_loop tbl buf init XOR NOT 0"

section \<open>Linear registers\<close>

text \<open>Bytes enter a register through \<open>emb\<close> and are followed by eight clocks.\<close>

fun absorb :: "('a::len word \<Rightarrow> 'a word) \<Rightarrow> (u8 \<Rightarrow> 'a word) \<Rightarrow> u8 list \<Rightarrow> 'a word \<Rightarrow> 'a word" where
  "absorb clk emb [] c = c"
| "absorb clk emb (b # bs) c = absorb clk emb bs ((clk ^^ 8) (c XOR emb b))"

locale crc_register =
  fixes clk :: "'a::len word \<Rightarrow> 'a word"
  assumes clk_xor: "clk (x XOR y) = clk x XOR clk y"
begin

lemma clk_zero: "clk 0 = 0"
proof -
  have "clk (0 XOR 0) = clk 0 XOR clk 0" by (rule clk_xor)
  then show ?thesis by simp
qed

lemma clks_xor: "(clk ^^ n) (x XOR y) = (clk ^^ n) x XOR (clk ^^ n) y"
  by (induction n) (simp_all add: clk_xor)

lemma clks_zero: "(clk ^^ n) 0 = 0"
  by (induction n) (simp_all add: clk_zero)

lemma absorb_append: "absorb clk emb (xs @ ys) c = absorb clk emb ys (absorb clk emb xs c)"
  by (induction xs arbitrary: c) simp_all

text \<open>A change of the start value runs through the message on its own.\<close>

lemma absorb_xor:
  "absorb clk emb bs (c XOR d) = absorb clk emb bs c XOR (clk ^^ (8 * length bs)) d"
proof (induction bs arbitrary: c d)
  case Nil
  show ?case by simp
next
  case (Cons b bs)
  have eq: "(clk ^^ (8 * length bs)) ((clk ^^ 8) d) = (clk ^^ (8 * length (b # bs))) d"
    by (metis comp_apply funpow_add length_Cons mult_Suc_right add.commute)
  have "(c XOR d) XOR emb b = (c XOR emb b) XOR d"
    by (simp add: ac_simps)
  then have "absorb clk emb (b # bs) (c XOR d)
      = absorb clk emb bs ((clk ^^ 8) (c XOR emb b) XOR (clk ^^ 8) d)"
    by (simp add: clks_xor)
  also have "\<dots> = absorb clk emb bs ((clk ^^ 8) (c XOR emb b))
      XOR (clk ^^ (8 * length bs)) ((clk ^^ 8) d)"
    by (rule Cons.IH)
  finally show ?case by (simp add: eq)
qed

text \<open>A clock that loses nothing keeps different start values apart.\<close>

lemma clks_eq_zero:
  assumes "\<And>x. clk x = 0 \<Longrightarrow> x = 0"
  shows "(clk ^^ n) x = 0 \<Longrightarrow> x = 0"
  by (induction n) (auto dest: assms)

end

lemma xor_cancel:
  fixes x y z :: "'a::len word"
  shows "x XOR (x XOR y) = y"
    and "x XOR y = 0 \<longleftrightarrow> x = y"
    and "x XOR y = x XOR z \<longleftrightarrow> y = z"
    and "x XOR y = x \<longleftrightarrow> y = 0"
  by (auto simp: bit_eq_iff bit_simps)

lemma ucast_u8_u32_inj: "(ucast (a :: u8) :: u32) = ucast b \<longleftrightarrow> a = b"
  by (auto simp: bit_eq_iff bit_simps dest: bit_u8)

lemma crc16_bit_alt: "crc16_bit crc = (if bit crc 15 then shl crc 1 XOR POLY else shl crc 1)"
proof -
  have "crc AND 0x8000 \<noteq> 0 \<longleftrightarrow> bit crc 15"
    by (simp add: bit_iff_and_push_bit_not_eq_0 push_bit_eq_mult)
  then show ?thesis by (simp add: crc16_bit_def)
qed

lemma crc32_bit_alt: "crc32_bit poly c = (if bit c 0 then poly XOR shr c 1 else shr c 1)"
  by (simp add: crc32_bit_def and_one_eq mod_2_eq_odd bit_0)

interpretation crc16: crc_register crc16_bit
  by unfold_locales (auto simp: crc16_bit_alt bit_xor_iff push_bit_xor ac_simps)

interpretation crc32: crc_register "crc32_bit poly" for poly
  by unfold_locales (auto simp: crc32_bit_alt bit_xor_iff drop_bit_xor ac_simps)

lemma crc16_clk8: "(crc16_bit ^^ 8) x = crc16_bit (crc16_bit (crc16_bit (crc16_bit
    (crc16_bit (crc16_bit (crc16_bit (crc16_bit x)))))))"
  by (simp add: eval_nat_numeral)


text \<open>The clock on a numeral, so that only closed terms are evaluated.\<close>

lemma crc16_bit_numeral:
  "crc16_bit (numeral n) =
     (if numeral n AND 0x8000 \<noteq> (0 :: u16) then shl (numeral n) 1 XOR 0x1021
      else shl (numeral n) 1)"
  by (simp add: crc16_bit_def POLY_def)

lemma ccitt_table_eq:
  "ccitt_table = map (\<lambda>i. (crc16_bit ^^ 8) (shl (word_of_nat i) 8)) [0..<256]"
proof -
  have "[0..<256] = (0::nat) # 1 # [2..<256]"
    by (simp add: upt_conv_Cons numeral_2_eq_2)
  then show ?thesis
    by (simp add: crc16_clk8 crc16_bit_numeral crc16.clk_zero ccitt_table_def upt_rec_numeral)
qed

section \<open>A table lookup is eight clocks\<close>

lemma unat_and_255: "unat ((x :: 'a::len word) AND 0xFF) < 256"
proof -
  have ff: "(0xFF :: 'a word) = mask 8"
    by (simp add: mask_numeral)
  have "unat (x AND 0xFF) = take_bit 8 (unat x)"
    unfolding ff by (simp only: unsigned_take_bit_eq flip: take_bit_eq_mask)
  then show ?thesis
    using take_bit_nat_less_exp [of 8 "unat x"] by simp
qed

lemma crc16_clks_low:
  "n \<le> 16 \<Longrightarrow> (\<And>j. j < n \<Longrightarrow> \<not> bit x (15 - j)) \<Longrightarrow> (crc16_bit ^^ n) x = shl x n"
proof (induction n)
  case 0
  show ?case by simp
next
  case (Suc n)
  have "\<not> bit (shl x n) 15"
    using Suc.prems by (simp add: bit_push_bit_iff)
  moreover have "(crc16_bit ^^ n) x = shl x n"
    using Suc by simp
  moreover have "crc16_bit (shl x n) = shl (shl x n) 1" if "\<not> bit (shl x n) 15"
    using that by (simp add: crc16_bit_alt)
  ultimately show ?case
    by (simp add: push_bit_push_bit del: push_bit_of_1 push_bit_Suc push_bit_eq_mult)
qed

lemma crc32_clks_high:
  "(\<And>j. j < n \<Longrightarrow> \<not> bit x j) \<Longrightarrow> (crc32_bit poly ^^ n) x = shr x n"
proof (induction n)
  case 0
  show ?case by simp
next
  case (Suc n)
  then have "\<not> bit (shr x n) 0"
    by (simp add: bit_drop_bit_eq)
  with Suc show ?case
    by (simp add: crc32_bit_alt drop_bit_drop_bit)
qed

lemma crc16_table_step:
  "ccitt_table ! unat ((shr crc 8 XOR ucast (q :: u8)) AND 0xff) XOR shl crc 8
     = (crc16_bit ^^ 8) (crc XOR shl (ucast q) 8)"
proof -
  let ?h = "(shr crc 8 XOR ucast q) AND 0xff :: u16" and ?l = "crc AND 0xff"
  have ff: "(0xff :: u16) = mask 8"
    by (simp add: mask_numeral)
  have split: "crc XOR shl (ucast q) 8 = shl ?h 8 XOR ?l"
    unfolding ff
    by (rule bit_word_eqI)
      (auto simp: bit_simps not_less dest: bit_imp_le_length)
  have "(crc16_bit ^^ 8) ?l = shl ?l 8"
    unfolding ff by (rule crc16_clks_low) (auto simp: bit_simps)
  moreover have "shl ?l 8 = shl crc 8"
    unfolding ff by (rule bit_word_eqI) (auto simp: bit_simps)
  moreover have "ccitt_table ! unat ?h = (crc16_bit ^^ 8) (shl ?h 8)"
    using unat_and_255 [of "shr crc 8 XOR ucast q"] by (simp add: ccitt_table_eq)
  ultimately show ?thesis
    by (simp only: split crc16.clks_xor)
qed

lemma crc32_table_step:
  "crc32_make_table poly ! unat ((crc XOR ucast (p :: u8)) AND 0xFF) XOR shr crc 8
     = (crc32_bit poly ^^ 8) (crc XOR ucast p)"
proof -
  let ?x = "crc XOR ucast p :: u32"
  let ?l = "?x AND 0xFF" and ?h = "?x AND NOT 0xFF"
  have ff: "(0xFF :: u32) = mask 8"
    by (simp add: mask_numeral)
  have split: "?x = ?l XOR ?h"
    by (rule bit_word_eqI) (auto simp: bit_simps)
  have "(crc32_bit poly ^^ 8) ?h = shr ?h 8"
    unfolding ff by (rule crc32_clks_high) (auto simp: bit_simps)
  moreover have "shr ?h 8 = shr crc 8"
    unfolding ff by (rule bit_word_eqI) (auto simp: bit_simps dest: bit_imp_le_length)
  moreover have "crc32_make_table poly ! unat ?l = (crc32_bit poly ^^ 8) ?l"
    using unat_and_255 [of ?x] by (simp add: crc32_make_table_def)
  ultimately show ?thesis
    by (metis split crc32.clks_xor)
qed

lemma crc16_loop_absorb:
  "crc16_loop qs crc = absorb crc16_bit (\<lambda>b. shl (ucast b) 8) qs crc"
  by (induction qs arbitrary: crc) (simp_all add: crc16_table_step)

lemma crc_ccitt_cacu_absorb:
  "crc_ccitt_cacu qs crc = absorb crc16_bit (\<lambda>b. shl (ucast b) 8) qs crc"
proof (induction qs arbitrary: crc)
  case Nil
  show ?case by simp
next
  case (Cons a qs)
  have "(0xFFFF :: u16) = - 1"
    by simp
  then have "x AND 0xFFFF = x" for x :: u16
    by (simp only: and.right_neutral)
  then show ?case by (simp add: Cons)
qed

lemma crc32_loop_absorb:
  "crc32_loop (crc32_make_table poly) bs crc = absorb (crc32_bit poly) ucast bs crc"
  by (induction bs arbitrary: crc) (simp_all add: crc32_table_step)


section \<open>Properties\<close>

text \<open>
  The register of \<open>bscl_crc32\<close> without the final complement; \<open>crc32_raw\<close> is the bitwise
  reference the table version is compared with.
\<close>

definition crc32_raw :: "u32 \<Rightarrow> u8 list \<Rightarrow> u32 \<Rightarrow> u32" where
  "crc32_raw poly = absorb (crc32_bit poly) ucast"

lemma crc32_raw_simps [simp]:
  "crc32_raw poly [] c = c"
  "crc32_raw poly (b # bs) c = crc32_raw poly bs ((crc32_bit poly ^^ 8) (c XOR ucast b))"
  by (simp_all add: crc32_raw_def)

lemma bscl_crc32_raw: "bscl_crc32 (bscl_crc32_init poly) bs init = NOT (crc32_raw poly bs init)"
  by (simp add: bscl_crc32_def bscl_crc32_init_def crc32_raw_def crc32_loop_absorb)

lemma crc32_raw_append: "crc32_raw poly (xs @ ys) c = crc32_raw poly ys (crc32_raw poly xs c)"
  by (simp add: crc32_raw_def crc32.absorb_append)

lemma crc32_raw_xor:
  "crc32_raw poly bs (c XOR d) = crc32_raw poly bs c XOR (crc32_bit poly ^^ (8 * length bs)) d"
  by (simp add: crc32_raw_def crc32.absorb_xor)

lemma crc32_raw_not:
  "crc32_raw poly bs (NOT c)
     = crc32_raw poly bs c XOR (crc32_bit poly ^^ (8 * length bs)) (NOT 0)"
  using crc32_raw_xor [of poly bs c "NOT 0"] by simp

text \<open>With bit 31 in the polynomial (as in every CRC-32) the clock loses no information.\<close>

lemma crc32_bit_eq_zero:
  assumes "bit poly 31" and "crc32_bit poly c = 0"
  shows "c = 0"
proof (cases "bit c 0")
  case True
  with assms(2) have "poly = shr c 1"
    by (simp add: crc32_bit_alt xor_cancel)
  then have "\<not> bit poly 31"
    by (auto simp: bit_drop_bit_eq dest: bit_imp_le_length)
  with assms(1) show ?thesis by simp
next
  case False
  with assms(2) have "shr c 1 = 0"
    by (simp add: crc32_bit_alt)
  then have "\<not> bit (shr c 1) n" for n
    by (simp only: bit_0_eq bot_apply bot_bool_def) simp
  then have "\<not> bit c (Suc n)" for n
    by (simp add: bit_drop_bit_eq)
  with False have "\<not> bit c n" for n
    by (cases n) simp_all
  then show ?thesis
    by (simp add: bit_eq_iff)
qed

lemma crc32_clks_eq_zero: "bit poly 31 \<Longrightarrow> (crc32_bit poly ^^ n) x = 0 \<Longrightarrow> x = 0"
  by (rule crc32.clks_eq_zero) (rule crc32_bit_eq_zero)

lemma crc32_raw_inj:
  assumes "bit poly 31" and "crc32_raw poly bs c = crc32_raw poly bs d"
  shows "c = d"
proof -
  have "crc32_raw poly bs c XOR (crc32_bit poly ^^ (8 * length bs)) (c XOR d)
      = crc32_raw poly bs d"
    by (simp only: xor_cancel flip: crc32_raw_xor)
  also have "\<dots> = crc32_raw poly bs c"
    by (rule assms(2) [symmetric])
  finally have "(crc32_bit poly ^^ (8 * length bs)) (c XOR d) = 0"
    by (simp only: xor_cancel)
  then show ?thesis
    using crc32_clks_eq_zero [OF assms(1)] xor_cancel(2) by blast
qed

text \<open>
  The table-driven CRC-16 is the complement of the bitwise CRC-16 with start value 0, for
  every message; in particular all 256 entries of the table are right.
\<close>

lemma bscl_crc16_ccitt_bitwise: "bscl_crc16_ccitt q = NOT (crc_ccitt_cacu q 0)"
  by (simp add: bscl_crc16_ccitt_def crc16_loop_absorb crc_ccitt_cacu_absorb)

text \<open>
  after \<open>bscl_crc32_init poly\<close>, \<open>bscl_crc32\<close> computes the complement of the bitwise
  reflected CRC with that polynomial, for every polynomial, message and start value. So two
  chained calls do not give the checksum of the concatenation: the result differs by the
  all-ones register clocked through the second part.
\<close>

lemma bscl_crc32_bitwise_and_chaining:
  "bscl_crc32 (bscl_crc32_init poly) bs init = NOT (absorb (crc32_bit poly) ucast bs init) \<and>
   bscl_crc32 (bscl_crc32_init poly) ys (bscl_crc32 (bscl_crc32_init poly) xs init)
     = bscl_crc32 (bscl_crc32_init poly) (xs @ ys) init
       XOR (crc32_bit poly ^^ (8 * length ys)) (NOT 0)"
  by (simp add: bscl_crc32_raw crc32_raw_append crc32_raw_not flip: crc32_raw_def)

text \<open>
  C11: for a polynomial with bit 31 set, two messages of one length that differ in one byte have
  different CRC-32 values, whatever the start value.
\<close>

theorem bscl_crc32_detects_byte:
  assumes "bit poly 31" and "a \<noteq> b"
  shows "bscl_crc32 (bscl_crc32_init poly) (xs @ a # ys) init
    \<noteq> bscl_crc32 (bscl_crc32_init poly) (xs @ b # ys) init"
proof
  let ?c = "crc32_raw poly xs init"
  assume "bscl_crc32 (bscl_crc32_init poly) (xs @ a # ys) init
    = bscl_crc32 (bscl_crc32_init poly) (xs @ b # ys) init"
  then have "crc32_raw poly [a] ?c = crc32_raw poly [b] ?c"
    using crc32_raw_inj [OF assms(1)] by (simp add: bscl_crc32_raw crc32_raw_append)
  then have "(crc32_bit poly ^^ 8) ((?c XOR ucast a) XOR (?c XOR ucast b)) = 0"
    by (simp add: crc32.clks_xor)
  then have "?c XOR ucast a = ?c XOR ucast b"
    using crc32_clks_eq_zero [OF assms(1)] xor_cancel(2) by blast
  then have "(ucast a :: u32) = ucast b"
    by (simp only: xor_cancel)
  with assms(2) show False
    by (simp only: ucast_u8_u32_inj)
qed

lemma bscl_crc32_detects_byte_witness:
  "bscl_crc32 (bscl_crc32_init 0xEDB88320) ([] @ 1 # [7]) 0
    \<noteq> bscl_crc32 (bscl_crc32_init 0xEDB88320) ([] @ 2 # [7]) 0"
  by (rule bscl_crc32_detects_byte) simp_all

end
