(* ===== verification/Ring.thy ===== *)
theory Ring
  imports Prelude
begin

text \<open>
  What the two circular byte buffers of the library (\<open>include/bscl_buffer.h\<close> with 32-bit
  positions and \<open>src/bscl_ringbuffer.c\<close> with \<open>size_t\<close> positions) share: the view of a memory
  as a ring of positions, the effect of the one-piece and the two-piece \<open>memcpy\<close> on it, and
  the interface \<open>byte_fifo\<close> with what a client may rely on.
\<close>

section \<open>A memory read as a ring\<close>

definition ring_get :: "'a list \<Rightarrow> nat \<Rightarrow> nat \<Rightarrow> 'a list" where
  "ring_get m p n = map (\<lambda>i. m ! ((p + i) mod length m)) [0..<n]"

lemma length_ring_get [simp]: "length (ring_get m p n) = n"
  by (simp add: ring_get_def)

lemma nth_ring_get: "i < n \<Longrightarrow> ring_get m p n ! i = m ! ((p + i) mod length m)"
  by (simp add: ring_get_def)

lemma ring_get_0 [simp]: "ring_get m p 0 = []"
  by (simp add: ring_get_def)

lemma ring_get_add: "ring_get m p (a + b) = ring_get m p a @ ring_get m (p + a) b"
  by (rule nth_equalityI) (auto simp: nth_ring_get nth_append ac_simps)

lemma take_ring_get: "take k (ring_get m p n) = ring_get m p (min k n)"
  by (rule nth_equalityI) (auto simp: nth_ring_get)

lemma drop_ring_get: "drop k (ring_get m p n) = ring_get m (p + k) (n - k)"
  by (rule nth_equalityI) (auto simp: nth_ring_get ac_simps)

lemma ring_get_mod: "ring_get m (p mod length m) n = ring_get m p n"
  by (simp add: ring_get_def mod_add_left_eq)

lemma ring_get_cong:
  "p mod length m = q mod length m \<Longrightarrow> ring_get m p n = ring_get m q n"
  by (metis ring_get_mod)

text \<open>Reading in one piece and, past the end, in two.\<close>

lemma ring_get_flat:
  assumes "p mod length m + n \<le> length m"
  shows "ring_get m p n = take n (drop (p mod length m) m)"
proof (cases "n = 0")
  case False
  have "ring_get m (p mod length m) n = take n (drop (p mod length m) m)"
    using assms by (intro nth_equalityI) (auto simp: nth_ring_get)
  then show ?thesis by (simp add: ring_get_mod)
qed simp

lemma ring_get_wrap:
  assumes "length m \<le> p mod length m + n" and "n \<le> length m"
  shows "ring_get m p n
    = drop (p mod length m) m @ take (n - (length m - p mod length m)) m"
proof (cases "m = []")
  case False
  let ?o = "p mod length m" and ?a = "length m - p mod length m"
  have o: "?o < length m"
    using False by simp
  have "ring_get m ?o (?a + (n - ?a)) = ring_get m ?o ?a @ ring_get m (?o + ?a) (n - ?a)"
    by (rule ring_get_add)
  moreover have "ring_get m ?o ?a = drop ?o m"
    using o by (subst ring_get_flat) simp_all
  moreover have "ring_get m (?o + ?a) (n - ?a) = take (n - ?a) m"
    using o assms(2) by (subst ring_get_flat) simp_all
  moreover have "?a + (n - ?a) = n"
    using assms(1) o by simp
  ultimately show ?thesis
    by (simp add: ring_get_mod)
qed (use assms in simp)

section \<open>Writing into a ring\<close>

text \<open>
  \<open>ring_upd m p xs m'\<close>: \<open>m'\<close> holds \<open>xs\<close> from position \<open>p\<close> on and agrees with \<open>m\<close> elsewhere.
\<close>

definition ring_upd :: "'a list \<Rightarrow> nat \<Rightarrow> 'a list \<Rightarrow> 'a list \<Rightarrow> bool" where
  "ring_upd m p xs m' \<longleftrightarrow>
     length m' = length m
   \<and> (\<forall>j<length xs. m' ! ((p + j) mod length m) = xs ! j)
   \<and> (\<forall>q<length m. (\<forall>j<length xs. q \<noteq> (p + j) mod length m) \<longrightarrow> m' ! q = m ! q)"

lemma ring_upd_cong:
  assumes "p mod length m = q mod length m" and "ring_upd m p xs m'"
  shows "ring_upd m q xs m'"
proof -
  have "(p + j) mod length m = (q + j) mod length m" for j
    using assms(1) by (intro mod_add_cong) simp_all
  then show ?thesis
    using assms(2) by (simp add: ring_upd_def)
qed

lemma mod_add_inj_le:
  assumes "(p + i) mod n = (p + j) mod n" and "i \<le> j" and "j < (n :: nat)"
  shows "i = j"
proof -
  have "n dvd (p + j) - (p + i)"
    using assms(1,2) by (metis add_left_mono mod_eq_dvd_iff_nat)
  then have "n dvd j - i"
    by simp
  with assms(3) have "j - i = 0"
    by (meson dvd_imp_le less_imp_diff_less not_gr_zero not_less)
  with assms(2) show ?thesis by simp
qed

lemma mod_add_inj:
  assumes "(p + i) mod n = (p + j) mod n" and "i < n" and "j < (n :: nat)"
  shows "i = j"
  using mod_add_inj_le [of p i n j] mod_add_inj_le [of p j n i] assms by (metis nat_le_linear)

lemma ring_upd_append:
  assumes upd: "ring_upd m (r + c) xs m'" and fits: "c + length xs \<le> length m"
  shows "ring_get m' r (c + length xs) = ring_get m r c @ xs"
proof (rule nth_equalityI)
  fix i assume "i < length (ring_get m' r (c + length xs))"
  then have i: "i < c + length xs" by simp
  have len: "length m' = length m"
    using upd by (simp add: ring_upd_def)
  show "ring_get m' r (c + length xs) ! i = (ring_get m r c @ xs) ! i"
  proof (cases "i < c")
    case True
    have "(r + i) mod length m \<noteq> (r + c + j) mod length m" if "j < length xs" for j
      using mod_add_inj [of r i "length m" "c + j"] True that fits by (auto simp: ac_simps)
    moreover have "0 < length m"
      using i fits by linarith
    then have "(r + i) mod length m < length m"
      by (rule mod_less_divisor)
    ultimately have "m' ! ((r + i) mod length m) = m ! ((r + i) mod length m)"
      using upd by (simp add: ring_upd_def)
    then show ?thesis
      using True i by (simp add: nth_ring_get nth_append len)
  next
    case False
    have "\<forall>j<length xs. m' ! ((r + c + j) mod length m) = xs ! j"
      using upd by (simp add: ring_upd_def)
    moreover have "i - c < length xs" and "r + c + (i - c) = r + i"
      using False i by simp_all
    ultimately have "m' ! ((r + i) mod length m) = xs ! (i - c)"
      by metis
    then show ?thesis
      using False i by (simp add: nth_ring_get nth_append len)
  qed
qed simp

text \<open>The one-piece and the two-piece copy.\<close>

lemma ring_upd_flat:
  assumes "p mod length m + length xs \<le> length m"
  shows "ring_upd m p xs
    (take (p mod length m) m @ xs @ drop (p mod length m + length xs) m)"
    (is "ring_upd m p xs ?m'")
proof -
  let ?o = "p mod length m"
  have pos: "(p + j) mod length m = ?o + j" if "j < length xs" for j
    using that assms by (metis mod_add_left_eq mod_less add_less_mono1 add.commute less_le_trans)
  have "?m' ! q = m ! q" if "q < length m" "\<forall>j<length xs. q \<noteq> ?o + j" for q
  proof (cases "q < ?o")
    case False
    with that(2) have "\<not> q - ?o < length xs"
      by (metis add_diff_inverse_nat)
    with False show ?thesis using that(1) assms by (simp add: nth_append)
  qed (use that assms in \<open>simp add: nth_append\<close>)
  then show ?thesis
    using assms by (simp add: ring_upd_def pos nth_append)
qed

lemma ring_upd_wrap:
  assumes e: "e = p mod length m" and a: "a = length m - e"
    and "m \<noteq> []" and "a \<le> length xs" and "length xs \<le> length m"
  shows "ring_upd m p xs (drop a xs @ drop (length xs - a) (take e m) @ take a xs)"
    (is "ring_upd m p xs ?m'")
proof -
  have elt: "e < length m"
    using e \<open>m \<noteq> []\<close> by simp
  have pos: "(p + j) mod length m = (if j < a then e + j else j - a)" if "j < length xs" for j
  proof -
    have "(p + j) mod length m = (e + j) mod length m"
      by (simp add: e mod_add_left_eq)
    moreover have "(e + j) mod length m = j - a" if "\<not> j < a"
    proof -
      have "e + j = length m + (j - a)" using that a elt by simp
      moreover have "j - a < length m" using \<open>j < length xs\<close> assms(5) by simp
      ultimately show ?thesis by simp
    qed
    ultimately show ?thesis using a elt by simp
  qed
  have len: "length ?m' = length m"
    using a elt assms(4,5) by simp
  have "?m' ! ((p + j) mod length m) = xs ! j" if "j < length xs" for j
    using that assms(4,5) a elt by (auto simp: pos nth_append min_def)
  moreover have "?m' ! q = m ! q"
    if q: "q < length m" "\<forall>j<length xs. q \<noteq> (p + j) mod length m" for q
  proof -
    have "\<not> e \<le> q"
    proof
      assume "e \<le> q"
      moreover from this have "q - e < a" and "q - e < length xs"
        using q(1) assms(4) a by linarith+
      ultimately show False
        using q(2) pos [of "q - e"] by auto
    qed
    have L: "length xs - a \<le> q"
    proof (rule ccontr)
      assume "\<not> length xs - a \<le> q"
      then have "q + a < length xs" by simp
      then show False
        using q(2) pos [of "q + a"] by auto
    qed
    have "?m' ! q = (drop (length xs - a) (take e m) @ take a xs) ! (q - (length xs - a))"
      using L by (subst nth_append) simp
    also have "\<dots> = drop (length xs - a) (take e m) ! (q - (length xs - a))"
      using L \<open>\<not> e \<le> q\<close> elt by (subst nth_append) auto
    also have "\<dots> = m ! q"
      using L \<open>\<not> e \<le> q\<close> elt by simp
    finally show ?thesis .
  qed
  ultimately show ?thesis
    using len by (simp add: ring_upd_def)
qed


text \<open>The two copies of a write that crosses the end, in the order of the code.\<close>

lemma copy_wrapped:
  assumes "e < length m" and "a = length m - e" and "a \<le> n" and "n \<le> length m"
    and "n \<le> length data"
  shows "do {
      xs \<leftarrow> mem_read data 0 a;
      m1 \<leftarrow> mem_write m e xs;
      ys \<leftarrow> mem_read data a (n - a);
      m2 \<leftarrow> mem_write m1 0 ys;
      f m2
    } = f (drop a (take n data) @ drop (n - a) (take e m) @ take a (take n data))"
proof -
  let ?m1 = "take e m @ take a data"
  have "mem_read data 0 a = Some (take a data)"
    using assms by (simp add: mem_read_def)
  moreover have "mem_write m e (take a data) = Some ?m1"
    using assms by (simp add: mem_write_def)
  moreover have "mem_read data a (n - a) = Some (drop a (take n data))"
    using assms by (simp add: mem_read_def drop_take)
  moreover have "mem_write ?m1 0 (drop a (take n data))
      = Some (drop a (take n data) @ drop (n - a) (take e m) @ take a (take n data))"
  proof -
    have "n - a \<le> e" and "length ?m1 = length m" and "length (drop a (take n data)) = n - a"
      using assms by simp_all
    moreover from this have "drop (n - a) ?m1 = drop (n - a) (take e m) @ take a data"
      using assms by simp
    ultimately show ?thesis
      using assms by (simp add: mem_write_def del: drop_append)
  qed
  ultimately show ?thesis by simp
qed

section \<open>The interface of a byte queue\<close>

text \<open>
  \<open>put b xs\<close> appends as much of \<open>xs\<close> as there is room for and returns how much that was;
  \<open>drain b n\<close>, called for at least as many bytes as are stored, returns them all.
  Lengths are below \<open>limit\<close>, the range of the length argument.
\<close>

locale byte_fifo =
  fixes inv :: "'b \<Rightarrow> bool"
    and contents :: "'b \<Rightarrow> u8 list"
    and capacity :: "'b \<Rightarrow> nat"
    and limit :: nat
    and put :: "'b \<Rightarrow> u8 list \<Rightarrow> (nat \<times> 'b) option"
    and drain :: "'b \<Rightarrow> nat \<Rightarrow> (u8 list \<times> 'b) option"
  assumes contents_bound: "inv b \<Longrightarrow> length (contents b) \<le> capacity b"
    and capacity_limit: "inv b \<Longrightarrow> capacity b < limit"
    and put_law: "inv b \<Longrightarrow> length xs < limit \<Longrightarrow>
      \<exists>b'. put b xs = Some (min (length xs) (capacity b - length (contents b)), b')
         \<and> inv b' \<and> capacity b' = capacity b
         \<and> contents b' = contents b @ take (capacity b - length (contents b)) xs"
    and drain_law: "inv b \<Longrightarrow> length (contents b) \<le> n \<Longrightarrow> 0 < n \<Longrightarrow> n < limit \<Longrightarrow>
      \<exists>b'. drain b n = Some (contents b, b')
         \<and> inv b' \<and> capacity b' = capacity b \<and> contents b' = []"
begin

text \<open>A producer that writes its chunks one after the other.\<close>

fun put_chunks :: "'b \<Rightarrow> u8 list list \<Rightarrow> 'b option" where
  "put_chunks b [] = Some b"
| "put_chunks b (xs # xss) = (case put b xs of None \<Rightarrow> None | Some (_, b') \<Rightarrow> put_chunks b' xss)"

lemma put_fits:
  assumes "inv b" and "length xs \<le> capacity b - length (contents b)"
  shows "\<exists>b'. put b xs = Some (length xs, b') \<and> inv b' \<and> capacity b' = capacity b
    \<and> contents b' = contents b @ xs"
proof -
  have "length xs < limit"
    using assms capacity_limit [OF assms(1)] by linarith
  from put_law [OF assms(1) this] assms(2) show ?thesis
    by (auto simp: min_def)
qed

lemma put_chunks_fits:
  assumes "inv b" and "length (concat xss) \<le> capacity b - length (contents b)"
  shows "\<exists>b'. put_chunks b xss = Some b' \<and> inv b' \<and> capacity b' = capacity b
    \<and> contents b' = contents b @ concat xss"
  using assms
proof (induction xss arbitrary: b)
  case Nil
  then show ?case by simp
next
  case (Cons xs xss)
  then obtain b' where b': "put b xs = Some (length xs, b')" "inv b'"
      "capacity b' = capacity b" "contents b' = contents b @ xs"
    using put_fits [of b xs] by auto
  with Cons.prems have "length (concat xss) \<le> capacity b' - length (contents b')"
    by simp
  from Cons.IH [OF b'(2) this] b' show ?case by auto
qed

text \<open>First in, first out: what was stored before comes first, then the chunks in order.\<close>

lemma chunks_drained:
  assumes "inv b" and "length (concat xss) \<le> capacity b - length (contents b)"
    and "0 < capacity b"
  shows "\<exists>b' b''. put_chunks b xss = Some b'
    \<and> drain b' (capacity b) = Some (contents b @ concat xss, b'')
    \<and> inv b'' \<and> contents b'' = []"
proof -
  obtain b' where b': "put_chunks b xss = Some b'" "inv b'" "capacity b' = capacity b"
      "contents b' = contents b @ concat xss"
    using put_chunks_fits [OF assms(1,2)] by auto
  then have "length (contents b') \<le> capacity b" and "capacity b < limit"
    using contents_bound capacity_limit by force+
  from drain_law [OF b'(2) this(1) assms(3) this(2)] b' show ?thesis by auto
qed

end

end
