(* ===== verification/Buffer.thy ===== *)
theory Buffer
  imports Ring
begin

text \<open>
  The byte buffer of \<open>include/bscl_buffer.h\<close>: a memory of \<open>size\<close> bytes (a power of two, as
  the header demands) with a write and a read position that run freely modulo \<open>2 ^ 32\<close>.

  The abstraction \<open>buffer_contents\<close> is the list of the bytes between the positions. Under
  \<open>buffer_inv\<close> every operation is a list operation on it: a write appends what fits, a copy
  is a slice, a drop removes a prefix. The buffer is a \<open>byte_fifo\<close>.
\<close>

section \<open>State and operations\<close>

record buffer_t =
  mem_buf :: "u8 list"
  bsize :: u32
  wrp :: u32
  rdp :: u32

definition buffer_offset_of_pos :: "buffer_t \<Rightarrow> u32 \<Rightarrow> u32" where
  "buffer_offset_of_pos buffer pos = pos AND (bsize buffer - 1)"

definition buffer_init :: "u8 list \<Rightarrow> u32 \<Rightarrow> buffer_t" where
  "buffer_init m sz = \<lparr>mem_buf = m, bsize = sz, wrp = 0, rdp = 0\<rparr>"

definition buffer_clean :: "buffer_t \<Rightarrow> buffer_t" where
  "buffer_clean buffer = buffer\<lparr>rdp := wrp buffer\<rparr>"

definition buffer_get_count :: "buffer_t \<Rightarrow> u32" where
  "buffer_get_count buffer = wrp buffer - rdp buffer"

definition buffer_get_space :: "buffer_t \<Rightarrow> u32" where
  "buffer_get_space buffer = bsize buffer - buffer_get_count buffer"

definition buffer_get_size :: "buffer_t \<Rightarrow> u32" where
  "buffer_get_size buffer = bsize buffer"

definition buffer_is_empty :: "buffer_t \<Rightarrow> bool" where
  "buffer_is_empty buffer \<longleftrightarrow> wrp buffer = rdp buffer"

definition buffer_is_full :: "buffer_t \<Rightarrow> bool" where
  "buffer_is_full buffer \<longleftrightarrow> bsize buffer \<le> wrp buffer - rdp buffer"

definition buffer_wrp_add :: "buffer_t \<Rightarrow> u32 \<Rightarrow> buffer_t" where
  "buffer_wrp_add buffer n = buffer\<lparr>wrp := wrp buffer + n\<rparr>"

definition buffer_rdp_add :: "buffer_t \<Rightarrow> u32 \<Rightarrow> buffer_t" where
  "buffer_rdp_add buffer n = buffer\<lparr>rdp := rdp buffer + n\<rparr>"

text \<open>
  \<open>data\<close> is the caller's memory from the pointer on; the result is the returned length and
  the buffer.
\<close>

definition buffer_write :: "buffer_t \<Rightarrow> u8 list \<Rightarrow> u32 \<Rightarrow> (u32 \<times> buffer_t) option" where
  "buffer_write buffer data len0 =
     (let space = buffer_get_space buffer;
          len = (if len0 < space then len0 else space)
      in if len \<noteq> 0 then
           (let offset = buffer_offset_of_pos buffer (wrp buffer)
            in if offset + len \<le> bsize buffer then do {
                 xs \<leftarrow> mem_read data 0 (unat len);
                 m \<leftarrow> mem_write (mem_buf buffer) (unat offset) xs;
                 Some (len, buffer\<lparr>mem_buf := m, wrp := wrp buffer + len\<rparr>)
               } else (let left = bsize buffer - offset in do {
                 xs \<leftarrow> mem_read data 0 (unat left);
                 m \<leftarrow> mem_write (mem_buf buffer) (unat offset) xs;
                 ys \<leftarrow> mem_read data (unat left) (unat (len - left));
                 m' \<leftarrow> mem_write m 0 ys;
                 Some (len, buffer\<lparr>mem_buf := m', wrp := wrp buffer + len\<rparr>)
               }))
         else Some (len, buffer))"

definition buffer_putc :: "buffer_t \<Rightarrow> u8 \<Rightarrow> (int \<times> buffer_t) option" where
  "buffer_putc buffer c =
     (if buffer_is_full buffer then Some (0, buffer)
      else do {
        m \<leftarrow> mem_write (mem_buf buffer) (unat (buffer_offset_of_pos buffer (wrp buffer))) [c];
        Some (1, buffer\<lparr>mem_buf := m, wrp := wrp buffer + 1\<rparr>)
      })"

definition buffer_copy_char :: "buffer_t \<Rightarrow> u32 \<Rightarrow> int option" where
  "buffer_copy_char buffer begn =
     (let count = buffer_get_count buffer
      in if count < begn then Some (- 1)
         else do {
           xs \<leftarrow> mem_read (mem_buf buffer)
             (unat (buffer_offset_of_pos buffer (rdp buffer + begn))) 1;
           Some (uint (hd xs))
         })"

text \<open>The result is the returned length and the bytes stored at \<open>data\<close>.\<close>

definition buffer_copy :: "buffer_t \<Rightarrow> u32 \<Rightarrow> u32 \<Rightarrow> (u32 \<times> u8 list) option" where
  "buffer_copy buffer begn len0 =
     (let count = buffer_get_count buffer
      in if count < begn then Some (0, [])
         else
           (let len = (if count < len0 + begn then count - begn else len0)
            in if len \<noteq> 0 then
                 (let offset = buffer_offset_of_pos buffer (rdp buffer + begn)
                  in if offset + len \<le> bsize buffer then do {
                       xs \<leftarrow> mem_read (mem_buf buffer) (unat offset) (unat len);
                       Some (len, xs)
                     } else (let left = bsize buffer - offset in do {
                       xs \<leftarrow> mem_read (mem_buf buffer) (unat offset) (unat left);
                       ys \<leftarrow> mem_read (mem_buf buffer) 0 (unat (len - left));
                       Some (len, xs @ ys)
                     }))
               else Some (len, [])))"

definition buffer_read :: "buffer_t \<Rightarrow> u32 \<Rightarrow> (u32 \<times> u8 list \<times> buffer_t) option" where
  "buffer_read buffer sz = do {
     (n, xs) \<leftarrow> buffer_copy buffer 0 sz;
     Some (n, xs, buffer_rdp_add buffer n)
   }"

definition buffer_copy_word :: "buffer_t \<Rightarrow> u32 \<Rightarrow> u8 option" where
  "buffer_copy_word buffer i = do {
     xs \<leftarrow> mem_read (mem_buf buffer) (unat (buffer_offset_of_pos buffer (rdp buffer + i))) 1;
     Some (hd xs)
   }"

definition buffer_copy_first :: "buffer_t \<Rightarrow> int option" where
  "buffer_copy_first buffer = do { c \<leftarrow> buffer_copy_word buffer 0; Some (uint c) }"

definition buffer_drop :: "buffer_t \<Rightarrow> u32 \<Rightarrow> u32 \<times> buffer_t" where
  "buffer_drop buffer len0 =
     (let count = buffer_get_count buffer;
          len = (if count < len0 then count else len0)
      in (len, buffer_rdp_add buffer len))"

definition buffer_drop_char :: "buffer_t \<Rightarrow> u32 \<times> buffer_t" where
  "buffer_drop_char buffer = buffer_drop buffer 1"

section \<open>Invariant and abstraction\<close>

definition buffer_inv :: "buffer_t \<Rightarrow> bool" where
  "buffer_inv b \<longleftrightarrow> (\<exists>k<32. unat (bsize b) = 2 ^ k)
     \<and> length (mem_buf b) = unat (bsize b)
     \<and> buffer_get_count b \<le> bsize b"

definition buffer_contents :: "buffer_t \<Rightarrow> u8 list" where
  "buffer_contents b = ring_get (mem_buf b) (unat (rdp b)) (unat (buffer_get_count b))"

definition buffer_free :: "buffer_t \<Rightarrow> nat" where
  "buffer_free b = unat (bsize b) - length (buffer_contents b)"

named_theorems buffer_simps "the buffer operations as list operations"

lemma length_buffer_contents [simp]: "length (buffer_contents b) = unat (buffer_get_count b)"
  by (simp add: buffer_contents_def)

lemma buffer_inv_len: "buffer_inv b \<Longrightarrow> length (mem_buf b) = unat (bsize b)"
  by (simp add: buffer_inv_def)

lemma buffer_inv_count: "buffer_inv b \<Longrightarrow> unat (buffer_get_count b) \<le> unat (bsize b)"
  by (simp add: buffer_inv_def word_le_nat_alt)

lemma buffer_inv_pos: "buffer_inv b \<Longrightarrow> 0 < unat (bsize b)"
  by (auto simp: buffer_inv_def)

lemma buffer_inv_le: "buffer_inv b \<Longrightarrow> unat (bsize b) \<le> 2147483648"
proof -
  assume "buffer_inv b"
  then obtain k where "k < 32" "unat (bsize b) = 2 ^ k"
    by (auto simp: buffer_inv_def)
  moreover from this have "(2::nat) ^ k \<le> 2 ^ 31"
    by (intro power_increasing) simp_all
  ultimately show ?thesis by simp
qed

lemma unat_get_space:
  "buffer_inv b \<Longrightarrow> unat (buffer_get_space b) = unat (bsize b) - unat (buffer_get_count b)"
  by (simp add: buffer_get_space_def buffer_inv_def unat_minus_le)

lemma buffer_free_alt: "buffer_inv b \<Longrightarrow> buffer_free b = unat (buffer_get_space b)"
  by (simp add: buffer_free_def unat_get_space)

lemma unat_offset:
  "buffer_inv b \<Longrightarrow> unat (buffer_offset_of_pos b p) = unat p mod length (mem_buf b)"
  by (auto simp: buffer_offset_of_pos_def buffer_inv_def unat_and_mask_pow2)

text \<open>Positions wrap at \<open>2 ^ 32\<close>, a multiple of the size.\<close>

lemma unat_pos_add:
  assumes "buffer_inv b"
  shows "unat (p + q :: u32) mod length (mem_buf b) = (unat p + unat q) mod length (mem_buf b)"
proof -
  obtain k where k: "k < 32" "length (mem_buf b) = 2 ^ k"
    using assms by (auto simp: buffer_inv_def)
  then have "(2::nat) ^ k dvd 2 ^ 32"
    by (intro le_imp_power_dvd) simp
  then show ?thesis
    by (simp add: k unat_word_ariths mod_mod_cancel)
qed

lemma offset_less: "buffer_inv b \<Longrightarrow> unat (buffer_offset_of_pos b p) < unat (bsize b)"
  using buffer_inv_pos [of b] by (simp add: unat_offset buffer_inv_len)

lemma unat_offset_add:
  assumes "buffer_inv b" and "unat len \<le> unat (bsize b)"
  shows "unat (buffer_offset_of_pos b p + len) = unat (buffer_offset_of_pos b p) + unat len"
  using offset_less [OF assms(1), of p] buffer_inv_le [OF assms(1)] assms(2)
  by (intro unat_plus_small) simp


lemma unat_count_add:
  assumes "buffer_inv b" and "unat (buffer_get_count b) + unat n \<le> unat (bsize b)"
  shows "unat (buffer_get_count b + n) = unat (buffer_get_count b) + unat n"
  using assms buffer_inv_le [OF assms(1)] by (intro unat_plus_small) simp

section \<open>The operations on the abstraction\<close>

text \<open>A new memory that is the old one updated at the write position, which then advances.\<close>

lemma buffer_advance:
  assumes inv: "buffer_inv b"
    and fits: "unat (buffer_get_count b) + unat n \<le> unat (bsize b)"
    and upd: "ring_upd (mem_buf b) (unat (wrp b)) xs m" and n: "length xs = unat n"
    and b': "b' = b\<lparr>mem_buf := m, wrp := wrp b + n\<rparr>"
  shows "buffer_inv b' \<and> buffer_contents b' = buffer_contents b @ xs \<and> bsize b' = bsize b"
proof -
  have len: "length m = length (mem_buf b)"
    using upd by (simp add: ring_upd_def)
  have cnt: "buffer_get_count b' = buffer_get_count b + n"
    by (simp add: b' buffer_get_count_def)
  then have cnt': "unat (buffer_get_count b') = unat (buffer_get_count b) + unat n"
    using unat_count_add [OF inv fits] by simp
  have "unat (wrp b) mod length (mem_buf b)
      = (unat (rdp b) + unat (buffer_get_count b)) mod length (mem_buf b)"
    using unat_pos_add [OF inv, of "rdp b" "buffer_get_count b"]
    by (simp add: buffer_get_count_def)
  then have "ring_upd (mem_buf b) (unat (rdp b) + unat (buffer_get_count b)) xs m"
    using upd by (rule ring_upd_cong)
  then have "ring_get m (unat (rdp b)) (unat (buffer_get_count b) + length xs)
      = buffer_contents b @ xs"
    unfolding buffer_contents_def
    by (rule ring_upd_append) (use fits n inv in \<open>simp add: buffer_inv_len\<close>)
  then have "buffer_contents b' = buffer_contents b @ xs"
    unfolding buffer_contents_def cnt' using n by (simp add: b')
  moreover have "buffer_get_count b' \<le> bsize b"
    using cnt' fits by (simp add: word_le_nat_alt)
  ultimately show ?thesis
    using inv len by (simp add: b' buffer_inv_def)
qed

lemma buffer_write_spec:
  assumes inv: "buffer_inv b" and data: "min (unat len) (buffer_free b) \<le> length data"
  shows "\<exists>n b'. buffer_write b data len = Some (n, b') \<and> unat n = min (unat len) (buffer_free b)
    \<and> buffer_inv b' \<and> bsize b' = bsize b
    \<and> buffer_contents b' = buffer_contents b @ take (min (unat len) (buffer_free b)) data"
proof -
  define n where "n = (if len < buffer_get_space b then len else buffer_get_space b)"
  have n: "unat n = min (unat len) (buffer_free b)"
    by (simp add: n_def min_def word_less_nat_alt buffer_free_alt [OF inv])
  let ?xs = "take (unat n) data"
  have lxs: "length ?xs = unat n"
    using data n by simp
  have fits: "unat (buffer_get_count b) + unat n \<le> unat (bsize b)"
    using n buffer_inv_count [OF inv] by (simp add: buffer_free_def)
  note len = buffer_inv_len [OF inv]
  let ?o = "buffer_offset_of_pos b (wrp b)"
  have o: "unat ?o = unat (wrp b) mod length (mem_buf b)"
    by (rule unat_offset [OF inv])
  have olt: "unat ?o < unat (bsize b)"
    by (rule offset_less [OF inv])
  have osum: "unat (?o + n) = unat ?o + unat n"
    using fits by (intro unat_offset_add [OF inv]) simp
  have "\<exists>m. buffer_write b data len = Some (n, b\<lparr>mem_buf := m, wrp := wrp b + n\<rparr>)
    \<and> ring_upd (mem_buf b) (unat (wrp b)) ?xs m"
  proof (cases "n = 0")
    case True
    then have "buffer_write b data len = Some (n, b\<lparr>mem_buf := mem_buf b, wrp := wrp b + n\<rparr>)"
      by (simp add: buffer_write_def Let_def flip: n_def)
    then show ?thesis
      using True by (intro exI [of _ "mem_buf b"]) (simp add: ring_upd_def)
  next
    case False
    note defs = buffer_write_def Let_def n_def [symmetric] mem_simps lxs len
    show ?thesis
    proof (cases "?o + n \<le> bsize b")
      case True
      then have "unat ?o + unat n \<le> unat (bsize b)"
        using osum by (simp add: word_le_nat_alt)
      then have "buffer_write b data len = Some (n, b\<lparr>mem_buf := take (unat ?o) (mem_buf b)
          @ ?xs @ drop (unat ?o + length ?xs) (mem_buf b), wrp := wrp b + n\<rparr>)"
        using True False lxs by (simp add: defs)
      moreover have "ring_upd (mem_buf b) (unat (wrp b)) ?xs (take (unat ?o) (mem_buf b)
          @ ?xs @ drop (unat ?o + length ?xs) (mem_buf b))"
        unfolding o by (rule ring_upd_flat) (use \<open>unat ?o + unat n \<le> _\<close> o lxs len in simp)
      ultimately show ?thesis by blast
    next
      case wrap: False
      then have gt: "unat (bsize b) < unat ?o + unat n"
        using osum by (simp add: word_le_nat_alt)
      let ?a = "bsize b - ?o"
      have a: "unat ?a = unat (bsize b) - unat ?o"
        using olt by (simp add: unat_minus_le word_le_nat_alt)
      have na: "unat (n - ?a) = unat n - unat ?a"
        using gt a by (simp add: unat_minus_le word_le_nat_alt)
      let ?m = "drop (unat ?a) ?xs @ drop (length ?xs - unat ?a)
        (take (unat ?o) (mem_buf b)) @ take (unat ?a) ?xs"
      have "unat ?o < length (mem_buf b)" "unat ?a = length (mem_buf b) - unat ?o"
          "unat ?a \<le> unat n" "unat n \<le> length (mem_buf b)" "unat n \<le> length data"
        using a olt len gt fits data n by linarith+
      from copy_wrapped [OF this] have "buffer_write b data len
          = Some (n, b\<lparr>mem_buf := ?m, wrp := wrp b + n\<rparr>)"
        using wrap False lxs by (simp add: buffer_write_def Let_def na flip: n_def)
      moreover have "ring_upd (mem_buf b) (unat (wrp b)) ?xs ?m"
        by (rule ring_upd_wrap [OF o]) (use a len olt gt fits lxs in auto)
      ultimately show ?thesis by blast
    qed
  qed
  then obtain m where m: "buffer_write b data len = Some (n, b\<lparr>mem_buf := m, wrp := wrp b + n\<rparr>)"
    and upd: "ring_upd (mem_buf b) (unat (wrp b)) ?xs m"
    by blast
  from buffer_advance [OF inv fits upd lxs refl] m n show ?thesis
    by auto
qed


text \<open>A copy is a slice of the contents.\<close>

lemma buffer_copy_spec:
  assumes inv: "buffer_inv b" and nowrap: "unat len + unat begn < 4294967296"
  shows "buffer_copy b begn len
    = (let xs = take (unat len) (drop (unat begn) (buffer_contents b))
       in Some (word_of_nat (length xs), xs))"
proof (cases "buffer_get_count b < begn")
  case True
  then show ?thesis
    by (simp add: buffer_copy_def Let_def word_less_nat_alt)
next
  case False
  define n where "n = (if buffer_get_count b < len + begn
    then buffer_get_count b - begn else len)"
  have begn: "unat begn \<le> unat (buffer_get_count b)"
    using False by (simp add: word_le_nat_alt not_less)
  have n: "unat n = min (unat len) (unat (buffer_get_count b) - unat begn)"
    using False nowrap begn
    by (auto simp: n_def word_less_nat_alt unat_plus_small unat_minus_le not_less word_le_nat_alt)
  note len = buffer_inv_len [OF inv] and cnt = buffer_inv_count [OF inv]
  let ?p = "rdp b + begn"
  let ?o = "buffer_offset_of_pos b ?p"
  have o: "unat ?o = unat ?p mod length (mem_buf b)"
    by (rule unat_offset [OF inv])
  have olt: "unat ?o < unat (bsize b)"
    by (rule offset_less [OF inv])
  have osum: "unat (?o + n) = unat ?o + unat n"
    using n cnt by (intro unat_offset_add [OF inv]) simp
  have slice: "take (unat len) (drop (unat begn) (buffer_contents b))
      = ring_get (mem_buf b) (unat ?p) (unat n)"
    unfolding buffer_contents_def take_ring_get drop_ring_get n
    by (rule ring_get_cong) (simp add: unat_pos_add [OF inv])
  have "buffer_copy b begn len = Some (n, ring_get (mem_buf b) (unat ?p) (unat n))"
  proof (cases "n = 0")
    case True
    then show ?thesis using False by (simp add: buffer_copy_def Let_def flip: n_def)
  next
    case n0: False
    show ?thesis
    proof (cases "?o + n \<le> bsize b")
      case True
      then have "unat ?o + unat n \<le> length (mem_buf b)"
        using osum len by (simp add: word_le_nat_alt)
      then show ?thesis
        using True False n0 ring_get_flat [of "unat ?p" "mem_buf b" "unat n"]
        by (simp add: buffer_copy_def Let_def mem_simps o flip: n_def)
    next
      case wrap: False
      then have gt: "length (mem_buf b) < unat ?o + unat n"
        using osum len by (simp add: word_le_nat_alt)
      let ?a = "bsize b - ?o"
      have a: "unat ?a = unat (bsize b) - unat ?o"
        using olt by (simp add: unat_minus_le word_le_nat_alt)
      have na: "unat (n - ?a) = unat n - unat ?a"
        using gt a len by (simp add: unat_minus_le word_le_nat_alt)
      have "ring_get (mem_buf b) (unat ?p) (unat n)
          = drop (unat ?o) (mem_buf b) @ take (unat n - unat ?a) (mem_buf b)"
        unfolding o a using gt n cnt len o
        by (subst ring_get_wrap) simp_all
      moreover have "mem_read (mem_buf b) (unat ?o) (unat ?a) = Some (drop (unat ?o) (mem_buf b))"
        using a olt len by (simp add: mem_read_def)
      moreover have "mem_read (mem_buf b) 0 (unat n - unat ?a)
          = Some (take (unat n - unat ?a) (mem_buf b))"
        using n cnt len by (simp add: mem_read_def)
      ultimately show ?thesis
        using wrap False n0 by (simp add: buffer_copy_def Let_def na flip: n_def)
    qed
  qed
  then show ?thesis
    by (simp add: slice)
qed

text \<open>
  The sum of begin and length wraps: a length that reaches over \<open>2 ^ 32\<close> passes the check, and the copy
  runs out of the memory.
\<close>

lemma buffer_copy_wraps:
  assumes inv: "buffer_inv b" and begn: "unat begn \<le> length (buffer_contents b)"
    and wrap: "4294967296 \<le> unat len + unat begn" and small: "unat (bsize b) < 2 ^ 31"
  shows "buffer_copy b begn len = None"
proof -
  note mem = buffer_inv_len [OF inv] and cnt = buffer_inv_count [OF inv]
  have size: "unat (bsize b) \<le> 2 ^ 30"
  proof -
    obtain k where k: "unat (bsize b) = 2 ^ k"
      using inv by (auto simp: buffer_inv_def)
    then have "k < 31"
      by (intro power_less_imp_less_exp [OF _ small [unfolded k]]) simp
    then have "(2 :: nat) ^ k \<le> 2 ^ 30"
      by (intro power_increasing) simp_all
    then show ?thesis
      unfolding k .
  qed
  have begn': "unat begn \<le> unat (buffer_get_count b)"
    using begn by simp
  have long: "3221225472 \<le> unat len"
    using wrap begn' cnt size by simp
  then have len0: "len \<noteq> 0"
    by auto
  have "unat (len + begn) = unat len + unat begn - 4294967296"
    using wrap by (simp add: unat_plus_if')
  moreover have "unat len < 4294967296"
    by (rule u32_less_pow)
  ultimately have "unat (len + begn) < unat begn"
    using wrap by linarith
  then have uncut: "\<not> buffer_get_count b < begn" "\<not> buffer_get_count b < len + begn"
    using begn' by (simp_all add: word_less_nat_alt)
  let ?o = "buffer_offset_of_pos b (rdp b + begn)"
  have o: "unat ?o < unat (bsize b)"
    by (rule offset_less [OF inv])
  have left: "unat (bsize b - ?o) = unat (bsize b) - unat ?o"
    using o by (simp add: unat_minus_le word_le_nat_alt)
  have "unat (len - (bsize b - ?o)) = unat len - (unat (bsize b) - unat ?o)"
    using left long size by (simp add: unat_minus_le word_le_nat_alt)
  then have "mem_read (mem_buf b) 0 (unat (len - (bsize b - ?o))) = None"
    using long size mem by (simp add: mem_read_def)
  moreover have "mem_read (mem_buf b) (unat ?o) (unat len) = None"
    using long size mem by (simp add: mem_read_def)
  ultimately show ?thesis
    using uncut len0 by (simp add: buffer_copy_def Let_def bind_eq_None_conv)
qed

lemma buffer_rdp_add_contents:
  assumes inv: "buffer_inv b" and n: "unat n \<le> unat (buffer_get_count b)"
  shows "buffer_inv (buffer_rdp_add b n)
    \<and> buffer_contents (buffer_rdp_add b n) = drop (unat n) (buffer_contents b)
    \<and> bsize (buffer_rdp_add b n) = bsize b"
proof -
  let ?b = "buffer_rdp_add b n"
  have "buffer_get_count ?b = buffer_get_count b - n"
    by (simp add: buffer_get_count_def buffer_rdp_add_def)
  then have cnt: "unat (buffer_get_count ?b) = unat (buffer_get_count b) - unat n"
    using n by (simp add: unat_minus_le word_le_nat_alt)
  have "ring_get (mem_buf b) (unat (rdp b + n)) k = ring_get (mem_buf b) (unat (rdp b) + unat n) k"
    for k by (rule ring_get_cong) (rule unat_pos_add [OF inv])
  then have "buffer_contents ?b = drop (unat n) (buffer_contents b)"
    unfolding buffer_contents_def cnt drop_ring_get by (simp add: buffer_rdp_add_def)
  moreover have "buffer_get_count ?b \<le> bsize b"
    using cnt buffer_inv_count [OF inv] by (simp add: word_le_nat_alt)
  ultimately show ?thesis
    using inv by (simp add: buffer_inv_def buffer_rdp_add_def)
qed

lemma buffer_drop_spec:
  assumes inv: "buffer_inv b"
  shows "\<exists>n b'. buffer_drop b len = (n, b')
    \<and> unat n = min (unat len) (length (buffer_contents b))
    \<and> buffer_inv b' \<and> bsize b' = bsize b
    \<and> buffer_contents b' = drop (unat len) (buffer_contents b)"
proof -
  define n where "n = (if buffer_get_count b < len then buffer_get_count b else len)"
  have n: "unat n = min (unat len) (length (buffer_contents b))"
    by (simp add: n_def word_less_nat_alt)
  have "buffer_drop b len = (n, buffer_rdp_add b n)"
    by (simp add: buffer_drop_def Let_def n_def)
  moreover have "drop (unat n) (buffer_contents b) = drop (unat len) (buffer_contents b)"
    using n by (simp add: min_def)
  ultimately show ?thesis
    using buffer_rdp_add_contents [OF inv, of n] n by auto
qed


lemma unat_word_of_nat_u32: "n < 4294967296 \<Longrightarrow> unat (word_of_nat n :: u32) = n"
  by (simp add: unsigned_of_nat take_bit_nat_eq_self_iff)

lemma buffer_read_spec:
  assumes inv: "buffer_inv b"
  shows "\<exists>n b'. buffer_read b len = Some (n, take (unat len) (buffer_contents b), b')
    \<and> unat n = min (unat len) (length (buffer_contents b))
    \<and> buffer_inv b' \<and> bsize b' = bsize b
    \<and> buffer_contents b' = drop (unat len) (buffer_contents b)"
proof -
  let ?n = "word_of_nat (min (length (buffer_contents b)) (unat len)) :: u32"
  have n: "unat ?n = min (unat len) (length (buffer_contents b))"
    by (subst unat_word_of_nat_u32) (auto simp: min_def)
  have "buffer_copy b 0 len = Some (?n, take (unat len) (buffer_contents b))"
    using buffer_copy_spec [OF inv, of len 0] by (simp add: Let_def)
  then have "buffer_read b len = Some (?n, take (unat len) (buffer_contents b), buffer_rdp_add b ?n)"
    by (simp add: buffer_read_def)
  moreover have "drop (unat ?n) (buffer_contents b) = drop (unat len) (buffer_contents b)"
    using n by (simp add: min_def)
  ultimately show ?thesis
    using buffer_rdp_add_contents [OF inv, of ?n] n by auto
qed

lemma buffer_putc_spec:
  assumes inv: "buffer_inv b"
  shows "buffer_free b = 0 \<Longrightarrow> buffer_putc b c = Some (0, b)"
    and "0 < buffer_free b \<Longrightarrow> \<exists>b'. buffer_putc b c = Some (1, b') \<and> buffer_inv b'
      \<and> bsize b' = bsize b \<and> buffer_contents b' = buffer_contents b @ [c]"
proof -
  have full: "buffer_is_full b \<longleftrightarrow> buffer_free b = 0"
    using buffer_inv_count [OF inv]
    by (auto simp: buffer_is_full_def buffer_free_def word_le_nat_alt simp flip: buffer_get_count_def)
  then show "buffer_free b = 0 \<Longrightarrow> buffer_putc b c = Some (0, b)"
    by (simp add: buffer_putc_def)
  assume free: "0 < buffer_free b"
  let ?o = "unat (buffer_offset_of_pos b (wrp b))"
  have o: "?o = unat (wrp b) mod length (mem_buf b)"
    by (rule unat_offset [OF inv])
  have fits: "?o + length [c] \<le> length (mem_buf b)"
    using offset_less [OF inv, of "wrp b"] by (simp add: buffer_inv_len [OF inv])
  let ?m = "take ?o (mem_buf b) @ [c] @ drop (?o + length [c]) (mem_buf b)"
  have "buffer_putc b c = Some (1, b\<lparr>mem_buf := ?m, wrp := wrp b + 1\<rparr>)"
    using free fits by (simp add: buffer_putc_def full mem_simps)
  moreover have "ring_upd (mem_buf b) (unat (wrp b)) [c] ?m"
    unfolding o by (rule ring_upd_flat) (use fits o in simp)
  moreover have "unat (buffer_get_count b) + unat (1 :: u32) \<le> unat (bsize b)"
    using free by (simp add: buffer_free_def)
  ultimately show "\<exists>b'. buffer_putc b c = Some (1, b') \<and> buffer_inv b'
      \<and> bsize b' = bsize b \<and> buffer_contents b' = buffer_contents b @ [c]"
    using buffer_advance [OF inv, of 1 "[c]" ?m] by simp
qed

text \<open>Reading one byte; the caller of \<open>buffer_copy_word\<close> keeps the index in range.\<close>

lemma read_byte:
  assumes inv: "buffer_inv b"
  shows "mem_read (mem_buf b) (unat (buffer_offset_of_pos b (rdp b + i))) (Suc 0)
    = Some [mem_buf b ! ((unat (rdp b) + unat i) mod length (mem_buf b))]"
proof -
  let ?o = "unat (buffer_offset_of_pos b (rdp b + i))"
  have "?o < length (mem_buf b)"
    using offset_less [OF inv, of "rdp b + i"] by (simp add: buffer_inv_len [OF inv])
  then have "mem_read (mem_buf b) ?o (Suc 0) = Some [mem_buf b ! ?o]"
    by (simp add: mem_read_def take_Suc_conv_app_nth hd_drop_conv_nth flip: take_hd_drop)
  then show ?thesis
    by (simp add: unat_offset [OF inv] unat_pos_add [OF inv])
qed

lemma buffer_copy_word_spec:
  assumes "buffer_inv b" and "unat i < length (buffer_contents b)"
  shows "buffer_copy_word b i = Some (buffer_contents b ! unat i)"
  using assms by (simp add: buffer_copy_word_def read_byte nth_ring_get buffer_contents_def)

lemma buffer_copy_first_spec:
  assumes "buffer_inv b" and "buffer_contents b \<noteq> []"
  shows "buffer_copy_first b = Some (uint (hd (buffer_contents b)))"
proof -
  have "unat (0 :: u32) < length (buffer_contents b)"
    using assms(2) by (metis length_greater_0_conv unat_0)
  then show ?thesis
    using buffer_copy_word_spec [OF assms(1), of 0] assms(2)
    by (simp add: buffer_copy_first_def hd_conv_nth del: length_buffer_contents)
qed

lemma buffer_copy_char_spec:
  assumes "buffer_inv b"
  shows "unat i < length (buffer_contents b) \<Longrightarrow>
      buffer_copy_char b i = Some (uint (buffer_contents b ! unat i))"
    and "length (buffer_contents b) < unat i \<Longrightarrow> buffer_copy_char b i = Some (- 1)"
  using assms
  by (simp_all add: buffer_copy_char_def Let_def read_byte nth_ring_get buffer_contents_def
    word_less_nat_alt)

lemma buffer_init_spec:
  assumes "k < 32" and "unat sz = 2 ^ k" and "length m = unat sz"
  shows "buffer_inv (buffer_init m sz) \<and> buffer_contents (buffer_init m sz) = []"
  using assms by (auto simp: buffer_inv_def buffer_init_def buffer_get_count_def
    buffer_contents_def)

lemma buffer_clean_spec:
  "buffer_inv b \<Longrightarrow> buffer_inv (buffer_clean b) \<and> buffer_contents (buffer_clean b) = []"
  by (auto simp: buffer_inv_def buffer_clean_def buffer_get_count_def buffer_contents_def)

section \<open>The buffer is a byte queue\<close>

definition buffer_put :: "buffer_t \<Rightarrow> u8 list \<Rightarrow> (nat \<times> buffer_t) option" where
  "buffer_put b xs = map_option (map_prod unat id) (buffer_write b xs (word_of_nat (length xs)))"

definition buffer_drain :: "buffer_t \<Rightarrow> nat \<Rightarrow> (u8 list \<times> buffer_t) option" where
  "buffer_drain b n = map_option snd (buffer_read b (word_of_nat n))"

interpretation buffer_fifo: byte_fifo buffer_inv buffer_contents "\<lambda>b. unat (bsize b)"
  4294967296 buffer_put buffer_drain
proof
  fix b :: buffer_t
  assume inv: "buffer_inv b"
  show "length (buffer_contents b) \<le> unat (bsize b)"
    using buffer_inv_count [OF inv] by simp
  show "unat (bsize b) < 4294967296"
    by simp
next
  fix b :: buffer_t and xs :: "u8 list"
  assume inv: "buffer_inv b" and "length xs < 4294967296"
  then have "unat (word_of_nat (length xs) :: u32) = length xs"
    by (simp add: unat_word_of_nat_u32)
  with buffer_write_spec [OF inv, of "word_of_nat (length xs)" xs]
  show "\<exists>b'. buffer_put b xs
      = Some (min (length xs) (unat (bsize b) - length (buffer_contents b)), b')
    \<and> buffer_inv b' \<and> unat (bsize b') = unat (bsize b)
    \<and> buffer_contents b'
      = buffer_contents b @ take (unat (bsize b) - length (buffer_contents b)) xs"
    by (auto simp: buffer_put_def buffer_free_def min_def)
next
  fix b :: buffer_t and n
  assume inv: "buffer_inv b" and "length (buffer_contents b) \<le> n" and "n < 4294967296"
  then show "\<exists>b'. buffer_drain b n = Some (buffer_contents b, b') \<and> buffer_inv b'
    \<and> unat (bsize b') = unat (bsize b) \<and> buffer_contents b' = []"
    using buffer_read_spec [OF inv, of "word_of_nat n"]
    by (auto simp: buffer_drain_def unat_word_of_nat_u32)
qed


section \<open>Properties\<close>

text \<open>
  C7: under the buffer's invariant \<open>buffer_write\<close> never touches memory out of bounds, stores
  \<open>min(len, free space)\<close> bytes, returns that number, keeps the invariant and appends exactly
  those bytes to the contents, also where the write crosses the end of the memory or the
  32-bit position wraps; \<open>buffer_putc\<close> appends one byte, or returns 0 and changes nothing
  when the buffer is full.
\<close>

theorem buffer_write_appends:
  assumes "buffer_inv b" and "min (unat len) (buffer_free b) \<le> length data"
  shows "(\<exists>n b'. buffer_write b data len = Some (n, b') \<and> unat n = min (unat len) (buffer_free b)
      \<and> buffer_inv b' \<and> bsize b' = bsize b
      \<and> buffer_contents b' = buffer_contents b @ take (min (unat len) (buffer_free b)) data)
    \<and> (if buffer_free b = 0 then buffer_putc b c = Some (0, b)
       else \<exists>b'. buffer_putc b c = Some (1, b') \<and> buffer_inv b' \<and> bsize b' = bsize b
         \<and> buffer_contents b' = buffer_contents b @ [c])"
  using buffer_write_spec [OF assms] buffer_putc_spec [OF assms(1)] by simp

lemma buffer_write_appends_witness:
  "\<exists>n b'. buffer_write (buffer_init [0, 0, 0, 0] 4) [1, 2, 3, 4, 5] 5 = Some (n, b')
    \<and> unat n = 4 \<and> buffer_contents b' = [1, 2, 3, 4]"
proof -
  let ?b = "buffer_init [0, 0, 0, 0] 4"
  have inv: "buffer_inv ?b" and "buffer_contents ?b = []"
    using buffer_init_spec [of 2 4 "[0, 0, 0, 0]"] by simp_all
  then have free: "buffer_free ?b = 4"
    by (simp add: buffer_free_def buffer_init_def flip: length_buffer_contents)
  show ?thesis
    using buffer_write_appends [OF inv, of 5 "[1, 2, 3, 4, 5]" 0] free \<open>buffer_contents ?b = []\<close>
    by auto
qed

text \<open>
  C8: \<open>buffer_copy\<close> returns the slice of the contents it is asked for, cut off where the
  contents end, and does not change the buffer, as long as begin and length together are less than
  \<open>2 ^ 32\<close> or begin is behind the contents. A length that wraps the sum passes the check against the
  contents: then the copy runs out of the memory of every buffer of less than \<open>2 ^ 31\<close> bytes.
  \<open>buffer_read\<close> returns a prefix and removes it, and \<open>buffer_drop\<close> removes a prefix; both keep
  the invariant for every length.
\<close>

theorem buffer_reads_slices:
  assumes "buffer_inv b"
  shows "(if unat len + unat begn < 2 ^ 32 \<or> length (buffer_contents b) < unat begn
      then buffer_copy b begn len
        = (let xs = take (unat len) (drop (unat begn) (buffer_contents b))
           in Some (word_of_nat (length xs), xs))
      else unat (bsize b) < 2 ^ 31 \<longrightarrow> buffer_copy b begn len = None)
    \<and> (\<exists>n b'. buffer_read b len = Some (n, take (unat len) (buffer_contents b), b')
      \<and> unat n = min (unat len) (length (buffer_contents b))
      \<and> buffer_inv b' \<and> buffer_contents b' = drop (unat len) (buffer_contents b))
    \<and> (\<exists>n b'. buffer_drop b len = (n, b')
      \<and> unat n = min (unat len) (length (buffer_contents b))
      \<and> buffer_inv b' \<and> buffer_contents b' = drop (unat len) (buffer_contents b))"
proof -
  have behind: "buffer_copy b begn len = Some (0, [])" if "length (buffer_contents b) < unat begn"
    using that by (simp add: buffer_copy_def Let_def word_less_nat_alt)
  have copy: "if unat len + unat begn < 2 ^ 32 \<or> length (buffer_contents b) < unat begn
      then buffer_copy b begn len
        = (let xs = take (unat len) (drop (unat begn) (buffer_contents b))
           in Some (word_of_nat (length xs), xs))
      else unat (bsize b) < 2 ^ 31 \<longrightarrow> buffer_copy b begn len = None"
    using buffer_copy_spec [OF assms, of len begn] behind buffer_copy_wraps [OF assms, of begn len]
    by (auto simp: Let_def not_less)
  show ?thesis
    using copy buffer_read_spec [OF assms, of len] buffer_drop_spec [OF assms, of len] by fastforce
qed

lemma buffer_reads_slices_witness:
  "buffer_copy \<lparr>mem_buf = [5, 6, 7, 8], bsize = 4, wrp = 1, rdp = 4294967294\<rparr> 1 9 = Some (2, [8, 5])
   \<and> buffer_copy \<lparr>mem_buf = [5, 6, 7, 8], bsize = 4, wrp = 1, rdp = 4294967294\<rparr> 1 0xFFFFFFFF = None"
proof -
  let ?b = "\<lparr>mem_buf = [5, 6, 7, 8], bsize = 4, wrp = 1, rdp = 4294967294\<rparr> :: buffer_t"
  have "\<exists>k<32. unat (4 :: u32) = 2 ^ k"
    by (rule exI [of _ 2]) simp
  then have inv: "buffer_inv ?b"
    by (simp add: buffer_inv_def buffer_get_count_def)
  have "[0..<3] = [0, 1, 2 :: nat]"
    by (simp add: upt_rec)
  then have "buffer_contents ?b = [7, 8, 5]"
    by (simp add: buffer_contents_def buffer_get_count_def ring_get_def)
  then show ?thesis
    using buffer_reads_slices [OF inv, of 9 1] buffer_reads_slices [OF inv, of "0xFFFFFFFF" 1]
    by (simp add: Let_def)
qed

text \<open>
  any sequence of writes whose bytes fit into the free space, followed by one read of the
  whole capacity, returns the old contents and then all the chunks, in order, and leaves the
  buffer empty.
\<close>

lemma buffer_first_in_first_out:
  assumes "buffer_inv b" and "length (concat xss) \<le> buffer_free b"
  shows "\<exists>b' b''. buffer_fifo.put_chunks b xss = Some b'
    \<and> buffer_drain b' (unat (bsize b)) = Some (buffer_contents b @ concat xss, b'')
    \<and> buffer_inv b'' \<and> buffer_contents b'' = []"
  using buffer_fifo.chunks_drained [OF assms(1)] assms buffer_inv_pos [OF assms(1)]
  by (simp add: buffer_free_def)

lemma buffer_first_in_first_out_witness:
  "\<exists>b' b''. buffer_fifo.put_chunks (buffer_init [0, 0, 0, 0] 4) [[1], [], [2, 3]] = Some b'
    \<and> buffer_drain b' 4 = Some ([1, 2, 3], b'')"
proof -
  let ?b = "buffer_init [0, 0, 0, 0] 4"
  have inv: "buffer_inv ?b" and nil: "buffer_contents ?b = []"
    using buffer_init_spec [of 2 4 "[0, 0, 0, 0]"] by simp_all
  then have "length (concat [[1], [], [2, 3 :: u8]]) \<le> buffer_free ?b"
    by (simp add: buffer_free_def buffer_init_def flip: length_buffer_contents)
  from buffer_first_in_first_out [OF inv this] nil show ?thesis
    by (auto simp: buffer_init_def)
qed

section \<open>Histories\<close>

text \<open>The calls that change a buffer, and what each does to the list of its bytes.\<close>

datatype buffer_op = Buf_Write "u8 list" | Buf_Putc u8 | Buf_Read u32 | Buf_Drop u32 | Buf_Drop_Char | Buf_Clean

fun buffer_exec :: "buffer_op \<Rightarrow> buffer_t \<Rightarrow> buffer_t option" where
  "buffer_exec (Buf_Write xs) b = map_option snd (buffer_write b xs (word_of_nat (length xs)))"
| "buffer_exec (Buf_Putc c) b = map_option snd (buffer_putc b c)"
| "buffer_exec (Buf_Read n) b = map_option (\<lambda>(k, xs, b). b) (buffer_read b n)"
| "buffer_exec (Buf_Drop n) b = Some (snd (buffer_drop b n))"
| "buffer_exec Buf_Drop_Char b = Some (snd (buffer_drop_char b))"
| "buffer_exec Buf_Clean b = Some (buffer_clean b)"

fun list_exec :: "nat \<Rightarrow> buffer_op \<Rightarrow> u8 list \<Rightarrow> u8 list" where
  "list_exec cap (Buf_Write ys) xs = xs @ take (min (length ys mod 2 ^ 32) (cap - length xs)) ys"
| "list_exec cap (Buf_Putc c) xs = (if length xs < cap then xs @ [c] else xs)"
| "list_exec cap (Buf_Read n) xs = drop (unat n) xs"
| "list_exec cap (Buf_Drop n) xs = drop (unat n) xs"
| "list_exec cap Buf_Drop_Char xs = tl xs"
| "list_exec cap Buf_Clean xs = []"

fun buffer_run :: "buffer_op list \<Rightarrow> buffer_t \<Rightarrow> buffer_t option" where
  "buffer_run [] b = Some b"
| "buffer_run (c # cs) b = do { b \<leftarrow> buffer_exec c b; buffer_run cs b }"

lemma buffer_exec_runs:
  assumes "buffer_inv b"
  shows "\<exists>b'. buffer_exec c b = Some b' \<and> buffer_inv b' \<and> bsize b' = bsize b
    \<and> buffer_contents b' = list_exec (unat (bsize b)) c (buffer_contents b)"
proof (cases c)
  case (Buf_Write xs)
  have "min (unat (word_of_nat (length xs) :: u32)) (buffer_free b) \<le> length xs"
    by (simp add: unat_of_nat min_le_iff_disj)
  with buffer_write_spec [OF assms this] show ?thesis
    by (auto simp: Buf_Write buffer_free_def unat_of_nat)
next
  case (Buf_Putc x)
  with buffer_putc_spec [OF assms, of x] show ?thesis
    using assms by (cases "buffer_free b = 0") (auto simp: buffer_free_def)
next
  case (Buf_Read n)
  with buffer_read_spec [OF assms, of n] show ?thesis by auto
next
  case (Buf_Drop n)
  with buffer_drop_spec [OF assms, of n] show ?thesis by auto
next
  case Buf_Drop_Char
  with buffer_drop_spec [OF assms, of 1] show ?thesis
    by (auto simp: buffer_drop_char_def drop_Suc)
next
  case Buf_Clean
  with buffer_clean_spec [OF assms] show ?thesis by (simp add: buffer_clean_def)
qed

text \<open>
  C6: A well-formed buffer is never stuck: any sequence of writes, reads, drops and clearings runs
  without an access out of bounds, and the buffer is well-formed after it, has its size, and
  holds what the same sequence leaves of a list of at most that many bytes.
\<close>

theorem buffer_histories_well_formed:
  assumes "buffer_inv b"
  shows "\<exists>b'. buffer_run cs b = Some b' \<and> buffer_inv b' \<and> bsize b' = bsize b
    \<and> buffer_contents b' = fold (list_exec (unat (bsize b))) cs (buffer_contents b)"
  using assms
proof (induction cs arbitrary: b)
  case (Cons c cs)
  obtain b' where "buffer_exec c b = Some b'" "buffer_inv b'" "bsize b' = bsize b"
      "buffer_contents b' = list_exec (unat (bsize b)) c (buffer_contents b)"
    using buffer_exec_runs [OF Cons.prems] by blast
  then show ?case
    using Cons.IH [of b'] by simp
qed simp

lemma buffer_histories_well_formed_witness:
  "\<exists>b'. buffer_run [Buf_Write [1, 2, 3], Buf_Read 2, Buf_Putc 4, Buf_Write [5, 6, 7], Buf_Drop_Char] (buffer_init [0, 0, 0, 0] 4)
    = Some b' \<and> buffer_contents b' = [4, 5, 6]"
proof -
  have "buffer_inv (buffer_init [0, 0, 0, 0] 4)" and "buffer_contents (buffer_init [0, 0, 0, 0] 4) = []"
    using buffer_init_spec [of 2 4 "[0, 0, 0, 0]"] by simp_all
  then show ?thesis
    using buffer_histories_well_formed [of "buffer_init [0, 0, 0, 0] 4" "[Buf_Write [1, 2, 3], Buf_Read 2,
      Buf_Putc 4, Buf_Write [5, 6, 7], Buf_Drop_Char]"]
    by (auto simp: buffer_init_def)
qed

end
