(* ===== verification/Ringbuffer.thy ===== *)
theory Ringbuffer
  imports Ring
begin

text \<open>
  The ring buffer of \<open>src/bscl_ringbuffer.c\<close> and \<open>include/bscl_ringbuffer.h\<close>: \<open>capacity\<close>
  bytes of memory, a power of two, with a read and a write index of type \<open>size_t\<close> (64 bits)
  that run freely. It is a \<open>byte_fifo\<close> like the buffer of the theory \<open>Buffer\<close>; unlike there,
  a read ignores the requested length and takes everything.
\<close>

section \<open>State and operations\<close>

record bscl_ringbuffer_t =
  rb_data :: "u8 list"
  rb_capacity :: u64
  rIndex :: u64
  wIndex :: u64

text \<open>\<open>None\<close> where the assertion that the capacity is a power of two fails.\<close>

definition bscl_ringbuffer_init :: "u8 list \<Rightarrow> u64 \<Rightarrow> bscl_ringbuffer_t option" where
  "bscl_ringbuffer_init d s = do {
     guard (s AND (s - 1) = 0);
     Some \<lparr>rb_data = d, rb_capacity = s, rIndex = 0, wIndex = 0\<rparr>
   }"

text \<open>The read and the write pointer, as offsets into the memory.\<close>

definition bscl_ringbuffer_get_readbuf :: "bscl_ringbuffer_t \<Rightarrow> u64" where
  "bscl_ringbuffer_get_readbuf t = rIndex t AND (rb_capacity t - 1)"

definition bscl_ringbuffer_get_writebuf :: "bscl_ringbuffer_t \<Rightarrow> u64" where
  "bscl_ringbuffer_get_writebuf t = wIndex t AND (rb_capacity t - 1)"

definition bscl_ringbuffer_size :: "bscl_ringbuffer_t \<Rightarrow> u64" where
  "bscl_ringbuffer_size t = wIndex t - rIndex t"

definition bscl_ringbuffer_clear :: "bscl_ringbuffer_t \<Rightarrow> bscl_ringbuffer_t" where
  "bscl_ringbuffer_clear t = t\<lparr>rIndex := wIndex t\<rparr>"

text \<open>
  The assertion that \<open>len\<close> is not 0 is the guard. The local \<open>len\<close> the code computes is not
  used by it afterwards. The result is the returned size and the bytes stored at \<open>data\<close>.
\<close>

definition bscl_ringbuffer_read ::
    "bscl_ringbuffer_t \<Rightarrow> u64 \<Rightarrow> (u64 \<times> u8 list \<times> bscl_ringbuffer_t) option" where
  "bscl_ringbuffer_read t len0 = do {
     guard (len0 \<noteq> 0);
     let sz = bscl_ringbuffer_size t;
     let len = (if len0 < sz then len0 else sz);
     let rbuf = bscl_ringbuffer_get_readbuf t;
     bytes \<leftarrow>
       (if unat rbuf + unat sz \<le> unat (rb_capacity t)
        then mem_read (rb_data t) (unat rbuf) (unat sz)
        else do {
          let s1 = rb_capacity t - rbuf;
          xs \<leftarrow> mem_read (rb_data t) (unat rbuf) (unat s1);
          ys \<leftarrow> mem_read (rb_data t) 0 (unat (sz - s1));
          Some (xs @ ys)
        });
     Some (sz, bytes, t\<lparr>rIndex := rIndex t + sz\<rparr>)
   }"

definition bscl_ringbuffer_write ::
    "bscl_ringbuffer_t \<Rightarrow> u8 list \<Rightarrow> u64 \<Rightarrow> (u64 \<times> bscl_ringbuffer_t) option" where
  "bscl_ringbuffer_write t data len0 = do {
     guard (len0 \<noteq> 0);
     let space = rb_capacity t - bscl_ringbuffer_size t;
     let len = (if len0 < space then len0 else space);
     let wbuf = bscl_ringbuffer_get_writebuf t;
     m \<leftarrow>
       (if unat wbuf + unat len \<le> unat (rb_capacity t)
        then do {
          xs \<leftarrow> mem_read data 0 (unat len);
          mem_write (rb_data t) (unat wbuf) xs
        } else do {
          let s1 = rb_capacity t - wbuf;
          xs \<leftarrow> mem_read data 0 (unat s1);
          m1 \<leftarrow> mem_write (rb_data t) (unat wbuf) xs;
          ys \<leftarrow> mem_read data (unat s1) (unat (len - s1));
          mem_write m1 0 ys
        });
     Some (len, t\<lparr>rb_data := m, wIndex := wIndex t + len\<rparr>)
   }"

section \<open>Invariant and abstraction\<close>

definition ringbuffer_inv :: "bscl_ringbuffer_t \<Rightarrow> bool" where
  "ringbuffer_inv t \<longleftrightarrow> (\<exists>k<64. unat (rb_capacity t) = 2 ^ k)
     \<and> length (rb_data t) = unat (rb_capacity t)
     \<and> bscl_ringbuffer_size t \<le> rb_capacity t"

definition ringbuffer_contents :: "bscl_ringbuffer_t \<Rightarrow> u8 list" where
  "ringbuffer_contents t =
     ring_get (rb_data t) (unat (rIndex t)) (unat (bscl_ringbuffer_size t))"

definition ringbuffer_free :: "bscl_ringbuffer_t \<Rightarrow> nat" where
  "ringbuffer_free t = unat (rb_capacity t) - length (ringbuffer_contents t)"

lemma length_ringbuffer_contents [simp]:
  "length (ringbuffer_contents t) = unat (bscl_ringbuffer_size t)"
  by (simp add: ringbuffer_contents_def)

lemma ringbuffer_inv_len: "ringbuffer_inv t \<Longrightarrow> length (rb_data t) = unat (rb_capacity t)"
  by (simp add: ringbuffer_inv_def)

lemma ringbuffer_inv_size:
  "ringbuffer_inv t \<Longrightarrow> unat (bscl_ringbuffer_size t) \<le> unat (rb_capacity t)"
  by (simp add: ringbuffer_inv_def word_le_nat_alt)

lemma ringbuffer_inv_pos: "ringbuffer_inv t \<Longrightarrow> 0 < unat (rb_capacity t)"
  by (auto simp: ringbuffer_inv_def)

lemma ringbuffer_offset:
  "ringbuffer_inv t \<Longrightarrow>
     unat (p AND (rb_capacity t - 1)) = unat p mod length (rb_data t)"
  by (auto simp: ringbuffer_inv_def unat_and_mask_pow2)

lemma ringbuffer_offset_less:
  "ringbuffer_inv t \<Longrightarrow> unat (p AND (rb_capacity t - 1)) < unat (rb_capacity t)"
  using ringbuffer_inv_pos [of t] by (simp add: ringbuffer_offset ringbuffer_inv_len)

lemma ringbuffer_pos_add:
  assumes "ringbuffer_inv t"
  shows "unat (p + q :: u64) mod length (rb_data t) = (unat p + unat q) mod length (rb_data t)"
proof -
  obtain k where k: "k < 64" "length (rb_data t) = 2 ^ k"
    using assms by (auto simp: ringbuffer_inv_def)
  then have "(2::nat) ^ k dvd 2 ^ 64"
    by (intro le_imp_power_dvd) simp
  then show ?thesis
    by (simp add: k unat_word_ariths mod_mod_cancel)
qed


section \<open>The operations on the abstraction\<close>

lemma ringbuffer_advance:
  assumes inv: "ringbuffer_inv t"
    and fits: "unat (bscl_ringbuffer_size t) + unat n \<le> unat (rb_capacity t)"
    and upd: "ring_upd (rb_data t) (unat (wIndex t)) xs m" and n: "length xs = unat n"
    and t': "t' = t\<lparr>rb_data := m, wIndex := wIndex t + n\<rparr>"
  shows "ringbuffer_inv t' \<and> ringbuffer_contents t' = ringbuffer_contents t @ xs
    \<and> rb_capacity t' = rb_capacity t"
proof -
  have "unat (bscl_ringbuffer_size t) + unat n < 2 ^ LENGTH(64)"
    by (rule le_less_trans [OF fits]) simp
  then have "unat (bscl_ringbuffer_size t + n) = unat (bscl_ringbuffer_size t) + unat n"
    by (rule unat_plus_small)
  then have sz: "unat (bscl_ringbuffer_size t') = unat (bscl_ringbuffer_size t) + unat n"
    by (simp add: t' bscl_ringbuffer_size_def algebra_simps)
  have "unat (wIndex t) mod length (rb_data t)
      = (unat (rIndex t) + unat (bscl_ringbuffer_size t)) mod length (rb_data t)"
    using ringbuffer_pos_add [OF inv, of "rIndex t" "bscl_ringbuffer_size t"]
    by (simp add: bscl_ringbuffer_size_def)
  then have "ring_upd (rb_data t) (unat (rIndex t) + unat (bscl_ringbuffer_size t)) xs m"
    using upd by (rule ring_upd_cong)
  then have "ring_get m (unat (rIndex t)) (unat (bscl_ringbuffer_size t) + length xs)
      = ringbuffer_contents t @ xs"
    unfolding ringbuffer_contents_def
    by (rule ring_upd_append) (use fits n inv in \<open>simp add: ringbuffer_inv_len\<close>)
  then have "ringbuffer_contents t' = ringbuffer_contents t @ xs"
    unfolding ringbuffer_contents_def sz using n by (simp add: t')
  moreover have "bscl_ringbuffer_size t' \<le> rb_capacity t"
    using sz fits by (simp add: word_le_nat_alt)
  ultimately show ?thesis
    using inv upd by (simp add: t' ringbuffer_inv_def ring_upd_def)
qed

lemma ringbuffer_write_spec:
  assumes inv: "ringbuffer_inv t" and len0: "len \<noteq> 0"
    and data: "min (unat len) (ringbuffer_free t) \<le> length data"
  shows "\<exists>n t'. bscl_ringbuffer_write t data len = Some (n, t')
    \<and> unat n = min (unat len) (ringbuffer_free t)
    \<and> ringbuffer_inv t' \<and> rb_capacity t' = rb_capacity t
    \<and> ringbuffer_contents t'
      = ringbuffer_contents t @ take (min (unat len) (ringbuffer_free t)) data"
proof -
  let ?space = "rb_capacity t - bscl_ringbuffer_size t"
  define n where "n = (if len < ?space then len else ?space)"
  have "unat ?space = ringbuffer_free t"
    using inv by (simp add: ringbuffer_free_def ringbuffer_inv_def unat_minus_le)
  then have n: "unat n = min (unat len) (ringbuffer_free t)"
    by (simp add: n_def min_def word_less_nat_alt)
  let ?xs = "take (unat n) data"
  have lxs: "length ?xs = unat n"
    using data n by simp
  have fits: "unat (bscl_ringbuffer_size t) + unat n \<le> unat (rb_capacity t)"
    using n ringbuffer_inv_size [OF inv] by (simp add: ringbuffer_free_def)
  note lm = ringbuffer_inv_len [OF inv]
  let ?o = "bscl_ringbuffer_get_writebuf t"
  have e: "unat ?o = unat (wIndex t) mod length (rb_data t)"
    by (simp add: bscl_ringbuffer_get_writebuf_def ringbuffer_offset [OF inv])
  have olt: "unat ?o < unat (rb_capacity t)"
    by (simp add: bscl_ringbuffer_get_writebuf_def ringbuffer_offset_less [OF inv])
  have "\<exists>m. bscl_ringbuffer_write t data len
      = Some (n, t\<lparr>rb_data := m, wIndex := wIndex t + n\<rparr>)
    \<and> ring_upd (rb_data t) (unat (wIndex t)) ?xs m"
  proof (cases "unat ?o + unat n \<le> unat (rb_capacity t)")
    case True
    then have "bscl_ringbuffer_write t data len = Some (n, t\<lparr>rb_data := take (unat ?o) (rb_data t)
        @ ?xs @ drop (unat ?o + length ?xs) (rb_data t), wIndex := wIndex t + n\<rparr>)"
      using len0 lxs lm by (simp add: bscl_ringbuffer_write_def Let_def mem_simps flip: n_def)
    moreover have "ring_upd (rb_data t) (unat (wIndex t)) ?xs (take (unat ?o) (rb_data t)
        @ ?xs @ drop (unat ?o + length ?xs) (rb_data t))"
      unfolding e by (rule ring_upd_flat) (use True e lxs lm in simp)
    ultimately show ?thesis by blast
  next
    case wrap: False
    let ?a = "rb_capacity t - ?o"
    have a: "unat ?a = unat (rb_capacity t) - unat ?o"
      using olt by (simp add: unat_minus_le word_le_nat_alt)
    have na: "unat (n - ?a) = unat n - unat ?a"
      using wrap a by (simp add: unat_minus_le word_le_nat_alt)
    let ?m = "drop (unat ?a) ?xs @ drop (length ?xs - unat ?a)
      (take (unat ?o) (rb_data t)) @ take (unat ?a) ?xs"
    have "unat ?o < length (rb_data t)" "unat ?a = length (rb_data t) - unat ?o"
        "unat ?a \<le> unat n" "unat n \<le> length (rb_data t)" "unat n \<le> length data"
      using a olt lm wrap fits data n by linarith+
    from copy_wrapped [OF this, where f = Some] have "bscl_ringbuffer_write t data len
        = Some (n, t\<lparr>rb_data := ?m, wIndex := wIndex t + n\<rparr>)"
      using wrap len0 lxs by (simp add: bscl_ringbuffer_write_def Let_def na flip: n_def)
    moreover have "ring_upd (rb_data t) (unat (wIndex t)) ?xs ?m"
      by (rule ring_upd_wrap [OF e]) (use a lm olt wrap fits lxs in auto)
    ultimately show ?thesis by blast
  qed
  then obtain m where m: "bscl_ringbuffer_write t data len
      = Some (n, t\<lparr>rb_data := m, wIndex := wIndex t + n\<rparr>)"
    and upd: "ring_upd (rb_data t) (unat (wIndex t)) ?xs m"
    by blast
  from ringbuffer_advance [OF inv fits upd lxs refl] m n show ?thesis
    by auto
qed

lemma ringbuffer_read_spec:
  assumes inv: "ringbuffer_inv t" and len0: "len \<noteq> 0"
  shows "\<exists>t'. bscl_ringbuffer_read t len
      = Some (bscl_ringbuffer_size t, ringbuffer_contents t, t')
    \<and> ringbuffer_inv t' \<and> rb_capacity t' = rb_capacity t \<and> ringbuffer_contents t' = []"
proof -
  let ?sz = "bscl_ringbuffer_size t" and ?o = "bscl_ringbuffer_get_readbuf t"
  let ?t' = "t\<lparr>rIndex := rIndex t + ?sz\<rparr>"
  note lm = ringbuffer_inv_len [OF inv] and szle = ringbuffer_inv_size [OF inv]
  have e: "unat ?o = unat (rIndex t) mod length (rb_data t)"
    by (simp add: bscl_ringbuffer_get_readbuf_def ringbuffer_offset [OF inv])
  have olt: "unat ?o < unat (rb_capacity t)"
    by (simp add: bscl_ringbuffer_get_readbuf_def ringbuffer_offset_less [OF inv])
  have "bscl_ringbuffer_read t len = Some (?sz, ringbuffer_contents t, ?t')"
  proof (cases "unat ?o + unat ?sz \<le> unat (rb_capacity t)")
    case True
    then show ?thesis
      using len0 lm ring_get_flat [of "unat (rIndex t)" "rb_data t" "unat ?sz"]
      by (simp add: bscl_ringbuffer_read_def Let_def mem_simps e ringbuffer_contents_def)
  next
    case wrap: False
    let ?a = "rb_capacity t - ?o"
    have a: "unat ?a = unat (rb_capacity t) - unat ?o"
      using olt by (simp add: unat_minus_le word_le_nat_alt)
    have na: "unat (?sz - ?a) = unat ?sz - unat ?a"
      using wrap a by (simp add: unat_minus_le word_le_nat_alt)
    have "ringbuffer_contents t
        = drop (unat ?o) (rb_data t) @ take (unat ?sz - unat ?a) (rb_data t)"
      unfolding e a ringbuffer_contents_def using wrap szle lm e
      by (subst ring_get_wrap) simp_all
    moreover have "mem_read (rb_data t) (unat ?o) (unat ?a) = Some (drop (unat ?o) (rb_data t))"
      using a olt lm by (simp add: mem_read_def)
    moreover have "mem_read (rb_data t) 0 (unat ?sz - unat ?a)
        = Some (take (unat ?sz - unat ?a) (rb_data t))"
      using szle lm by (simp add: mem_read_def)
    ultimately show ?thesis
      using wrap len0 by (simp add: bscl_ringbuffer_read_def Let_def na)
  qed
  moreover have "bscl_ringbuffer_size ?t' = 0"
    by (simp add: bscl_ringbuffer_size_def)
  ultimately show ?thesis
    using inv by (simp add: ringbuffer_inv_def ringbuffer_contents_def)
qed

lemma bscl_ringbuffer_init_spec:
  assumes "k < 64" and "unat s = 2 ^ k" and "length d = unat s"
  shows "\<exists>t. bscl_ringbuffer_init d s = Some t \<and> ringbuffer_inv t
    \<and> ringbuffer_contents t = [] \<and> rb_capacity t = s"
proof -
  have "unat (s AND (s - 1)) = 0"
    using assms(2) by (simp add: unat_and_mask_pow2)
  then have "s AND (s - 1) = 0"
    by (simp only: unat_eq_0)
  with assms show ?thesis
    by (auto simp: bscl_ringbuffer_init_def ringbuffer_inv_def ringbuffer_contents_def
      bscl_ringbuffer_size_def)
qed

lemma bscl_ringbuffer_clear_spec:
  "ringbuffer_inv t \<Longrightarrow>
     ringbuffer_inv (bscl_ringbuffer_clear t) \<and> ringbuffer_contents (bscl_ringbuffer_clear t) = []"
  by (auto simp: ringbuffer_inv_def ringbuffer_contents_def bscl_ringbuffer_clear_def
    bscl_ringbuffer_size_def)

section \<open>The ring buffer is a byte queue\<close>

text \<open>The code's assertion rejects empty writes; a client makes none.\<close>

definition ringbuffer_put :: "bscl_ringbuffer_t \<Rightarrow> u8 list \<Rightarrow> (nat \<times> bscl_ringbuffer_t) option" where
  "ringbuffer_put t xs =
     (if xs = [] then Some (0, t)
      else map_option (map_prod unat id)
        (bscl_ringbuffer_write t xs (word_of_nat (length xs))))"

definition ringbuffer_drain ::
    "bscl_ringbuffer_t \<Rightarrow> nat \<Rightarrow> (u8 list \<times> bscl_ringbuffer_t) option" where
  "ringbuffer_drain t n = map_option snd (bscl_ringbuffer_read t (word_of_nat n))"

lemma unat_word_of_nat_u64: "n < 18446744073709551616 \<Longrightarrow> unat (word_of_nat n :: u64) = n"
  by (simp add: unsigned_of_nat take_bit_nat_eq_self_iff)

interpretation ringbuffer_fifo: byte_fifo ringbuffer_inv ringbuffer_contents
  "\<lambda>t. unat (rb_capacity t)" 18446744073709551616 ringbuffer_put ringbuffer_drain
proof
  fix t :: bscl_ringbuffer_t
  assume inv: "ringbuffer_inv t"
  show "length (ringbuffer_contents t) \<le> unat (rb_capacity t)"
    using ringbuffer_inv_size [OF inv] by simp
  show "unat (rb_capacity t) < 18446744073709551616"
    by simp
next
  fix t :: bscl_ringbuffer_t and xs :: "u8 list"
  assume inv: "ringbuffer_inv t" and small: "length xs < 18446744073709551616"
  show "\<exists>t'. ringbuffer_put t xs
      = Some (min (length xs) (unat (rb_capacity t) - length (ringbuffer_contents t)), t')
    \<and> ringbuffer_inv t' \<and> unat (rb_capacity t') = unat (rb_capacity t)
    \<and> ringbuffer_contents t'
      = ringbuffer_contents t @ take (unat (rb_capacity t) - length (ringbuffer_contents t)) xs"
  proof (cases "xs = []")
    case False
    have len: "unat (word_of_nat (length xs) :: u64) = length xs"
      using small by (simp add: unat_word_of_nat_u64)
    then have "word_of_nat (length xs) \<noteq> (0 :: u64)"
      using False by (metis length_0_conv unat_0)
    from ringbuffer_write_spec [OF inv this, of xs] len False show ?thesis
      by (auto simp: ringbuffer_put_def ringbuffer_free_def min_def)
  qed (use inv in \<open>simp add: ringbuffer_put_def\<close>)
next
  fix t :: bscl_ringbuffer_t and n :: nat
  assume inv: "ringbuffer_inv t" and n: "0 < n" "n < 18446744073709551616"
  then have "word_of_nat n \<noteq> (0 :: u64)"
    by (metis less_irrefl unat_0 unat_word_of_nat_u64)
  from ringbuffer_read_spec [OF inv this]
  show "\<exists>t'. ringbuffer_drain t n = Some (ringbuffer_contents t, t') \<and> ringbuffer_inv t'
    \<and> unat (rb_capacity t') = unat (rb_capacity t) \<and> ringbuffer_contents t' = []"
    by (auto simp: ringbuffer_drain_def)
qed


section \<open>Properties\<close>

text \<open>
  under its invariant \<open>bscl_ringbuffer_write\<close> stays in bounds, stores
  \<open>min(len, free space)\<close> bytes, returns that number, keeps the invariant and appends exactly
  those bytes, also where the write crosses the end of the memory or the 64-bit index wraps.
\<close>

lemma bscl_ringbuffer_write_appends:
  assumes "ringbuffer_inv t" and "len \<noteq> 0"
    and "min (unat len) (ringbuffer_free t) \<le> length data"
  shows "\<exists>n t'. bscl_ringbuffer_write t data len = Some (n, t')
    \<and> unat n = min (unat len) (ringbuffer_free t)
    \<and> ringbuffer_inv t' \<and> rb_capacity t' = rb_capacity t
    \<and> ringbuffer_contents t'
      = ringbuffer_contents t @ take (min (unat len) (ringbuffer_free t)) data"
  using assms by (rule ringbuffer_write_spec)

lemma bscl_ringbuffer_write_appends_witness:
  "\<exists>n t'. bscl_ringbuffer_write
      \<lparr>rb_data = [9, 9], rb_capacity = 2, rIndex = 1, wIndex = 1\<rparr> [1, 2, 3] 3 = Some (n, t')
    \<and> unat n = 2 \<and> ringbuffer_contents t' = [1, 2]"
proof -
  let ?t = "\<lparr>rb_data = [9, 9], rb_capacity = 2, rIndex = 1, wIndex = 1\<rparr> :: bscl_ringbuffer_t"
  have "\<exists>k<64. unat (2 :: u64) = 2 ^ k"
    by (rule exI [of _ 1]) simp
  then have inv: "ringbuffer_inv ?t" and nil: "ringbuffer_contents ?t = []"
    by (simp_all add: ringbuffer_inv_def bscl_ringbuffer_size_def ringbuffer_contents_def)
  then have "ringbuffer_free ?t = 2"
    by (simp add: ringbuffer_free_def flip: length_ringbuffer_contents)
  with bscl_ringbuffer_write_appends [OF inv, of 3 "[1, 2, 3]"] nil show ?thesis
    by auto
qed

text \<open>
  \<open>bscl_ringbuffer_read\<close>, for any non-zero requested length, hands out all stored bytes
  and empties the buffer; it returns their number. The requested length bounds nothing: with
  more bytes stored than asked for, more than \<open>len\<close> bytes go to the caller's memory.
\<close>

lemma bscl_ringbuffer_read_takes_all:
  assumes "ringbuffer_inv t" and "len \<noteq> 0"
  shows "\<exists>t'. bscl_ringbuffer_read t len
      = Some (bscl_ringbuffer_size t, ringbuffer_contents t, t')
    \<and> ringbuffer_inv t' \<and> ringbuffer_contents t' = []
    \<and> length (ringbuffer_contents t) = unat (bscl_ringbuffer_size t)"
  using ringbuffer_read_spec [OF assms] by auto

lemma bscl_ringbuffer_read_takes_all_witness:
  "\<exists>t'. bscl_ringbuffer_read
      \<lparr>rb_data = [8, 9], rb_capacity = 2, rIndex = 1, wIndex = 3\<rparr> 1 = Some (2, [9, 8], t')"
proof -
  let ?t = "\<lparr>rb_data = [8, 9], rb_capacity = 2, rIndex = 1, wIndex = 3\<rparr> :: bscl_ringbuffer_t"
  have "\<exists>k<64. unat (2 :: u64) = 2 ^ k"
    by (rule exI [of _ 1]) simp
  moreover have "[0..<2] = [0, 1 :: nat]"
    by (simp add: upt_rec)
  ultimately have inv: "ringbuffer_inv ?t" and "ringbuffer_contents ?t = [9, 8]"
    by (simp_all add: ringbuffer_inv_def bscl_ringbuffer_size_def ringbuffer_contents_def
      ring_get_def)
  with bscl_ringbuffer_read_takes_all [OF inv, of 1] show ?thesis
    by (auto simp: bscl_ringbuffer_size_def)
qed

end
