(* ===== verification/Bytes.thy ===== *)
theory Bytes
  imports Prelude
begin

text \<open>
  Integers in memory, least significant byte first: what a cast between an integer pointer and
  a byte pointer, or a \<open>memcpy\<close> of an integer, does on the little-endian machines the library
  is built for.
\<close>

definition le16 :: "u16 \<Rightarrow> u8 list" where
  "le16 w = [ucast w, ucast (shr w 8)]"

definition of_le16 :: "u8 list \<Rightarrow> u16" where
  "of_le16 bs = ucast (bs ! 0) OR shl (ucast (bs ! 1)) 8"

definition le32 :: "u32 \<Rightarrow> u8 list" where
  "le32 w = [ucast w, ucast (shr w 8), ucast (shr w 16), ucast (shr w 24)]"

definition of_le32 :: "u8 list \<Rightarrow> u32" where
  "of_le32 bs = ucast (bs ! 0) OR shl (ucast (bs ! 1)) 8 OR shl (ucast (bs ! 2)) 16
     OR shl (ucast (bs ! 3)) 24"

lemma length_le16 [simp]: "length (le16 w) = 2"
  by (simp add: le16_def)

lemma length_le32 [simp]: "length (le32 w) = 4"
  by (simp add: le32_def)

lemma of_le16_le16 [simp]: "of_le16 (le16 w) = w"
  by (rule bit_word_eqI) (auto simp: of_le16_def le16_def bit_simps)

lemma of_le32_le32 [simp]: "of_le32 (le32 w) = w"
proof (rule bit_word_eqI)
  fix n assume "n < LENGTH(32)"
  then consider "n < 8" | "8 \<le> n \<and> n < 16" | "16 \<le> n \<and> n < 24" | "24 \<le> n \<and> n < 32"
    by fastforce
  then show "bit (of_le32 (le32 w)) n = bit w n"
    by cases (auto simp: of_le32_def le32_def bit_simps)
qed

lemma le16_of_le16:
  assumes "length bs = 2"
  shows "le16 (of_le16 bs) = bs"
proof -
  obtain a b where bs: "bs = [a, b]"
    using assms by (auto simp: numeral_2_eq_2 length_Suc_conv)
  have "ucast (of_le16 bs) = a" and "ucast (shr (of_le16 bs) 8) = b"
    by (rule bit_word_eqI; auto simp: bs of_le16_def bit_simps dest: bit_u8)+
  then show ?thesis
    by (simp add: le16_def bs)
qed

lemma le32_of_le32:
  assumes "length bs = 4"
  shows "le32 (of_le32 bs) = bs"
proof -
  obtain a b c d where bs: "bs = [a, b, c, d]"
    using assms by (auto simp: eval_nat_numeral length_Suc_conv)
  have "ucast (of_le32 bs) = a" and "ucast (shr (of_le32 bs) 8) = b"
    and "ucast (shr (of_le32 bs) 16) = c" and "ucast (shr (of_le32 bs) 24) = d"
    by (rule bit_word_eqI; auto simp: bs of_le32_def bit_simps dest: bit_u8)+
  then show ?thesis
    by (simp add: le32_def bs)
qed

lemma le32_inj [simp]: "le32 a = le32 b \<longleftrightarrow> a = b"
  by (metis of_le32_le32)

lemma of_le16_append [simp]: "of_le16 (le16 w @ xs) = w"
proof -
  have "(le16 w @ xs) ! i = le16 w ! i" if "i < 2" for i
    using that by (simp add: nth_append)
  then have "of_le16 (le16 w @ xs) = of_le16 (le16 w)"
    unfolding of_le16_def by simp
  then show ?thesis by simp
qed

lemma of_le32_append [simp]: "of_le32 (le32 w @ xs) = w"
proof -
  have "(le32 w @ xs) ! i = le32 w ! i" if "i < 4" for i
    using that by (simp add: nth_append)
  then have "of_le32 (le32 w @ xs) = of_le32 (le32 w)"
    unfolding of_le32_def by simp
  then show ?thesis by simp
qed

end
