(* ===== verification/Packet.thy ===== *)
theory Packet
  imports Bytes Crc Buffer
begin

text \<open>
  The packet layer of \<open>src/bscl_packet.c\<close>: framing of messages (an 8-byte header that starts
  with the magic byte \<open>0x7e\<close>, the data, a CRC-32) in the byte buffer \<open>mo\<close>. One definition per
  function; \<open>bscl_packet_receive\<close> is split at the four \<open>if (pak->stat == ...)\<close> blocks of its
  body. The global CRC table is the argument \<open>tbl\<close> of the functions that reach \<open>bscl_crc32\<close>.
\<close>

section \<open>Data\<close>

definition PACKET_MAGIC :: u8 where
  "PACKET_MAGIC = 0x7e"

abbreviation (input) PACKET_HEADER_SIZE :: nat where
  "PACKET_HEADER_SIZE \<equiv> 8"

abbreviation (input) PACKET_CRC_SIZE :: nat where
  "PACKET_CRC_SIZE \<equiv> 4"

abbreviation (input) PACKET_LEN_POS :: nat where
  "PACKET_LEN_POS \<equiv> 2"

abbreviation (input) CRC_BUFFER_LEN :: nat where
  "CRC_BUFFER_LEN \<equiv> 256"

text \<open>The header, and its image in memory.\<close>

record packet_head_t =
  h_magic :: u8
  h_msgid :: u8
  h_len :: u16
  h_seq :: u32

definition packet_head_bytes :: "packet_head_t \<Rightarrow> u8 list" where
  "packet_head_bytes h = [h_magic h, h_msgid h] @ le16 (h_len h) @ le32 (h_seq h)"

definition packet_head_of :: "u8 list \<Rightarrow> packet_head_t" where
  "packet_head_of bs = \<lparr>h_magic = bs ! 0, h_msgid = bs ! 1, h_len = of_le16 (drop 2 bs),
     h_seq = of_le32 (drop 4 bs)\<rparr>"

datatype packet_stat =
  PACKET_STAT_SYNC | PACKET_STAT_HEAD | PACKET_STAT_DATA | PACKET_STAT_CRC | PACKET_STAT_PARSE

datatype packet_result =
  BSCL_PACKET_MOREDATA | BSCL_PACKET_READY | BSCL_PACKET_RESYNC | BSCL_PACKET_ERROR
| BSCL_PACKET_BADCRC | BSCL_PACKET_ERROR_NOHEAD | BSCL_PACKET_ERROR_NOCRC

record bscl_packet_t =
  mo :: buffer_t
  pleft :: u16
  pstat :: packet_stat

record bscl_packet_msginf_t =
  inf_len :: u16
  inf_msgid :: u8
  inf_seq :: u32

section \<open>Operations\<close>

text \<open>
  The checksum over the header and \<open>len\<close> data bytes, in pieces of at most 256 bytes.
  Reading fewer bytes than asked would leave the rest of the local buffer undefined.
\<close>

function packet_crc_loop :: "u32 list \<Rightarrow> buffer_t \<Rightarrow> nat \<Rightarrow> nat \<Rightarrow> u32 \<Rightarrow> u32 option" where
  "packet_crc_loop tbl m n_byte n_byte_offset checksum =
     (if n_byte_offset < n_byte then do {
        let lft = n_byte - n_byte_offset;
        let n = (if lft < CRC_BUFFER_LEN then lft else CRC_BUFFER_LEN);
        (k, crc_buffer) \<leftarrow> buffer_copy m (word_of_nat n_byte_offset) (word_of_nat n);
        guard (unat k = n);
        packet_crc_loop tbl m n_byte (n_byte_offset + n) (bscl_crc32 tbl crc_buffer checksum)
      } else Some checksum)"
  by pat_completeness auto
termination
  by (relation "measure (\<lambda>(tbl, m, n_byte, off, c). n_byte - off)") (auto split: if_splits)

declare packet_crc_loop.simps [simp del]

definition packet_crc_buffer :: "u32 list \<Rightarrow> bscl_packet_t \<Rightarrow> nat \<Rightarrow> u32 option" where
  "packet_crc_buffer tbl pak len =
     packet_crc_loop tbl (mo pak) (len + PACKET_HEADER_SIZE) 0 0"

definition bscl_packet_init :: "u8 list \<Rightarrow> u32 \<Rightarrow> bscl_packet_t" where
  "bscl_packet_init m sz =
     \<lparr>mo = buffer_init m sz, pleft = 0, pstat = PACKET_STAT_SYNC\<rparr>"

text \<open>\<open>buf\<close> is the caller's memory from the pointer on; \<open>i\<close> and \<open>len\<close> are C integers.\<close>

function packet_find_magic :: "u8 list \<Rightarrow> int \<Rightarrow> int \<Rightarrow> int option" where
  "packet_find_magic buf i len =
     (if i < len then do {
        c \<leftarrow> mem_read buf (nat i) 1;
        if hd c = PACKET_MAGIC then Some i else packet_find_magic buf (i + 1) len
      } else Some i)"
  by pat_completeness auto
termination
  by (relation "measure (\<lambda>(buf, i, len). nat (len - i))") auto

declare packet_find_magic.simps [simp del]

definition packet_receive_sync ::
    "bscl_packet_t \<Rightarrow> u8 list \<Rightarrow> int \<Rightarrow> int \<Rightarrow> (int \<times> int \<times> bscl_packet_t) option" where
  "packet_receive_sync pak buf space len =
     (if pstat pak = PACKET_STAT_SYNC then do {
        i \<leftarrow> packet_find_magic buf 0 len;
        if i < len then
          Some (i, if space < len - i then space + i else len,
            pak\<lparr>pstat := PACKET_STAT_HEAD, pleft := word_of_nat PACKET_HEADER_SIZE\<rparr>)
        else Some (i, len, pak)
      } else Some (0, len, pak))"

text \<open>\<open>goto _more_data\<close> after storing what is left of the input.\<close>

definition packet_store_rest ::
    "bscl_packet_t \<Rightarrow> u8 list \<Rightarrow> int \<Rightarrow> int
       \<Rightarrow> (packet_result \<times> int \<times> bscl_packet_t) option" where
  "packet_store_rest pak buf i len = do {
     (_, m) \<leftarrow> buffer_write (mo pak) (drop (nat i) buf) (word_of_int (len - i));
     Some (BSCL_PACKET_MOREDATA, len,
       pak\<lparr>mo := m, pleft := pleft pak - word_of_int (len - i)\<rparr>)
   }"

definition packet_receive_crc ::
    "bscl_packet_t \<Rightarrow> u8 list \<Rightarrow> int \<Rightarrow> int
       \<Rightarrow> (packet_result \<times> int \<times> bscl_packet_t) option" where
  "packet_receive_crc pak buf i len =
     (if pstat pak = PACKET_STAT_CRC then
        if len - i < uint (pleft pak) then packet_store_rest pak buf i len
        else do {
          (_, m) \<leftarrow> buffer_write (mo pak) (drop (nat i) buf) (ucast (pleft pak));
          Some (BSCL_PACKET_READY, i + uint (pleft pak), pak\<lparr>mo := m\<rparr>)
        }
      else Some (BSCL_PACKET_MOREDATA, len, pak))"

definition packet_receive_data ::
    "bscl_packet_t \<Rightarrow> u8 list \<Rightarrow> int \<Rightarrow> int
       \<Rightarrow> (packet_result \<times> int \<times> bscl_packet_t) option" where
  "packet_receive_data pak buf i len =
     (if pstat pak = PACKET_STAT_DATA then
        if len - i < uint (pleft pak) then packet_store_rest pak buf i len
        else packet_receive_crc
          (pak\<lparr>pstat := PACKET_STAT_CRC, pleft := pleft pak + word_of_nat PACKET_CRC_SIZE\<rparr>)
          buf i len
      else packet_receive_crc pak buf i len)"

text \<open>The length field, taken from the input, the stored header or both.\<close>

definition packet_head_len :: "bscl_packet_t \<Rightarrow> u8 list \<Rightarrow> int \<Rightarrow> u16 option" where
  "packet_head_len pak buf i =
     (let have = (word_of_nat PACKET_HEADER_SIZE - ucast (pleft pak) :: u64)
      in if have \<le> word_of_nat PACKET_LEN_POS then do {
           bs \<leftarrow> mem_read buf (nat i + PACKET_LEN_POS - unat have) 2;
           Some (of_le16 bs)
         } else if have = word_of_nat PACKET_LEN_POS + 1 then do {
           (_, lo) \<leftarrow> buffer_copy (mo pak) (word_of_nat PACKET_LEN_POS) 1;
           hi \<leftarrow> mem_read buf (nat i) 1;
           Some (of_le16 [hd (lo @ [0]), hd hi])
         } else do {
           (_, bs) \<leftarrow> buffer_copy (mo pak) (word_of_nat PACKET_LEN_POS) 2;
           Some (of_le16 (take 2 (bs @ [0, 0])))
         })"

definition packet_receive_head ::
    "bscl_packet_t \<Rightarrow> u8 list \<Rightarrow> int \<Rightarrow> int
       \<Rightarrow> (packet_result \<times> int \<times> bscl_packet_t) option" where
  "packet_receive_head pak buf i len =
     (if pstat pak = PACKET_STAT_HEAD then
        if len - i < uint (pleft pak) then packet_store_rest pak buf i len
        else do {
          plen \<leftarrow> packet_head_len pak buf i;
          packet_receive_data
            (pak\<lparr>pstat := PACKET_STAT_DATA, pleft := pleft pak + plen\<rparr>) buf i len
        }
      else packet_receive_data pak buf i len)"

text \<open>The result is the return code, the new \<open>*size\<close> and the packet.\<close>

definition bscl_packet_receive ::
    "bscl_packet_t \<Rightarrow> u8 list \<Rightarrow> int \<Rightarrow> (packet_result \<times> int \<times> bscl_packet_t) option" where
  "bscl_packet_receive pak0 buf sz = do {
     let space = sint (buffer_get_space (mo pak0));
     (i, len, pak) \<leftarrow> packet_receive_sync pak0 buf space sz;
     if pstat pak0 = PACKET_STAT_SYNC \<and> i = len then Some (BSCL_PACKET_MOREDATA, len, pak)
     else packet_receive_head pak buf i len
   }"

definition packet_do_parse :: "bscl_packet_t \<Rightarrow> int \<times> bscl_packet_t" where
  "packet_do_parse pak =
     (if pstat pak \<noteq> PACKET_STAT_PARSE then 1 else 0, pak\<lparr>pstat := PACKET_STAT_PARSE\<rparr>)"

definition packet_to_crc :: "bscl_packet_t \<Rightarrow> bscl_packet_t" where
  "packet_to_crc pak = pak\<lparr>pstat := PACKET_STAT_CRC, pleft := word_of_nat PACKET_CRC_SIZE\<rparr>"

definition bscl_packet_receive_byte ::
    "bscl_packet_t \<Rightarrow> u8 \<Rightarrow> (int \<times> bscl_packet_t) option" where
  "bscl_packet_receive_byte pak0 c = do {
     (r, m) \<leftarrow> buffer_putc (mo pak0) c;
     let pak = pak0\<lparr>mo := m\<rparr>;
     if r < 0 then Some (packet_do_parse pak)
     else if buffer_get_space m = 0 then Some (packet_do_parse pak)
     else (let dec = pak\<lparr>pleft := pleft pak - 1\<rparr> in
       case pstat pak of
         PACKET_STAT_SYNC \<Rightarrow>
           if c = PACKET_MAGIC
           then Some (0, pak\<lparr>pstat := PACKET_STAT_HEAD,
             pleft := word_of_nat (PACKET_HEADER_SIZE - 1)\<rparr>)
           else Some (0, pak\<lparr>mo := snd (buffer_drop_char m)\<rparr>)
       | PACKET_STAT_HEAD \<Rightarrow>
           if pleft dec = 0 then do {
             len \<leftarrow> buffer_copy_char m (word_of_nat PACKET_LEN_POS);
             if len < 0 then Some (packet_do_parse dec)
             else (let pak' = dec\<lparr>pleft := word_of_int len, pstat := PACKET_STAT_DATA\<rparr>
                   in Some (0, if pleft pak' = 0 then packet_to_crc pak' else pak'))
           } else Some (0, dec)
       | PACKET_STAT_DATA \<Rightarrow> Some (0, if pleft dec = 0 then packet_to_crc dec else dec)
       | PACKET_STAT_CRC \<Rightarrow>
           if pleft dec = 0 then Some (1, dec\<lparr>pstat := PACKET_STAT_PARSE\<rparr>) else Some (0, dec)
       | PACKET_STAT_PARSE \<Rightarrow> Some (packet_do_parse pak))
   }"

text \<open>
  The search for the magic byte: \<open>True\<close> when it is found, \<open>False\<close> where the code tests for a
  negative character. The loop has no other end, so it is a partial function.
\<close>

partial_function (option) packet_seek_magic :: "buffer_t \<Rightarrow> (bool \<times> buffer_t) option" where
  "packet_seek_magic m = do {
     c \<leftarrow> buffer_copy_first m;
     if c < 0 then Some (False, m)
     else if c = uint PACKET_MAGIC then Some (True, m)
     else packet_seek_magic (snd (buffer_drop_char m))
   }"

declare packet_seek_magic.simps [code]

partial_function (option) bscl_packet_resync ::
    "bscl_packet_t \<Rightarrow> (packet_result \<times> bscl_packet_t) option" where
  "bscl_packet_resync pak0 = do {
     r \<leftarrow> packet_seek_magic (mo pak0);
     let m = snd r;
     let pak = pak0\<lparr>mo := m, pstat := PACKET_STAT_SYNC\<rparr>;
     if \<not> fst r then Some (BSCL_PACKET_MOREDATA, pak)
     else (let count = unat (buffer_get_count m); pak1 = pak\<lparr>pstat := PACKET_STAT_HEAD\<rparr>
       in if count < PACKET_HEADER_SIZE
          then Some (BSCL_PACKET_MOREDATA,
            pak1\<lparr>pleft := word_of_nat (PACKET_HEADER_SIZE - count)\<rparr>)
          else Option.bind (buffer_copy m 0 (word_of_nat PACKET_HEADER_SIZE)) (\<lambda>hd_bytes.
            let len = unat (h_len (packet_head_of (snd hd_bytes)))
            in if unat (buffer_get_size m) < len + PACKET_HEADER_SIZE + PACKET_CRC_SIZE
               then bscl_packet_resync (pak1\<lparr>mo := snd (buffer_drop_char m)\<rparr>)
               else if count < PACKET_HEADER_SIZE + len
               then Some (BSCL_PACKET_MOREDATA, pak1\<lparr>pstat := PACKET_STAT_DATA,
                 pleft := word_of_nat (len - (count - PACKET_HEADER_SIZE))\<rparr>)
               else if count < PACKET_HEADER_SIZE + len + PACKET_CRC_SIZE
               then Some (BSCL_PACKET_MOREDATA, pak1\<lparr>pstat := PACKET_STAT_CRC,
                 pleft := word_of_nat (PACKET_CRC_SIZE - (count - PACKET_HEADER_SIZE - len))\<rparr>)
               else Some (BSCL_PACKET_READY, pak1\<lparr>pstat := PACKET_STAT_PARSE\<rparr>)))
   }"

declare bscl_packet_resync.simps [code]

text \<open>
  \<open>info\<close> says whether the pointer \<open>inf\<close> to the message information is not null, and \<open>sz\<close> is \<open>None\<close>
  for a null \<open>buf\<close>. The result is the return code, what is stored at \<open>inf\<close> (\<open>None\<close> where the
  call stores nothing there), the bytes stored at \<open>buf\<close>, and the packet.
\<close>

definition bscl_packet_parse ::
    "u32 list \<Rightarrow> bscl_packet_t \<Rightarrow> bool \<Rightarrow> u64 option
       \<Rightarrow> (packet_result \<times> bscl_packet_msginf_t option \<times> u8 list \<times> bscl_packet_t) option" where
  "bscl_packet_parse tbl pak info sz = do {
     let m = mo pak;
     (k, hbytes) \<leftarrow> buffer_copy m 0 (word_of_nat PACKET_HEADER_SIZE);
     if k \<noteq> word_of_nat PACKET_HEADER_SIZE then Some (BSCL_PACKET_ERROR_NOHEAD, None, [], pak)
     else do {
       let head = packet_head_of hbytes;
       let len = unat (h_len head);
       if unat (buffer_get_size m) < len
       then Some (BSCL_PACKET_ERROR, None, [], pak\<lparr>mo := snd (buffer_drop_char m)\<rparr>)
       else do {
         let crc_pos = PACKET_HEADER_SIZE + len;
         (k, cbytes) \<leftarrow> buffer_copy m (word_of_nat crc_pos) (word_of_nat PACKET_CRC_SIZE);
         if k \<noteq> word_of_nat PACKET_CRC_SIZE then Some (BSCL_PACKET_ERROR_NOCRC, None, [], pak)
         else do {
           checksum \<leftarrow> packet_crc_buffer tbl pak len;
           if checksum \<noteq> of_le32 cbytes
           then Some (BSCL_PACKET_BADCRC, None, [], pak\<lparr>mo := snd (buffer_drop_char m)\<rparr>)
           else do {
             let m1 = snd (buffer_drop m (word_of_nat PACKET_HEADER_SIZE));
             (_, data) \<leftarrow> (case sz of None \<Rightarrow> Some (0, [])
               | Some s \<Rightarrow> if unat s < len then buffer_copy m1 0 (ucast s)
                          else buffer_copy m1 0 (word_of_nat len));
             let m2 = snd (buffer_drop m1 (word_of_nat len));
             let m3 = snd (buffer_drop m2 (word_of_nat PACKET_CRC_SIZE));
             let msg = (if info
               then Some \<lparr>inf_len = h_len head, inf_msgid = h_msgid head, inf_seq = h_seq head\<rparr> else None);
             if 0 < buffer_get_count m3
             then Some (BSCL_PACKET_RESYNC, msg, data, pak\<lparr>mo := m3\<rparr>)
             else Some (BSCL_PACKET_MOREDATA, msg, data,
               pak\<lparr>mo := m3, pstat := PACKET_STAT_SYNC\<rparr>)
           }
         }
       }
     }
   }"

text \<open>
  \<open>buf\<close> holds the data, \<open>len\<close> its length; a negative length reads out of bounds. The size of the
  message is a \<open>size_t\<close> that is stored in an \<open>int\<close>, so it wraps.
\<close>

definition bscl_packet_write ::
    "u32 list \<Rightarrow> bscl_packet_t \<Rightarrow> u8 \<Rightarrow> u32 \<Rightarrow> u8 list \<Rightarrow> int \<Rightarrow> (int \<times> bscl_packet_t) option" where
  "bscl_packet_write tbl pak msgid seq buf len = do {
     let head = \<lparr>h_magic = PACKET_MAGIC, h_msgid = msgid, h_len = word_of_int len, h_seq = seq\<rparr>;
     let space = sint (buffer_get_space (mo pak));
     let msg_size = sint (word_of_int (len + int PACKET_HEADER_SIZE + int PACKET_CRC_SIZE) :: u32);
     if space < msg_size then Some (- 1, pak)
     else do {
       let hbytes = packet_head_bytes head;
       let checksum = bscl_crc32 tbl hbytes 0;
       guard (0 \<le> len);
       data \<leftarrow> mem_read buf 0 (nat len);
       let checksum = bscl_crc32 tbl data checksum;
       (n1, m1) \<leftarrow> buffer_write (mo pak) hbytes (word_of_nat PACKET_HEADER_SIZE);
       if n1 \<noteq> word_of_nat PACKET_HEADER_SIZE then Some (- 1, pak\<lparr>mo := m1\<rparr>)
       else do {
         (n2, m2) \<leftarrow> buffer_write m1 data (word_of_int len);
         if n2 \<noteq> word_of_int len then Some (- 1, pak\<lparr>mo := m2\<rparr>)
         else do {
           (n3, m3) \<leftarrow> buffer_write m2 (le32 checksum) (word_of_nat PACKET_CRC_SIZE);
           if n3 \<noteq> word_of_nat PACKET_CRC_SIZE then Some (- 1, pak\<lparr>mo := m3\<rparr>)
           else Some (0, pak\<lparr>mo := m3\<rparr>)
         }
       }
     }
   }"

end
