(* ===== verification/Packet_Parse.thy ===== *)
theory Packet_Parse
  imports Packet
begin

text \<open>
  What \<open>bscl_packet_parse\<close> and \<open>bscl_packet_write\<close> do to the contents of the buffer. The
  reference \<open>parse_contents\<close> works on the list of stored bytes; the code refines it on every
  branch. A packet that the writer frames is rejected by the parser: the two chain the CRC over
  different pieces.
\<close>

section \<open>The header\<close>

lemma length_packet_head_bytes [simp]: "length (packet_head_bytes h) = 8"
  by (simp add: packet_head_bytes_def)

lemma drop_packet_head_bytes:
  "drop 2 (packet_head_bytes h @ xs) = le16 (h_len h) @ le32 (h_seq h) @ xs"
  "drop 4 (packet_head_bytes h @ xs) = le32 (h_seq h) @ xs"
  by (simp_all add: packet_head_bytes_def le16_def eval_nat_numeral)

lemma packet_head_of_bytes [simp]: "packet_head_of (packet_head_bytes h @ xs) = h"
  unfolding packet_head_of_def drop_packet_head_bytes
  by (simp add: packet_head_bytes_def)

lemma packet_head_of_bytes' [simp]: "packet_head_of (packet_head_bytes h) = h"
  using packet_head_of_bytes [of h "[]"] by simp

section \<open>The checksum\<close>

text \<open>The checksum of a list, in pieces of 256 bytes, as the parser computes it.\<close>

function packet_checksum :: "u32 list \<Rightarrow> u8 list \<Rightarrow> u32 \<Rightarrow> u32" where
  "packet_checksum tbl bs c =
     (if bs = [] then c
      else packet_checksum tbl (drop CRC_BUFFER_LEN bs) (bscl_crc32 tbl (take CRC_BUFFER_LEN bs) c))"
  by pat_completeness auto
termination
  by (relation "measure (\<lambda>(tbl, bs, c). length bs)") auto

declare packet_checksum.simps [simp del]

lemma packet_checksum_single:
  "bs \<noteq> [] \<Longrightarrow> length bs \<le> 256 \<Longrightarrow> packet_checksum tbl bs c = bscl_crc32 tbl bs c"
  by (simp add: packet_checksum.simps [of tbl bs] packet_checksum.simps [of tbl "[]"])

lemma unat_word_u32: "n < 4294967296 \<Longrightarrow> unat (word_of_nat n :: u32) = n"
  by (rule unat_word_of_nat_u32)

lemma packet_crc_loop_spec:
  assumes "buffer_inv m" and "n_byte \<le> length (buffer_contents m)"
  shows "off \<le> n_byte \<Longrightarrow> packet_crc_loop tbl m n_byte off c
    = Some (packet_checksum tbl (drop off (take n_byte (buffer_contents m))) c)"
proof (induction "n_byte - off" arbitrary: off c rule: less_induct)
  case less
  let ?cs = "buffer_contents m"
  show ?case
  proof (cases "off < n_byte")
    case True
    define n where "n = (if n_byte - off < 256 then n_byte - off else 256)"
    have lim: "length ?cs \<le> 2147483648"
      using buffer_inv_count [OF assms(1)] buffer_inv_le [OF assms(1)] by simp
    have n: "0 < n" "n \<le> 256" "off + n \<le> n_byte"
      using True by (auto simp: n_def)
    have u: "unat (word_of_nat off :: u32) = off" "unat (word_of_nat n :: u32) = n"
      using True n lim assms(2) by (simp_all add: unat_word_u32)
    have l: "length (take n (drop off ?cs)) = n"
      using n assms(2) by simp
    then have copy: "buffer_copy m (word_of_nat off) (word_of_nat n)
        = Some (word_of_nat n, take n (drop off ?cs))"
      using buffer_copy_spec [OF assms(1), of "word_of_nat n" "word_of_nat off"] n lim assms(2)
      by (simp add: u Let_def)
    have t: "take 256 (drop off (take n_byte ?cs)) = take n (drop off ?cs)"
      by (auto simp: n_def drop_take min_def)
    have d: "drop 256 (drop off (take n_byte ?cs)) = drop (off + n) (take n_byte ?cs)"
      by (auto simp: n_def drop_take add.commute)
    have ne: "drop off (take n_byte ?cs) \<noteq> []"
      using True assms(2) by simp
    have "packet_crc_loop tbl m n_byte off c
        = packet_crc_loop tbl m n_byte (off + n) (bscl_crc32 tbl (take n (drop off ?cs)) c)"
      using True by (subst packet_crc_loop.simps) (simp add: Let_def copy u flip: n_def)
    also have "\<dots> = Some (packet_checksum tbl (drop (off + n) (take n_byte ?cs))
        (bscl_crc32 tbl (take n (drop off ?cs)) c))"
      using n True by (intro less.hyps) auto
    also have "\<dots> = Some (packet_checksum tbl (drop off (take n_byte ?cs)) c)"
      using ne by (subst (2) packet_checksum.simps) (simp only: t d if_False)
    finally show ?thesis .
  next
    case False
    then show ?thesis
      by (simp add: packet_crc_loop.simps [of tbl m n_byte] packet_checksum.simps [of tbl "[]"])
  qed
qed

lemma unat_word_u16: "n < 65536 \<Longrightarrow> unat (word_of_nat n :: u16) = n"
  by (simp add: unsigned_of_nat take_bit_nat_eq_self)

lemma word_of_nat_eq_u32:
  "a < 4294967296 \<Longrightarrow> b < 4294967296 \<Longrightarrow> (word_of_nat a :: u32) = word_of_nat b \<longleftrightarrow> a = b"
  by (metis unat_word_u32)

section \<open>Parsing\<close>

text \<open>
  The parser on the stored bytes \<open>cs\<close> of a buffer with \<open>cap\<close> bytes: the return code, the
  message and the bytes that stay.
\<close>

definition parse_contents ::
    "u32 list \<Rightarrow> nat \<Rightarrow> u8 list
       \<Rightarrow> packet_result \<times> (bscl_packet_msginf_t \<times> u8 list) option \<times> u8 list" where
  "parse_contents tbl cap cs =
     (let h = packet_head_of (take 8 cs); len = unat (h_len h);
          body = take (8 + len) cs; crc = take 4 (drop (8 + len) cs); rest = drop (12 + len) cs
      in if length cs < 8 then (BSCL_PACKET_ERROR_NOHEAD, None, cs)
         else if cap < len then (BSCL_PACKET_ERROR, None, drop 1 cs)
         else if length cs < 12 + len then (BSCL_PACKET_ERROR_NOCRC, None, cs)
         else if packet_checksum tbl body 0 \<noteq> of_le32 crc then (BSCL_PACKET_BADCRC, None, drop 1 cs)
         else (if rest = [] then BSCL_PACKET_MOREDATA else BSCL_PACKET_RESYNC,
           Some (\<lparr>inf_len = h_len h, inf_msgid = h_msgid h, inf_seq = h_seq h\<rparr>, drop 8 body), rest))"

lemma buffer_drop_snd:
  assumes "buffer_inv b"
  shows "buffer_inv (snd (buffer_drop b n))" and "bsize (snd (buffer_drop b n)) = bsize b"
    and "buffer_contents (snd (buffer_drop b n)) = drop (unat n) (buffer_contents b)"
  using buffer_drop_spec [OF assms, of n] by auto

lemma buffer_drop_char_snd:
  assumes "buffer_inv b"
  shows "buffer_inv (snd (buffer_drop_char b))" and "bsize (snd (buffer_drop_char b)) = bsize b"
    and "buffer_contents (snd (buffer_drop_char b)) = drop 1 (buffer_contents b)"
  using buffer_drop_snd [OF assms, of 1] by (simp_all add: buffer_drop_char_def)

lemma buffer_copy_at:
  assumes "buffer_inv b" and "p + n < 4294967296"
  shows "buffer_copy b (word_of_nat p) (word_of_nat n)
    = Some (word_of_nat (length (take n (drop p (buffer_contents b)))),
        take n (drop p (buffer_contents b)))"
  using buffer_copy_spec [OF assms(1), of "word_of_nat n" "word_of_nat p"] assms(2)
  by (simp add: Let_def unat_word_u32)

lemma buffer_count_pos: "0 < buffer_get_count b \<longleftrightarrow> buffer_contents b \<noteq> []"
  by (metis length_buffer_contents length_greater_0_conv word_gt_0 unat_gt_0)

lemma take_add_min: "take 4 (drop n xs) = [] \<longleftrightarrow> length xs \<le> n"
  by auto

text \<open>What is left of the buffer, and the returned payload, when a packet is taken out.\<close>

definition packet_after :: "bscl_packet_t \<Rightarrow> bscl_packet_t \<Rightarrow> u8 list \<Rightarrow> bool" where
  "packet_after pak pak' cs \<longleftrightarrow> buffer_inv (mo pak') \<and> bsize (mo pak') = bsize (mo pak)
     \<and> buffer_contents (mo pak') = cs \<and> pleft pak' = pleft pak"

lemma packet_after_drop_char:
  "buffer_inv (mo pak) \<Longrightarrow>
     packet_after pak (pak\<lparr>mo := snd (buffer_drop_char (mo pak))\<rparr>) (drop 1 (buffer_contents (mo pak)))"
  by (simp add: packet_after_def buffer_drop_char_snd)

lemma packet_take_out:
  assumes "buffer_inv m" and "len < 65536"
  defines "m1 \<equiv> snd (buffer_drop m (word_of_nat 8))"
  defines "m3 \<equiv> snd (buffer_drop (snd (buffer_drop m1 (word_of_nat len))) (word_of_nat 4))"
  shows "buffer_inv m1" and "bsize m1 = bsize m" and "buffer_contents m1 = drop 8 (buffer_contents m)"
    and "buffer_inv m3" and "bsize m3 = bsize m"
    and "buffer_contents m3 = drop (12 + len) (buffer_contents m)"
proof -
  have u: "unat (word_of_nat len :: u32) = len"
    using assms(2) by (simp add: unat_word_u32)
  have u4: "unat (word_of_nat 4 :: u32) = 4"
    by (rule unat_word_u32) simp
  show m1: "buffer_inv m1" "bsize m1 = bsize m" "buffer_contents m1 = drop 8 (buffer_contents m)"
    unfolding m1_def using buffer_drop_snd [OF assms(1), of 8] by simp_all
  note m2 = buffer_drop_snd [OF m1(1), of "word_of_nat len"]
  note m3 = buffer_drop_snd [OF m2(1), of "word_of_nat 4"]
  have "4 + (len + 8) = 12 + len"
    by simp
  then show "buffer_inv m3" "bsize m3 = bsize m"
    "buffer_contents m3 = drop (12 + len) (buffer_contents m)"
    unfolding m3_def by (simp_all only: m1 m2 m3 u u4 drop_drop)
qed

lemma packet_payload:
  assumes "buffer_inv m1" and "len < 65536" and "len \<le> length (buffer_contents m1)"
  shows "\<exists>k. (case sz of None \<Rightarrow> Some (0, [])
      | Some s \<Rightarrow> if unat s < len then buffer_copy m1 0 (ucast (s :: u64))
                 else buffer_copy m1 0 (word_of_nat len))
    = Some (k, case sz of None \<Rightarrow> [] | Some s \<Rightarrow> take (unat s) (take len (buffer_contents m1)))"
proof (cases sz)
  case (Some s)
  show ?thesis
  proof (cases "unat s < len")
    case True
    then have "(ucast s :: u32) = word_of_nat (unat s)"
      by (simp add: unsigned_ucast_eq)
    then show ?thesis
      using True Some assms(2) buffer_copy_at [OF assms(1), of 0 "unat s"] by simp
  next
    case False
    then show ?thesis
      using Some assms(2) buffer_copy_at [OF assms(1), of 0 len] by (simp add: min_def)
  qed
qed simp


lemma bscl_packet_parse_errors:
  fixes pak :: bscl_packet_t
  defines "m \<equiv> mo pak" and "cs \<equiv> buffer_contents (mo pak)"
  defines "len \<equiv> unat (h_len (packet_head_of (take 8 cs)))"
  assumes inv: "buffer_inv m"
  shows "length cs < 8 \<Longrightarrow>
      bscl_packet_parse tbl pak info sz = Some (BSCL_PACKET_ERROR_NOHEAD, None, [], pak)"
    and "8 \<le> length cs \<Longrightarrow> unat (bsize m) < len \<Longrightarrow> bscl_packet_parse tbl pak info sz
      = Some (BSCL_PACKET_ERROR, None, [], pak\<lparr>mo := snd (buffer_drop_char m)\<rparr>)"
    and "8 \<le> length cs \<Longrightarrow> len \<le> unat (bsize m) \<Longrightarrow> length cs < 12 + len \<Longrightarrow>
      bscl_packet_parse tbl pak info sz = Some (BSCL_PACKET_ERROR_NOCRC, None, [], pak)"
proof -
  have lim: "length cs < 4294967296"
    by (simp add: cs_def)
  have len: "len < 65536"
    by (simp add: len_def)
  have h: "buffer_copy (mo pak) 0 (word_of_nat 8)
      = Some (word_of_nat (length (take 8 cs)), take 8 cs)"
    using buffer_copy_at [OF inv, of 0 8] by (simp add: cs_def m_def)
  have "length cs < 8 \<Longrightarrow> (word_of_nat (length (take 8 cs)) :: u32) \<noteq> word_of_nat 8"
    by (subst word_of_nat_eq_u32) auto
  then show "length cs < 8 \<Longrightarrow>
      bscl_packet_parse tbl pak info sz = Some (BSCL_PACKET_ERROR_NOHEAD, None, [], pak)"
    using h by (simp add: bscl_packet_parse_def Let_def)
  assume l8: "8 \<le> length cs"
  then have h8: "buffer_copy (mo pak) 0 (word_of_nat 8) = Some (word_of_nat 8, take 8 cs)"
    using h by simp
  show "unat (bsize m) < len \<Longrightarrow> bscl_packet_parse tbl pak info sz
      = Some (BSCL_PACKET_ERROR, None, [], pak\<lparr>mo := snd (buffer_drop_char m)\<rparr>)"
    using h8 by (simp add: bscl_packet_parse_def Let_def buffer_get_size_def len_def m_def)
  assume "len \<le> unat (bsize m)" and short: "length cs < 12 + len"
  moreover have c: "buffer_copy (mo pak) (word_of_nat (8 + len)) (word_of_nat 4)
      = Some (word_of_nat (length (take 4 (drop (8 + len) cs))), take 4 (drop (8 + len) cs))"
    using buffer_copy_at [OF inv, of "8 + len" 4] len by (simp add: cs_def m_def)
  moreover have "(word_of_nat (length (take 4 (drop (8 + len) cs))) :: u32) \<noteq> word_of_nat 4"
    using short by (subst word_of_nat_eq_u32) auto
  ultimately show "bscl_packet_parse tbl pak info sz = Some (BSCL_PACKET_ERROR_NOCRC, None, [], pak)"
    using h8 by (simp add: bscl_packet_parse_def Let_def buffer_get_size_def len_def m_def)
qed

lemma bscl_packet_parse_full:
  fixes pak :: bscl_packet_t
  defines "m \<equiv> mo pak" and "cs \<equiv> buffer_contents (mo pak)"
  defines "h \<equiv> packet_head_of (take 8 cs)"
  defines "len \<equiv> unat (h_len h)"
  defines "msg \<equiv> \<lparr>inf_len = h_len h, inf_msgid = h_msgid h, inf_seq = h_seq h\<rparr>"
  assumes inv: "buffer_inv m" and full: "12 + len \<le> length cs"
  shows "packet_checksum tbl (take (8 + len) cs) 0 \<noteq> of_le32 (take 4 (drop (8 + len) cs)) \<Longrightarrow>
      bscl_packet_parse tbl pak info sz
        = Some (BSCL_PACKET_BADCRC, None, [], pak\<lparr>mo := snd (buffer_drop_char m)\<rparr>)"
    and "packet_checksum tbl (take (8 + len) cs) 0 = of_le32 (take 4 (drop (8 + len) cs)) \<Longrightarrow>
      \<exists>pak'. bscl_packet_parse tbl pak info sz
        = Some (if drop (12 + len) cs = [] then BSCL_PACKET_MOREDATA else BSCL_PACKET_RESYNC,
            if info then Some msg else None, case sz of None \<Rightarrow> [] | Some s \<Rightarrow> take (unat s) (take len (drop 8 cs)), pak')
        \<and> packet_after pak pak' (drop (12 + len) cs)
        \<and> pstat pak' = (if drop (12 + len) cs = [] then PACKET_STAT_SYNC else pstat pak)"
proof -
  have len: "len < 65536"
    by (simp add: len_def)
  have "length cs \<le> unat (bsize m)"
    using buffer_inv_count [OF inv] by (simp add: cs_def m_def)
  with full have size: "\<not> unat (bsize (mo pak)) < len"
    by (simp add: m_def)
  have h8: "buffer_copy (mo pak) 0 8 = Some (8, take 8 cs)"
    using buffer_copy_at [OF inv, of 0 8] full by (simp add: cs_def m_def)
  have c4: "buffer_copy (mo pak) (word_of_nat (8 + len)) 4
      = Some (4, take 4 (drop (8 + len) cs))"
    using buffer_copy_at [OF inv, of "8 + len" 4] len full by (simp add: cs_def m_def)
  have crc: "packet_crc_buffer tbl pak len = Some (packet_checksum tbl (take (8 + len) cs) 0)"
    using packet_crc_loop_spec [of "mo pak" "len + 8" 0 tbl 0] inv full
    by (simp add: packet_crc_buffer_def cs_def m_def add.commute)
  note defs = bscl_packet_parse_def Let_def buffer_get_size_def
  have L: "unat (h_len (packet_head_of (take 8 cs))) = len"
    by (simp add: len_def h_def)
  show "bscl_packet_parse tbl pak info sz
        = Some (BSCL_PACKET_BADCRC, None, [], pak\<lparr>mo := snd (buffer_drop_char m)\<rparr>)"
    if "packet_checksum tbl (take (8 + len) cs) 0 \<noteq> of_le32 (take 4 (drop (8 + len) cs))"
    using that size h8 c4 by (simp add: defs L crc m_def)
  define m1 where "m1 = snd (buffer_drop (mo pak) 8)"
  define m3 where "m3 = snd (buffer_drop (snd (buffer_drop m1 (word_of_nat len))) 4)"
  note out = packet_take_out [OF inv len]
  have m1: "buffer_inv m1" "buffer_contents m1 = drop 8 cs"
    using out(1,3) by (simp_all add: m1_def m_def cs_def)
  have m3: "buffer_inv m3" "bsize m3 = bsize (mo pak)" "buffer_contents m3 = drop (12 + len) cs"
    using out(4-6) by (simp_all add: m3_def m1_def m_def cs_def)
  then have pos: "0 < buffer_get_count m3 \<longleftrightarrow> drop (12 + len) cs \<noteq> []"
    by (simp only: buffer_count_pos)
  have "len \<le> length (buffer_contents m1)"
    using full m1 by simp
  from packet_payload [OF m1(1) len this, of sz] obtain k where
    "(case sz of None \<Rightarrow> Some (0, [])
      | Some s \<Rightarrow> if unat s < len then buffer_copy m1 0 (ucast (s :: u64))
                 else buffer_copy m1 0 (word_of_nat len))
    = Some (k, case sz of None \<Rightarrow> [] | Some s \<Rightarrow> take (unat s) (take len (drop 8 cs)))"
    unfolding m1(2) by blast
  then have k: "(case sz of None \<Rightarrow> Some (0, [])
      | Some s \<Rightarrow> if unat s < unat (h_len (packet_head_of (take 8 cs)))
          then buffer_copy m1 0 (ucast (s :: u64))
          else buffer_copy m1 0 (word_of_nat (unat (h_len (packet_head_of (take 8 cs))))))
    = Some (k, case sz of None \<Rightarrow> [] | Some s \<Rightarrow> take (unat s) (take len (drop 8 cs)))"
    by (simp only: L)
  show "\<exists>pak'. bscl_packet_parse tbl pak info sz
        = Some (if drop (12 + len) cs = [] then BSCL_PACKET_MOREDATA else BSCL_PACKET_RESYNC,
            if info then Some msg else None, case sz of None \<Rightarrow> [] | Some s \<Rightarrow> take (unat s) (take len (drop 8 cs)), pak')
        \<and> packet_after pak pak' (drop (12 + len) cs)
        \<and> pstat pak' = (if drop (12 + len) cs = [] then PACKET_STAT_SYNC else pstat pak)"
    if "packet_checksum tbl (take (8 + len) cs) 0 = of_le32 (take 4 (drop (8 + len) cs))"
  proof -
    have "bscl_packet_parse tbl pak info sz
        = Some (if drop (12 + len) cs = [] then BSCL_PACKET_MOREDATA else BSCL_PACKET_RESYNC,
            if info then Some msg else None, case sz of None \<Rightarrow> [] | Some s \<Rightarrow> take (unat s) (take len (drop 8 cs)),
            pak\<lparr>mo := m3, pstat := if drop (12 + len) cs = [] then PACKET_STAT_SYNC else pstat pak\<rparr>)"
      using that size h8 c4 k
      by (simp add: defs L crc pos msg_def h_def flip: m1_def m3_def)
    then show ?thesis
      using m3 by (auto simp: packet_after_def)
  qed
qed

lemma bscl_packet_parse_contents:
  assumes "buffer_inv (mo pak)"
    and "parse_contents tbl (unat (bsize (mo pak))) (buffer_contents (mo pak)) = (r, msg, cs)"
  shows "\<exists>pak'. bscl_packet_parse tbl pak info sz
      = Some (r, if info then map_option fst msg else None,
          case (msg, sz) of (Some (_, data), Some s) \<Rightarrow> take (unat s) data | _ \<Rightarrow> [], pak')
    \<and> packet_after pak pak' cs
    \<and> pstat pak' = (if r = BSCL_PACKET_MOREDATA then PACKET_STAT_SYNC else pstat pak)"
proof -
  let ?cs = "buffer_contents (mo pak)"
  let ?len = "unat (h_len (packet_head_of (take 8 ?cs)))"
  let ?ok = "packet_checksum tbl (take (8 + ?len) ?cs) 0 = of_le32 (take 4 (drop (8 + ?len) ?cs))"
  note err = bscl_packet_parse_errors [OF assms(1), of tbl info sz]
  note full = bscl_packet_parse_full [OF assms(1), of tbl info sz]
  note spec = assms(2) [unfolded parse_contents_def Let_def]
  have after: "packet_after pak pak ?cs"
    using assms(1) by (simp add: packet_after_def)
  note drop1 = packet_after_drop_char [OF assms(1)]
  have size: "?len \<le> unat (bsize (mo pak))" if "12 + ?len \<le> length ?cs"
    using that buffer_inv_count [OF assms(1)] by simp
  consider "length ?cs < 8" | "8 \<le> length ?cs" "unat (bsize (mo pak)) < ?len"
    | "8 \<le> length ?cs" "?len \<le> unat (bsize (mo pak))" "length ?cs < 12 + ?len"
    | "12 + ?len \<le> length ?cs" "\<not> ?ok" | "12 + ?len \<le> length ?cs" ?ok
    by linarith
  then show ?thesis
  proof cases
    case 1
    then have "(r, msg, cs) = (BSCL_PACKET_ERROR_NOHEAD, None, ?cs)"
      using spec by (simp del: length_buffer_contents)
    then show ?thesis using err(1) [OF 1] after by simp
  next
    case 2
    then have "(r, msg, cs) = (BSCL_PACKET_ERROR, None, drop 1 ?cs)"
      using spec by (simp del: length_buffer_contents)
    then show ?thesis using err(2) [OF 2] drop1 by simp
  next
    case 3
    then have "(r, msg, cs) = (BSCL_PACKET_ERROR_NOCRC, None, ?cs)"
      using spec by (simp del: length_buffer_contents)
    then show ?thesis using err(3) [OF 3] after by simp
  next
    case 4
    then have "(r, msg, cs) = (BSCL_PACKET_BADCRC, None, drop 1 ?cs)"
      using spec size by (simp del: length_buffer_contents)
    then show ?thesis using full(1) [OF 4] drop1 by simp
  next
    case 5
    let ?rest = "drop (12 + ?len) ?cs" and ?h = "packet_head_of (take 8 ?cs)"
    have "(r, msg, cs) = (if ?rest = [] then BSCL_PACKET_MOREDATA else BSCL_PACKET_RESYNC,
        Some (\<lparr>inf_len = h_len ?h, inf_msgid = h_msgid ?h, inf_seq = h_seq ?h\<rparr>,
          take ?len (drop 8 ?cs)), ?rest)"
      using spec size 5 by (auto simp: drop_take simp del: length_buffer_contents drop_eq_Nil)
    moreover obtain pak' where "bscl_packet_parse tbl pak info sz
        = Some (if ?rest = [] then BSCL_PACKET_MOREDATA else BSCL_PACKET_RESYNC,
            if info then Some \<lparr>inf_len = h_len ?h, inf_msgid = h_msgid ?h, inf_seq = h_seq ?h\<rparr> else None,
            case sz of None \<Rightarrow> [] | Some s \<Rightarrow> take (unat s) (take ?len (drop 8 ?cs)), pak')"
      "packet_after pak pak' ?rest"
      "pstat pak' = (if ?rest = [] then PACKET_STAT_SYNC else pstat pak)"
      using full(2) [OF 5] by blast
    ultimately show ?thesis
      by (cases sz; cases "?rest = []") (simp_all only: prod.inject option.case prod.case
        option.map fst_conv if_True if_False, (rule exI [of _ pak'], simp)+)
  qed
qed

section \<open>Well-formed packets\<close>

definition packet_image :: "u32 list \<Rightarrow> packet_head_t \<Rightarrow> u8 list \<Rightarrow> u8 list" where
  "packet_image tbl h data = packet_head_bytes h @ data
     @ le32 (packet_checksum tbl (packet_head_bytes h @ data) 0)"

lemma length_packet_image [simp]: "length (packet_image tbl h data) = 12 + length data"
  by (simp add: packet_image_def)

lemma parse_contents_frame:
  assumes "length data = unat (h_len h)" and "length data \<le> cap"
  shows "parse_contents tbl cap (packet_head_bytes h @ data @ le32 c @ rest)
    = (if packet_checksum tbl (packet_head_bytes h @ data) 0 \<noteq> c
       then (BSCL_PACKET_BADCRC, None, drop 1 (packet_head_bytes h @ data @ le32 c @ rest))
       else (if rest = [] then BSCL_PACKET_MOREDATA else BSCL_PACKET_RESYNC,
         Some (\<lparr>inf_len = h_len h, inf_msgid = h_msgid h, inf_seq = h_seq h\<rparr>, data), rest))"
proof -
  define cs where "cs = packet_head_bytes h @ data @ le32 c @ rest"
  have "packet_head_of (take 8 cs) = h"
    and "take (8 + unat (h_len h)) cs = packet_head_bytes h @ data"
    and "drop (8 + unat (h_len h)) cs = le32 c @ rest" and "drop (12 + unat (h_len h)) cs = rest"
    and "\<not> length cs < 12 + unat (h_len h)" and "\<not> length cs < 8"
    by (simp_all add: cs_def flip: assms(1))
  moreover have "take 4 (le32 c @ rest) = le32 c" and "drop 8 (packet_head_bytes h @ data) = data"
    by simp_all
  moreover have "\<not> cap < unat (h_len h)"
    using assms by simp
  ultimately show ?thesis
    unfolding cs_def [symmetric] parse_contents_def Let_def
    by (simp only: if_False of_le32_le32)
qed

lemma parse_contents_image:
  assumes "length data = unat (h_len h)" and "length data \<le> cap"
  shows "parse_contents tbl cap (packet_image tbl h data @ rest)
    = (if rest = [] then BSCL_PACKET_MOREDATA else BSCL_PACKET_RESYNC,
       Some (\<lparr>inf_len = h_len h, inf_msgid = h_msgid h, inf_seq = h_seq h\<rparr>, data), rest)"
  using parse_contents_frame [OF assms] by (simp add: packet_image_def)

section \<open>Writing\<close>

lemma sint_eq_unat:
  assumes "unat (x :: u32) < 2147483648"
  shows "sint x = int (unat x)"
proof -
  have "int (unat x) < int 2147483648"
    using assms by (simp only: of_nat_less_iff)
  then have "uint x < 2 ^ 31"
    by simp
  then have "signed_take_bit 31 (uint x) = uint x"
    by (intro signed_take_bit_int_eq_self) (simp_all add: order_trans [of _ 0])
  then show ?thesis
    by (simp add: sint_uint)
qed

lemma sint_get_space:
  assumes "buffer_inv b" and "buffer_free b < 2147483648"
  shows "sint (buffer_get_space b) = int (buffer_free b)"
  using sint_eq_unat [of "buffer_get_space b"] assms(2) by (simp add: buffer_free_alt [OF assms(1)])

lemma buffer_write_all:
  assumes "buffer_inv b" and "length data \<le> buffer_free b"
  shows "\<exists>b'. buffer_write b data (word_of_nat (length data)) = Some (word_of_nat (length data), b')
    \<and> buffer_inv b' \<and> bsize b' = bsize b \<and> buffer_contents b' = buffer_contents b @ data"
proof -
  have "length data < 4294967296"
    using assms buffer_inv_le [OF assms(1)] by (simp add: buffer_free_def)
  then have u: "unat (word_of_nat (length data) :: u32) = length data"
    by (rule unat_word_u32)
  obtain n b' where n: "buffer_write b data (word_of_nat (length data)) = Some (n, b')"
    "unat n = length data" "buffer_inv b'" "bsize b' = bsize b"
    "buffer_contents b' = buffer_contents b @ data"
    using buffer_write_spec [OF assms(1), of "word_of_nat (length data)" data] assms(2)
    by (auto simp: u)
  moreover from n(2) have "n = word_of_nat (length data)"
    by (metis of_nat_unat ucast_id)
  ultimately show ?thesis by blast
qed

lemma buffer_free_write:
  assumes "buffer_contents b' = buffer_contents b @ xs" and "bsize b' = bsize b"
  shows "buffer_free b' = buffer_free b - length xs"
  using assms arg_cong [OF assms(1), of length] by (simp add: buffer_free_def)

text \<open>What the writer puts into the buffer: the checksum of two chained calls.\<close>

definition written_head :: "u8 \<Rightarrow> u32 \<Rightarrow> u8 list \<Rightarrow> packet_head_t" where
  "written_head msgid seq data = \<lparr>h_magic = PACKET_MAGIC, h_msgid = msgid,
     h_len = word_of_nat (length data), h_seq = seq\<rparr>"

definition written_image :: "u32 list \<Rightarrow> u8 \<Rightarrow> u32 \<Rightarrow> u8 list \<Rightarrow> u8 list" where
  "written_image tbl msgid seq data =
     (let hb = packet_head_bytes (written_head msgid seq data)
      in hb @ data @ le32 (bscl_crc32 tbl data (bscl_crc32 tbl hb 0)))"

lemma bscl_packet_write_spec:
  assumes inv: "buffer_inv (mo pak)" and lt: "buffer_free (mo pak) < 2147483648"
    and data: "length data < 2147483636"
  shows "buffer_free (mo pak) < 12 + length data \<Longrightarrow>
      bscl_packet_write tbl pak msgid seq data (int (length data)) = Some (- 1, pak)"
    and "12 + length data \<le> buffer_free (mo pak) \<Longrightarrow>
      \<exists>pak'. bscl_packet_write tbl pak msgid seq data (int (length data)) = Some (0, pak')
        \<and> packet_after pak pak' (buffer_contents (mo pak) @ written_image tbl msgid seq data)
        \<and> pstat pak' = pstat pak"
proof -
  note space = sint_get_space [OF inv lt]
  have "signed_take_bit 31 (int (length data) + 12) = int (length data) + 12"
    using data by (intro signed_take_bit_int_eq_self) simp_all
  then have "sint (word_of_int (int (length data) + 12) :: u32) = int (length data) + 12"
    unfolding signed_of_int by simp
  then have size: "sint (12 + word_of_nat (length data) :: u32) = int (length data) + 12"
    by (simp add: add.commute)
  show "buffer_free (mo pak) < 12 + length data \<Longrightarrow>
      bscl_packet_write tbl pak msgid seq data (int (length data)) = Some (- 1, pak)"
    by (simp add: bscl_packet_write_def Let_def space size)
  assume fits: "12 + length data \<le> buffer_free (mo pak)"
  let ?h = "written_head msgid seq data"
  let ?hb = "packet_head_bytes ?h"
  let ?c = "le32 (bscl_crc32 tbl data (bscl_crc32 tbl ?hb 0))"
  have h: "\<lparr>h_magic = PACKET_MAGIC, h_msgid = msgid, h_len = word_of_nat (length data),
      h_seq = seq\<rparr> = ?h"
    by (simp add: written_head_def)
  obtain m1 where m1: "buffer_write (mo pak) ?hb 8 = Some (8, m1)" "buffer_inv m1"
    "bsize m1 = bsize (mo pak)" "buffer_contents m1 = buffer_contents (mo pak) @ ?hb"
    using buffer_write_all [OF inv, of ?hb] fits by auto
  moreover have f1: "buffer_free m1 = buffer_free (mo pak) - 8"
    using buffer_free_write [OF m1(4,3)] by simp
  moreover obtain m2 where m2: "buffer_write m1 data (word_of_nat (length data))
      = Some (word_of_nat (length data), m2)" "buffer_inv m2"
    "bsize m2 = bsize m1" "buffer_contents m2 = buffer_contents m1 @ data"
    using buffer_write_all [OF m1(2), of data] fits f1 by fastforce
  moreover have f2: "buffer_free m2 = buffer_free m1 - length data"
    by (rule buffer_free_write [OF m2(4,3)])
  moreover obtain m3 where "buffer_write m2 ?c 4 = Some (4, m3)" "buffer_inv m3"
    "bsize m3 = bsize m2" "buffer_contents m3 = buffer_contents m2 @ ?c"
    using buffer_write_all [OF m2(2), of ?c] fits f1 f2 by fastforce
  ultimately show "\<exists>pak'. bscl_packet_write tbl pak msgid seq data (int (length data))
        = Some (0, pak')
      \<and> packet_after pak pak' (buffer_contents (mo pak) @ written_image tbl msgid seq data)
      \<and> pstat pak' = pstat pak"
    using fits
    by (simp add: bscl_packet_write_def Let_def space size h mem_simps packet_after_def
      written_image_def)
qed

text \<open>One piece against two: the registers differ by the complement between the calls.\<close>

lemma written_checksum_differs:
  assumes "bit poly 31" and "length data \<le> 248"
  shows "packet_checksum (bscl_crc32_init poly) (packet_head_bytes h @ data) 0
    \<noteq> bscl_crc32 (bscl_crc32_init poly) data
        (bscl_crc32 (bscl_crc32_init poly) (packet_head_bytes h) 0)"
proof -
  let ?hb = "packet_head_bytes h"
  have "?hb \<noteq> []"
    by (simp add: packet_head_bytes_def)
  then have "packet_checksum (bscl_crc32_init poly) (?hb @ data) 0
      = bscl_crc32 (bscl_crc32_init poly) (?hb @ data) 0"
    using assms(2) by (intro packet_checksum_single) simp_all
  also have "\<dots> = NOT (crc32_raw poly data (crc32_raw poly ?hb 0))"
    by (simp add: bscl_crc32_raw crc32_raw_append)
  finally have parsed: "packet_checksum (bscl_crc32_init poly) (?hb @ data) 0
    = NOT (crc32_raw poly data (crc32_raw poly ?hb 0))" .
  have "crc32_raw poly data (NOT (crc32_raw poly ?hb 0))
      \<noteq> crc32_raw poly data (crc32_raw poly ?hb 0)"
  proof
    assume "crc32_raw poly data (NOT (crc32_raw poly ?hb 0))
      = crc32_raw poly data (crc32_raw poly ?hb 0)"
    then have "NOT (crc32_raw poly ?hb 0) = crc32_raw poly ?hb 0"
      by (rule crc32_raw_inj [OF assms(1)])
    then have "bit (NOT (crc32_raw poly ?hb 0)) 0 = bit (crc32_raw poly ?hb 0) 0"
      by simp
    then show False by (simp add: bit_not_iff)
  qed
  then show ?thesis
    by (metis parsed bscl_crc32_raw bit.double_compl)
qed

section \<open>Properties\<close>

text \<open>
  C2: on every content of the buffer, \<open>bscl_packet_parse\<close> does what \<open>parse_contents\<close> says: the
  return code of each failed check, one byte dropped after a bad length or checksum and none
  when data is missing, and otherwise the header fields, at most \<open>size\<close> payload bytes, and
  exactly the packet removed. The state returns to SYNC exactly when the buffer becomes empty.
  These are the codes that the code returns. The comment in the header, that the result is the length of
  the packet or -1, and the one in the code, that a wrong checksum gives -1, say otherwise: a parsed
  packet gives 0 or 2, missing data -3 or -4, and a wrong checksum -2.
\<close>

theorem bscl_packet_parse_refines:
  assumes "buffer_inv (mo pak)"
    and "parse_contents tbl (unat (bsize (mo pak))) (buffer_contents (mo pak)) = (r, msg, cs)"
  shows "\<exists>pak'. bscl_packet_parse tbl pak info sz
      = Some (r, if info then map_option fst msg else None,
          case (msg, sz) of (Some (_, data), Some s) \<Rightarrow> take (unat s) data | _ \<Rightarrow> [], pak')
    \<and> packet_after pak pak' cs
    \<and> pstat pak' = (if r = BSCL_PACKET_MOREDATA then PACKET_STAT_SYNC else pstat pak)"
  by (rule bscl_packet_parse_contents [OF assms])

lemma bscl_packet_parse_refines_witness:
  "\<exists>pak'. bscl_packet_parse [] (bscl_packet_init [0, 0] 2) True None
    = Some (BSCL_PACKET_ERROR_NOHEAD, None, [], pak')"
proof -
  let ?pak = "bscl_packet_init [0, 0] 2"
  have inv: "buffer_inv (mo ?pak)" and nil: "buffer_contents (mo ?pak) = []"
    using buffer_init_spec [of 1 2 "[0, 0]"] by (simp_all add: bscl_packet_init_def)
  then have "parse_contents [] (unat (bsize (mo ?pak))) (buffer_contents (mo ?pak))
      = (BSCL_PACKET_ERROR_NOHEAD, None, [])"
    by (simp add: parse_contents_def Let_def)
  from bscl_packet_parse_refines [OF inv this, of True None] show ?thesis by auto
qed

text \<open>
  What a correct sender framed is decoded: when the buffer starts with a header, the data of
  the announced length and the checksum over both, the parser returns the header fields and the
  data (cut at \<open>size\<close>), removes exactly these bytes, and asks for more data or for a resync
  according to whether bytes are left.
\<close>

lemma bscl_packet_parse_decodes:
  assumes "buffer_inv (mo pak)" and "length data = unat (h_len h)"
    and "buffer_contents (mo pak) = packet_image tbl h data @ rest"
  shows "\<exists>pak'. bscl_packet_parse tbl pak info (Some s)
      = Some (if rest = [] then BSCL_PACKET_MOREDATA else BSCL_PACKET_RESYNC,
          if info then Some \<lparr>inf_len = h_len h, inf_msgid = h_msgid h, inf_seq = h_seq h\<rparr> else None,
          take (unat s) data, pak')
    \<and> packet_after pak pak' rest
    \<and> pstat pak' = (if rest = [] then PACKET_STAT_SYNC else pstat pak)"
proof -
  let ?cap = "unat (bsize (mo pak))"
  have "length (packet_image tbl h data @ rest) \<le> ?cap"
    using buffer_inv_count [OF assms(1)] by (simp flip: assms(3))
  then have "length data \<le> ?cap" by simp
  note parse = parse_contents_image [OF assms(2) this, of tbl rest]
  have take_out: "\<exists>pak'. bscl_packet_parse tbl pak info (Some s)
      = Some (r, if info then map_option fst msg else None,
          case (msg, Some s) of (Some (_, data), Some s) \<Rightarrow> take (unat s) data | _ \<Rightarrow> [], pak')
    \<and> packet_after pak pak' cs
    \<and> pstat pak' = (if r = BSCL_PACKET_MOREDATA then PACKET_STAT_SYNC else pstat pak)"
    if "parse_contents tbl ?cap (buffer_contents (mo pak)) = (r, msg, cs)" for r msg cs
    by (rule bscl_packet_parse_contents [OF assms(1) that])
  show ?thesis
    using take_out [unfolded assms(3), OF parse] by (auto split: if_splits)
qed

lemma bscl_packet_parse_decodes_witness:
  "\<exists>pak'. bscl_packet_parse (bscl_crc32_init 0xEDB88320)
     \<lparr>mo = \<lparr>mem_buf = packet_image (bscl_crc32_init 0xEDB88320) \<lparr>h_magic = PACKET_MAGIC, h_msgid = 5, h_len = 2, h_seq = 9\<rparr>
         [1, 2] @ [0, 0], bsize = 16, wrp = 14, rdp = 0\<rparr>, pleft = 0, pstat = PACKET_STAT_CRC\<rparr> True (Some 1)
   = Some (BSCL_PACKET_MOREDATA, Some \<lparr>inf_len = 2, inf_msgid = 5, inf_seq = 9\<rparr>, [1], pak')"
proof -
  let ?t = "bscl_crc32_init 0xEDB88320"
  define h where "h = \<lparr>h_magic = PACKET_MAGIC, h_msgid = 5, h_len = 2, h_seq = 9\<rparr>"
  define p where "p = packet_image ?t h [1, 2]"
  define b where "b = \<lparr>mem_buf = p @ [0, 0], bsize = 16, wrp = 14, rdp = 0\<rparr>"
  have "\<exists>k<32. unat (16 :: u32) = 2 ^ k"
    by (rule exI [of _ 4]) simp
  then have inv: "buffer_inv b"
    by (simp add: buffer_inv_def buffer_get_count_def b_def p_def)
  have "buffer_contents b = p"
    by (simp add: buffer_contents_def buffer_get_count_def b_def p_def ring_get_flat)
  with bscl_packet_parse_decodes
    [of "\<lparr>mo = b, pleft = 0, pstat = PACKET_STAT_CRC\<rparr>" "[1, 2]" h ?t "[]" True 1] inv
  show ?thesis
    by (auto simp: h_def b_def p_def)
qed

text \<open>
  C13: \<open>bscl_packet_write\<close> refuses a message that does not fit and changes nothing, and
  otherwise appends header, data and checksum and returns 0; but the checksum is not the one
  \<open>bscl_packet_parse\<close> computes: for every polynomial with bit 31 (every CRC-32), every message
  of at most 248 bytes written into an empty packet buffer is rejected by the parser as BADCRC.
\<close>

theorem bscl_packet_write_rejected_by_parse:
  assumes "buffer_inv (mo pak)" and "buffer_contents (mo pak) = []"
    and "unat (bsize (mo pak)) < 2 ^ 31" and "length data \<le> 248" and "bit poly 31"
  shows "if unat (bsize (mo pak)) < 12 + length data
    then bscl_packet_write (bscl_crc32_init poly) pak msgid seq data (int (length data))
      = Some (- 1, pak)
    else \<exists>pak' pak''.
      bscl_packet_write (bscl_crc32_init poly) pak msgid seq data (int (length data)) = Some (0, pak')
      \<and> buffer_contents (mo pak') = written_image (bscl_crc32_init poly) msgid seq data
      \<and> bscl_packet_parse (bscl_crc32_init poly) pak' info sz = Some (BSCL_PACKET_BADCRC, None, [], pak'')"
proof -
  let ?tbl = "bscl_crc32_init poly" and ?h = "written_head msgid seq data"
  have free: "buffer_free (mo pak) = unat (bsize (mo pak))"
    using assms(2) by (simp add: buffer_free_def del: length_buffer_contents)
  then have lt: "buffer_free (mo pak) < 2147483648"
    using assms(3) by simp
  have "length data < 2147483636"
    using assms(4) by simp
  note spec = bscl_packet_write_spec [OF assms(1) lt this, of ?tbl msgid seq, unfolded free assms(2)]
  have reject: "\<exists>pak''. bscl_packet_parse ?tbl pak' info sz = Some (BSCL_PACKET_BADCRC, None, [], pak'')"
    if "packet_after pak pak' (written_image ?tbl msgid seq data)"
      "12 + length data \<le> unat (bsize (mo pak))" for pak'
  proof -
    have len: "length data = unat (h_len ?h)"
      using assms(4) by (simp add: written_head_def unat_word_u16)
    have inv: "buffer_inv (mo pak')" and cs: "bsize (mo pak') = bsize (mo pak)"
      "buffer_contents (mo pak') = written_image ?tbl msgid seq data"
      using that(1) by (simp_all add: packet_after_def)
    have "length data \<le> unat (bsize (mo pak))"
      using that(2) by simp
    from parse_contents_frame [OF len this, of ?tbl _ "[]"]
    have "\<exists>cs. parse_contents ?tbl (unat (bsize (mo pak'))) (buffer_contents (mo pak'))
        = (BSCL_PACKET_BADCRC, None, cs)"
      using written_checksum_differs [OF assms(5,4), of ?h]
      by (simp add: cs written_image_def Let_def)
    then obtain cs' where "parse_contents ?tbl (unat (bsize (mo pak'))) (buffer_contents (mo pak'))
        = (BSCL_PACKET_BADCRC, None, cs')" ..
    from bscl_packet_parse_contents [OF inv this, of info sz] show ?thesis by auto
  qed
  show ?thesis
  proof (cases "unat (bsize (mo pak)) < 12 + length data")
    case False
    then show ?thesis
      using spec(2) reject by (auto simp: packet_after_def)
  qed (use spec(1) in simp)
qed

lemma bscl_packet_write_rejected_by_parse_witness:
  "\<exists>pak' pak''. bscl_packet_write (bscl_crc32_init 0xEDB88320)
      (bscl_packet_init (replicate 16 0) 16) 1 2 [7] (int (length [7 :: u8])) = Some (0, pak')
    \<and> bscl_packet_parse (bscl_crc32_init 0xEDB88320) pak' True None
      = Some (BSCL_PACKET_BADCRC, None, [], pak'')"
proof -
  let ?pak = "bscl_packet_init (replicate 16 0) 16"
  have inv: "buffer_inv (mo ?pak)" and nil: "buffer_contents (mo ?pak) = []"
    using buffer_init_spec [of 4 16 "replicate 16 0"] by (simp_all add: bscl_packet_init_def)
  have sz: "unat (bsize (mo ?pak)) = 16"
    by (simp add: bscl_packet_init_def buffer_init_def)
  have "bit (0xEDB88320 :: u32) 31"
    by simp
  from bscl_packet_write_rejected_by_parse [OF inv nil _ _ this, of "[7]" 1 2 True None] show ?thesis
    by (auto simp: sz)
qed

end
