(* ===== verification/Packet_Receive.thy ===== *)
theory Packet_Receive
  imports Packet_Parse
begin

text \<open>
  Framing of a byte stream. \<open>rx_state\<close> is the state of the receiver after \<open>k\<close> bytes of a
  packet: it is kept by \<open>bscl_packet_receive\<close> however the stream is cut into chunks, and by
  \<open>bscl_packet_receive_byte\<close> for the packets whose length fits into one byte.
\<close>

section \<open>The receiver between two chunks\<close>

text \<open>A packet as a list of bytes: magic, length field and total length.\<close>

definition packet_len :: "u8 list \<Rightarrow> nat" where
  "packet_len p = unat (of_le16 (take 2 (drop 2 p)))"

definition framed :: "u8 list \<Rightarrow> bool" where
  "framed p \<longleftrightarrow> 8 \<le> length p \<and> hd p = PACKET_MAGIC \<and> length p = 12 + packet_len p
     \<and> packet_len p < 65524"

definition rx_left :: "nat \<Rightarrow> nat \<Rightarrow> nat" where
  "rx_left len k = (if k < 8 then 8 - k else if k < 8 + len then 8 + len - k else 12 + len - k)"

definition rx_stat :: "nat \<Rightarrow> nat \<Rightarrow> packet_stat" where
  "rx_stat len k = (if k < 8 then PACKET_STAT_HEAD else if k < 8 + len then PACKET_STAT_DATA
     else PACKET_STAT_CRC)"

definition rx_base :: "u8 list \<Rightarrow> nat \<Rightarrow> bscl_packet_t \<Rightarrow> bool" where
  "rx_base p k pak \<longleftrightarrow> buffer_inv (mo pak) \<and> length p \<le> unat (bsize (mo pak))
     \<and> unat (bsize (mo pak)) < 2147483648 \<and> k < length p \<and> buffer_contents (mo pak) = take k p"

definition rx_core :: "u8 list \<Rightarrow> nat \<Rightarrow> bscl_packet_t \<Rightarrow> bool" where
  "rx_core p k pak \<longleftrightarrow> rx_base p k pak
     \<and> pstat pak = rx_stat (packet_len p) k \<and> unat (pleft pak) = rx_left (packet_len p) k"

definition rx_state :: "u8 list \<Rightarrow> nat \<Rightarrow> bscl_packet_t \<Rightarrow> bool" where
  "rx_state p k pak \<longleftrightarrow>
     (if k = 0 then rx_base p 0 pak \<and> pstat pak = PACKET_STAT_SYNC else rx_core p k pak)"

lemma framed_len: "framed p \<Longrightarrow> length p = 12 + packet_len p"
  and framed_lt: "framed p \<Longrightarrow> packet_len p < 65524"
  by (simp_all add: framed_def)

lemma two_bytes: "Suc i < length p \<Longrightarrow> take 2 (drop i p) = [p ! i, p ! Suc i]"
  by (simp add: numeral_2_eq_2 take_Suc_conv_app_nth Cons_nth_drop_Suc take_Suc hd_drop_conv_nth tl_drop drop_Suc)

lemma unat_ucast_u16_u64 [simp]: "unat (ucast (x :: u16) :: u64) = unat x"
  by (simp add: unsigned_ucast_eq take_bit_nat_eq_self_iff less_trans [OF u16_less_pow])

text \<open>The length field is found whichever part of the header is stored already.\<close>

lemma packet_head_len_spec:
  assumes inv: "buffer_inv (mo pak)" and cs: "buffer_contents (mo pak) = take k p"
    and left: "unat (pleft pak) = 8 - k" and k: "k < 8" "8 \<le> length p" "0 \<le> i"
    and buf: "take (8 - k) (drop (nat i) buf) = take (8 - k) (drop k p)"
  shows "map_option unat (packet_head_len pak buf i) = Some (packet_len p)"
proof -
  have have_k: "unat (word_of_nat 8 - ucast (pleft pak) :: u64) = k"
    using left k(1) by (subst unat_minus_le) (simp_all add: word_le_nat_alt)
  then have h: "(8 - ucast (pleft pak) :: u64) = word_of_nat k"
    by (metis of_nat_numeral of_nat_unat ucast_id)
  have nth: "buf ! (nat i + j) = p ! (k + j)" and nlen: "nat i + j < length buf" if "k + j < 8" for j
  proof -
    have "length (take (8 - k) (drop (nat i) buf)) = 8 - k"
      using k by (simp add: buf)
    then show "nat i + j < length buf"
      using that by simp
    have "take (8 - k) (drop (nat i) buf) ! j = take (8 - k) (drop k p) ! j"
      by (simp add: buf)
    then show "buf ! (nat i + j) = p ! (k + j)"
      using that k \<open>nat i + j < length buf\<close> by simp
  qed
  have p2: "packet_len p = unat (of_le16 [p ! 2, p ! 3])"
    using two_bytes [of 2 p] k by (simp add: packet_len_def)
  have le2: "(word_of_nat 8 - ucast (pleft pak) :: u64) \<le> word_of_nat 2 \<longleftrightarrow> k \<le> 2"
    unfolding word_le_nat_alt have_k by simp
  have eq3: "(word_of_nat 8 - ucast (pleft pak) :: u64) = word_of_nat 2 + 1 \<longleftrightarrow> k = 3"
    unfolding word_unat_eq_iff have_k by simp
  have head: "packet_head_len pak buf i =
    (if k \<le> 2 then do { bs \<leftarrow> mem_read buf (nat i + 2 - k) 2; Some (of_le16 bs) }
     else if k = 3 then do {
       (_, lo) \<leftarrow> buffer_copy (mo pak) (word_of_nat 2) 1;
       hi \<leftarrow> mem_read buf (nat i) 1;
       Some (of_le16 [hd (lo @ [0]), hd hi])
     } else do {
       (_, bs) \<leftarrow> buffer_copy (mo pak) (word_of_nat 2) 2;
       Some (of_le16 (take 2 (bs @ [0, 0])))
     })"
    by (simp only: packet_head_len_def Let_def le2 eq3 have_k)
  consider "k \<le> 2" | "k = 3" | "4 \<le> k"
    by linarith
  then show ?thesis
  proof cases
    case 1
    have "nat i + 2 - k = nat i + (2 - k)" and "Suc (nat i + (2 - k)) = nat i + (3 - k)"
      using 1 by linarith+
    then have "mem_read buf (nat i + 2 - k) 2 = Some [p ! 2, p ! 3]"
      using 1 nth [of "2 - k"] nth [of "3 - k"] nlen [of "3 - k"] two_bytes [of "nat i + (2 - k)" buf]
      by (simp add: mem_read_def)
    then show ?thesis
      using 1 by (simp add: head p2)
  next
    case 2
    have "buffer_copy (mo pak) (word_of_nat 2) 1 = Some (1, [p ! 2])"
      using buffer_copy_at [OF inv, of 2 1] 2 k
      by (simp add: cs drop_take take_Suc hd_drop_conv_nth)
    moreover have "mem_read buf (nat i) 1 = Some [p ! 3]"
      using 2 nth [of 0] nlen [of 0] by (simp add: mem_read_def take_Suc hd_drop_conv_nth)
    ultimately show ?thesis
      using 2 by (simp add: head p2)
  next
    case 3
    then have "take 2 (drop 2 (take k p)) = [p ! 2, p ! 3]"
      using k two_bytes [of 2 p] by (simp add: drop_take min_absorb1)
    then have "buffer_copy (mo pak) (word_of_nat 2) 2 = Some (2, [p ! 2, p ! 3])"
      using buffer_copy_at [OF inv, of 2 2] unfolding cs by simp
    then show ?thesis
      using 3 by (simp add: head p2)
  qed
qed


section \<open>One call\<close>

lemma word_of_int_minus: "i \<le> (len :: int) \<Longrightarrow> (word_of_int (len - i) :: 'a::len word) = word_of_nat (nat (len - i))"
  by (simp add: of_nat_nat)

text \<open>Storing \<open>a\<close> more bytes of the packet, which fit.\<close>

lemma rx_write:
  assumes base: "rx_base p k pak" and a: "k + a \<le> length p"
    and xs: "take a buf' = take a (drop k p)"
  shows "\<exists>m. buffer_write (mo pak) buf' (word_of_nat a) = Some (word_of_nat a, m) \<and> buffer_inv m
    \<and> bsize m = bsize (mo pak) \<and> buffer_contents m = take (k + a) p"
proof -
  have inv: "buffer_inv (mo pak)" and cs: "buffer_contents (mo pak) = take k p"
    and fit: "length p \<le> unat (bsize (mo pak))" and k: "k < length p"
    using base by (simp_all add: rx_base_def)
  have "unat (bsize (mo pak)) < 4294967296"
    by simp
  then have u: "unat (word_of_nat a :: u32) = a"
    using a fit by (intro unat_word_u32) linarith
  have "length (buffer_contents (mo pak)) = k"
    unfolding cs using k by simp
  then have free: "a \<le> buffer_free (mo pak)"
    using a fit by (simp add: buffer_free_def)
  have "length (take a buf') = a"
    using a by (simp add: xs)
  then have "a \<le> length buf'"
    by simp
  then obtain n m where n: "buffer_write (mo pak) buf' (word_of_nat a) = Some (n, m)"
    "unat n = a" "buffer_inv m" "bsize m = bsize (mo pak)"
    "buffer_contents m = take k p @ take a buf'"
    using buffer_write_spec [OF inv, of "word_of_nat a" buf'] free
    by (auto simp: u cs min_absorb1)
  moreover from n(2) have "n = word_of_nat a"
    by (metis of_nat_unat ucast_id)
  moreover have "take k p @ take a buf' = take (k + a) p"
    by (simp add: xs take_add)
  ultimately show ?thesis by auto
qed

lemma packet_store_rest_spec:
  assumes base: "rx_base p k pak" and i: "0 \<le> i" "i \<le> len" and a: "a = nat (len - i)"
    and lt: "k + a < length p" and left: "a \<le> unat (pleft pak)"
    and xs: "take a (drop (nat i) buf) = take a (drop k p)"
  shows "\<exists>pak'. packet_store_rest pak buf i len = Some (BSCL_PACKET_MOREDATA, len, pak')
    \<and> rx_base p (k + a) pak' \<and> pstat pak' = pstat pak \<and> unat (pleft pak') = unat (pleft pak) - a
    \<and> bsize (mo pak') = bsize (mo pak)"
proof -
  obtain m where m: "buffer_write (mo pak) (drop (nat i) buf) (word_of_nat a) = Some (word_of_nat a, m)"
    "buffer_inv m" "bsize m = bsize (mo pak)" "buffer_contents m = take (k + a) p"
    using rx_write [OF base _ xs] lt by auto
  have "unat (word_of_nat a :: u16) = a"
    using left by (intro unat_word_u16) (metis le_less_trans u16_less_pow)
  then have "unat (pleft pak - word_of_nat a) = unat (pleft pak) - a"
    using left by (subst unat_minus_le) (simp_all add: word_le_nat_alt)
  then show ?thesis
    unfolding packet_store_rest_def word_of_int_minus [OF i(2)] a [symmetric]
    using m base lt by (simp add: rx_base_def)
qed

text \<open>What one call returns: more data, or the packet complete after \<open>n\<close> bytes.\<close>

definition rx_more :: "u8 list \<Rightarrow> nat \<Rightarrow> int \<Rightarrow> (packet_result \<times> int \<times> bscl_packet_t) option \<Rightarrow> bool" where
  "rx_more p k len r \<longleftrightarrow> (\<exists>pak'. r = Some (BSCL_PACKET_MOREDATA, len, pak') \<and> rx_core p k pak')"

definition rx_ready :: "u8 list \<Rightarrow> int \<Rightarrow> (packet_result \<times> int \<times> bscl_packet_t) option \<Rightarrow> bool" where
  "rx_ready p n r \<longleftrightarrow> (\<exists>pak'. r = Some (BSCL_PACKET_READY, n, pak') \<and> buffer_inv (mo pak')
     \<and> length p \<le> unat (bsize (mo pak')) \<and> buffer_contents (mo pak') = p)"

lemma rx_store:
  assumes base: "rx_base p k pak" and i: "0 \<le> i" "i \<le> len" and a: "a = nat (len - i)"
    and left: "a \<le> unat (pleft pak)" and lt: "k + a < length p"
    and st: "pstat pak = rx_stat (packet_len p) (k + a)"
    and l: "unat (pleft pak) = a + rx_left (packet_len p) (k + a)"
    and xs: "take a (drop (nat i) buf) = take a (drop k p)"
  shows "rx_more p (k + a) len (packet_store_rest pak buf i len)"
  using packet_store_rest_spec [OF base i a lt left xs] st l
  by (auto simp: rx_more_def rx_core_def)

lemma rx_crc_stage:
  assumes base: "rx_base p k pak" and i: "0 \<le> i" "i \<le> len" and a: "a = nat (len - i)"
    and fr: "framed p" and st: "pstat pak = PACKET_STAT_CRC"
    and left: "unat (pleft pak) = 12 + packet_len p - k" and k: "8 + packet_len p \<le> k + a"
  shows "k + a < length p \<Longrightarrow> take a (drop (nat i) buf) = take a (drop k p) \<Longrightarrow>
      rx_more p (k + a) len (packet_receive_crc pak buf i len)"
    and "length p \<le> k + a \<Longrightarrow> take (length p - k) (drop (nat i) buf) = drop k p \<Longrightarrow>
      rx_ready p (i + int (length p - k)) (packet_receive_crc pak buf i len)"
proof -
  note plen = framed_len [OF fr]
  have u: "uint (pleft pak) = int (length p - k)"
    using left by (simp only: uint_nat plen)
  have kl: "k < length p"
    using base by (simp add: rx_base_def)
  show "rx_more p (k + a) len (packet_receive_crc pak buf i len)"
    if "k + a < length p" "take a (drop (nat i) buf) = take a (drop k p)"
  proof -
    have "len - i < uint (pleft pak)"
      using that a i unfolding u by linarith
    moreover have "rx_more p (k + a) len (packet_store_rest pak buf i len)"
      by (rule rx_store [OF base i a]) (use that left st k plen in \<open>auto simp: rx_stat_def rx_left_def\<close>)
    ultimately show ?thesis
      by (simp add: packet_receive_crc_def st)
  qed
  assume full: "length p \<le> k + a" and xs: "take (length p - k) (drop (nat i) buf) = drop k p"
  have "\<not> len - i < uint (pleft pak)"
    using full a i unfolding u by linarith
  moreover have "(ucast (pleft pak) :: u32) = word_of_nat (length p - k)"
    using left plen by (metis of_nat_unat)
  moreover have "\<exists>m. buffer_write (mo pak) (drop (nat i) buf) (word_of_nat (length p - k))
      = Some (word_of_nat (length p - k), m) \<and> buffer_inv m \<and> bsize m = bsize (mo pak)
      \<and> buffer_contents m = take (k + (length p - k)) p"
    by (rule rx_write [OF base]) (use kl xs in simp_all)
  ultimately show "rx_ready p (i + int (length p - k)) (packet_receive_crc pak buf i len)"
    using base kl by (auto simp: packet_receive_crc_def st u rx_ready_def rx_base_def)
qed

text \<open>
  The two outcomes of a stage for the input from \<open>i\<close> on: it ends inside the packet, or it
  holds the rest of the packet.
\<close>

definition rx_outcome :: "u8 list \<Rightarrow> nat \<Rightarrow> u8 list \<Rightarrow> int \<Rightarrow> int
    \<Rightarrow> (packet_result \<times> int \<times> bscl_packet_t) option \<Rightarrow> bool" where
  "rx_outcome p k buf i len r \<longleftrightarrow> (let a = nat (len - i) in
     (k + a < length p \<and> take a (drop (nat i) buf) = take a (drop k p) \<longrightarrow> rx_more p (k + a) len r)
     \<and> (length p \<le> k + a \<and> take (length p - k) (drop (nat i) buf) = drop k p \<longrightarrow>
       rx_ready p (i + int (length p - k)) r))"

lemma rx_crc_outcome:
  assumes "rx_base p k pak" and "0 \<le> i" "i \<le> len" and "framed p" and "pstat pak = PACKET_STAT_CRC"
    and "unat (pleft pak) = 12 + packet_len p - k" and "8 + packet_len p \<le> k + nat (len - i)"
  shows "rx_outcome p k buf i len (packet_receive_crc pak buf i len)"
  unfolding rx_outcome_def Let_def using rx_crc_stage [OF assms(1-3) refl assms(4-7)] by simp

lemma rx_base_pleft [simp]: "rx_base p k (pak\<lparr>pleft := l\<rparr>) = rx_base p k pak"
  and rx_base_pstat [simp]: "rx_base p k (pak\<lparr>pstat := t\<rparr>) = rx_base p k pak"
  by (simp_all add: rx_base_def)

lemma rx_data_outcome:
  assumes base: "rx_base p k pak" and i: "0 \<le> i" "i \<le> len" and fr: "framed p"
    and st: "pstat pak = PACKET_STAT_DATA" and left: "unat (pleft pak) = 8 + packet_len p - k"
    and k: "8 \<le> k + nat (len - i)" "k \<le> 8 + packet_len p"
  shows "rx_outcome p k buf i len (packet_receive_data pak buf i len)"
proof -
  let ?a = "nat (len - i)"
  note plen = framed_len [OF fr] and lt = framed_lt [OF fr]
  have u: "uint (pleft pak) = int (8 + packet_len p - k)"
    using left by (simp only: uint_nat)
  show ?thesis
  proof (cases "len - i < uint (pleft pak)")
    case True
    then have in_data: "k + ?a < 8 + packet_len p"
      using i k unfolding u by linarith
    moreover have "rx_more p (k + ?a) len (packet_store_rest pak buf i len)"
      if "take ?a (drop (nat i) buf) = take ?a (drop k p)"
      by (rule rx_store [OF base i refl])
        (use that in_data left st k plen in \<open>auto simp: rx_stat_def rx_left_def\<close>)
    ultimately show ?thesis
      using True plen by (simp add: packet_receive_data_def st rx_outcome_def Let_def)
  next
    case False
    then have past: "8 + packet_len p \<le> k + ?a"
      using i k unfolding u by linarith
    let ?pak = "pak\<lparr>pstat := PACKET_STAT_CRC, pleft := pleft pak + 4\<rparr>"
    have "unat (pleft ?pak) = 12 + packet_len p - k"
      using left lt k by (simp add: unat_plus_small)
    with base i fr past have "rx_outcome p k buf i len (packet_receive_crc ?pak buf i len)"
      by (intro rx_crc_outcome) simp_all
    then show ?thesis
      using False by (simp add: packet_receive_data_def st)
  qed
qed

lemma rx_head_outcome:
  assumes core: "rx_core p k pak" and i: "0 \<le> i" "i \<le> len" and fr: "framed p"
  shows "rx_outcome p k buf i len (packet_receive_head pak buf i len)"
proof -
  let ?a = "nat (len - i)"
  note plen = framed_len [OF fr] and lt = framed_lt [OF fr]
  have base: "rx_base p k pak" and st: "pstat pak = rx_stat (packet_len p) k"
    and left: "unat (pleft pak) = rx_left (packet_len p) k"
    using core by (simp_all add: rx_core_def)
  consider (head) "k < 8" | (data) "8 \<le> k" "k < 8 + packet_len p" | (crc) "8 + packet_len p \<le> k"
    by linarith
  then show ?thesis
  proof cases
    case data
    then have "rx_outcome p k buf i len (packet_receive_data pak buf i len)"
      using base i fr st left by (intro rx_data_outcome) (simp_all add: rx_stat_def rx_left_def)
    then show ?thesis
      using data st by (simp add: packet_receive_head_def rx_stat_def)
  next
    case crc
    then have "rx_outcome p k buf i len (packet_receive_crc pak buf i len)"
      using base i fr st left by (intro rx_crc_outcome) (simp_all add: rx_stat_def rx_left_def)
    then show ?thesis
      using crc st by (simp add: packet_receive_head_def packet_receive_data_def rx_stat_def)
  next
    case head
    then have st': "pstat pak = PACKET_STAT_HEAD" and left': "unat (pleft pak) = 8 - k"
      using st left by (simp_all add: rx_stat_def rx_left_def)
    then have u: "uint (pleft pak) = int (8 - k)"
      by (simp only: uint_nat)
    show ?thesis
    proof (cases "len - i < uint (pleft pak)")
      case True
      then have in_head: "k + ?a < 8"
        using i head unfolding u by linarith
      moreover have "rx_more p (k + ?a) len (packet_store_rest pak buf i len)"
        if "take ?a (drop (nat i) buf) = take ?a (drop k p)"
        by (rule rx_store [OF base i refl])
          (use that in_head left' st' plen in \<open>auto simp: rx_stat_def rx_left_def\<close>)
      ultimately show ?thesis
        using True plen by (simp add: packet_receive_head_def st' rx_outcome_def Let_def)
    next
      case False
      then have past: "8 \<le> k + ?a"
        using i head unfolding u by linarith
      have via: "rx_outcome p k buf i len (packet_receive_head pak buf i len)"
        if hd: "take (8 - k) (drop (nat i) buf) = take (8 - k) (drop k p)"
      proof -
        have "map_option unat (packet_head_len pak buf i) = Some (packet_len p)"
          using base head plen i left' hd by (intro packet_head_len_spec) (auto simp: rx_base_def)
        then obtain w where w: "packet_head_len pak buf i = Some w" "unat w = packet_len p"
          by auto
        have "unat (pleft pak + w) = 8 + packet_len p - k"
          using left' w head lt by (simp add: unat_plus_small)
        with base i fr past head have "rx_outcome p k buf i len (packet_receive_data
            (pak\<lparr>pstat := PACKET_STAT_DATA, pleft := pleft pak + w\<rparr>) buf i len)"
          by (intro rx_data_outcome) simp_all
        then show ?thesis
          using False by (simp add: packet_receive_head_def st' w)
      qed
      have "take (8 - k) (drop (nat i) buf) = take (8 - k) (drop k p)"
        if "k + ?a < length p" "take ?a (drop (nat i) buf) = take ?a (drop k p)"
        using arg_cong [OF that(2), of "take (8 - k)"] past by (simp add: min_absorb1)
      moreover have "take (8 - k) (drop (nat i) buf) = take (8 - k) (drop k p)"
        if "length p \<le> k + ?a" "take (length p - k) (drop (nat i) buf) = drop k p"
        using arg_cong [OF that(2), of "take (8 - k)"] plen by (simp add: min_absorb1)
      ultimately show ?thesis
        using via unfolding rx_outcome_def Let_def by blast
    qed
  qed
qed

text \<open>The search for the magic byte.\<close>

lemma packet_find_magic_spec:
  assumes "PACKET_MAGIC \<notin> set junk" and "ys = [] \<or> hd ys = PACKET_MAGIC"
  shows "i \<le> length junk \<Longrightarrow>
    packet_find_magic (junk @ ys) (int i) (int (length (junk @ ys))) = Some (int (length junk))"
proof (induction "length junk - i" arbitrary: i)
  case 0
  then have i: "i = length junk" by simp
  show ?case
  proof (cases ys)
    case Nil
    then show ?thesis
      using i by (simp add: packet_find_magic.simps [of junk])
  next
    case (Cons y ys')
    then show ?thesis
      using i assms(2) by (subst packet_find_magic.simps) (simp add: mem_read_def)
  qed
next
  case (Suc d)
  then have lt: "i < length junk" by simp
  then have "junk ! i \<noteq> PACKET_MAGIC"
    using assms(1) nth_mem by metis
  moreover have "hd (take 1 (drop i (junk @ ys))) = junk ! i"
    using lt by (simp add: take_Suc hd_drop_conv_nth nth_append hd_append)
  moreover have "int i + 1 = int (Suc i)"
    by simp
  moreover have "packet_find_magic (junk @ ys) (int (Suc i)) (int (length (junk @ ys)))
      = Some (int (length junk))"
    using Suc lt by (intro Suc.hyps(1)) simp_all
  ultimately show ?case
    using lt by (subst packet_find_magic.simps) (simp add: mem_read_def add.commute)
qed

lemma bscl_packet_receive_junk:
  assumes "pstat pak = PACKET_STAT_SYNC" and "PACKET_MAGIC \<notin> set xs"
  shows "bscl_packet_receive pak xs (int (length xs)) = Some (BSCL_PACKET_MOREDATA, int (length xs), pak)"
  using assms packet_find_magic_spec [of xs "[]" 0]
  by (simp add: bscl_packet_receive_def packet_receive_sync_def)

lemma bscl_packet_receive_sync:
  assumes base: "rx_base p 0 pak" and st: "pstat pak = PACKET_STAT_SYNC" and fr: "framed p"
    and junk: "PACKET_MAGIC \<notin> set junk" and ys: "ys \<noteq> []" "hd ys = PACKET_MAGIC"
  shows "\<exists>len' pak'. bscl_packet_receive pak (junk @ ys) (int (length (junk @ ys)))
      = packet_receive_head pak' (junk @ ys) (int (length junk)) len'
    \<and> rx_core p 0 pak' \<and> int (length junk) \<le> len'
    \<and> nat (len' - int (length junk)) = min (length ys) (unat (bsize (mo pak)))"
proof -
  define B where "B = unat (bsize (mo pak))"
  have inv: "buffer_inv (mo pak)" and lt: "B < 2147483648"
    and "buffer_contents (mo pak) = []"
    using base by (simp_all add: rx_base_def B_def)
  then have free: "buffer_free (mo pak) = B"
    by (simp add: buffer_free_def B_def del: length_buffer_contents)
  with lt have space: "sint (buffer_get_space (mo pak)) = int B"
    using sint_get_space [OF inv] by simp
  let ?pak = "pak\<lparr>pstat := PACKET_STAT_HEAD, pleft := 8\<rparr>"
  let ?len = "if int B < int (length ys)
    then int B + int (length junk) else int (length (junk @ ys))"
  have find: "packet_find_magic (junk @ ys) 0 (int (length junk) + int (length ys))
      = Some (int (length junk))"
    using packet_find_magic_spec [OF junk, of ys 0] ys by simp
  have "packet_receive_sync pak (junk @ ys) (int B) (int (length (junk @ ys)))
      = Some (int (length junk), ?len, ?pak)"
    using ys(1) by (simp add: packet_receive_sync_def st find)
  moreover have "int (length junk) \<noteq> ?len"
    using ys(1) buffer_inv_pos [OF inv] by (simp flip: B_def)
  ultimately have "bscl_packet_receive pak (junk @ ys) (int (length (junk @ ys)))
      = packet_receive_head ?pak (junk @ ys) (int (length junk)) ?len"
    unfolding bscl_packet_receive_def Let_def space by simp
  moreover have "rx_core p 0 ?pak"
    using base by (simp add: rx_core_def rx_stat_def rx_left_def)
  moreover have "int (length junk) \<le> ?len"
    "nat (?len - int (length junk)) = min (length ys) B"
    by auto
  ultimately show ?thesis unfolding B_def [symmetric] by blast
qed


section \<open>A stream in chunks\<close>

text \<open>
  A caller that hands over chunk after chunk until a packet is ready, and the input it has left
  then.
\<close>

fun packet_feed ::
    "bscl_packet_t \<Rightarrow> u8 list list \<Rightarrow> (packet_result \<times> u8 list \<times> bscl_packet_t) option" where
  "packet_feed pak [] = Some (BSCL_PACKET_MOREDATA, [], pak)"
| "packet_feed pak (xs # xss) = do {
     (r, n, pak') \<leftarrow> bscl_packet_receive pak xs (int (length xs));
     if r = BSCL_PACKET_READY then Some (r, drop (nat n) xs @ concat xss, pak')
     else packet_feed pak' xss
   }"

text \<open>A chunk \<open>ys\<close> that continues the packet, after \<open>junk\<close> when none is begun.\<close>

lemma receive_chunk:
  assumes st: "rx_state p k pak" and fr: "framed p" and junk: "PACKET_MAGIC \<notin> set junk"
    and j: "if k = 0 then ys \<noteq> [] \<and> hd ys = PACKET_MAGIC else junk = []"
  shows "length ys < length p - k \<Longrightarrow> ys = take (length ys) (drop k p) \<Longrightarrow>
      \<exists>n pak'. bscl_packet_receive pak (junk @ ys) (int (length (junk @ ys)))
        = Some (BSCL_PACKET_MOREDATA, n, pak') \<and> rx_state p (k + length ys) pak'"
    and "ys = drop k p @ zs \<Longrightarrow>
      rx_ready p (int (length (junk @ drop k p)))
        (bscl_packet_receive pak (junk @ ys) (int (length (junk @ ys))))"
proof -
  have base: "rx_base p k pak"
    using st by (auto simp: rx_state_def rx_core_def split: if_splits)
  have kl: "k < length p" and fit: "length p \<le> unat (bsize (mo pak))"
    using base by (simp_all add: rx_base_def)
  let ?r = "bscl_packet_receive pak (junk @ ys) (int (length (junk @ ys)))"
  obtain len' where out: "rx_outcome p k (junk @ ys) (int (length junk)) len' ?r"
    and len': "nat (len' - int (length junk)) = (if k = 0 then min (length ys) (unat (bsize (mo pak)))
      else length ys)"
  proof (cases "k = 0")
    case True
    with st j bscl_packet_receive_sync [of p pak junk ys] fr junk obtain len' pak' where
      "?r = packet_receive_head pak' (junk @ ys) (int (length junk)) len'" "rx_core p 0 pak'"
      "int (length junk) \<le> len'"
      "nat (len' - int (length junk)) = min (length ys) (unat (bsize (mo pak)))"
      by (auto simp: rx_state_def)
    with True rx_head_outcome [of p 0 pak' "int (length junk)" len' "junk @ ys"] fr that [of len']
    show thesis by simp
  next
    case False
    then have core: "rx_core p k pak" and "junk = []"
      using st j by (auto simp: rx_state_def)
    moreover from core False have "pstat pak \<noteq> PACKET_STAT_SYNC"
      by (simp add: rx_core_def rx_stat_def)
    ultimately show thesis
      using False rx_head_outcome [OF core _ _ fr, of 0 "int (length ys)" ys] that [of "int (length ys)"]
      by (simp add: bscl_packet_receive_def packet_receive_sync_def)
  qed
  show "\<exists>n pak'. ?r = Some (BSCL_PACKET_MOREDATA, n, pak') \<and> rx_state p (k + length ys) pak'"
    if "length ys < length p - k" "ys = take (length ys) (drop k p)"
  proof -
    have a: "nat (len' - int (length junk)) = length ys"
      using that(1) fit by (simp add: len')
    have "rx_more p (k + length ys) len' ?r"
      using out that unfolding rx_outcome_def Let_def a by simp
    moreover have "k + length ys \<noteq> 0"
      using j by (auto split: if_splits)
    ultimately show ?thesis
      by (auto simp: rx_more_def rx_state_def)
  qed
  assume ys: "ys = drop k p @ zs"
  then have "length p - k \<le> length ys"
    by simp
  then have "length p \<le> k + nat (len' - int (length junk))"
    using fit kl by (auto simp: len')
  with out ys show "rx_ready p (int (length (junk @ drop k p))) ?r"
    unfolding rx_outcome_def Let_def by simp
qed

lemma append_split:
  assumes "xs @ zs = ys @ rest"
  obtains "length xs < length ys" "xs = take (length xs) ys" "zs = drop (length xs) ys @ rest"
  | us where "xs = ys @ us" "rest = us @ zs"
  using assms by (auto simp: append_eq_append_conv2)
    (metis append.right_neutral append_eq_conv_conj append_take_drop_id length_append
      less_add_same_cancel1 length_greater_0_conv)+

lemma packet_feed_spec:
  assumes fr: "framed p"
  shows "rx_state p k pak \<Longrightarrow> concat xss = junk @ drop k p @ rest \<Longrightarrow> PACKET_MAGIC \<notin> set junk \<Longrightarrow>
    (k \<noteq> 0 \<longrightarrow> junk = []) \<Longrightarrow>
    \<exists>pak'. packet_feed pak xss = Some (BSCL_PACKET_READY, rest, pak')
      \<and> buffer_inv (mo pak') \<and> buffer_contents (mo pak') = p"
proof (induction xss arbitrary: k pak junk)
  case Nil
  then show ?case
    by (auto simp: rx_state_def rx_core_def rx_base_def split: if_splits)
next
  case (Cons xs xss)
  have hd: "hd p = PACKET_MAGIC" and kl: "k < length p"
    using fr Cons.prems(1) by (auto simp: framed_def rx_state_def rx_core_def rx_base_def split: if_splits)
  show ?case
  proof (cases "length xs \<le> length junk \<and> k = 0")
    case True
    with Cons.prems(2) have "xs = take (length xs) junk"
      by (auto simp: append_eq_append_conv_if split: if_splits)
    then obtain junk' where junk': "junk = xs @ junk'"
      by (metis append_take_drop_id)
    with True Cons.prems have "bscl_packet_receive pak xs (int (length xs))
        = Some (BSCL_PACKET_MOREDATA, int (length xs), pak)"
      by (intro bscl_packet_receive_junk) (auto simp: rx_state_def)
    moreover have "concat xss = junk' @ drop 0 p @ rest"
      using Cons.prems(2) True junk' by simp
    ultimately show ?thesis
      using Cons.IH [of 0 pak junk'] Cons.prems True junk' by simp
  next
    case False
    with Cons.prems(2,4) have "length junk \<le> length xs"
      by auto
    then have "take (length junk) xs = junk"
      using arg_cong [OF Cons.prems(2), of "take (length junk)"] by simp
    then obtain ys where ys: "xs = junk @ ys"
      by (metis append_take_drop_id)
    with Cons.prems(2) have eq: "ys @ concat xss = drop k p @ rest"
      by simp
    have ne: "ys \<noteq> []" if "k = 0"
      using that False ys by auto
    have hd_ys: "hd ys = PACKET_MAGIC" if "k = 0"
      using arg_cong [OF eq, of hd] ne [OF that] that hd kl by (simp add: hd_append split: if_splits)
    have j: "if k = 0 then ys \<noteq> [] \<and> hd ys = PACKET_MAGIC else junk = []"
      using ne hd_ys Cons.prems(4) by auto
    note chunk = receive_chunk [OF Cons.prems(1) fr Cons.prems(3) j]
    show ?thesis
      using eq
    proof (rule append_split)
      assume ys': "length ys < length (drop k p)" "ys = take (length ys) (drop k p)"
        "concat xss = drop (length ys) (drop k p) @ rest"
      then obtain n pak' where "bscl_packet_receive pak (junk @ ys) (int (length (junk @ ys)))
          = Some (BSCL_PACKET_MOREDATA, n, pak')" "rx_state p (k + length ys) pak'"
        using chunk(1) by auto
      with Cons.IH [of "k + length ys" pak' "[]"] ys' ys show ?thesis
        by (simp add: add.commute)
    next
      fix us assume us: "ys = drop k p @ us" "rest = us @ concat xss"
      from chunk(2) [OF this(1)] obtain pak' where
        "bscl_packet_receive pak (junk @ ys) (int (length (junk @ ys)))
          = Some (BSCL_PACKET_READY, int (length (junk @ drop k p)), pak')"
        "buffer_inv (mo pak')" "buffer_contents (mo pak') = p"
        unfolding rx_ready_def by blast
      then show ?thesis
        using us ys by (simp add: nat_add_distrib)
    qed
  qed
qed


section \<open>Byte by byte\<close>

fun packet_feed_bytes :: "bscl_packet_t \<Rightarrow> u8 list \<Rightarrow> (int \<times> u8 list \<times> bscl_packet_t) option" where
  "packet_feed_bytes pak [] = Some (0, [], pak)"
| "packet_feed_bytes pak (c # cs) = do {
     (r, pak') \<leftarrow> bscl_packet_receive_byte pak c;
     if r = 1 then Some (r, cs, pak') else packet_feed_bytes pak' cs
   }"

text \<open>
  The receiver reads only the low byte \<open>L\<close> of the length field; the state is that of a packet
  with \<open>L\<close> bytes of data.
\<close>

definition rb_state :: "u8 list \<Rightarrow> nat \<Rightarrow> nat \<Rightarrow> bscl_packet_t \<Rightarrow> bool" where
  "rb_state p L k pak \<longleftrightarrow> buffer_inv (mo pak) \<and> 12 + L < unat (bsize (mo pak))
     \<and> 12 + L \<le> length p \<and> k < 12 + L \<and> L = unat (p ! 2) \<and> buffer_contents (mo pak) = take k p
     \<and> (if k = 0 then pstat pak = PACKET_STAT_SYNC
        else pstat pak = rx_stat L k \<and> unat (pleft pak) = rx_left L k)"

lemma rb_putc:
  assumes "rb_state p L k pak"
  obtains m where "buffer_putc (mo pak) c = Some (1, m)" "buffer_inv m" "bsize m = bsize (mo pak)"
    "buffer_contents m = take k p @ [c]" "buffer_get_space m \<noteq> 0"
proof -
  have inv: "buffer_inv (mo pak)" and cs: "buffer_contents (mo pak) = take k p"
    and k: "k < 12 + L" "12 + L \<le> length p" "12 + L < unat (bsize (mo pak))"
    using assms by (simp_all add: rb_state_def)
  have "length (buffer_contents (mo pak)) = k"
    unfolding cs using k by simp
  then have "0 < buffer_free (mo pak)"
    using k by (simp add: buffer_free_def)
  then obtain m where m: "buffer_putc (mo pak) c = Some (1, m)" "buffer_inv m"
    "bsize m = bsize (mo pak)" "buffer_contents m = take k p @ [c]"
    using buffer_putc_spec(2) [OF inv, of c] cs by auto
  have "length (buffer_contents m) = Suc k"
    unfolding m(4) using k by simp
  then have "0 < buffer_free m"
    using k m(3) by (simp add: buffer_free_def)
  then have "buffer_get_space m \<noteq> 0"
    using buffer_free_alt [OF m(2)] by auto
  with m that show thesis by blast
qed

lemma receive_byte_junk:
  assumes st: "rb_state p L 0 pak" and c: "c \<noteq> PACKET_MAGIC"
  shows "\<exists>pak'. bscl_packet_receive_byte pak c = Some (0, pak') \<and> rb_state p L 0 pak'"
proof -
  obtain m where m: "buffer_putc (mo pak) c = Some (1, m)" "buffer_inv m" "bsize m = bsize (mo pak)"
    "buffer_contents m = [c]" "buffer_get_space m \<noteq> 0"
    using rb_putc [OF st, of c] by auto
  have "pstat pak = PACKET_STAT_SYNC"
    using st by (simp add: rb_state_def)
  with m c buffer_drop_char_snd [OF m(2)] st show ?thesis
    by (simp add: bscl_packet_receive_byte_def Let_def rb_state_def)
qed

lemma receive_byte_packet:
  assumes st: "rb_state p L k pak" and hd: "hd p = PACKET_MAGIC"
  shows "Suc k < 12 + L \<Longrightarrow>
      \<exists>pak'. bscl_packet_receive_byte pak (p ! k) = Some (0, pak') \<and> rb_state p L (Suc k) pak'"
    and "Suc k = 12 + L \<Longrightarrow>
      \<exists>pak'. bscl_packet_receive_byte pak (p ! k) = Some (1, pak') \<and> buffer_inv (mo pak')
        \<and> buffer_contents (mo pak') = take (Suc k) p \<and> pstat pak' = PACKET_STAT_PARSE"
proof -
  have k: "k < 12 + L" "12 + L \<le> length p" "L = unat (p ! 2)" and fit: "12 + L < unat (bsize (mo pak))"
    using st by (simp_all add: rb_state_def)
  obtain m where m: "buffer_putc (mo pak) (p ! k) = Some (1, m)" "buffer_inv m"
    "bsize m = bsize (mo pak)" "buffer_contents m = take (Suc k) p" "buffer_get_space m \<noteq> 0"
    using rb_putc [OF st, of "p ! k"] k by (auto simp: take_Suc_conv_app_nth)
  have lt: "L < 256"
    using k by simp
  have dec: "unat (pleft pak - 1) = unat (pleft pak) - 1" if "0 < unat (pleft pak)"
    using that by (subst unat_minus_le) (simp_all add: word_le_nat_alt)
  have zero: "pleft pak - 1 = 0 \<longleftrightarrow> unat (pleft pak) = 1"
    unfolding right_minus_eq by (simp add: word_unat_eq_iff)
  note byte = bscl_packet_receive_byte_def Let_def m
  show "\<exists>pak'. bscl_packet_receive_byte pak (p ! k) = Some (0, pak') \<and> rb_state p L (Suc k) pak'"
    if lt12: "Suc k < 12 + L"
  proof -
    consider (sync) "k = 0" | (head) "0 < k" "k < 7" | (len) "k = 7" | (data) "8 \<le> k" "k < 8 + L"
      | (crc) "8 + L \<le> k"
      by linarith
    then show ?thesis
    proof cases
      case sync
      then have "p ! k = PACKET_MAGIC"
        using hd k by (cases p) auto
      with sync st m show ?thesis
        by (simp add: byte rb_state_def rx_stat_def rx_left_def)
    next
      case head
      with st m k zero dec show ?thesis
        by (auto simp: byte rb_state_def rx_stat_def rx_left_def)
    next
      case len
      have "buffer_copy_char m (word_of_nat 2) = Some (uint (p ! 2))"
        using buffer_copy_char_spec(1) [OF m(2), of 2] len k m(4) by (simp flip: length_buffer_contents)
      moreover have "unat (word_of_int (uint (p ! 2)) :: u16) = L"
        by (simp only: uint_nat of_int_of_nat_eq flip: k(3)) (use lt in \<open>simp add: unat_word_u16\<close>)
      moreover from this have "(word_of_int (uint (p ! 2)) :: u16) = 0 \<longleftrightarrow> L = 0"
        by (metis unat_eq_zero)
      ultimately show ?thesis
        using len st m k zero
        by (auto simp: byte rb_state_def rx_stat_def rx_left_def packet_to_crc_def)
    next
      case data
      with st m k zero dec show ?thesis
        by (auto simp: byte rb_state_def rx_stat_def rx_left_def packet_to_crc_def)
    next
      case crc
      with st m k zero dec lt12 show ?thesis
        by (auto simp: byte rb_state_def rx_stat_def rx_left_def)
    qed
  qed
  show "\<exists>pak'. bscl_packet_receive_byte pak (p ! k) = Some (1, pak') \<and> buffer_inv (mo pak')
        \<and> buffer_contents (mo pak') = take (Suc k) p \<and> pstat pak' = PACKET_STAT_PARSE"
    if "Suc k = 12 + L"
    using that st m zero by (simp add: byte rb_state_def rx_stat_def rx_left_def)
qed

lemma packet_feed_bytes_packet:
  assumes hd: "hd p = PACKET_MAGIC"
  shows "rb_state p L k pak \<Longrightarrow>
    \<exists>pak'. packet_feed_bytes pak (drop k p @ rest) = Some (1, drop (12 + L) p @ rest, pak')
      \<and> buffer_inv (mo pak') \<and> buffer_contents (mo pak') = take (12 + L) p
      \<and> pstat pak' = PACKET_STAT_PARSE"
proof (induction "12 + L - k" arbitrary: k pak)
  case 0
  then show ?case by (simp add: rb_state_def)
next
  case (Suc d)
  then have k: "k < 12 + L" "12 + L \<le> length p"
    by (simp_all add: rb_state_def)
  then have drop: "drop k p = p ! k # drop (Suc k) p"
    by (simp add: Cons_nth_drop_Suc)
  note step = receive_byte_packet [OF Suc.prems hd]
  show ?case
  proof (cases "Suc k = 12 + L")
    case True
    from step(2) [OF this] obtain pak' where
      "bscl_packet_receive_byte pak (p ! k) = Some (1, pak')" "buffer_inv (mo pak')"
      "buffer_contents (mo pak') = take (Suc k) p" "pstat pak' = PACKET_STAT_PARSE"
      by blast
    then show ?thesis
      unfolding drop True [symmetric] by simp
  next
    case False
    with k have "Suc k < 12 + L" by simp
    from step(1) [OF this] obtain pak' where
      "bscl_packet_receive_byte pak (p ! k) = Some (0, pak')" "rb_state p L (Suc k) pak'"
      by blast
    moreover from this Suc have "\<exists>pak''. packet_feed_bytes pak' (drop (Suc k) p @ rest)
        = Some (1, drop (12 + L) p @ rest, pak'') \<and> buffer_inv (mo pak'')
        \<and> buffer_contents (mo pak'') = take (12 + L) p \<and> pstat pak'' = PACKET_STAT_PARSE"
      by (intro Suc.hyps(1)) auto
    ultimately show ?thesis
      by (simp add: drop)
  qed
qed

lemma packet_feed_bytes_spec:
  assumes st: "rb_state p L 0 pak" and hd: "hd p = PACKET_MAGIC" and junk: "PACKET_MAGIC \<notin> set junk"
  shows "\<exists>pak'. packet_feed_bytes pak (junk @ p @ rest) = Some (1, drop (12 + L) p @ rest, pak')
      \<and> buffer_inv (mo pak') \<and> buffer_contents (mo pak') = take (12 + L) p
      \<and> pstat pak' = PACKET_STAT_PARSE"
  using st junk
proof (induction junk arbitrary: pak)
  case Nil
  then show ?case
    using packet_feed_bytes_packet [OF hd, of L 0 pak rest] by simp
next
  case (Cons c junk)
  then obtain pak' where "bscl_packet_receive_byte pak c = Some (0, pak')" "rb_state p L 0 pak'"
    using receive_byte_junk [of p L pak c] by auto
  then show ?case
    using Cons.IH [of pak'] Cons.prems by simp
qed

section \<open>Resynchronisation\<close>

lemma packet_seek_magic_found:
  "buffer_inv m \<Longrightarrow> buffer_contents m = junk @ PACKET_MAGIC # rest \<Longrightarrow> PACKET_MAGIC \<notin> set junk \<Longrightarrow>
    \<exists>m'. packet_seek_magic m = Some (True, m') \<and> buffer_inv m' \<and> bsize m' = bsize m
      \<and> buffer_contents m' = PACKET_MAGIC # rest"
proof (induction junk arbitrary: m)
  case Nil
  then have "buffer_copy_first m = Some (uint PACKET_MAGIC)"
    using buffer_copy_first_spec [OF Nil(1)] by simp
  then have "packet_seek_magic m = Some (True, m)"
    by (subst packet_seek_magic.simps) simp
  with Nil show ?case by simp
next
  case (Cons c junk)
  let ?m = "snd (buffer_drop_char m)"
  have "buffer_copy_first m = Some (uint c)"
    using buffer_copy_first_spec [OF Cons.prems(1)] Cons.prems(2) by simp
  moreover have "uint c \<noteq> uint PACKET_MAGIC"
    using Cons.prems(3) by (auto simp: word_uint_eq_iff)
  ultimately have "packet_seek_magic m = packet_seek_magic ?m"
    by (subst packet_seek_magic.simps) simp
  moreover note buffer_drop_char_snd [OF Cons.prems(1)]
  ultimately show ?case
    using Cons.IH [of ?m] Cons.prems by simp
qed

text \<open>
  Without a magic byte in the buffer the search passes the end of the contents, where it reads
  the same stale byte for ever.
\<close>

definition no_magic :: "buffer_t \<Rightarrow> bool" where
  "no_magic m \<longleftrightarrow> buffer_inv m \<and> PACKET_MAGIC \<notin> set (buffer_contents m)
     \<and> mem_buf m ! (unat (wrp m) mod length (mem_buf m)) \<noteq> PACKET_MAGIC"

lemma no_magic_first:
  assumes "no_magic m"
  obtains c where "buffer_copy_first m = Some (uint c)" "c \<noteq> PACKET_MAGIC"
proof (cases "buffer_contents m = []")
  case True
  then have "buffer_get_count m = 0"
    by (metis length_buffer_contents list.size(3) unat_eq_zero)
  then have "wrp m = rdp m"
    by (simp add: buffer_get_count_def)
  moreover have "buffer_inv m"
    using assms by (simp add: no_magic_def)
  ultimately show thesis
    using that [of "mem_buf m ! (unat (wrp m) mod length (mem_buf m))"] read_byte [of m 0] assms
    by (simp add: buffer_copy_first_def buffer_copy_word_def no_magic_def)
next
  case False
  then show thesis
    using that [of "hd (buffer_contents m)"] buffer_copy_first_spec assms
    by (metis hd_in_set no_magic_def)
qed

lemma no_magic_drop: "no_magic m \<Longrightarrow> no_magic (snd (buffer_drop_char m))"
  using buffer_drop_char_snd [of m]
  by (auto simp: no_magic_def buffer_drop_char_def buffer_drop_def Let_def buffer_rdp_add_def
    dest: in_set_dropD)

lemma packet_seek_magic_diverges: "no_magic m \<Longrightarrow> packet_seek_magic m = None"
proof (rule ccontr)
  assume m: "no_magic m" and "packet_seek_magic m \<noteq> None"
  then obtain r where "packet_seek_magic m = Some r" by auto
  then have "\<not> no_magic m"
  proof (rule packet_seek_magic.raw_induct [rotated])
    fix f m r
    assume IH: "\<And>m y. f m = Some y \<Longrightarrow> \<not> no_magic m"
      and body: "buffer_copy_first m \<bind> (\<lambda>c. if c < 0 then Some (False, m)
        else if c = uint PACKET_MAGIC then Some (True, m) else f (snd (buffer_drop_char m))) = Some r"
    show "\<not> no_magic m"
    proof
      assume "no_magic m"
      from no_magic_first [OF this] obtain c where
        "buffer_copy_first m = Some (uint c)" "c \<noteq> PACKET_MAGIC" by blast
      with body have "f (snd (buffer_drop_char m)) = Some r"
        by (simp add: word_uint_eq_iff)
      with IH no_magic_drop [OF \<open>no_magic m\<close>] show False by blast
    qed
  qed
  with m show False by contradiction
qed

lemma packet_len_head:
  assumes "8 \<le> length p"
  shows "unat (h_len (packet_head_of (take 8 p))) = packet_len p"
proof -
  have "of_le16 (drop 2 (take 8 p)) = of_le16 (take 2 (drop 2 p))"
    using assms by (simp add: of_le16_def)
  then show ?thesis
    by (simp add: packet_head_of_def packet_len_def)
qed

text \<open>One iteration, once the magic byte is in front.\<close>

lemma bscl_packet_resync_found:
  assumes inv: "buffer_inv (mo pak)" and cs: "buffer_contents (mo pak) = junk @ q"
    and junk: "PACKET_MAGIC \<notin> set junk" and q: "q \<noteq> []" "hd q = PACKET_MAGIC"
    and fr: "framed p" and fit: "length p \<le> unat (bsize (mo pak))"
    and pre: "take (length p) q = take (length q) p"
  shows "\<exists>m. buffer_inv m \<and> bsize m = bsize (mo pak) \<and> buffer_contents m = q
    \<and> bscl_packet_resync pak = Some (
      if length q < 8 then (BSCL_PACKET_MOREDATA,
        pak\<lparr>mo := m, pstat := PACKET_STAT_HEAD, pleft := word_of_nat (8 - length q)\<rparr>)
      else if length q < 8 + packet_len p then (BSCL_PACKET_MOREDATA,
        pak\<lparr>mo := m, pstat := PACKET_STAT_DATA, pleft := word_of_nat (packet_len p - (length q - 8))\<rparr>)
      else if length q < 12 + packet_len p then (BSCL_PACKET_MOREDATA,
        pak\<lparr>mo := m, pstat := PACKET_STAT_CRC,
          pleft := word_of_nat (4 - (length q - 8 - packet_len p))\<rparr>)
      else (BSCL_PACKET_READY, pak\<lparr>mo := m, pstat := PACKET_STAT_PARSE\<rparr>))"
proof -
  obtain m where m: "packet_seek_magic (mo pak) = Some (True, m)" "buffer_inv m"
    "bsize m = bsize (mo pak)" "buffer_contents m = q"
    using packet_seek_magic_found [OF inv _ junk, of "tl q"] cs q by (cases q) auto
  then have count: "unat (buffer_get_count m) = length q"
    by (metis length_buffer_contents)
  have len: "unat (h_len (packet_head_of (take 8 q))) = packet_len p"
    if "8 \<le> length q"
  proof -
    have "8 \<le> length p"
      using framed_len [OF fr] fr by (simp add: framed_def)
    moreover have "take 8 q = take 8 p"
      using arg_cong [OF pre, of "take 8"] that \<open>8 \<le> length p\<close> by (simp add: min_absorb1)
    ultimately show ?thesis
      using packet_len_head [of p] by simp
  qed
  have copy: "buffer_copy m 0 8 = Some (word_of_nat (length (take 8 q)), take 8 q)"
    using buffer_copy_at [OF m(2), of 0 8] by (simp add: m)
  note plen = framed_len [OF fr]
  show ?thesis
  proof (cases "length q < 8")
    case True
    then have "bscl_packet_resync pak = Some (BSCL_PACKET_MOREDATA,
        pak\<lparr>mo := m, pstat := PACKET_STAT_HEAD, pleft := word_of_nat (8 - length q)\<rparr>)"
      using m by (subst bscl_packet_resync.simps) (simp add: Let_def count)
    with True m show ?thesis by (intro exI [of _ m]) simp
  next
    case False
    then have "8 \<le> length q" by simp
    note len = len [OF this]
    have "\<not> unat (bsize (mo pak)) < 12 + packet_len p"
      using fit plen by simp
    then show ?thesis
      using m False copy
      by (intro exI [of _ m], subst bscl_packet_resync.simps)
        (simp add: Let_def count len buffer_get_size_def)
  qed
qed

lemma bscl_packet_resync_spec:
  assumes inv: "buffer_inv (mo pak)" and junk: "PACKET_MAGIC \<notin> set junk"
    and fr: "framed p" and fit: "length p \<le> unat (bsize (mo pak))"
    and lt: "unat (bsize (mo pak)) < 2147483648"
  shows "0 < k \<Longrightarrow> k < length p \<Longrightarrow> buffer_contents (mo pak) = junk @ take k p \<Longrightarrow>
      \<exists>pak'. bscl_packet_resync pak = Some (BSCL_PACKET_MOREDATA, pak') \<and> rx_core p k pak'"
    and "buffer_contents (mo pak) = junk @ p @ rest \<Longrightarrow>
      \<exists>pak'. bscl_packet_resync pak = Some (BSCL_PACKET_READY, pak') \<and> buffer_inv (mo pak')
        \<and> buffer_contents (mo pak') = p @ rest \<and> pstat pak' = PACKET_STAT_PARSE"
proof -
  note plen = framed_len [OF fr] and len = framed_lt [OF fr]
  have hd: "hd p = PACKET_MAGIC"
    using fr by (simp add: framed_def)
  show "\<exists>pak'. bscl_packet_resync pak = Some (BSCL_PACKET_MOREDATA, pak') \<and> rx_core p k pak'"
    if k: "0 < k" "k < length p" and cs: "buffer_contents (mo pak) = junk @ take k p"
  proof -
    have lq: "length (take k p) = k"
      using k by simp
    have ne: "take k p \<noteq> []" "hd (take k p) = PACKET_MAGIC"
      and pre: "take (length p) (take k p) = take (length (take k p)) p"
      using k hd by (auto simp: hd_take)
    obtain m where "buffer_inv m" "bsize m = bsize (mo pak)" "buffer_contents m = take k p"
      "bscl_packet_resync pak = Some (
      if k < 8 then (BSCL_PACKET_MOREDATA,
        pak\<lparr>mo := m, pstat := PACKET_STAT_HEAD, pleft := word_of_nat (8 - k)\<rparr>)
      else if k < 8 + packet_len p then (BSCL_PACKET_MOREDATA,
        pak\<lparr>mo := m, pstat := PACKET_STAT_DATA, pleft := word_of_nat (packet_len p - (k - 8))\<rparr>)
      else if k < 12 + packet_len p then (BSCL_PACKET_MOREDATA,
        pak\<lparr>mo := m, pstat := PACKET_STAT_CRC,
          pleft := word_of_nat (4 - (k - 8 - packet_len p))\<rparr>)
      else (BSCL_PACKET_READY, pak\<lparr>mo := m, pstat := PACKET_STAT_PARSE\<rparr>))"
      using bscl_packet_resync_found [OF inv cs junk ne fr fit pre] unfolding lq by blast
    then show ?thesis
      using k plen len fit lt
      by (auto simp: rx_core_def rx_base_def rx_stat_def rx_left_def unat_word_u16
        simp del: of_nat_diff)
  qed
  assume cs: "buffer_contents (mo pak) = junk @ p @ rest"
  have "p \<noteq> []" and "\<not> length (p @ rest) < 12 + packet_len p"
    and "\<not> length (p @ rest) < 8 + packet_len p" and "\<not> length (p @ rest) < 8"
    using plen by auto
  moreover have "hd (p @ rest) = PACKET_MAGIC"
    using hd \<open>p \<noteq> []\<close> by simp
  ultimately show "\<exists>pak'. bscl_packet_resync pak = Some (BSCL_PACKET_READY, pak')
      \<and> buffer_inv (mo pak') \<and> buffer_contents (mo pak') = p @ rest \<and> pstat pak' = PACKET_STAT_PARSE"
    using bscl_packet_resync_found [OF inv cs junk _ _ fr fit] by auto
qed

lemma bscl_packet_resync_diverges: "no_magic (mo pak) \<Longrightarrow> bscl_packet_resync pak = None"
  by (subst bscl_packet_resync.simps) (simp add: packet_seek_magic_diverges)

section \<open>Properties\<close>

lemma framed_packet_image:
  assumes "h_magic h = PACKET_MAGIC" and "length data = unat (h_len h)" and "length data < 65524"
  shows "framed (packet_image tbl h data)"
proof -
  have "hd (packet_image tbl h data) = PACKET_MAGIC"
    using assms(1) by (simp add: packet_image_def packet_head_bytes_def)
  moreover have "packet_len (packet_image tbl h data) = length data"
    unfolding packet_len_def packet_image_def drop_packet_head_bytes using assms(2) by simp
  ultimately show ?thesis
    using assms(3) by (simp add: framed_def)
qed

lemma rx_state_init:
  assumes "buffer_inv (mo pak)" and "buffer_contents (mo pak) = []" and "pstat pak = PACKET_STAT_SYNC"
    and "p \<noteq> []" and "length p \<le> unat (bsize (mo pak))" and "unat (bsize (mo pak)) < 2147483648"
  shows "rx_state p 0 pak"
  using assms by (simp add: rx_state_def rx_base_def)

text \<open>
  C3: framing does not depend on how the stream is cut: when the concatenation of the chunks
  is bytes other than the magic byte, then a packet that fits into the buffer, then anything,
  \<open>bscl_packet_receive\<close> called on chunk after chunk (empty ones included) reports READY exactly
  at the last byte of the packet, with exactly the packet in the buffer and the rest unconsumed.
\<close>

theorem bscl_packet_receive_any_chunking:
  assumes "buffer_inv (mo pak)" and "buffer_contents (mo pak) = []" and "pstat pak = PACKET_STAT_SYNC"
    and "unat (bsize (mo pak)) < 2 ^ 31" and "framed p" and "length p \<le> unat (bsize (mo pak))"
    and "PACKET_MAGIC \<notin> set junk" and "concat xss = junk @ p @ rest"
  shows "\<exists>pak'. packet_feed pak xss = Some (BSCL_PACKET_READY, rest, pak')
    \<and> buffer_inv (mo pak') \<and> buffer_contents (mo pak') = p"
proof -
  have "p \<noteq> []"
    using assms(5) by (auto simp: framed_def)
  with rx_state_init [OF assms(1-3)] assms have "rx_state p 0 pak"
    by simp
  from packet_feed_spec [OF assms(5) this, of xss junk rest] assms show ?thesis
    by simp
qed

lemma packet_pak16:
  defines "pak \<equiv> bscl_packet_init (replicate 16 0) 16"
  shows "buffer_inv (mo pak)" and "buffer_contents (mo pak) = []" and "pstat pak = PACKET_STAT_SYNC"
    and "unat (bsize (mo pak)) = 16" and "pleft pak = 0"
  using buffer_init_spec [of 4 16 "replicate 16 0"]
  by (simp_all add: pak_def bscl_packet_init_def, simp_all add: buffer_init_def)

lemma bscl_packet_receive_any_chunking_witness:
  "\<exists>pak'. packet_feed (bscl_packet_init (replicate 16 0) 16)
      [[1, 2], [0x7e, 5, 0], [], [0, 9, 9, 9, 9, 1, 2, 3], [4, 5]]
    = Some (BSCL_PACKET_READY, [5], pak')
    \<and> buffer_contents (mo pak') = [0x7e, 5, 0, 0, 9, 9, 9, 9, 1, 2, 3, 4]"
proof -
  have "framed [0x7e, 5, 0, 0, 9, 9, 9, 9, 1, 2, 3, 4]"
    by (simp add: framed_def packet_len_def of_le16_def PACKET_MAGIC_def)
  from bscl_packet_receive_any_chunking [OF packet_pak16(1-3) _ this, of "[1, 2]"
      "[[1, 2], [0x7e, 5, 0], [], [0, 9, 9, 9, 9, 1, 2, 3], [4, 5]]" "[5]"] show ?thesis
    by (auto simp: packet_pak16(4) PACKET_MAGIC_def)
qed

text \<open>
  C1: end to end, a packet framed with the parser's checksum that arrives in any chunks is
  received and then parsed to its header fields and data, after which the buffer is empty and
  the receiver is back in SYNC.
\<close>

theorem packet_received_and_parsed:
  assumes "buffer_inv (mo pak)" and "buffer_contents (mo pak) = []" and "pstat pak = PACKET_STAT_SYNC"
    and "unat (bsize (mo pak)) < 2 ^ 31" and "12 + length data \<le> unat (bsize (mo pak))"
    and "h_magic h = PACKET_MAGIC" and "length data = unat (h_len h)" and "length data < 65524"
    and "PACKET_MAGIC \<notin> set junk" and "concat xss = junk @ packet_image tbl h data @ rest"
    and "length data \<le> unat s"
  shows "\<exists>pak' pak''. packet_feed pak xss = Some (BSCL_PACKET_READY, rest, pak')
    \<and> bscl_packet_parse tbl pak' True (Some s) = Some (BSCL_PACKET_MOREDATA,
        Some \<lparr>inf_len = h_len h, inf_msgid = h_msgid h, inf_seq = h_seq h\<rparr>, data, pak'')
    \<and> buffer_inv (mo pak'') \<and> buffer_contents (mo pak'') = [] \<and> pstat pak'' = PACKET_STAT_SYNC"
proof -
  let ?p = "packet_image tbl h data"
  note fr = framed_packet_image [OF assms(6-8), of tbl]
  moreover have "?p \<noteq> []"
    by (simp flip: length_0_conv)
  ultimately have "rx_state ?p 0 pak"
    using rx_state_init [OF assms(1-3), of ?p] assms(4,5) by simp
  with packet_feed_spec [OF fr, of 0 pak xss junk rest] assms(9,10) obtain pak' where pak':
    "packet_feed pak xss = Some (BSCL_PACKET_READY, rest, pak')" "buffer_inv (mo pak')"
    "buffer_contents (mo pak') = ?p"
    by auto
  have "length ?p \<le> unat (bsize (mo pak'))"
    using buffer_inv_count [OF pak'(2)] by (simp flip: pak'(3))
  then have "length data \<le> unat (bsize (mo pak'))" by simp
  from parse_contents_image [OF assms(7) this, of tbl "[]"] pak'(3)
  have "parse_contents tbl (unat (bsize (mo pak'))) (buffer_contents (mo pak'))
      = (BSCL_PACKET_MOREDATA,
         Some (\<lparr>inf_len = h_len h, inf_msgid = h_msgid h, inf_seq = h_seq h\<rparr>, data), [])"
    by simp
  from bscl_packet_parse_contents [OF pak'(2) this, of True "Some s"] assms(11) pak'(1) show ?thesis
    by (auto simp: packet_after_def)
qed

lemma packet_received_and_parsed_witness:
  "\<exists>pak' pak''. packet_feed (bscl_packet_init (replicate 16 0) 16)
      [[3], packet_image (bscl_crc32_init 0xEDB88320)
         \<lparr>h_magic = PACKET_MAGIC, h_msgid = 5, h_len = 1, h_seq = 9\<rparr> [7] @ [1], [2]]
      = Some (BSCL_PACKET_READY, [1, 2], pak')
    \<and> bscl_packet_parse (bscl_crc32_init 0xEDB88320) pak' True (Some 8) = Some (BSCL_PACKET_MOREDATA,
        Some \<lparr>inf_len = 1, inf_msgid = 5, inf_seq = 9\<rparr>, [7], pak'')"
proof -
  let ?t = "bscl_crc32_init 0xEDB88320"
  let ?h = "\<lparr>h_magic = PACKET_MAGIC, h_msgid = 5, h_len = 1, h_seq = 9\<rparr>"
  have "concat [[3], packet_image ?t ?h [7] @ [1], [2]] = [3] @ packet_image ?t ?h [7] @ [1, 2]"
    by simp
  from packet_received_and_parsed [OF packet_pak16(1-3) _ _ _ _ _ _ this, of 8] show ?thesis
    by (auto simp: packet_pak16(4) PACKET_MAGIC_def)
qed

text \<open>
  \<open>bscl_packet_receive_byte\<close>, fed byte by byte, asks for a parse (returns 1) after
  12 + (the low byte of the length field) bytes of the packet. So packets with less than 256
  bytes of data are framed exactly, and longer ones are cut short, whatever the buffer size.
\<close>

lemma bscl_packet_receive_byte_low_length:
  assumes "buffer_inv (mo pak)" and "buffer_contents (mo pak) = []" and "pstat pak = PACKET_STAT_SYNC"
    and "framed p" and "length p < unat (bsize (mo pak))" and "PACKET_MAGIC \<notin> set junk"
  shows "\<exists>pak'. packet_feed_bytes pak (junk @ p @ rest)
      = Some (1, drop (12 + packet_len p mod 256) p @ rest, pak')
    \<and> buffer_inv (mo pak') \<and> buffer_contents (mo pak') = take (12 + packet_len p mod 256) p
    \<and> pstat pak' = PACKET_STAT_PARSE"
proof -
  note plen = framed_len [OF assms(4)]
  have "take 2 (drop 2 p) = [p ! 2, p ! 3]"
    using two_bytes [of 2 p] plen by simp
  then have "packet_len p mod 256 = take_bit 8 (unat (of_le16 [p ! 2, p ! 3]))"
    by (simp add: packet_len_def take_bit_nat_def)
  also have "\<dots> = unat (take_bit 8 (of_le16 [p ! 2, p ! 3]))"
    by (rule unsigned_take_bit_eq [symmetric])
  also have "take_bit 8 (of_le16 [p ! 2, p ! 3]) = (ucast (p ! 2) :: u16)"
    by (rule bit_word_eqI) (auto simp: of_le16_def bit_simps dest: bit_u8)
  also have "unat (ucast (p ! 2) :: u16) = unat (p ! 2)"
    by (simp add: unsigned_ucast_eq take_bit_nat_eq_self_iff less_trans [OF u8_less_pow])
  finally have low: "packet_len p mod 256 = unat (p ! 2)" .
  have "unat (p ! 2) \<le> packet_len p"
    by (metis low mod_less_eq_dividend)
  then have "rb_state p (unat (p ! 2)) 0 pak"
    using assms plen by (simp add: rb_state_def)
  moreover have "hd p = PACKET_MAGIC"
    using assms(4) by (simp add: framed_def)
  ultimately show ?thesis
    unfolding low by (rule packet_feed_bytes_spec [OF _ _ assms(6)])
qed

lemma bscl_packet_receive_byte_low_length_witness:
  "\<exists>pak'. packet_feed_bytes (bscl_packet_init (replicate 16 0) 16)
      ([1] @ [0x7e, 5, 0, 0, 9, 9, 9, 9, 1, 2, 3, 4] @ [8])
    = Some (1, [8], pak')
    \<and> buffer_contents (mo pak') = [0x7e, 5, 0, 0, 9, 9, 9, 9, 1, 2, 3, 4]"
proof -
  have "framed [0x7e, 5, 0, 0, 9, 9, 9, 9, 1, 2, 3, 4]"
    by (simp add: framed_def packet_len_def of_le16_def PACKET_MAGIC_def)
  from bscl_packet_receive_byte_low_length [OF packet_pak16(1-3) this, of "[1]" "[8]"] show ?thesis
    by (auto simp: packet_pak16(4) PACKET_MAGIC_def packet_len_def of_le16_def)
qed

text \<open>
  \<open>bscl_packet_resync\<close> drops what precedes the next magic byte. When a whole packet follows
  it reports READY with the packet in front; when only the first \<open>k\<close> bytes of a packet are
  stored it leaves the receiver in exactly the state in which \<open>bscl_packet_receive\<close> completes
  that packet from the rest of the stream, in any chunks.
\<close>

lemma bscl_packet_resync_resumes:
  assumes "buffer_inv (mo pak)" and "PACKET_MAGIC \<notin> set junk" and "framed p"
    and "length p \<le> unat (bsize (mo pak))" and "unat (bsize (mo pak)) < 2 ^ 31"
  shows "if length p \<le> k then buffer_contents (mo pak) = junk @ p @ rest \<longrightarrow>
      (\<exists>pak'. bscl_packet_resync pak = Some (BSCL_PACKET_READY, pak')
        \<and> buffer_contents (mo pak') = p @ rest \<and> pstat pak' = PACKET_STAT_PARSE)
    else 0 < k \<and> buffer_contents (mo pak) = junk @ take k p \<and> concat xss = drop k p @ rest \<longrightarrow>
      (\<exists>pak' pak''. bscl_packet_resync pak = Some (BSCL_PACKET_MOREDATA, pak')
        \<and> packet_feed pak' xss = Some (BSCL_PACKET_READY, rest, pak'')
        \<and> buffer_contents (mo pak'') = p)"
proof (cases "length p \<le> k")
  case True
  then show ?thesis
    using bscl_packet_resync_spec(2) [OF assms(1-4), of rest] assms(5) by auto
next
  case False
  have "\<exists>pak' pak''. bscl_packet_resync pak = Some (BSCL_PACKET_MOREDATA, pak')
        \<and> packet_feed pak' xss = Some (BSCL_PACKET_READY, rest, pak'')
        \<and> buffer_contents (mo pak'') = p"
    if k: "0 < k" and cs: "buffer_contents (mo pak) = junk @ take k p"
      and xss: "concat xss = drop k p @ rest"
  proof -
    obtain pak' where pak': "bscl_packet_resync pak = Some (BSCL_PACKET_MOREDATA, pak')"
      "rx_core p k pak'"
      using bscl_packet_resync_spec(1) [OF assms(1-4) _ k _ cs] False assms(5) by auto
    then have "rx_state p k pak'"
      using k by (simp add: rx_state_def)
    from packet_feed_spec [OF assms(3) this, of xss "[]" rest] xss pak'(1) show ?thesis
      by auto
  qed
  with False show ?thesis by simp
qed

lemma bscl_packet_resync_resumes_witness:
  "\<exists>pak' pak''. bscl_packet_resync
      \<lparr>mo = \<lparr>mem_buf = [1, 0x7e, 5, 0] @ replicate 12 0, bsize = 16, wrp = 4, rdp = 0\<rparr>,
       pleft = 0, pstat = PACKET_STAT_PARSE\<rparr> = Some (BSCL_PACKET_MOREDATA, pak')
    \<and> packet_feed pak' [[0, 9, 9, 9, 9], [1, 2, 3, 4, 6]] = Some (BSCL_PACKET_READY, [6], pak'')"
proof -
  let ?b = "\<lparr>mem_buf = [1, 0x7e, 5, 0] @ replicate 12 0, bsize = 16, wrp = 4, rdp = 0\<rparr> :: buffer_t"
  let ?p = "[0x7e, 5, 0, 0, 9, 9, 9, 9, 1, 2, 3, 4] :: u8 list"
  have fr: "framed ?p"
    by (simp add: framed_def packet_len_def of_le16_def PACKET_MAGIC_def)
  have "\<exists>k<32. unat (16 :: u32) = 2 ^ k"
    by (rule exI [of _ 4]) simp
  then have inv: "buffer_inv ?b"
    by (simp add: buffer_inv_def buffer_get_count_def)
  have "[0..<4] = [0, 1, 2, 3 :: nat]"
    by (simp add: upt_rec)
  then have "buffer_contents ?b = [1] @ take 3 ?p"
    by (simp add: buffer_contents_def buffer_get_count_def ring_get_def)
  with bscl_packet_resync_resumes [of "\<lparr>mo = ?b, pleft = 0, pstat = PACKET_STAT_PARSE\<rparr>" "[1]" ?p 3
      "[6]" "[[0, 9, 9, 9, 9], [1, 2, 3, 4, 6]]"] inv fr show ?thesis
    by (auto simp: PACKET_MAGIC_def)
qed

text \<open>
  when the stored bytes hold no magic byte, and the memory cell after them does not happen
  to either, \<open>bscl_packet_resync\<close> never returns: \<open>buffer_copy_first\<close> is never negative, so
  the test for an empty buffer cannot stop the search.
\<close>

lemma bscl_packet_resync_hangs:
  assumes "buffer_inv (mo pak)" and "PACKET_MAGIC \<notin> set (buffer_contents (mo pak))"
    and "mem_buf (mo pak) ! (unat (wrp (mo pak)) mod length (mem_buf (mo pak))) \<noteq> PACKET_MAGIC"
  shows "bscl_packet_resync pak = None"
  by (rule bscl_packet_resync_diverges) (use assms in \<open>simp add: no_magic_def\<close>)

lemma bscl_packet_resync_hangs_witness:
  "bscl_packet_resync (bscl_packet_init (replicate 16 0) 16) = None"
  by (rule bscl_packet_resync_hangs)
    (simp_all add: packet_pak16, simp add: bscl_packet_init_def buffer_init_def PACKET_MAGIC_def)

end
