(* ===== verification/Tea.thy ===== *)
theory Tea
  imports Bytes
begin

text \<open>
  The block cipher of \<open>src/bscl_tea.c\<close> and the chaining mode of \<open>bscl_encryptData\<close> and
  \<open>bscl_decryptData\<close>, which work in place on the caller's memory \<open>data\<close>. An offset is a natural
  number; where the code computes \<open>data + 8 * (n - 1)\<close> for \<open>n = 0\<close> the access is before the
  array, and the result is \<open>None\<close>.

  The locale \<open>chained_cipher\<close> proves the chaining mode correct for every block cipher; TEA with
  the key of the library is its interpretation.
\<close>

section \<open>The code\<close>

definition bscl_tea_key :: "u8 list" where
  "bscl_tea_key = [0x29, 0x23, 0xbe, 0x84, 0xe1, 0x6c, 0xd6, 0xae,
                   0x52, 0x90, 0x49, 0xf1, 0xf1, 0xbb, 0xe9, 0xeb]"

text \<open>The cast of the key bytes to words.\<close>

definition tea_key_words :: "u32 list" where
  "tea_key_words = map (\<lambda>i. of_le32 (take 4 (drop (4 * i) bscl_tea_key))) [0..<4]"

text \<open>\<open>n\<close> counts the bytes that are left of the eight.\<close>

fun xor_64_loop :: "u8 list \<Rightarrow> nat \<Rightarrow> nat \<Rightarrow> nat \<Rightarrow> nat \<Rightarrow> u8 list option" where
  "xor_64_loop m data para i 0 = Some m"
| "xor_64_loop m data para i (Suc n) = do {
     x \<leftarrow> mem_read m (data + i) 1;
     y \<leftarrow> mem_read m (para + i) 1;
     m' \<leftarrow> mem_write m (data + i) [hd x XOR hd y];
     xor_64_loop m' data para (i + 1) n
   }"

definition bscl_xor_64 :: "u8 list \<Rightarrow> nat \<Rightarrow> nat \<Rightarrow> u8 list option" where
  "bscl_xor_64 m data para = xor_64_loop m data para 0 8"

definition tea_delta :: u32 where
  "tea_delta = 0x9e3779b9"

definition tea_enc_round :: "u32 list \<Rightarrow> u32 \<times> u32 \<times> u32 \<Rightarrow> u32 \<times> u32 \<times> u32" where
  "tea_enc_round k = (\<lambda>(v0, v1, sum).
     let sum = sum + tea_delta;
         v0 = v0 + ((shl v1 4 + k ! 0) XOR (v1 + sum) XOR (shr v1 5 + k ! 1));
         v1 = v1 + ((shl v0 4 + k ! 2) XOR (v0 + sum) XOR (shr v0 5 + k ! 3))
     in (v0, v1, sum))"

definition tea_dec_round :: "u32 list \<Rightarrow> u32 \<times> u32 \<times> u32 \<Rightarrow> u32 \<times> u32 \<times> u32" where
  "tea_dec_round k = (\<lambda>(v0, v1, sum).
     let v1 = v1 - ((shl v0 4 + k ! 2) XOR (v0 + sum) XOR (shr v0 5 + k ! 3));
         v0 = v0 - ((shl v1 4 + k ! 0) XOR (v1 + sum) XOR (shr v1 5 + k ! 1))
     in (v0, v1, sum - tea_delta))"

text \<open>The two words at \<open>v\<close> in the memory \<open>m\<close> are replaced.\<close>

definition bscl_encrypt :: "u8 list \<Rightarrow> nat \<Rightarrow> u32 list \<Rightarrow> u8 list option" where
  "bscl_encrypt m v k = do {
     b \<leftarrow> mem_read m v 8;
     let (v0, v1, sum) = (tea_enc_round k ^^ 32) (of_le32 (take 4 b), of_le32 (drop 4 b), 0);
     mem_write m v (le32 v0 @ le32 v1)
   }"

definition bscl_decrypt :: "u8 list \<Rightarrow> nat \<Rightarrow> u32 list \<Rightarrow> u8 list option" where
  "bscl_decrypt m v k = do {
     b \<leftarrow> mem_read m v 8;
     let (v0, v1, sum) =
       (tea_dec_round k ^^ 32) (of_le32 (take 4 b), of_le32 (drop 4 b), 0xC6EF3720);
     mem_write m v (le32 v0 @ le32 v1)
   }"

text \<open>The loop \<open>for (i = n - 2; i >= 0; i--)\<close>; the argument is \<open>i + 1\<close>.\<close>

fun encrypt_loop :: "u8 list \<Rightarrow> nat \<Rightarrow> u8 list option" where
  "encrypt_loop data 0 = Some data"
| "encrypt_loop data (Suc i) = do {
     data \<leftarrow> bscl_xor_64 data (8 * i) (8 * (i + 1));
     data \<leftarrow> bscl_encrypt data (8 * i) tea_key_words;
     encrypt_loop data i
   }"

definition bscl_encryptData :: "u8 list \<Rightarrow> u32 \<Rightarrow> (bool \<times> u8 list) option" where
  "bscl_encryptData data len =
     (if len mod 8 \<noteq> 0 then Some (False, data)
      else (let n = unat (len div 8) in do {
        guard (0 < n);
        data \<leftarrow> bscl_encrypt data (8 * (n - 1)) tea_key_words;
        data \<leftarrow> encrypt_loop data (n - 1);
        Some (True, data)
      }))"

text \<open>The loop \<open>for (i = 0; i < n - 1; i++)\<close>, with the number of iterations left.\<close>

fun decrypt_loop :: "u8 list \<Rightarrow> nat \<Rightarrow> nat \<Rightarrow> u8 list option" where
  "decrypt_loop data i 0 = Some data"
| "decrypt_loop data i (Suc k) = do {
     data \<leftarrow> bscl_decrypt data (8 * i) tea_key_words;
     data \<leftarrow> bscl_xor_64 data (8 * i) (8 * (i + 1));
     decrypt_loop data (i + 1) k
   }"

definition bscl_decryptData :: "u8 list \<Rightarrow> u32 \<Rightarrow> (bool \<times> u8 list) option" where
  "bscl_decryptData data len =
     (if len mod 8 \<noteq> 0 then Some (False, data)
      else (let n = unat (len div 8) in do {
        guard (0 < n);
        data \<leftarrow> decrypt_loop data 0 (n - 1);
        data \<leftarrow> bscl_decrypt data (8 * (n - 1)) tea_key_words;
        Some (True, data)
      }))"

section \<open>One block\<close>

lemma tea_dec_enc_round: "tea_dec_round k (tea_enc_round k s) = s"
  by (cases s) (simp add: tea_dec_round_def tea_enc_round_def Let_def)

lemma tea_enc_dec_round: "tea_enc_round k (tea_dec_round k s) = s"
  by (cases s) (simp add: tea_dec_round_def tea_enc_round_def Let_def)

lemma funpow_inverse:
  fixes f g :: "'a \<Rightarrow> 'a"
  assumes "\<And>s. g (f s) = s"
  shows "(g ^^ n) ((f ^^ n) s) = s"
proof (induction n arbitrary: s)
  case 0
  show ?case by simp
next
  case (Suc n)
  have "(g ^^ Suc n) ((f ^^ Suc n) s) = (g ^^ n) (g (f ((f ^^ n) s)))"
    by (simp add: funpow_swap1)
  then show ?case
    by (simp add: assms Suc)
qed

lemma tea_sum: "snd (snd ((tea_enc_round k ^^ n) s)) = snd (snd s) + of_nat n * tea_delta"
  by (induction n) (auto simp: tea_enc_round_def Let_def case_prod_beta algebra_simps)

lemma tea_sum_dec: "snd (snd ((tea_dec_round k ^^ n) s)) = snd (snd s) - of_nat n * tea_delta"
  by (induction n) (auto simp: tea_dec_round_def Let_def case_prod_beta algebra_simps)

lemma tea_sum_32: "of_nat 32 * tea_delta = 0xC6EF3720"
  by (simp add: tea_delta_def)

text \<open>The block functions on eight bytes.\<close>

definition tea_block_enc :: "u32 list \<Rightarrow> u8 list \<Rightarrow> u8 list" where
  "tea_block_enc k b = (let (v0, v1, s) =
     (tea_enc_round k ^^ 32) (of_le32 (take 4 b), of_le32 (drop 4 b), 0) in le32 v0 @ le32 v1)"

definition tea_block_dec :: "u32 list \<Rightarrow> u8 list \<Rightarrow> u8 list" where
  "tea_block_dec k b = (let (v0, v1, s) =
     (tea_dec_round k ^^ 32) (of_le32 (take 4 b), of_le32 (drop 4 b), 0xC6EF3720)
     in le32 v0 @ le32 v1)"

lemma length_tea_block [simp]: "length (tea_block_enc k b) = 8" "length (tea_block_dec k b) = 8"
  by (simp_all add: tea_block_enc_def tea_block_dec_def Let_def case_prod_beta)

lemma le32_of_le32_block:
  "length b = 8 \<Longrightarrow> le32 (of_le32 (take 4 b)) @ le32 (of_le32 (drop 4 b)) = b"
  by (simp add: le32_of_le32)

lemma tea_block_dec_enc:
  assumes "length b = 8"
  shows "tea_block_dec k (tea_block_enc k b) = b"
proof -
  let ?s = "(of_le32 (take 4 b), of_le32 (drop 4 b), 0) :: u32 \<times> u32 \<times> u32"
  obtain v0 v1 s where e: "(tea_enc_round k ^^ 32) ?s = (v0, v1, s)"
    by (cases "(tea_enc_round k ^^ 32) ?s") auto
  have "s = 0xC6EF3720"
    using tea_sum [of 32 k ?s] tea_sum_32 by (simp add: e)
  moreover have "(tea_dec_round k ^^ 32) (v0, v1, s) = ?s"
    unfolding e [symmetric] by (rule funpow_inverse) (rule tea_dec_enc_round)
  ultimately show ?thesis
    using le32_of_le32_block [OF assms] by (simp add: tea_block_enc_def tea_block_dec_def e)
qed

lemma tea_block_enc_dec:
  assumes "length b = 8"
  shows "tea_block_enc k (tea_block_dec k b) = b"
proof -
  let ?s = "(of_le32 (take 4 b), of_le32 (drop 4 b), 0xC6EF3720) :: u32 \<times> u32 \<times> u32"
  obtain v0 v1 s where e: "(tea_dec_round k ^^ 32) ?s = (v0, v1, s)"
    by (cases "(tea_dec_round k ^^ 32) ?s") auto
  have "s = 0"
    using tea_sum_dec [of 32 k ?s] tea_sum_32 by (simp add: e)
  moreover have "(tea_enc_round k ^^ 32) (v0, v1, s) = ?s"
    unfolding e [symmetric] by (rule funpow_inverse) (rule tea_enc_dec_round)
  ultimately show ?thesis
    using le32_of_le32_block [OF assms] by (simp add: tea_block_enc_def tea_block_dec_def e)
qed

lemma bscl_encrypt_mid:
  "v = length pre \<Longrightarrow> length b = 8 \<Longrightarrow>
     bscl_encrypt (pre @ b @ post) v k = Some (pre @ tea_block_enc k b @ post)"
  by (simp add: bscl_encrypt_def mem_read_mid tea_block_enc_def Let_def case_prod_beta mem_write_mid)

lemma bscl_decrypt_mid:
  "v = length pre \<Longrightarrow> length b = 8 \<Longrightarrow>
     bscl_decrypt (pre @ b @ post) v k = Some (pre @ tea_block_dec k b @ post)"
  by (simp add: bscl_decrypt_def mem_read_mid tea_block_dec_def Let_def case_prod_beta mem_write_mid)

section \<open>The mask\<close>

definition xor_block :: "u8 list \<Rightarrow> u8 list \<Rightarrow> u8 list" where
  "xor_block b c = map2 (XOR) b c"

lemma length_xor_block [simp]: "length (xor_block b c) = min (length b) (length c)"
  by (simp add: xor_block_def)

lemma xor_block_cancel: "length b = length c \<Longrightarrow> xor_block (xor_block b c) c = b"
  by (induction b c rule: list_induct2) (simp_all add: xor_block_def xor.assoc)

lemma xor_64_loop_mid:
  "length pre = d \<Longrightarrow> length (ys @ todo) = 8 \<Longrightarrow> length c = 8 \<Longrightarrow>
   xor_64_loop (pre @ ys @ todo @ c @ post) d (d + 8) (length ys) (length todo)
     = Some (pre @ ys @ xor_block todo (drop (length ys) c) @ c @ post)"
proof (induction todo arbitrary: ys)
  case Nil
  then show ?case by (simp add: xor_block_def)
next
  case (Cons x todo)
  let ?i = "length ys"
  have i: "?i < 8"
    using Cons.prems(2) by simp
  have "mem_read (pre @ ys @ (x # todo) @ c @ post) (d + ?i) 1 = Some [x]"
    using Cons.prems(1) mem_read_mid [of "d + ?i" "pre @ ys" 1 "[x]" "todo @ c @ post"] by simp
  moreover have "mem_read (pre @ ys @ (x # todo) @ c @ post) (d + 8 + ?i) 1 = Some [c ! ?i]"
  proof -
    have "take ?i c @ c ! ?i # drop (Suc ?i) c = c"
      using i Cons.prems(3) by (simp add: id_take_nth_drop [symmetric])
    then have "pre @ ys @ (x # todo) @ c @ post
        = (pre @ ys @ (x # todo) @ take ?i c) @ [c ! ?i] @ (drop (Suc ?i) c @ post)"
      by (metis append.assoc append_Cons append_Nil)
    moreover have "d + 8 + ?i = length (pre @ ys @ (x # todo) @ take ?i c)"
      and "1 = length [c ! ?i]"
      using Cons.prems i by simp_all
    ultimately show ?thesis
      by (metis mem_read_mid)
  qed
  moreover have "mem_write (pre @ ys @ (x # todo) @ c @ post) (d + ?i) [x XOR c ! ?i]
      = Some (pre @ (ys @ [x XOR c ! ?i]) @ todo @ c @ post)"
    using Cons.prems(1)
      mem_write_mid [of "d + ?i" "pre @ ys" "[x XOR c ! ?i]" "[x]" "todo @ c @ post"] by simp
  moreover have "drop ?i c = c ! ?i # drop (Suc ?i) c"
    using i Cons.prems(3) by (simp add: Cons_nth_drop_Suc)
  ultimately show ?case
    using Cons.IH [of "ys @ [x XOR c ! ?i]"] Cons.prems by (simp add: xor_block_def)
qed

lemma bscl_xor_64_mid:
  assumes "d = length pre" and "p = d + 8" and "length b = 8" and "length c = 8"
  shows "bscl_xor_64 (pre @ b @ c @ post) d p = Some (pre @ xor_block b c @ c @ post)"
  using xor_64_loop_mid [of pre d "[]" b c post] assms by (simp add: bscl_xor_64_def)

section \<open>Chaining\<close>

text \<open>
  From the last block to the first, every block is masked with the encrypted block behind it.
\<close>

locale chained_cipher =
  fixes block :: "'b \<Rightarrow> bool"
    and enc :: "'b \<Rightarrow> 'b"
    and dec :: "'b \<Rightarrow> 'b"
    and mix :: "'b \<Rightarrow> 'b \<Rightarrow> 'b"
  assumes enc_block: "block b \<Longrightarrow> block (enc b)"
    and dec_block: "block b \<Longrightarrow> block (dec b)"
    and mix_block: "block b \<Longrightarrow> block c \<Longrightarrow> block (mix b c)"
    and dec_enc: "block b \<Longrightarrow> dec (enc b) = b"
    and enc_dec: "block b \<Longrightarrow> enc (dec b) = b"
    and mix_mix: "block b \<Longrightarrow> block c \<Longrightarrow> mix (mix b c) c = b"
begin

fun chain_enc :: "'b list \<Rightarrow> 'b list" where
  "chain_enc [] = []"
| "chain_enc [b] = [enc b]"
| "chain_enc (b # bs) = (let cs = chain_enc bs in enc (mix b (hd cs)) # cs)"

fun chain_dec :: "'b list \<Rightarrow> 'b list" where
  "chain_dec [] = []"
| "chain_dec [c] = [dec c]"
| "chain_dec (c # d # cs) = mix (dec c) d # chain_dec (d # cs)"

lemma length_chain_enc: "length (chain_enc bs) = length bs"
  by (induction bs rule: chain_enc.induct) (simp_all add: Let_def)

lemma length_chain_dec: "length (chain_dec bs) = length bs"
  by (induction bs rule: chain_dec.induct) simp_all

lemma chain_enc_Cons: "bs \<noteq> [] \<Longrightarrow> chain_enc (b # bs) = enc (mix b (hd (chain_enc bs))) # chain_enc bs"
  by (cases bs) (simp_all add: Let_def)

lemma chain_enc_blocks: "\<forall>b\<in>set bs. block b \<Longrightarrow> \<forall>c\<in>set (chain_enc bs). block c"
proof (induction bs rule: chain_enc.induct)
  case (3 b v va)
  moreover have "chain_enc (v # va) \<noteq> []"
    using length_chain_enc [of "v # va"] by force
  ultimately show ?case
    by (auto simp: Let_def enc_block mix_block)
qed (simp_all add: enc_block)

lemma chain_dec_blocks: "\<forall>c\<in>set cs. block c \<Longrightarrow> \<forall>b\<in>set (chain_dec cs). block b"
  by (induction cs rule: chain_dec.induct) (simp_all add: dec_block mix_block)

lemma chain_dec_enc: "\<forall>b\<in>set bs. block b \<Longrightarrow> chain_dec (chain_enc bs) = bs"
proof (induction bs rule: chain_enc.induct)
  case (3 b v va)
  let ?cs = "chain_enc (v # va)"
  have "?cs \<noteq> []"
    using length_chain_enc [of "v # va"] by force
  then obtain c cs where cs: "?cs = c # cs"
    by (cases ?cs) auto
  have "block c"
    using chain_enc_blocks [of "v # va"] 3 cs by auto
  then show ?case
    using 3 cs by (simp add: Let_def dec_enc mix_block mix_mix)
qed (simp_all add: dec_enc)

lemma chain_enc_dec: "\<forall>c\<in>set cs. block c \<Longrightarrow> chain_enc (chain_dec cs) = cs"
proof (induction cs rule: chain_dec.induct)
  case (3 c d cs)
  have "chain_dec (d # cs) \<noteq> []"
    using length_chain_dec [of "d # cs"] by force
  moreover have "chain_enc (chain_dec (d # cs)) = d # cs"
    using 3 by simp
  ultimately show ?case
    using 3 by (simp add: chain_enc_Cons mix_mix dec_block enc_dec)
qed (simp_all add: enc_dec)

end

interpretation tea: chained_cipher "\<lambda>b. length b = 8" "tea_block_enc tea_key_words"
  "tea_block_dec tea_key_words" xor_block
  by unfold_locales (simp_all add: tea_block_dec_enc tea_block_enc_dec xor_block_cancel)

section \<open>The data functions are the chaining mode\<close>

abbreviation blocks :: "u8 list list \<Rightarrow> bool" where
  "blocks bs \<equiv> \<forall>b\<in>set bs. length b = 8"

lemma length_concat_blocks: "blocks bs \<Longrightarrow> length (concat bs) = 8 * length bs"
  by (induction bs) simp_all

text \<open>What is behind block \<open>i\<close> is encrypted already.\<close>

lemma encrypt_loop_chain:
  assumes "blocks cs" and "cs \<noteq> []"
  shows "blocks bs \<Longrightarrow> encrypt_loop (concat bs @ concat (tea.chain_enc cs) @ rest) (length bs)
    = Some (concat (tea.chain_enc (bs @ cs)) @ rest)"
  using assms
proof (induction bs arbitrary: cs rule: rev_induct)
  case Nil
  then show ?case by simp
next
  case (snoc b bs)
  let ?es = "tea.chain_enc cs"
  have "?es \<noteq> []"
    using tea.length_chain_enc [of cs] snoc.prems(3) by force
  then obtain e es where es: "?es = e # es"
    by (cases ?es) auto
  have e: "length e = 8"
    using tea.chain_enc_blocks [OF snoc.prems(2)] es by simp
  have bs: "blocks bs" and b: "length b = 8"
    using snoc.prems(1) by auto
  have len: "8 * length bs = length (concat bs)"
    using length_concat_blocks [OF bs] by simp
  have "bscl_xor_64 (concat bs @ b @ e @ concat es @ rest) (8 * length bs) (8 * (length bs + 1))
      = Some (concat bs @ xor_block b e @ e @ concat es @ rest)"
    using b e len by (intro bscl_xor_64_mid) simp_all
  moreover have "bscl_encrypt (concat bs @ xor_block b e @ e @ concat es @ rest) (8 * length bs)
      tea_key_words = Some (concat bs @ tea_block_enc tea_key_words (xor_block b e)
        @ e @ concat es @ rest)"
    using b e len by (intro bscl_encrypt_mid) simp_all
  moreover have "tea.chain_enc (b # cs) = tea_block_enc tea_key_words (xor_block b e) # e # es"
    using tea.chain_enc_Cons [OF snoc.prems(3), of b] es by simp
  ultimately show ?case
    using snoc.IH [OF bs, of "b # cs"] snoc.prems es by simp
qed

lemma decrypt_loop_chain:
  assumes "length pre = 8 * i" and "blocks cs" and "cs \<noteq> []"
  shows "\<exists>ds. decrypt_loop (pre @ concat cs @ rest) i (length cs - 1)
      = Some (pre @ concat ds @ last cs @ rest)
    \<and> tea.chain_dec cs = ds @ [tea_block_dec tea_key_words (last cs)] \<and> length ds = length cs - 1"
  using assms
proof (induction cs arbitrary: pre i)
  case Nil
  then show ?case by simp
next
  case (Cons c cs)
  show ?case
  proof (cases cs)
    case Nil
    then show ?thesis by (intro exI [of _ "[]"]) simp
  next
    case (Cons d cs')
    let ?x = "xor_block (tea_block_dec tea_key_words c) d"
    have l: "length c = 8" "length d = 8"
      using Cons.prems(2) Cons by simp_all
    have "bscl_decrypt (pre @ c @ concat cs @ rest) (8 * i) tea_key_words
        = Some (pre @ tea_block_dec tea_key_words c @ concat cs @ rest)"
      using l Cons.prems(1) by (intro bscl_decrypt_mid) simp_all
    moreover have "bscl_xor_64 (pre @ tea_block_dec tea_key_words c @ d @ concat cs' @ rest)
        (8 * i) (8 * (i + 1)) = Some (pre @ ?x @ d @ concat cs' @ rest)"
      using l Cons.prems(1) by (intro bscl_xor_64_mid) simp_all
    moreover obtain ds where "decrypt_loop ((pre @ ?x) @ concat cs @ rest) (i + 1) (length cs - 1)
        = Some ((pre @ ?x) @ concat ds @ last cs @ rest)"
      "tea.chain_dec cs = ds @ [tea_block_dec tea_key_words (last cs)]" "length ds = length cs - 1"
      using Cons.IH [of "pre @ ?x" "i + 1"] Cons.prems Cons l by auto
    ultimately show ?thesis
      using Cons by (intro exI [of _ "?x # ds"]) simp
  qed
qed

lemma blocks_exist:
  "length xs = 8 * n \<Longrightarrow> \<exists>bs. xs = concat bs \<and> blocks bs \<and> length bs = n"
proof (induction n arbitrary: xs)
  case 0
  then show ?case by (intro exI [of _ "[]"]) simp
next
  case (Suc n)
  then have "length (drop 8 xs) = 8 * n" by simp
  from Suc.IH [OF this] obtain bs where "drop 8 xs = concat bs" "blocks bs" "length bs = n"
    by blast
  moreover have "xs = take 8 xs @ drop 8 xs" and "length (take 8 xs) = 8"
    using Suc.prems by simp_all
  ultimately show ?case
    by (intro exI [of _ "take 8 xs # bs"]) auto
qed

lemma bscl_encryptData_chain:
  assumes "blocks bs" and "bs \<noteq> []" and "unat len = 8 * length bs"
  shows "bscl_encryptData (concat bs @ rest) len = Some (True, concat (tea.chain_enc bs) @ rest)"
proof -
  have bs: "bs = butlast bs @ [last bs]"
    using assms(2) by simp
  have l: "length (last bs) = 8" and init: "blocks (butlast bs)"
    using assms(1,2) by (auto dest: in_set_butlastD)
  have n: "unat (len div 8) = length bs" and "unat (len mod 8) = 0"
    using assms(3) by (simp_all add: unat_div unat_mod)
  then have m: "len mod 8 = 0"
    by (simp only: unat_eq_zero)
  let ?e = "tea_block_enc tea_key_words (last bs)"
  have "bscl_encrypt (concat (butlast bs) @ last bs @ rest) (8 * (length bs - 1)) tea_key_words
      = Some (concat (butlast bs) @ ?e @ rest)"
    using l length_concat_blocks [OF init] by (intro bscl_encrypt_mid) simp_all
  moreover have "concat bs = concat (butlast bs) @ last bs"
    by (subst bs) simp
  moreover have "encrypt_loop (concat (butlast bs) @ ?e @ rest) (length bs - 1)
      = Some (concat (tea.chain_enc bs) @ rest)"
    using encrypt_loop_chain [of "[last bs]" "butlast bs" rest] l init assms(2) by simp
  ultimately show ?thesis
    using assms(2) n m by (simp add: bscl_encryptData_def Let_def)
qed

lemma bscl_decryptData_chain:
  assumes "blocks cs" and "cs \<noteq> []" and "unat len = 8 * length cs"
  shows "bscl_decryptData (concat cs @ rest) len = Some (True, concat (tea.chain_dec cs) @ rest)"
proof -
  have n: "unat (len div 8) = length cs" and "unat (len mod 8) = 0"
    using assms(3) by (simp_all add: unat_div unat_mod)
  then have m: "len mod 8 = 0"
    by (simp only: unat_eq_zero)
  obtain ds where ds: "decrypt_loop (concat cs @ rest) 0 (length cs - 1)
      = Some (concat ds @ last cs @ rest)"
    "tea.chain_dec cs = ds @ [tea_block_dec tea_key_words (last cs)]" "length ds = length cs - 1"
    using decrypt_loop_chain [of "[]" 0 cs rest] assms by auto
  have "length (last cs) = 8"
    using assms(1,2) by simp
  have "length (concat (tea.chain_dec cs)) = 8 * length cs"
    using length_concat_blocks [of "tea.chain_dec cs"] tea.chain_dec_blocks [OF assms(1)]
    by (simp add: tea.length_chain_dec)
  then have "length (concat ds) = 8 * (length cs - 1)"
    unfolding ds(2) using assms(2) by simp
  then have "bscl_decrypt (concat ds @ last cs @ rest) (8 * (length cs - 1)) tea_key_words
      = Some (concat ds @ tea_block_dec tea_key_words (last cs) @ rest)"
    using \<open>length (last cs) = 8\<close> by (intro bscl_decrypt_mid) simp_all
  with ds n m assms(2) show ?thesis
    by (simp add: bscl_decryptData_def Let_def)
qed

section \<open>Properties\<close>

text \<open>
  For every key, \<open>bscl_decrypt\<close> undoes \<open>bscl_encrypt\<close> and the other way round, at every
  offset of a memory that holds the block, and neither touches another byte.
\<close>

lemma bscl_decrypt_inverse:
  assumes "v + 8 \<le> length m"
  shows "(\<exists>m'. bscl_encrypt m v k = Some m' \<and> bscl_decrypt m' v k = Some m
      \<and> take v m' = take v m \<and> drop (v + 8) m' = drop (v + 8) m)
    \<and> (\<exists>m'. bscl_decrypt m v k = Some m' \<and> bscl_encrypt m' v k = Some m
      \<and> take v m' = take v m \<and> drop (v + 8) m' = drop (v + 8) m)"
proof -
  let ?pre = "take v m" and ?b = "take 8 (drop v m)" and ?post = "drop (v + 8) m"
  have m: "m = ?pre @ ?b @ ?post"
    by (metis append_take_drop_id add.commute drop_drop)
  have v: "v = length ?pre" and b: "length ?b = 8"
    using assms by simp_all
  have "bscl_encrypt m v k = Some (?pre @ tea_block_enc k ?b @ ?post)"
    "bscl_decrypt m v k = Some (?pre @ tea_block_dec k ?b @ ?post)"
    "bscl_decrypt (?pre @ tea_block_enc k ?b @ ?post) v k = Some m"
    "bscl_encrypt (?pre @ tea_block_dec k ?b @ ?post) v k = Some m"
    using bscl_encrypt_mid [OF v b, of ?post k] bscl_decrypt_mid [OF v b, of ?post k]
      bscl_decrypt_mid [OF v length_tea_block(1), of k ?b ?post k]
      bscl_encrypt_mid [OF v length_tea_block(2), of k ?b ?post k]
    by (simp_all only: tea_block_dec_enc [OF b] tea_block_enc_dec [OF b] flip: m)
  with v show ?thesis by simp
qed

lemma bscl_decrypt_inverse_witness:
  "\<exists>m'. bscl_encrypt [9, 1, 2, 3, 4, 5, 6, 7, 8] 1 [1, 2, 3, 4] = Some m'
    \<and> bscl_decrypt m' 1 [1, 2, 3, 4] = Some [9, 1, 2, 3, 4, 5, 6, 7, 8]"
  using bscl_decrypt_inverse [of 1 "[9, 1, 2, 3, 4, 5, 6, 7, 8]" "[1, 2, 3, 4]"] by auto



end
