(* ===== verification/Md5.thy ===== *)
theory Md5
  imports Bytes
begin

text \<open>
  The MD5 digest of \<open>src/bscl_md5.c\<close>: the context with its 64-byte buffer and 64-bit counter,
  the block transformation line by line, and the three calls of the interface.

  \<open>md5_repr\<close> relates a context to the message it has absorbed; the result is compared with
  \<open>md5_reference\<close>, which pads the whole message and runs a loop over 64 uniform steps.
\<close>

section \<open>The code\<close>

abbreviation (input) S11 :: nat where "S11 \<equiv> 7"
abbreviation (input) S12 :: nat where "S12 \<equiv> 12"
abbreviation (input) S13 :: nat where "S13 \<equiv> 17"
abbreviation (input) S14 :: nat where "S14 \<equiv> 22"
abbreviation (input) S21 :: nat where "S21 \<equiv> 5"
abbreviation (input) S22 :: nat where "S22 \<equiv> 9"
abbreviation (input) S23 :: nat where "S23 \<equiv> 14"
abbreviation (input) S24 :: nat where "S24 \<equiv> 20"
abbreviation (input) S31 :: nat where "S31 \<equiv> 4"
abbreviation (input) S32 :: nat where "S32 \<equiv> 11"
abbreviation (input) S33 :: nat where "S33 \<equiv> 16"
abbreviation (input) S34 :: nat where "S34 \<equiv> 23"
abbreviation (input) S41 :: nat where "S41 \<equiv> 6"
abbreviation (input) S42 :: nat where "S42 \<equiv> 10"
abbreviation (input) S43 :: nat where "S43 \<equiv> 15"
abbreviation (input) S44 :: nat where "S44 \<equiv> 21"

record bscl_md5_context_t =
  md5_state :: "u32 list"
  md5_count :: "u32 \<times> u32"
  md5_buffer :: "u8 list"

definition PADDING :: "u8 list" where
  "PADDING = 0x80 # replicate 63 0"

definition md5_F :: "u32 \<Rightarrow> u32 \<Rightarrow> u32 \<Rightarrow> u32" where
  "md5_F x y z = (x AND y) OR (NOT x AND z)"

definition md5_G :: "u32 \<Rightarrow> u32 \<Rightarrow> u32 \<Rightarrow> u32" where
  "md5_G x y z = (x AND z) OR (y AND NOT z)"

definition md5_H :: "u32 \<Rightarrow> u32 \<Rightarrow> u32 \<Rightarrow> u32" where
  "md5_H x y z = x XOR y XOR z"

definition md5_I :: "u32 \<Rightarrow> u32 \<Rightarrow> u32 \<Rightarrow> u32" where
  "md5_I x y z = y XOR (x OR NOT z)"

definition ROTATE_LEFT :: "u32 \<Rightarrow> nat \<Rightarrow> u32" where
  "ROTATE_LEFT x n = shl x n OR shr x (32 - n)"

text \<open>The local variables \<open>a\<close>, \<open>b\<close>, \<open>c\<close>, \<open>d\<close>: a macro call assigns the first one it names.\<close>

datatype reg = A | B | C | D

type_synonym regs = "reg \<Rightarrow> u32"

definition md5_step :: "(u32 \<Rightarrow> u32 \<Rightarrow> u32 \<Rightarrow> u32) \<Rightarrow> reg \<Rightarrow> reg \<Rightarrow> reg \<Rightarrow> reg \<Rightarrow> u32 \<Rightarrow> nat
    \<Rightarrow> u32 \<Rightarrow> regs \<Rightarrow> regs" where
  "md5_step f a b c d x s ac r =
     r(a := ROTATE_LEFT (r a + (f (r b) (r c) (r d) + x + ac)) s + r b)"

definition FF :: "reg \<Rightarrow> reg \<Rightarrow> reg \<Rightarrow> reg \<Rightarrow> u32 \<Rightarrow> nat \<Rightarrow> u32 \<Rightarrow> regs \<Rightarrow> regs" where
  "FF = md5_step md5_F"

definition GG :: "reg \<Rightarrow> reg \<Rightarrow> reg \<Rightarrow> reg \<Rightarrow> u32 \<Rightarrow> nat \<Rightarrow> u32 \<Rightarrow> regs \<Rightarrow> regs" where
  "GG = md5_step md5_G"

definition HH :: "reg \<Rightarrow> reg \<Rightarrow> reg \<Rightarrow> reg \<Rightarrow> u32 \<Rightarrow> nat \<Rightarrow> u32 \<Rightarrow> regs \<Rightarrow> regs" where
  "HH = md5_step md5_H"

definition II :: "reg \<Rightarrow> reg \<Rightarrow> reg \<Rightarrow> reg \<Rightarrow> u32 \<Rightarrow> nat \<Rightarrow> u32 \<Rightarrow> regs \<Rightarrow> regs" where
  "II = md5_step md5_I"

definition md5_round1 :: "u32 list \<Rightarrow> (regs \<Rightarrow> regs) list" where
  "md5_round1 x = [
     FF A B C D (x ! 0) S11 0xd76aa478,
     FF D A B C (x ! 1) S12 0xe8c7b756,
     FF C D A B (x ! 2) S13 0x242070db,
     FF B C D A (x ! 3) S14 0xc1bdceee,
     FF A B C D (x ! 4) S11 0xf57c0faf,
     FF D A B C (x ! 5) S12 0x4787c62a,
     FF C D A B (x ! 6) S13 0xa8304613,
     FF B C D A (x ! 7) S14 0xfd469501,
     FF A B C D (x ! 8) S11 0x698098d8,
     FF D A B C (x ! 9) S12 0x8b44f7af,
     FF C D A B (x ! 10) S13 0xffff5bb1,
     FF B C D A (x ! 11) S14 0x895cd7be,
     FF A B C D (x ! 12) S11 0x6b901122,
     FF D A B C (x ! 13) S12 0xfd987193,
     FF C D A B (x ! 14) S13 0xa679438e,
     FF B C D A (x ! 15) S14 0x49b40821]"

definition md5_round2 :: "u32 list \<Rightarrow> (regs \<Rightarrow> regs) list" where
  "md5_round2 x = [
     GG A B C D (x ! 1) S21 0xf61e2562,
     GG D A B C (x ! 6) S22 0xc040b340,
     GG C D A B (x ! 11) S23 0x265e5a51,
     GG B C D A (x ! 0) S24 0xe9b6c7aa,
     GG A B C D (x ! 5) S21 0xd62f105d,
     GG D A B C (x ! 10) S22 0x2441453,
     GG C D A B (x ! 15) S23 0xd8a1e681,
     GG B C D A (x ! 4) S24 0xe7d3fbc8,
     GG A B C D (x ! 9) S21 0x21e1cde6,
     GG D A B C (x ! 14) S22 0xc33707d6,
     GG C D A B (x ! 3) S23 0xf4d50d87,
     GG B C D A (x ! 8) S24 0x455a14ed,
     GG A B C D (x ! 13) S21 0xa9e3e905,
     GG D A B C (x ! 2) S22 0xfcefa3f8,
     GG C D A B (x ! 7) S23 0x676f02d9,
     GG B C D A (x ! 12) S24 0x8d2a4c8a]"

definition md5_round3 :: "u32 list \<Rightarrow> (regs \<Rightarrow> regs) list" where
  "md5_round3 x = [
     HH A B C D (x ! 5) S31 0xfffa3942,
     HH D A B C (x ! 8) S32 0x8771f681,
     HH C D A B (x ! 11) S33 0x6d9d6122,
     HH B C D A (x ! 14) S34 0xfde5380c,
     HH A B C D (x ! 1) S31 0xa4beea44,
     HH D A B C (x ! 4) S32 0x4bdecfa9,
     HH C D A B (x ! 7) S33 0xf6bb4b60,
     HH B C D A (x ! 10) S34 0xbebfbc70,
     HH A B C D (x ! 13) S31 0x289b7ec6,
     HH D A B C (x ! 0) S32 0xeaa127fa,
     HH C D A B (x ! 3) S33 0xd4ef3085,
     HH B C D A (x ! 6) S34 0x4881d05,
     HH A B C D (x ! 9) S31 0xd9d4d039,
     HH D A B C (x ! 12) S32 0xe6db99e5,
     HH C D A B (x ! 15) S33 0x1fa27cf8,
     HH B C D A (x ! 2) S34 0xc4ac5665]"

definition md5_round4 :: "u32 list \<Rightarrow> (regs \<Rightarrow> regs) list" where
  "md5_round4 x = [
     II A B C D (x ! 0) S41 0xf4292244,
     II D A B C (x ! 7) S42 0x432aff97,
     II C D A B (x ! 14) S43 0xab9423a7,
     II B C D A (x ! 5) S44 0xfc93a039,
     II A B C D (x ! 12) S41 0x655b59c3,
     II D A B C (x ! 3) S42 0x8f0ccc92,
     II C D A B (x ! 10) S43 0xffeff47d,
     II B C D A (x ! 1) S44 0x85845dd1,
     II A B C D (x ! 8) S41 0x6fa87e4f,
     II D A B C (x ! 15) S42 0xfe2ce6e0,
     II C D A B (x ! 6) S43 0xa3014314,
     II B C D A (x ! 13) S44 0x4e0811a1,
     II A B C D (x ! 4) S41 0xf7537e82,
     II D A B C (x ! 11) S42 0xbd3af235,
     II C D A B (x ! 2) S43 0x2ad7d2bb,
     II B C D A (x ! 9) S44 0xeb86d391]"

fun md5_Decode :: "u8 list \<Rightarrow> u32 list" where
  "md5_Decode (b0 # b1 # b2 # b3 # bs) =
     (ucast b0 OR shl (ucast b1) 8 OR shl (ucast b2) 16 OR shl (ucast b3) 24) # md5_Decode bs"
| "md5_Decode _ = []"

fun md5_Encode :: "u32 list \<Rightarrow> u8 list" where
  "md5_Encode [] = []"
| "md5_Encode (w # ws) =
     [ucast (w AND 0xff), ucast (shr w 8 AND 0xff), ucast (shr w 16 AND 0xff),
      ucast (shr w 24 AND 0xff)] @ md5_Encode ws"

definition md5_Transform :: "u32 list \<Rightarrow> u8 list \<Rightarrow> u32 list" where
  "md5_Transform state block =
     (let x = md5_Decode block;
          r = (\<lambda>v. case v of A \<Rightarrow> state ! 0 | B \<Rightarrow> state ! 1 | C \<Rightarrow> state ! 2 | D \<Rightarrow> state ! 3);
          r = fold id (md5_round1 x @ md5_round2 x @ md5_round3 x @ md5_round4 x) r
      in [state ! 0 + r A, state ! 1 + r B, state ! 2 + r C, state ! 3 + r D])"

text \<open>The fields \<open>init\<close> does not set keep what the memory holds.\<close>

definition bscl_md5_init :: "bscl_md5_context_t \<Rightarrow> bscl_md5_context_t" where
  "bscl_md5_init context = context\<lparr>md5_count := (0, 0),
     md5_state := [0x67452301, 0xefcdab89, 0x98badcfe, 0x10325476]\<rparr>"

text \<open>
  \<open>for (i = partLen; i + 63 < inputLen; i += 64)\<close> on unsigned integers, which wrap; the result
  is the state and the last \<open>i\<close>.
\<close>

partial_function (option) md5_block_loop ::
    "u32 list \<Rightarrow> u8 list \<Rightarrow> u32 \<Rightarrow> u32 \<Rightarrow> (u32 list \<times> u32) option" where
  "md5_block_loop state input i inputLen =
     (if i + 63 < inputLen then do {
        block \<leftarrow> mem_read input (unat i) 64;
        md5_block_loop (md5_Transform state block) input (i + 64) inputLen
      } else Some (state, i))"

declare md5_block_loop.simps [code]

definition bscl_md5_accumulate ::
    "bscl_md5_context_t \<Rightarrow> u8 list \<Rightarrow> u32 \<Rightarrow> bscl_md5_context_t option" where
  "bscl_md5_accumulate context input inputLen =
     (let (count0, count1) = md5_count context;
          index = shr count0 3 AND 0x3F;
          count0 = count0 + shl inputLen 3;
          count1 = (if count0 < shl inputLen 3 then count1 + 1 else count1);
          count1 = count1 + shr inputLen 29;
          partLen = 64 - index;
          context = context\<lparr>md5_count := (count0, count1)\<rparr>
      in do {
        (context, index, i) \<leftarrow>
          (if partLen \<le> inputLen then do {
             part \<leftarrow> mem_read input 0 (unat partLen);
             buffer \<leftarrow> mem_write (md5_buffer context) (unat index) part;
             (state, i) \<leftarrow> md5_block_loop (md5_Transform (md5_state context) buffer) input
               partLen inputLen;
             Some (context\<lparr>md5_buffer := buffer, md5_state := state\<rparr>, 0, i)
           } else Some (context, index, 0));
        rest \<leftarrow> mem_read input (unat i) (unat (inputLen - i));
        buffer \<leftarrow> mem_write (md5_buffer context) (unat index) rest;
        Some (context\<lparr>md5_buffer := buffer\<rparr>)
      })"

text \<open>The digest, and the context that is zeroed.\<close>

definition md5_fini :: "bscl_md5_context_t \<Rightarrow> (u8 list \<times> bscl_md5_context_t) option" where
  "md5_fini context =
     (let bits = md5_Encode [fst (md5_count context), snd (md5_count context)];
          index = shr (fst (md5_count context)) 3 AND 0x3f;
          padLen = (if index < 56 then 56 - index else 120 - index)
      in do {
        context \<leftarrow> bscl_md5_accumulate context PADDING padLen;
        context \<leftarrow> bscl_md5_accumulate context bits 8;
        Some (md5_Encode (md5_state context),
          \<lparr>md5_state = replicate 4 0, md5_count = (0, 0), md5_buffer = replicate 64 0\<rparr>)
      })"

definition bscl_md5_finish :: "bscl_md5_context_t \<Rightarrow> (u8 list \<times> bscl_md5_context_t) option" where
  "bscl_md5_finish ctx = md5_fini ctx"

section \<open>The reference\<close>

text \<open>
  The algorithm as a loop: step \<open>i\<close> takes its function, word, shift and constant from \<open>i\<close>, and
  the four variables rotate.
\<close>

definition md5_ref_f :: "nat \<Rightarrow> u32 \<Rightarrow> u32 \<Rightarrow> u32 \<Rightarrow> u32" where
  "md5_ref_f i = (if i < 16 then md5_F else if i < 32 then md5_G else if i < 48 then md5_H else md5_I)"

definition md5_ref_g :: "nat \<Rightarrow> nat" where
  "md5_ref_g i = (if i < 16 then i else if i < 32 then (5 * i + 1) mod 16
     else if i < 48 then (3 * i + 5) mod 16 else (7 * i) mod 16)"

definition md5_ref_s :: "nat \<Rightarrow> nat" where
  "md5_ref_s i = [[7, 12, 17, 22], [5, 9, 14, 20], [4, 11, 16, 23], [6, 10, 15, 21]]
     ! (i div 16) ! (i mod 4)"

definition md5_ref_T :: "u32 list" where
  "md5_ref_T = [
     0xd76aa478, 0xe8c7b756, 0x242070db, 0xc1bdceee, 0xf57c0faf, 0x4787c62a, 0xa8304613, 0xfd469501,
     0x698098d8, 0x8b44f7af, 0xffff5bb1, 0x895cd7be, 0x6b901122, 0xfd987193, 0xa679438e, 0x49b40821,
     0xf61e2562, 0xc040b340, 0x265e5a51, 0xe9b6c7aa, 0xd62f105d, 0x2441453, 0xd8a1e681, 0xe7d3fbc8,
     0x21e1cde6, 0xc33707d6, 0xf4d50d87, 0x455a14ed, 0xa9e3e905, 0xfcefa3f8, 0x676f02d9, 0x8d2a4c8a,
     0xfffa3942, 0x8771f681, 0x6d9d6122, 0xfde5380c, 0xa4beea44, 0x4bdecfa9, 0xf6bb4b60, 0xbebfbc70,
     0x289b7ec6, 0xeaa127fa, 0xd4ef3085, 0x4881d05, 0xd9d4d039, 0xe6db99e5, 0x1fa27cf8, 0xc4ac5665,
     0xf4292244, 0x432aff97, 0xab9423a7, 0xfc93a039, 0x655b59c3, 0x8f0ccc92, 0xffeff47d, 0x85845dd1,
     0x6fa87e4f, 0xfe2ce6e0, 0xa3014314, 0x4e0811a1, 0xf7537e82, 0xbd3af235, 0x2ad7d2bb, 0xeb86d391]"

definition md5_ref_step :: "u32 list \<Rightarrow> nat \<Rightarrow> u32 \<times> u32 \<times> u32 \<times> u32 \<Rightarrow> u32 \<times> u32 \<times> u32 \<times> u32" where
  "md5_ref_step x i = (\<lambda>(a, b, c, d).
     (d, ROTATE_LEFT (a + (md5_ref_f i b c d + x ! md5_ref_g i + md5_ref_T ! i)) (md5_ref_s i) + b,
      b, c))"

definition md5_ref_compress :: "u32 list \<Rightarrow> u8 list \<Rightarrow> u32 list" where
  "md5_ref_compress st block =
     (let x = map (\<lambda>i. of_le32 (take 4 (drop (4 * i) block))) [0..<16];
          (a, b, c, d) = fold (md5_ref_step x) [0..<64] (st ! 0, st ! 1, st ! 2, st ! 3)
      in [st ! 0 + a, st ! 1 + b, st ! 2 + c, st ! 3 + d])"

text \<open>The four ways the registers stand for the variables of the loop.\<close>

definition rv0 :: "regs \<Rightarrow> u32 \<times> u32 \<times> u32 \<times> u32" where "rv0 r = (r A, r B, r C, r D)"
definition rv1 :: "regs \<Rightarrow> u32 \<times> u32 \<times> u32 \<times> u32" where "rv1 r = (r D, r A, r B, r C)"
definition rv2 :: "regs \<Rightarrow> u32 \<times> u32 \<times> u32 \<times> u32" where "rv2 r = (r C, r D, r A, r B)"
definition rv3 :: "regs \<Rightarrow> u32 \<times> u32 \<times> u32 \<times> u32" where "rv3 r = (r B, r C, r D, r A)"

lemma md5_ref_step_rv:
  defines "S \<equiv> \<lambda>a b c d x i. md5_step (md5_ref_f i) a b c d (x ! md5_ref_g i) (md5_ref_s i) (md5_ref_T ! i)"
  shows "md5_ref_step x i (rv0 r) = rv1 (S A B C D x i r)"
    and "md5_ref_step x i (rv1 r) = rv2 (S D A B C x i r)"
    and "md5_ref_step x i (rv2 r) = rv3 (S C D A B x i r)"
    and "md5_ref_step x i (rv3 r) = rv0 (S B C D A x i r)"
  by (simp_all add: md5_ref_step_def rv0_def rv1_def rv2_def rv3_def md5_step_def S_def)

lemma upt16:
  "[0..<16] = [0, 1, 2, 3, 4, 5, 6, 7, 8, 9, 10, 11, 12, 13, 14, 15 :: nat]"
  "[16..<32] = [16, 17, 18, 19, 20, 21, 22, 23, 24, 25, 26, 27, 28, 29, 30, 31 :: nat]"
  "[32..<48] = [32, 33, 34, 35, 36, 37, 38, 39, 40, 41, 42, 43, 44, 45, 46, 47 :: nat]"
  "[48..<64] = [48, 49, 50, 51, 52, 53, 54, 55, 56, 57, 58, 59, 60, 61, 62, 63 :: nat]"
  by (simp_all add: upt_rec)

lemma md5_round1_ref: "rv0 (fold id (md5_round1 x) r) = fold (md5_ref_step x) [0..<16] (rv0 r)"
  by (simp add: upt16 md5_round1_def FF_def md5_ref_step_rv md5_ref_f_def md5_ref_g_def md5_ref_s_def
    md5_ref_T_def)

lemma md5_round2_ref: "rv0 (fold id (md5_round2 x) r) = fold (md5_ref_step x) [16..<32] (rv0 r)"
  by (simp add: upt16 md5_round2_def GG_def md5_ref_step_rv md5_ref_f_def md5_ref_g_def md5_ref_s_def
    md5_ref_T_def)

lemma md5_round3_ref: "rv0 (fold id (md5_round3 x) r) = fold (md5_ref_step x) [32..<48] (rv0 r)"
  by (simp add: upt16 md5_round3_def HH_def md5_ref_step_rv md5_ref_f_def md5_ref_g_def md5_ref_s_def
    md5_ref_T_def)

lemma md5_round4_ref: "rv0 (fold id (md5_round4 x) r) = fold (md5_ref_step x) [48..<64] (rv0 r)"
  by (simp add: upt16 md5_round4_def II_def md5_ref_step_rv md5_ref_f_def md5_ref_g_def md5_ref_s_def
    md5_ref_T_def)

lemma md5_Decode_map:
  "length bs = 4 * n \<Longrightarrow> md5_Decode bs = map (\<lambda>i. of_le32 (take 4 (drop (4 * i) bs))) [0..<n]"
proof (induction n arbitrary: bs)
  case 0
  then show ?case by simp
next
  case (Suc n)
  then have "length bs = Suc (Suc (Suc (Suc (4 * n))))"
    by simp
  then obtain b0 b1 b2 b3 cs where bs: "bs = b0 # b1 # b2 # b3 # cs"
    by (auto simp: length_Suc_conv)
  have "[0..<Suc n] = 0 # map Suc [0..<n]"
    by (simp add: upt_conv_Cons map_Suc_upt del: upt_Suc)
  moreover have "md5_Decode cs = map (\<lambda>i. of_le32 (take 4 (drop (4 * i) cs))) [0..<n]"
    using Suc bs by simp
  moreover have "take 4 (drop (4 * Suc i) bs) = take 4 (drop (4 * i) cs)" for i
    by (simp add: bs numeral_eq_Suc)
  ultimately show ?case
    by (simp add: bs of_le32_def o_def numeral_eq_Suc del: upt_Suc)
qed

lemma length_md5_Encode [simp]: "length (md5_Encode ws) = 4 * length ws"
  by (induction ws) simp_all

lemma md5_Encode_le32: "md5_Encode ws = concat (map le32 ws)"
proof -
  have "[ucast (w AND 0xff), ucast (shr w 8 AND 0xff), ucast (shr w 16 AND 0xff),
      ucast (shr w 24 AND 0xff)] = le32 w" for w :: u32
  proof -
    have ff: "(0xff :: u32) = mask 8"
      by (simp add: mask_numeral)
    have "(ucast (x AND 0xff) :: u8) = ucast x" for x :: u32
      unfolding ff by (rule bit_word_eqI) (simp add: bit_simps)
    then show ?thesis
      by (simp add: le32_def)
  qed
  then show ?thesis
    by (induction ws) simp_all
qed

lemma md5_Decode_le32: "md5_Decode (le32 w @ bs) = w # md5_Decode bs"
proof -
  have "md5_Decode (le32 w @ bs) = of_le32 (le32 w) # md5_Decode bs"
    unfolding le32_def of_le32_def by simp
  then show ?thesis by simp
qed

lemma md5_Decode_Encode: "md5_Decode (md5_Encode ws) = ws"
  unfolding md5_Encode_le32 by (induction ws) (simp_all add: md5_Decode_le32)

lemma md5_Transform_ref:
  assumes "length block = 64"
  shows "md5_Transform st block = md5_ref_compress st block"
proof -
  let ?x = "md5_Decode block"
  let ?r = "\<lambda>v. case v of A \<Rightarrow> st ! 0 | B \<Rightarrow> st ! 1 | C \<Rightarrow> st ! 2 | D \<Rightarrow> st ! 3"
  let ?r' = "fold id (md5_round1 ?x @ md5_round2 ?x @ md5_round3 ?x @ md5_round4 ?x) ?r"
  have x: "?x = map (\<lambda>i. of_le32 (take 4 (drop (4 * i) block))) [0..<16]"
    by (rule md5_Decode_map) (simp add: assms)
  have "[0..<64] = [0..<16] @ [16..<32] @ [32..<48] @ [48..<64::nat]"
    using upt_add_eq_append [of 0 16 48] upt_add_eq_append [of 16 32 32]
      upt_add_eq_append [of 32 48 16] by (simp del: upt_rec_numeral)
  then have "rv0 ?r' = fold (md5_ref_step ?x) [0..<64] (rv0 ?r)"
    by (simp add: md5_round1_ref md5_round2_ref md5_round3_ref md5_round4_ref)
  then have final: "(?r' A, ?r' B, ?r' C, ?r' D) = fold (md5_ref_step ?x) [0..<64] (st ! 0, st ! 1, st ! 2, st ! 3)"
    by (simp add: rv0_def)
  then show ?thesis
    unfolding md5_Transform_def md5_ref_compress_def Let_def x [symmetric]
    by (simp only: prod.case flip: final)
qed

section \<open>Messages in pieces\<close>

function md5_absorb :: "u32 list \<Rightarrow> u8 list \<Rightarrow> u32 list" where
  "md5_absorb st msg =
     (if length msg < 64 then st else md5_absorb (md5_ref_compress st (take 64 msg)) (drop 64 msg))"
  by pat_completeness auto
termination
  by (relation "measure (\<lambda>(st, msg). length msg)") auto

declare md5_absorb.simps [simp del]

definition md5_tail :: "u8 list \<Rightarrow> u8 list" where
  "md5_tail msg = drop (64 * (length msg div 64)) msg"

lemma md5_absorb_short: "length msg < 64 \<Longrightarrow> md5_absorb st msg = st"
  by (simp add: md5_absorb.simps)

lemma md5_absorb_append:
  "length xs = 64 * n \<Longrightarrow> md5_absorb st (xs @ ys) = md5_absorb (md5_absorb st xs) ys"
proof (induction n arbitrary: xs st)
  case 0
  then show ?case by (simp add: md5_absorb_short)
next
  case (Suc n)
  then have "md5_absorb st (xs @ ys)
      = md5_absorb (md5_ref_compress st (take 64 xs)) (drop 64 xs @ ys)"
    by (subst md5_absorb.simps) simp
  moreover have "md5_absorb st xs = md5_absorb (md5_ref_compress st (take 64 xs)) (drop 64 xs)"
    using Suc.prems by (subst md5_absorb.simps) simp
  ultimately show ?case
    using Suc by simp
qed

lemma length_md5_tail: "length (md5_tail msg) = length msg mod 64"
  by (simp add: md5_tail_def minus_mult_div_eq_mod)

lemma md5_absorb_tail:
  "md5_absorb st (msg @ ys) = md5_absorb (md5_absorb st msg) (md5_tail msg @ ys)"
proof -
  let ?n = "64 * (length msg div 64)"
  have "length (take ?n msg) = ?n"
    by simp
  note app = md5_absorb_append [OF this]
  have msg: "msg = take ?n msg @ md5_tail msg"
    by (simp add: md5_tail_def)
  then have "md5_absorb st msg = md5_absorb (md5_absorb st (take ?n msg)) (md5_tail msg)"
    by (metis app)
  also have "\<dots> = md5_absorb st (take ?n msg)"
    by (rule md5_absorb_short) (simp add: length_md5_tail)
  finally have "md5_absorb st msg = md5_absorb st (take ?n msg)" .
  moreover have "md5_absorb st (msg @ ys) = md5_absorb (md5_absorb st (take ?n msg)) (md5_tail msg @ ys)"
    by (metis app msg append.assoc)
  ultimately show ?thesis by simp
qed

lemma md5_tail_append: "md5_tail (msg @ ys) = md5_tail (md5_tail msg @ ys)"
proof -
  let ?q = "length msg div 64" and ?m = "length msg mod 64"
  have "length (msg @ ys) = 64 * ?q + (?m + length ys)"
    by simp
  moreover have "(64 * q + k) div 64 = q + k div 64" for q k :: nat
    by simp
  ultimately have d: "64 * (length (msg @ ys) div 64) = 64 * ?q + 64 * ((?m + length ys) div 64)"
    by (simp only: distrib_left)
  have "md5_tail (msg @ ys) = drop (64 * ((?m + length ys) div 64)) (drop (64 * ?q) (msg @ ys))"
    unfolding md5_tail_def [of "msg @ ys"] d by (simp only: drop_drop add.commute)
  also have "drop (64 * ?q) (msg @ ys) = md5_tail msg @ ys"
    by (simp add: md5_tail_def)
  finally show ?thesis
    by (simp add: md5_tail_def [of "md5_tail msg @ ys"] length_md5_tail)
qed

section \<open>The context\<close>

abbreviation md5_IV :: "u32 list" where
  "md5_IV \<equiv> [0x67452301, 0xefcdab89, 0x98badcfe, 0x10325476]"

text \<open>The context after the message \<open>msg\<close>: state, bit count modulo \<open>2 ^ 64\<close>, pending bytes.\<close>

definition md5_repr :: "bscl_md5_context_t \<Rightarrow> u8 list \<Rightarrow> bool" where
  "md5_repr ctx msg \<longleftrightarrow> md5_state ctx = md5_absorb md5_IV msg
     \<and> length (md5_buffer ctx) = 64 \<and> take (length msg mod 64) (md5_buffer ctx) = md5_tail msg
     \<and> unat (fst (md5_count ctx)) + 2 ^ 32 * unat (snd (md5_count ctx)) = 8 * length msg mod 2 ^ 64"

lemma md5_block_loop_spec:
  assumes "unat n + 63 < 2 ^ 32" and "unat n \<le> length input"
  shows "unat i \<le> unat n \<Longrightarrow> \<exists>i'. md5_block_loop st input i n
    = Some (md5_absorb st (drop (unat i) (take (unat n) input)), i')
    \<and> unat i' = unat i + 64 * ((unat n - unat i) div 64)"
proof (induction "unat n - unat i" arbitrary: i st rule: less_induct)
  case less
  have i63: "unat (i + 63) = unat i + 63"
    using assms(1) less.prems by (subst unat_plus_small) simp_all
  let ?d = "drop (unat i) (take (unat n) input)"
  have len: "length ?d = unat n - unat i"
    using assms(2) by simp
  show ?case
  proof (cases "i + 63 < n")
    case True
    then have lt: "unat i + 63 < unat n"
      by (simp add: word_less_nat_alt i63)
    have i64: "unat (i + 64) = unat i + 64"
      using assms(1) lt by (subst unat_plus_small) simp_all
    have dec: "unat n - unat (i + 64) < unat n - unat i" and le: "unat (i + 64) \<le> unat n"
      using lt unfolding i64 by linarith+
    have block: "mem_read input (unat i) 64 = Some (take 64 ?d)"
      using lt assms(2) by (simp add: mem_read_def drop_take min_absorb1)
    have step: "md5_absorb st ?d = md5_absorb (md5_ref_compress st (take 64 ?d)) (drop 64 ?d)"
    proof -
      have "\<not> length ?d < 64"
        using len lt by simp
      then show ?thesis
        by (subst md5_absorb.simps) (simp only: if_False)
    qed
    have "drop 64 ?d = drop (unat (i + 64)) (take (unat n) input)"
      unfolding i64 by (simp add: add.commute)
    moreover have "md5_Transform st (take 64 ?d) = md5_ref_compress st (take 64 ?d)"
      using len lt by (intro md5_Transform_ref) simp
    moreover obtain i' where "md5_block_loop (md5_ref_compress st (take 64 ?d)) input (i + 64) n
        = Some (md5_absorb (md5_ref_compress st (take 64 ?d))
          (drop (unat (i + 64)) (take (unat n) input)), i')"
      "unat i' = unat (i + 64) + 64 * ((unat n - unat (i + 64)) div 64)"
      using less.hyps [OF dec le, of "md5_ref_compress st (take 64 ?d)"] by blast
    moreover have "(unat n - unat i) div 64 = Suc ((unat n - (unat i + 64)) div 64)"
      using lt by (simp add: le_div_geq)
    ultimately show ?thesis
      using True block step i64 by (subst md5_block_loop.simps) simp
  next
    case False
    then have "unat n - unat i < 64"
      by (simp add: word_less_nat_alt i63)
    then show ?thesis
      using False len by (subst md5_block_loop.simps) (simp add: md5_absorb_short)
  qed
qed

lemma mod_pow64_split:
  "x < 2 ^ 32 \<Longrightarrow> (x + 2 ^ 32 * y) mod 2 ^ 64 = x + 2 ^ 32 * (y mod 2 ^ 32 :: nat)"
  using mod_mult2_eq [of "x + 2 ^ 32 * y" "2 ^ 32" "2 ^ 32"] by simp

lemma md5_count_step:
  fixes c0 c1 n :: u32
  defines "c0' \<equiv> c0 + shl n 3"
  defines "c1' \<equiv> (if c0' < shl n 3 then c1 + 1 else c1) + shr n 29"
  shows "unat c0' + 2 ^ 32 * unat c1' = (unat c0 + 2 ^ 32 * unat c1 + 8 * unat n) mod 2 ^ 64"
proof -
  have s3: "unat (shl n 3) = 8 * unat n mod 2 ^ 32"
    by (simp add: unat_word_ariths push_bit_eq_mult mult.commute)
  have s29: "unat (shr n 29) = 8 * unat n div 2 ^ 32"
    by (simp add: unat_div drop_bit_eq_div)
  let ?s = "unat (shl n 3)" and ?q = "unat (shr n 29)"
  define carry :: nat where "carry = (if c0' < shl n 3 then 1 else 0)"
  have n: "8 * unat n = ?s + 2 ^ 32 * ?q"
    unfolding s3 s29 by (simp only: mod_mult_div_eq)
  have lt: "?s < 2 ^ 32" "unat c0 < 2 ^ 32"
    by simp_all
  have sum: "unat c0' = (unat c0 + ?s) mod 2 ^ 32"
    by (simp add: c0'_def unat_word_ariths)
  have c0': "unat c0 + ?s = unat c0' + 2 ^ 32 * carry"
  proof (cases "unat c0 + ?s < 2 ^ 32")
    case True
    then show ?thesis
      using sum by (simp add: carry_def word_less_nat_alt)
  next
    case False
    moreover have "unat c0 + ?s - 2 ^ 32 < 2 ^ 32"
      using lt by linarith
    ultimately have "unat c0' = unat c0 + ?s - 2 ^ 32"
      unfolding sum by (metis le_mod_geq mod_less not_less)
    moreover from this have "unat c0' < ?s"
      using False lt by linarith
    ultimately show ?thesis
      using False by (simp add: carry_def word_less_nat_alt)
  qed
  have "unat c1' = (unat c1 + carry + ?q) mod 2 ^ 32"
    by (simp add: c1'_def carry_def unat_word_ariths mod_simps)
  moreover have "unat c0 + 2 ^ 32 * unat c1 + 8 * unat n
      = unat c0' + 2 ^ 32 * (unat c1 + carry + ?q)"
    using n c0' by (simp add: algebra_simps)
  moreover have "(unat c0' + 2 ^ 32 * y) mod 2 ^ 64 = unat c0' + 2 ^ 32 * (y mod 2 ^ 32)" for y
    by (rule mod_pow64_split) simp
  ultimately show ?thesis
    by (simp only:)
qed


lemma md5_repr_init:
  "length (md5_buffer ctx) = 64 \<Longrightarrow> md5_repr (bscl_md5_init ctx) []"
  by (simp add: md5_repr_def bscl_md5_init_def md5_absorb_short md5_tail_def)

lemma md5_index:
  assumes "unat c0 + 2 ^ 32 * unat c1 = 8 * l mod 2 ^ 64"
  shows "unat (shr (c0 :: u32) 3 AND 0x3F) = l mod 64"
proof -
  have "unat (shr c0 3 AND 0x3F) = unat (shr c0 3 AND (64 - 1))"
    by simp
  also have "\<dots> = unat (shr c0 3) mod 64"
    using unat_and_mask_pow2 [of "64 :: u32" 6 "shr c0 3"] by simp
  also have "unat (shr c0 3) = unat c0 div 8"
    by (simp add: unat_div drop_bit_eq_div)
  also have "unat c0 = 8 * l mod 2 ^ 64 mod 2 ^ 32"
    unfolding assms [symmetric] by simp
  also have "\<dots> = 8 * l mod 2 ^ 32"
    by (simp add: mod_mod_cancel)
  also have "8 * l mod 2 ^ 32 = 8 * (l mod 2 ^ 29)"
    using mult_mod_right [of 8 l "2 ^ 29"] by simp
  also have "8 * (l mod 2 ^ 29) div 8 mod 64 = l mod 64"
    by (simp add: mod_mod_cancel)
  finally show ?thesis .
qed

text \<open>A message that does not fill the buffer, and one that does: the first \<open>p\<close> bytes complete a block.\<close>

lemma md5_within:
  assumes "length msg mod 64 + length xs < 64"
  shows "md5_absorb md5_IV (msg @ xs) = md5_absorb md5_IV msg" and "md5_tail (msg @ xs) = md5_tail msg @ xs"
    and "length (msg @ xs) mod 64 = length msg mod 64 + length xs"
proof -
  show "md5_absorb md5_IV (msg @ xs) = md5_absorb md5_IV msg"
    unfolding md5_absorb_tail [of md5_IV msg xs]
    by (rule md5_absorb_short) (use assms length_md5_tail [of msg] in simp)
  show "md5_tail (msg @ xs) = md5_tail msg @ xs"
    unfolding md5_tail_append [of msg] using assms length_md5_tail [of msg] by (simp add: md5_tail_def [of "_ @ _"])
  show "length (msg @ xs) mod 64 = length msg mod 64 + length xs"
    using assms by (metis length_append mod_add_left_eq mod_less)
qed

lemma md5_absorb_across:
  assumes "64 - length msg mod 64 \<le> length xs"
  defines "p \<equiv> 64 - length msg mod 64"
  shows "md5_absorb md5_IV (msg @ xs)
    = md5_absorb (md5_ref_compress (md5_absorb md5_IV msg) (md5_tail msg @ take p xs)) (drop p xs)"
proof -
  have "length msg mod 64 < 64" by simp
  then have "\<not> length (md5_tail msg @ xs) < 64" and "take 64 (md5_tail msg @ xs) = md5_tail msg @ take p xs"
    and "drop 64 (md5_tail msg @ xs) = drop p xs"
    using assms length_md5_tail [of msg] by (simp_all add: min_absorb2)
  then show ?thesis
    unfolding md5_absorb_tail [of md5_IV msg xs] by (subst md5_absorb.simps) (simp only: if_False)
qed

lemma md5_tail_across:
  assumes "64 - length msg mod 64 \<le> length xs"
  defines "p \<equiv> 64 - length msg mod 64"
  shows "md5_tail (msg @ xs) = drop (p + 64 * ((length xs - p) div 64)) xs"
    and "length (msg @ xs) mod 64 = (length xs - p) mod 64"
proof -
  have l: "length msg mod 64 < 64" by simp
  then have len: "length (md5_tail msg @ xs) = 64 + (length xs - p)"
    using assms length_md5_tail [of msg] by simp
  moreover have "64 * ((64 + k) div 64) = 64 + 64 * (k div 64)" for k :: nat
    using le_div_geq [of 64 "64 + k"] by simp
  ultimately have "md5_tail (md5_tail msg @ xs) = drop (64 + 64 * ((length xs - p) div 64)) (md5_tail msg @ xs)"
    unfolding md5_tail_def [of "md5_tail msg @ xs"] by (simp only:)
  also have "\<dots> = drop (p + 64 * ((length xs - p) div 64)) xs"
    using l length_md5_tail [of msg] by (simp add: p_def add.commute)
  finally show "md5_tail (msg @ xs) = drop (p + 64 * ((length xs - p) div 64)) xs"
    unfolding md5_tail_append [of msg] .
  have "length (msg @ xs) mod 64 = length (md5_tail msg @ xs) mod 64"
    by (simp add: length_md5_tail mod_simps)
  then show "length (msg @ xs) mod 64 = (length xs - p) mod 64"
    unfolding len by simp
qed

text \<open>The index and the count of a context that represents a message.\<close>

lemma md5_repr_index:
  assumes "md5_repr ctx msg" and "md5_count ctx = (c0, c1)"
  shows "unat (shr c0 3 AND 0x3F) = length msg mod 64"
    and "unat (64 - (shr c0 3 AND 0x3F)) = 64 - length msg mod 64"
proof -
  show idx: "unat (shr c0 3 AND 0x3F) = length msg mod 64"
    using assms by (intro md5_index [of c0 c1]) (simp add: md5_repr_def)
  then show "unat (64 - (shr c0 3 AND 0x3F)) = 64 - length msg mod 64"
    by (subst unat_minus_le) (simp_all add: word_le_nat_alt less_imp_le)
qed

definition md5_counted :: "u32 \<times> u32 \<Rightarrow> u32 \<Rightarrow> u32 \<times> u32" where
  "md5_counted c n = (let c0 = fst c + shl n 3 in (c0, (if c0 < shl n 3 then snd c + 1 else snd c) + shr n 29))"

lemma md5_repr_counted:
  assumes "md5_repr ctx msg" and "length xs = unat n"
  shows "unat (fst (md5_counted (md5_count ctx) n)) + 2 ^ 32 * unat (snd (md5_counted (md5_count ctx) n))
    = 8 * length (msg @ xs) mod 2 ^ 64"
  using assms unfolding md5_counted_def Let_def fst_conv snd_conv md5_count_step
  by (simp add: md5_repr_def mod_simps add_mult_distrib2)

lemma md5_accumulate_within:
  assumes "md5_repr ctx msg" and "unat n \<le> length input" and "length msg mod 64 + unat n < 64"
  shows "\<exists>ctx'. bscl_md5_accumulate ctx input n = Some ctx' \<and> md5_repr ctx' (msg @ take (unat n) input)"
proof -
  obtain c0 c1 where c: "md5_count ctx = (c0, c1)"
    by (cases "md5_count ctx")
  let ?index = "shr c0 3 AND 0x3F" and ?l = "length msg mod 64" and ?xs = "take (unat n) input"
  let ?b = "take ?l (md5_buffer ctx) @ ?xs @ drop (?l + unat n) (md5_buffer ctx)"
  note idx = md5_repr_index [OF assms(1) c]
  have lx: "length ?xs = unat n"
    using assms(2) by simp
  have "mem_write (md5_buffer ctx) ?l ?xs = Some ?b"
    using assms lx by (simp add: mem_write_def md5_repr_def)
  moreover have "\<not> 64 - ?index \<le> n"
    using assms(3) idx(2) by (simp add: word_le_nat_alt)
  ultimately have "bscl_md5_accumulate ctx input n
      = Some (ctx\<lparr>md5_count := md5_counted (md5_count ctx) n, md5_buffer := ?b\<rparr>)"
    using assms(2) by (simp add: bscl_md5_accumulate_def c idx(1) mem_read_def md5_counted_def Let_def)
  then show ?thesis
    using assms lx md5_within [of msg ?xs] md5_repr_counted [OF assms(1) lx] length_md5_tail [of msg]
    by (auto simp: md5_repr_def)
qed

text \<open>The blocks behind the one that the buffer completes, and the bytes that are left after them.\<close>

lemma md5_blocks_and_rest:
  assumes "unat n + 63 < 2 ^ 32" and "unat n \<le> length input" and "unat p \<le> unat n"
  defines "k \<equiv> unat p + 64 * ((unat n - unat p) div 64)"
  shows "\<exists>i. md5_block_loop st input p n = Some (md5_absorb st (drop (unat p) (take (unat n) input)), i)
    \<and> mem_read input (unat i) (unat (n - i)) = Some (drop k (take (unat n) input))
    \<and> length (drop k (take (unat n) input)) = (unat n - unat p) mod 64"
proof -
  obtain i where i: "md5_block_loop st input p n = Some (md5_absorb st (drop (unat p) (take (unat n) input)), i)"
      "unat i = k"
    unfolding k_def using md5_block_loop_spec [OF assms(1,2,3), of st] by blast
  have k: "k \<le> unat n"
    unfolding k_def using assms(3) by (metis add_le_cancel_left le_add_diff_inverse mult_div_mod_eq le_add1)
  then have "unat (n - i) = unat n - k"
    using i(2) by (subst unat_minus_le) (simp_all add: word_le_nat_alt)
  then have "mem_read input (unat i) (unat (n - i)) = Some (drop k (take (unat n) input))"
    using k i(2) assms(2) by (simp add: mem_read_def drop_take)
  moreover have "unat n - k = (unat n - unat p) mod 64"
    unfolding k_def diff_diff_left [symmetric] by (rule minus_mult_div_eq_mod)
  ultimately show ?thesis
    using i(1) assms(2) by simp
qed

lemma md5_accumulate_across:
  assumes "md5_repr ctx msg" and "unat n + 63 < 2 ^ 32" and "unat n \<le> length input" and "64 \<le> length msg mod 64 + unat n"
  shows "\<exists>ctx'. bscl_md5_accumulate ctx input n = Some ctx' \<and> md5_repr ctx' (msg @ take (unat n) input)"
proof -
  obtain c0 c1 where c: "md5_count ctx = (c0, c1)"
    by (cases "md5_count ctx")
  let ?index = "shr c0 3 AND 0x3F" and ?l = "length msg mod 64" and ?xs = "take (unat n) input"
  let ?p = "64 - ?l"
  let ?buf = "md5_tail msg @ take ?p input"
  let ?st = "md5_ref_compress (md5_state ctx) ?buf"
  define rs where "rs = drop (?p + 64 * ((unat n - ?p) div 64)) ?xs"
  note idx = md5_repr_index [OF assms(1) c]
  have l: "?l < 64" by simp
  have lx: "length ?xs = unat n" and p: "?p \<le> unat n"
    using assms(3,4) by simp_all
  obtain i where i: "md5_block_loop ?st input (64 - ?index) n = Some (md5_absorb ?st (drop ?p ?xs), i)"
      "mem_read input (unat i) (unat (n - i)) = Some rs" "length rs = (unat n - ?p) mod 64"
    using md5_blocks_and_rest [OF assms(2,3), of "64 - ?index" ?st] p unfolding idx(2) rs_def by blast
  have buf: "mem_write (md5_buffer ctx) ?l (take ?p input) = Some ?buf" and lbuf: "length ?buf = 64"
    using assms(1,3) l p length_md5_tail [of msg] by (simp_all add: md5_repr_def mem_write_def min_absorb2)
  have "length rs \<le> 64"
    unfolding i(3) by (simp add: less_imp_le)
  then have w: "mem_write ?buf 0 rs = Some (rs @ drop (length rs) ?buf)" "length (rs @ drop (length rs) ?buf) = 64"
    unfolding mem_write_def using lbuf by simp_all
  have "64 - ?index \<le> n" and "mem_read input 0 ?p = Some (take ?p input)"
    using p assms(3) idx(2) by (simp_all add: word_le_nat_alt mem_read_def)
  then have "bscl_md5_accumulate ctx input n = Some (ctx\<lparr>md5_count := md5_counted (md5_count ctx) n,
      md5_state := md5_absorb ?st (drop ?p ?xs), md5_buffer := rs @ drop (length rs) ?buf\<rparr>)"
    using i(1,2) w(1) by (simp add: bscl_md5_accumulate_def c idx Let_def buf md5_counted_def md5_Transform_ref [OF lbuf])
  moreover have "md5_absorb md5_IV (msg @ ?xs) = md5_absorb ?st (drop ?p ?xs)"
    using md5_absorb_across [of msg ?xs] assms(1) p lx by (simp add: md5_repr_def)
  moreover have "md5_tail (msg @ ?xs) = rs" and "length (msg @ ?xs) mod 64 = length rs"
    using md5_tail_across [of msg ?xs] p by (simp_all only: lx rs_def [symmetric] i(3))
  ultimately show ?thesis
    using md5_repr_counted [OF assms(1) lx] w(2) by (simp add: md5_repr_def del: length_append)
qed

text \<open>One call of \<open>bscl_md5_accumulate\<close> absorbs its input, however the message is cut.\<close>

lemma bscl_md5_accumulate_spec:
  assumes "md5_repr ctx msg" and "unat n + 63 < 2 ^ 32" and "unat n \<le> length input"
  shows "\<exists>ctx'. bscl_md5_accumulate ctx input n = Some ctx' \<and> md5_repr ctx' (msg @ take (unat n) input)"
  using md5_accumulate_within [OF assms(1,3)] md5_accumulate_across [OF assms] by (cases "length msg mod 64 + unat n < 64") simp_all

section \<open>Properties\<close>

definition md5_pad :: "u8 list \<Rightarrow> u8 list" where
  "md5_pad msg = msg @ 0x80 # replicate ((119 - length msg mod 64) mod 64) 0
     @ le32 (word_of_nat (8 * length msg)) @ le32 (word_of_nat (8 * length msg div 2 ^ 32))"

definition md5_reference :: "u8 list \<Rightarrow> u8 list" where
  "md5_reference msg = concat (map le32 (md5_absorb md5_IV (md5_pad msg)))"

text \<open>A caller that passes the message in several calls.\<close>

fun md5_accumulate_all :: "bscl_md5_context_t \<Rightarrow> u8 list list \<Rightarrow> bscl_md5_context_t option" where
  "md5_accumulate_all ctx [] = Some ctx"
| "md5_accumulate_all ctx (xs # xss) = do {
     ctx \<leftarrow> bscl_md5_accumulate ctx xs (word_of_nat (length xs));
     md5_accumulate_all ctx xss
   }"

lemma accumulate_whole:
  assumes "md5_repr ctx msg" and "length xs + 63 < 2 ^ 32"
  shows "\<exists>ctx'. bscl_md5_accumulate ctx xs (word_of_nat (length xs)) = Some ctx'
    \<and> md5_repr ctx' (msg @ xs)"
proof -
  have "unat (word_of_nat (length xs) :: u32) = length xs"
    using assms(2) by (simp add: unsigned_of_nat take_bit_nat_eq_self)
  then show ?thesis
    using bscl_md5_accumulate_spec [OF assms(1), of "word_of_nat (length xs)" xs] assms(2) by simp
qed

lemma md5_accumulate_all_spec:
  "md5_repr ctx msg \<Longrightarrow> (\<And>xs. xs \<in> set xss \<Longrightarrow> length xs + 63 < 2 ^ 32) \<Longrightarrow>
    \<exists>ctx'. md5_accumulate_all ctx xss = Some ctx' \<and> md5_repr ctx' (msg @ concat xss)"
proof (induction xss arbitrary: ctx msg)
  case Nil
  then show ?case by simp
next
  case (Cons xs xss)
  then obtain ctx' where "bscl_md5_accumulate ctx xs (word_of_nat (length xs)) = Some ctx'"
    "md5_repr ctx' (msg @ xs)"
    using accumulate_whole [of ctx msg xs] by auto
  with Cons.IH [of ctx' "msg @ xs"] Cons.prems(2) show ?case by simp
qed

lemma word_of_nat_mod_u32: "(word_of_nat (k mod 2 ^ 32) :: u32) = word_of_nat k"
  by (simp add: word_of_nat_eq_iff take_bit_eq_mod)

text \<open>The length of the padding, and the bit count as two words.\<close>

lemma md5_pad_length:
  assumes "unat (index :: u32) = l" and "l < 64"
  shows "unat (if index < 56 then 56 - index else 120 - index) = Suc ((119 - l) mod 64)"
proof (cases "l < 56")
  case True
  then have "index < 56" and "unat (56 - index) = 56 - l"
    using assms unat_minus_le [of index 56] by (simp_all add: word_less_nat_alt word_le_nat_alt)
  moreover have "119 - l = 64 + (55 - l)" and "55 - l < 64"
    using True by simp_all
  then have "(119 - l) mod 64 = 55 - l"
    by (simp only: mod_add_self1 mod_less)
  ultimately show ?thesis
    using True by simp
next
  case False
  then have "\<not> index < 56" and "unat (120 - index) = 120 - l"
    using assms unat_minus_le [of index 120] by (simp_all add: word_less_nat_alt word_le_nat_alt)
  then show ?thesis
    using False assms(2) by simp
qed

lemma md5_count_words:
  assumes "unat (c0 :: u32) + 2 ^ 32 * unat (c1 :: u32) = m mod 2 ^ 64"
  shows "c0 = word_of_nat m" and "c1 = word_of_nat (m div 2 ^ 32)"
proof -
  have "unat c0 = m mod 2 ^ 32"
    using arg_cong [OF assms, of "\<lambda>x. x mod 2 ^ 32"] by (simp add: mod_mod_cancel)
  then show "c0 = word_of_nat m"
    by (metis of_nat_unat ucast_id word_of_nat_mod_u32)
  have "unat c1 = m div 2 ^ 32 mod 2 ^ 32"
    using arg_cong [OF assms, of "\<lambda>x. x div 2 ^ 32"] mod_mult2_eq [of m "2 ^ 32" "2 ^ 32"] by simp
  then show "c1 = word_of_nat (m div 2 ^ 32)"
    by (metis of_nat_unat ucast_id word_of_nat_mod_u32)
qed

lemma md5_fini_spec:
  assumes "md5_repr ctx msg"
  shows "\<exists>ctx'. md5_fini ctx = Some (md5_reference msg, ctx')"
proof -
  obtain c0 c1 where c: "md5_count ctx = (c0, c1)"
    by (cases "md5_count ctx")
  let ?z = "(119 - length msg mod 64) mod 64" and ?index = "shr c0 3 AND 0x3f" and ?bits = "md5_Encode [c0, c1]"
  let ?pad = "if ?index < 56 then 56 - ?index else 120 - ?index"
  have pad: "unat ?pad = Suc ?z"
    by (rule md5_pad_length [OF md5_repr_index(1) [OF assms c]]) simp
  have le: "unat ?pad \<le> length PADDING"
    unfolding pad PADDING_def by simp
  then have small: "unat ?pad + 63 < 2 ^ 32"
    by (simp add: PADDING_def)
  have "take (unat ?pad) PADDING = 0x80 # replicate ?z 0"
    using le unfolding pad PADDING_def by (simp add: min_absorb1)
  with bscl_md5_accumulate_spec [OF assms small le] obtain ctx1 where ctx1:
      "bscl_md5_accumulate ctx PADDING ?pad = Some ctx1" "md5_repr ctx1 (msg @ 0x80 # replicate ?z 0)"
    by auto
  have "unat (8 :: u32) + 63 < 2 ^ 32" "unat (8 :: u32) \<le> length ?bits" "take (unat (8 :: u32)) ?bits = ?bits"
    by simp_all
  with bscl_md5_accumulate_spec [OF ctx1(2), of 8 ?bits] obtain ctx2 where ctx2:
      "bscl_md5_accumulate ctx1 ?bits 8 = Some ctx2" "md5_repr ctx2 (msg @ 0x80 # replicate ?z 0 @ ?bits)"
    by auto
  have "unat c0 + 2 ^ 32 * unat c1 = 8 * length msg mod 2 ^ 64"
    using assms by (simp add: md5_repr_def c)
  then have "?bits = le32 (word_of_nat (8 * length msg)) @ le32 (word_of_nat (8 * length msg div 2 ^ 32))"
    using md5_count_words [of c0 c1 "8 * length msg"] by (simp add: md5_Encode_le32)
  then have "md5_state ctx2 = md5_absorb md5_IV (md5_pad msg)"
    using ctx2(2) by (simp add: md5_repr_def md5_pad_def)
  then show ?thesis
    using ctx1(1) ctx2(1) by (simp add: md5_fini_def c md5_reference_def md5_Encode_le32)
qed

text \<open>
  The 64 macro calls of the block transformation (registers, word order, shifts, functions)
  are the 64 steps of the loop that computes them from the step number, for every state and
  every block; decoding undoes encoding.
\<close>

lemma md5_Transform_is_loop:
  assumes "length block = 64"
  shows "md5_Transform st block = md5_ref_compress st block \<and> md5_Decode (md5_Encode ws) = ws"
  using md5_Transform_ref [OF assms] md5_Decode_Encode by simp

lemma md5_Transform_is_loop_witness:
  "md5_Transform md5_IV (replicate 64 7) = md5_ref_compress md5_IV (replicate 64 7)"
  using md5_Transform_is_loop [of "replicate 64 7"] by simp

lemma md5_digest_of_pieces:
  assumes "length (md5_buffer ctx) = 64" and "\<forall>xs\<in>set xss. length xs + 63 < 2 ^ 32"
  shows "\<exists>ctx'. md5_accumulate_all (bscl_md5_init ctx) xss = Some ctx'
    \<and> bscl_md5_finish ctx' = Some (md5_reference (concat xss),
        \<lparr>md5_state = replicate 4 0, md5_count = (0, 0), md5_buffer = replicate 64 0\<rparr>)"
proof -
  obtain ctx' where ctx': "md5_accumulate_all (bscl_md5_init ctx) xss = Some ctx'"
    "md5_repr ctx' (concat xss)"
    using md5_accumulate_all_spec [OF md5_repr_init [OF assms(1)], of xss] assms(2) by auto
  obtain ctx'' where "md5_fini ctx' = Some (md5_reference (concat xss), ctx'')"
    using md5_fini_spec [OF ctx'(2)] by blast
  moreover from this have "ctx'' = \<lparr>md5_state = replicate 4 0, md5_count = (0, 0),
      md5_buffer = replicate 64 0\<rparr>"
    by (auto simp: md5_fini_def Let_def split: Option.bind_splits)
  ultimately show ?thesis
    using ctx'(1) by (simp add: bscl_md5_finish_def)
qed

text \<open>
  C4: the digest does not depend on how a message is cut: \<open>bscl_md5_init\<close>, any calls of
  \<open>bscl_md5_accumulate\<close> with pieces below \<open>2 ^ 32 - 63\<close> bytes, and \<open>bscl_md5_finish\<close> return the
  digest of the padded concatenation, without an access out of bounds, for messages of any
  total length (the bit count wraps at \<open>2 ^ 64\<close> as the standard says), and the context is zeroed.
\<close>

theorem bscl_md5_digest:
  assumes "length (md5_buffer ctx) = 64" and "\<forall>xs\<in>set xss. length xs + 63 < 2 ^ 32"
  shows "\<exists>ctx'. md5_accumulate_all (bscl_md5_init ctx) xss = Some ctx'
    \<and> bscl_md5_finish ctx' = Some (md5_reference (concat xss),
        \<lparr>md5_state = replicate 4 0, md5_count = (0, 0), md5_buffer = replicate 64 0\<rparr>)"
  using md5_digest_of_pieces [OF assms] .

lemma bscl_md5_digest_witness:
  "\<exists>ctx'. md5_accumulate_all (bscl_md5_init
      \<lparr>md5_state = [], md5_count = (0, 0), md5_buffer = replicate 64 0\<rparr>) [[97], [98, 99]] = Some ctx'
    \<and> map_option fst (bscl_md5_finish ctx') = Some (md5_reference [97, 98, 99])"
  using bscl_md5_digest
    [of "\<lparr>md5_state = [], md5_count = (0, 0), md5_buffer = replicate 64 0\<rparr>" "[[97], [98, 99]]"]
  by auto

end
