(* ===== verification/Compare.thy ===== *)
theory Compare
  imports Prelude
begin

text \<open>
  Comparison callbacks: the sorting, heap and tree code takes a C function that returns an
  integer, of which only the sign counts.
\<close>

section \<open>Comparison functions\<close>

text \<open>
  What a C comparison function promises: its sign is that of a total preorder. \<open>le\<close> is the
  only thing the code observes.
\<close>

definition le :: "('a \<Rightarrow> 'a \<Rightarrow> int) \<Rightarrow> 'a \<Rightarrow> 'a \<Rightarrow> bool" where
  "le cmp a b \<longleftrightarrow> \<not> 0 < cmp a b"

definition comparator :: "('a \<Rightarrow> 'a \<Rightarrow> int) \<Rightarrow> bool" where
  "comparator cmp \<longleftrightarrow> (\<forall>a b. le cmp a b \<or> le cmp b a)
     \<and> (\<forall>a b c. le cmp a b \<longrightarrow> le cmp b c \<longrightarrow> le cmp a c)"

lemma cmp_gt: "comparator cmp \<Longrightarrow> \<not> le cmp a b \<Longrightarrow> le cmp b a"
  by (auto simp: comparator_def)

lemma cmp_trans: "comparator cmp \<Longrightarrow> le cmp a b \<Longrightarrow> le cmp b c \<Longrightarrow> le cmp a c"
  unfolding comparator_def by blast

lemma cmp_refl: "comparator cmp \<Longrightarrow> le cmp a a"
  by (auto simp: comparator_def)

text \<open>A function whose sign changes with the order of its arguments.\<close>

definition signed_comparator :: "('a \<Rightarrow> 'a \<Rightarrow> int) \<Rightarrow> bool" where
  "signed_comparator cmp \<longleftrightarrow> comparator cmp \<and> (\<forall>a b. cmp a b < 0 \<longleftrightarrow> 0 < cmp b a)"

lemma signed_comparator: "signed_comparator cmp \<Longrightarrow> comparator cmp"
  by (simp add: signed_comparator_def)

lemma signed_less: "signed_comparator cmp \<Longrightarrow> cmp a b < 0 \<longleftrightarrow> \<not> le cmp b a"
  by (simp add: signed_comparator_def le_def)

lemma signed_int: "signed_comparator (\<lambda>a b. a - b :: int)"
  by (auto simp: signed_comparator_def comparator_def le_def)

end
