(* ===== verification/Sort.thy ===== *)
theory Sort
  imports Compare "HOL-Library.Multiset"
begin

text \<open>
  The quicksort of \<open>src/bscl_sort.c\<close> on a container with random access: a list, whose \<open>at\<close> is
  undefined out of range. The comparison function is a parameter, as in the code, and so is
  \<open>rand\<close>, a function on a generator state. The exchange buffer is the caller's \<open>temp\<close> or a
  \<open>malloc\<close> of one element, which is taken to succeed.
\<close>

section \<open>The code\<close>

text \<open>The generator is seeded with the time.\<close>

definition bscl_sort_init :: "(u32 \<Rightarrow> 'r) \<Rightarrow> int \<Rightarrow> 'r" where
  "bscl_sort_init srand now = srand (word_of_int now)"

definition at :: "'a list \<Rightarrow> nat \<Rightarrow> 'a option" where
  "at xs n = (if n < length xs then Some (xs ! n) else None)"

text \<open>The loop \<open>while (i < m)\<close>: it returns the container, \<open>i\<close> and \<open>m\<close>.\<close>

function scan_up :: "('a \<Rightarrow> 'a \<Rightarrow> int) \<Rightarrow> 'a list \<Rightarrow> nat \<Rightarrow> nat \<Rightarrow> ('a list \<times> nat \<times> nat) option" where
  "scan_up cmp xs i m =
     (if i < m then do {
        vi \<leftarrow> at xs i;
        vm \<leftarrow> at xs m;
        if 0 < cmp vi vm then scan_up cmp (xs[i := vm, m := vi]) i i
        else scan_up cmp xs (i + 1) m
      } else Some (xs, i, m))"
  by pat_completeness auto
termination
  by (relation "measure (\<lambda>(cmp, xs, i, m). m - i)") auto

text \<open>The loop \<open>while (m < j)\<close>: it returns the container, \<open>m\<close> and \<open>j\<close>.\<close>

function scan_down :: "('a \<Rightarrow> 'a \<Rightarrow> int) \<Rightarrow> 'a list \<Rightarrow> nat \<Rightarrow> nat \<Rightarrow> ('a list \<times> nat \<times> nat) option" where
  "scan_down cmp xs m j =
     (if m < j then do {
        vj \<leftarrow> at xs j;
        vm \<leftarrow> at xs m;
        if 0 < cmp vm vj then scan_down cmp (xs[j := vm, m := vj]) j j
        else scan_down cmp xs m (j - 1)
      } else Some (xs, m, j))"
  by pat_completeness auto
termination
  by (relation "measure (\<lambda>(cmp, xs, m, j). j - m)") auto

declare scan_up.simps [simp del] scan_down.simps [simp del]

text \<open>The loop \<open>while (i < j)\<close> around both; it ends only for a sane comparison.\<close>

partial_function (option) partition_loop ::
    "('a \<Rightarrow> 'a \<Rightarrow> int) \<Rightarrow> 'a list \<Rightarrow> nat \<Rightarrow> nat \<Rightarrow> nat \<Rightarrow> ('a list \<times> nat) option" where
  "partition_loop cmp xs i m j =
     (if i < j then
        Option.bind (scan_up cmp xs i m) (\<lambda>(xs, i, m).
        Option.bind (scan_down cmp xs m j) (\<lambda>(xs, m, j).
        partition_loop cmp xs i m j))
      else Some (xs, m))"

declare partition_loop.simps [code]

partial_function (option) bscl_qsort ::
    "('r \<Rightarrow> nat \<times> 'r) \<Rightarrow> ('a \<Rightarrow> 'a \<Rightarrow> int) \<Rightarrow> 'a list \<Rightarrow> nat \<Rightarrow> nat \<Rightarrow> 'r \<Rightarrow> ('a list \<times> 'r) option" where
  "bscl_qsort rand cmp xs first lst r =
     (if \<not> first \<le> lst then None
      else if first = lst then Some (xs, r)
      else if \<not> lst - first + 1 < 2 ^ 31 then None
      else Option.bind (partition_loop cmp xs first (first + fst (rand r) mod (lst - first + 1)) lst)
        (\<lambda>(xs, m). Option.bind
          (if first < m then bscl_qsort rand cmp xs first (m - 1) (snd (rand r))
           else Some (xs, snd (rand r)))
        (\<lambda>(xs, r).
          if m < lst then bscl_qsort rand cmp xs (m + 1) lst r else Some (xs, r))))"

declare bscl_qsort.simps [code]

section \<open>The scans\<close>

abbreviation exchange :: "'a list \<Rightarrow> nat \<Rightarrow> nat \<Rightarrow> 'a list" where
  "exchange xs i j \<equiv> xs[i := xs ! j, j := xs ! i]"

lemma scan_up_spec:
  "i \<le> m \<Longrightarrow> m < length xs \<Longrightarrow> \<exists>n\<le>m. i \<le> n \<and> (\<forall>k\<in>{i..<n}. le cmp (xs ! k) (xs ! m))
    \<and> (if n = m then scan_up cmp xs i m = Some (xs, m, m)
       else \<not> le cmp (xs ! n) (xs ! m) \<and> scan_up cmp xs i m = Some (exchange xs n m, n, n))"
proof (induction "m - i" arbitrary: i)
  case 0
  then show ?case
    by (intro exI [of _ m]) (simp add: scan_up.simps)
next
  case (Suc d)
  then have lt: "i < m" by simp
  show ?case
  proof (cases "le cmp (xs ! i) (xs ! m)")
    case True
    have "d = m - (i + 1)" "i + 1 \<le> m"
      using Suc.hyps(2) lt by simp_all
    from Suc.hyps(1) [OF this Suc.prems(2)] obtain n where n: "n \<le> m" "i + 1 \<le> n"
      "\<forall>k\<in>{i + 1..<n}. le cmp (xs ! k) (xs ! m)"
      "if n = m then scan_up cmp xs (i + 1) m = Some (xs, m, m)
       else \<not> le cmp (xs ! n) (xs ! m) \<and> scan_up cmp xs (i + 1) m = Some (exchange xs n m, n, n)"
      by blast
    have "scan_up cmp xs i m = scan_up cmp xs (i + 1) m"
      using lt Suc.prems(2) True by (subst scan_up.simps) (simp add: at_def le_def)
    moreover have "\<forall>k\<in>{i..<n}. le cmp (xs ! k) (xs ! m)"
      using n(3) True by (metis Suc_eq_plus1 atLeastLessThan_iff le_antisym not_less_eq_eq)
    ultimately show ?thesis
      using n by (intro exI [of _ n]) auto
  next
    case False
    then have "scan_up cmp xs i m = Some (exchange xs i m, i, i)"
      using lt Suc.prems(2)
      by (simp add: scan_up.simps [of cmp xs] at_def le_def scan_up.simps [of cmp _ i i])
    then show ?thesis
      using False lt by (intro exI [of _ i]) simp
  qed
qed

lemma scan_down_spec:
  "m \<le> j \<Longrightarrow> j < length xs \<Longrightarrow> \<exists>n\<le>j. m \<le> n \<and> (\<forall>k\<in>{n<..j}. le cmp (xs ! m) (xs ! k))
    \<and> (if n = m then scan_down cmp xs m j = Some (xs, m, m)
       else \<not> le cmp (xs ! m) (xs ! n) \<and> scan_down cmp xs m j = Some (exchange xs n m, n, n))"
proof (induction "j - m" arbitrary: j)
  case 0
  then show ?case
    by (intro exI [of _ m]) (simp add: scan_down.simps)
next
  case (Suc d)
  then have lt: "m < j" by simp
  show ?case
  proof (cases "le cmp (xs ! m) (xs ! j)")
    case True
    have "d = j - 1 - m" "m \<le> j - 1" "j - 1 < length xs"
      using Suc.hyps(2) Suc.prems lt by simp_all
    from Suc.hyps(1) [OF this] obtain n where n: "n \<le> j - 1" "m \<le> n"
      "\<forall>k\<in>{n<..j - 1}. le cmp (xs ! m) (xs ! k)"
      "if n = m then scan_down cmp xs m (j - 1) = Some (xs, m, m)
       else \<not> le cmp (xs ! m) (xs ! n) \<and> scan_down cmp xs m (j - 1) = Some (exchange xs n m, n, n)"
      by blast
    have "scan_down cmp xs m j = scan_down cmp xs m (j - 1)"
      using lt Suc.prems(2) True by (subst scan_down.simps) (simp add: at_def le_def)
    moreover have "le cmp (xs ! m) (xs ! k)" if "k \<in> {n<..j}" for k
      using n(3) True that by (cases "k = j") auto
    ultimately show ?thesis
      using n by (intro exI [of _ n]) auto
  next
    case False
    then have "scan_down cmp xs m j = Some (exchange xs j m, j, j)"
      using lt Suc.prems(2)
      by (simp add: scan_down.simps [of cmp xs] at_def le_def scan_down.simps [of cmp _ j j])
    then show ?thesis
      using False lt by (intro exI [of _ j]) simp
  qed
qed

section \<open>The partition\<close>

text \<open>\<open>ys\<close> is \<open>xs\<close> permuted inside the positions \<open>f\<close> to \<open>l\<close>.\<close>

definition permuted :: "nat \<Rightarrow> nat \<Rightarrow> 'a list \<Rightarrow> 'a list \<Rightarrow> bool" where
  "permuted f l xs ys \<longleftrightarrow> mset ys = mset xs \<and> take f ys = take f xs \<and> drop (Suc l) ys = drop (Suc l) xs"

lemma permuted_length: "permuted f l xs ys \<Longrightarrow> length ys = length xs"
  by (auto simp: permuted_def dest: mset_eq_length)

lemma permuted_refl [simp]: "permuted f l xs xs"
  by (simp add: permuted_def)

lemma permuted_trans: "permuted f l xs ys \<Longrightarrow> permuted f l ys zs \<Longrightarrow> permuted f l xs zs"
  by (simp add: permuted_def)

lemma permuted_widen:
  assumes "permuted f' l' xs ys" and "f \<le> f'" and "l' \<le> l"
  shows "permuted f l xs ys"
proof -
  have "take f (take f' ys) = take f (take f' xs)"
    using assms(1) by (simp only: permuted_def)
  then have "take f ys = take f xs"
    using assms(2) by (simp add: min_absorb1)
  moreover have "drop (l - l') (drop (Suc l') ys) = drop (l - l') (drop (Suc l') xs)"
    using assms(1) by (simp only: permuted_def)
  then have "drop (Suc l) ys = drop (Suc l) xs"
    using assms(3) by simp
  ultimately show ?thesis
    using assms(1) by (simp add: permuted_def)
qed

lemma permuted_nth:
  assumes "permuted f l xs ys" and "k < f \<or> l < k" and "k < length xs"
  shows "ys ! k = xs ! k"
proof -
  note len = permuted_length [OF assms(1)]
  from assms(2) show ?thesis
  proof
    assume "k < f"
    then show ?thesis
      using assms(1) nth_take [of k f] by (metis permuted_def)
  next
    assume "l < k"
    moreover have "drop (Suc l) ys ! (k - Suc l) = drop (Suc l) xs ! (k - Suc l)"
      using assms(1) by (simp only: permuted_def)
    ultimately show ?thesis
      using len assms(3) by simp
  qed
qed

lemma exchange_permuted:
  assumes "f \<le> i" "i \<le> l" "f \<le> j" "j \<le> l" "l < length xs"
  shows "permuted f l xs (exchange xs i j)"
  using assms by (simp add: permuted_def mset_swap)

text \<open>The values between \<open>f\<close> and \<open>l\<close> stay between \<open>f\<close> and \<open>l\<close>.\<close>

lemma permuted_values:
  assumes "permuted f l xs ys" and "f \<le> k" "k \<le> l" and "l < length xs"
  shows "\<exists>k'. f \<le> k' \<and> k' \<le> l \<and> ys ! k = xs ! k'"
proof -
  let ?seg = "\<lambda>zs. take (Suc l - f) (drop f zs)"
  note len = permuted_length [OF assms(1)]
  have "f \<le> Suc l"
    using assms(2,3) by simp
  then have split: "take f zs @ ?seg zs @ drop (Suc l) zs = zs" for zs :: "'a list"
    by (metis append_take_drop_id drop_drop le_add_diff_inverse2)
  have msplit: "mset zs = mset (take f zs) + mset (?seg zs) + mset (drop (Suc l) zs)"
    for zs :: "'a list"
    using arg_cong [OF split [of zs], of mset] by (simp only: mset_append add.assoc)
  have "mset (take f xs) + mset (?seg ys) + mset (drop (Suc l) xs)
      = mset (take f xs) + mset (?seg xs) + mset (drop (Suc l) xs)"
    using assms(1) msplit [of ys] msplit [of xs] unfolding permuted_def by metis
  then have "mset (?seg ys) = mset (?seg xs)"
    by simp
  then have "set (?seg ys) = set (?seg xs)"
    by (metis set_mset_mset)
  moreover have "?seg ys ! (k - f) = ys ! k" and "k - f < length (?seg ys)"
    using assms len by simp_all
  ultimately have "ys ! k \<in> set (?seg xs)"
    by (metis nth_mem)
  then obtain n where n: "n < length (?seg xs)" "?seg xs ! n = ys ! k"
    by (metis in_set_conv_nth)
  then show ?thesis
    using assms(4) by (intro exI [of _ "f + n"]) auto
qed

text \<open>Loop invariant: what is left of \<open>i\<close> is at most the pivot, what is right of \<open>j\<close> at least.\<close>

definition pinv :: "('a \<Rightarrow> 'a \<Rightarrow> int) \<Rightarrow> nat \<Rightarrow> nat \<Rightarrow> 'a list \<Rightarrow> nat \<Rightarrow> nat \<Rightarrow> nat \<Rightarrow> bool" where
  "pinv cmp f l xs i m j \<longleftrightarrow> f \<le> i \<and> i \<le> m \<and> m \<le> j \<and> j \<le> l \<and> l < length xs
     \<and> (\<forall>k\<in>{f..<i}. le cmp (xs ! k) (xs ! m)) \<and> (\<forall>k\<in>{j<..l}. le cmp (xs ! m) (xs ! k))"

lemma scan_up_inv:
  assumes cmp: "comparator cmp" and inv: "pinv cmp f l xs i m j"
  shows "\<exists>ys n. scan_up cmp xs i m = Some (ys, n, n) \<and> pinv cmp f l ys n n j \<and> permuted f l xs ys
    \<and> i \<le> n \<and> (i < m \<and> le cmp (xs ! i) (xs ! m) \<longrightarrow> i < n)"
proof -
  have b: "f \<le> i" "i \<le> m" "m \<le> j" "j \<le> l" "l < length xs"
    and lo: "\<forall>k\<in>{f..<i}. le cmp (xs ! k) (xs ! m)" and hi: "\<forall>k\<in>{j<..l}. le cmp (xs ! m) (xs ! k)"
    using inv by (simp_all add: pinv_def)
  obtain n where n: "n \<le> m" "i \<le> n" "\<forall>k\<in>{i..<n}. le cmp (xs ! k) (xs ! m)"
    "if n = m then scan_up cmp xs i m = Some (xs, m, m)
     else \<not> le cmp (xs ! n) (xs ! m) \<and> scan_up cmp xs i m = Some (exchange xs n m, n, n)"
    using scan_up_spec [of i m xs cmp] b by auto
  have lo': "le cmp (xs ! k) (xs ! m)" if "f \<le> k" "k < n" for k
    using lo n(3) that by (cases "k < i") auto
  show ?thesis
  proof (cases "n = m")
    case True
    then show ?thesis
      using n b lo' hi by (auto simp: pinv_def)
  next
    case False
    let ?ys = "exchange xs n m"
    have "pinv cmp f l ?ys n n j"
      using b n False lo' hi by (auto simp: pinv_def nth_list_update)
    moreover have "permuted f l xs ?ys"
      using b n by (intro exchange_permuted) simp_all
    moreover have "i < n" if "le cmp (xs ! i) (xs ! m)"
      using that n False by (cases "i = n") auto
    ultimately show ?thesis
      using n False by auto
  qed
qed

lemma scan_down_inv:
  assumes cmp: "comparator cmp" and inv: "pinv cmp f l xs i i j"
  shows "\<exists>ys n. scan_down cmp xs i j = Some (ys, n, n) \<and> pinv cmp f l ys i n n \<and> permuted f l xs ys
    \<and> n \<le> j \<and> (i < n \<longrightarrow> le cmp (ys ! i) (ys ! n))"
proof -
  have b: "f \<le> i" "i \<le> j" "j \<le> l" "l < length xs"
    and lo: "\<forall>k\<in>{f..<i}. le cmp (xs ! k) (xs ! i)" and hi: "\<forall>k\<in>{j<..l}. le cmp (xs ! i) (xs ! k)"
    using inv by (simp_all add: pinv_def)
  obtain n where n: "n \<le> j" "i \<le> n" "\<forall>k\<in>{n<..j}. le cmp (xs ! i) (xs ! k)"
    "if n = i then scan_down cmp xs i j = Some (xs, i, i)
     else \<not> le cmp (xs ! i) (xs ! n) \<and> scan_down cmp xs i j = Some (exchange xs n i, n, n)"
    using scan_down_spec [of i j xs cmp] b by auto
  have hi': "le cmp (xs ! i) (xs ! k)" if "n < k" "k \<le> l" for k
    using hi n(3) that by (cases "j < k") auto
  show ?thesis
  proof (cases "n = i")
    case True
    then show ?thesis
      using n b lo hi' by (auto simp: pinv_def)
  next
    case False
    let ?ys = "exchange xs n i"
    have "pinv cmp f l ?ys i n n"
      using b n False lo hi' by (auto simp: pinv_def nth_list_update)
    moreover have "permuted f l xs ?ys"
      using b n by (intro exchange_permuted) simp_all
    moreover have "le cmp (?ys ! i) (?ys ! n)"
      using cmp_gt [OF cmp, of "xs ! i" "xs ! n"] n b False by (simp add: nth_list_update)
    ultimately show ?thesis
      using n False by auto
  qed
qed

text \<open>
  One round of the loop keeps the invariant; it moves \<open>i\<close>, except perhaps in the first round, so
  the loop ends.
\<close>

lemma partition_round:
  assumes cmp: "comparator cmp" and inv: "pinv cmp f l xs i m j" and "i < j"
  obtains zs n k where "partition_loop cmp xs i m j = partition_loop cmp zs n k k" and "pinv cmp f l zs n k k"
    and "permuted f l xs zs" and "n < k \<longrightarrow> le cmp (zs ! n) (zs ! k)" and "k \<le> j" and "n \<le> k"
    and "i < m \<and> le cmp (xs ! i) (xs ! m) \<longrightarrow> i < n"
proof -
  obtain ys n where up: "scan_up cmp xs i m = Some (ys, n, n)" "pinv cmp f l ys n n j" "permuted f l xs ys"
      "i < m \<and> le cmp (xs ! i) (xs ! m) \<longrightarrow> i < n"
    using scan_up_inv [OF cmp inv] by auto
  obtain zs k where down: "scan_down cmp ys n j = Some (zs, k, k)" "pinv cmp f l zs n k k"
      "permuted f l ys zs" "k \<le> j" "n < k \<longrightarrow> le cmp (zs ! n) (zs ! k)"
    using scan_down_inv [OF cmp up(2)] by auto
  have "partition_loop cmp xs i m j = partition_loop cmp zs n k k"
    using assms(3) up(1) down(1) by (subst partition_loop.simps) simp
  moreover have "n \<le> k"
    using down(2) by (simp add: pinv_def)
  ultimately show thesis
    using that up(4) down(2,4,5) permuted_trans [OF up(3) down(3)] by blast
qed

lemma partition_loop_progress:
  assumes cmp: "comparator cmp"
  shows "pinv cmp f l xs i m j \<Longrightarrow> i < m \<and> m = j \<and> le cmp (xs ! i) (xs ! m) \<or> i = j \<Longrightarrow>
    \<exists>ys n. partition_loop cmp xs i m j = Some (ys, n) \<and> pinv cmp f l ys n n n \<and> permuted f l xs ys"
proof (induction "j - i" arbitrary: xs i m j rule: less_induct)
  case less
  show ?case
  proof (cases "i < j")
    case False
    then have "i = j" "m = j"
      using less.prems by (auto simp: pinv_def)
    then show ?thesis
      using less.prems by (subst partition_loop.simps) simp
  next
    case True
    obtain zs n k where round: "partition_loop cmp xs i m j = partition_loop cmp zs n k k" "pinv cmp f l zs n k k"
        "permuted f l xs zs" "n < k \<longrightarrow> le cmp (zs ! n) (zs ! k)" "k \<le> j" "n \<le> k"
        "i < m \<and> le cmp (xs ! i) (xs ! m) \<longrightarrow> i < n"
      by (rule partition_round [OF cmp less.prems(1) True])
    then have "\<exists>ws p. partition_loop cmp zs n k k = Some (ws, p) \<and> pinv cmp f l ws p p p \<and> permuted f l zs ws"
      using less.prems(2) True by (intro less.hyps) auto
    then show ?thesis
      using round(1,3) permuted_trans by metis
  qed
qed

lemma partition_loop_spec:
  assumes cmp: "comparator cmp" and inv: "pinv cmp f l xs i m j"
  shows "\<exists>ys n. partition_loop cmp xs i m j = Some (ys, n) \<and> pinv cmp f l ys n n n \<and> permuted f l xs ys"
proof (cases "i < j")
  case False
  then show ?thesis
    using partition_loop_progress [OF cmp inv] inv by (auto simp: pinv_def)
next
  case True
  obtain zs n k where round: "partition_loop cmp xs i m j = partition_loop cmp zs n k k" "pinv cmp f l zs n k k"
      "permuted f l xs zs" "n < k \<longrightarrow> le cmp (zs ! n) (zs ! k)" "n \<le> k"
    by (rule partition_round [OF cmp inv True])
  then have "\<exists>ws p. partition_loop cmp zs n k k = Some (ws, p) \<and> pinv cmp f l ws p p p \<and> permuted f l zs ws"
    by (intro partition_loop_progress [OF cmp]) auto
  then show ?thesis
    using round(1,3) permuted_trans by metis
qed

section \<open>The sort\<close>

definition sorted_between :: "('a \<Rightarrow> 'a \<Rightarrow> int) \<Rightarrow> nat \<Rightarrow> nat \<Rightarrow> 'a list \<Rightarrow> bool" where
  "sorted_between cmp f l xs \<longleftrightarrow> (\<forall>i j. f \<le> i \<and> i \<le> j \<and> j \<le> l \<longrightarrow> le cmp (xs ! i) (xs ! j))"

text \<open>Two sorted halves around a pivot.\<close>

lemma sorted_between_join:
  assumes cmp: "comparator cmp"
    and lo: "f < m \<Longrightarrow> sorted_between cmp f (m - 1) xs" and hi: "m < l \<Longrightarrow> sorted_between cmp (m + 1) l xs"
    and piv: "\<And>k. f \<le> k \<Longrightarrow> k < m \<Longrightarrow> le cmp (xs ! k) (xs ! m)"
      "\<And>k. m < k \<Longrightarrow> k \<le> l \<Longrightarrow> le cmp (xs ! m) (xs ! k)"
  shows "sorted_between cmp f l xs"
  unfolding sorted_between_def
proof (intro allI impI)
  fix i j
  assume ij: "f \<le> i \<and> i \<le> j \<and> j \<le> l"
  consider "j < m" | "m < i" | "i \<le> m" "m \<le> j"
    by linarith
  then show "le cmp (xs ! i) (xs ! j)"
  proof cases
    case 1
    then show ?thesis
      using lo ij by (auto simp: sorted_between_def)
  next
    case 2
    then show ?thesis
      using hi ij by (auto simp: sorted_between_def)
  next
    case 3
    then have "le cmp (xs ! i) (xs ! m)" and "le cmp (xs ! m) (xs ! j)"
      using piv ij cmp_refl [OF cmp] by (auto simp: le_less)
    then show ?thesis
      by (rule cmp_trans [OF cmp])
  qed
qed

lemma permuted_all:
  assumes "permuted f l xs ys" and "l < length xs" and "\<forall>k \<in> {f..l}. P (xs ! k)"
  shows "\<forall>k \<in> {f..l}. P (ys ! k)"
  using permuted_values [OF assms(1) _ _ assms(2)] assms(3) by fastforce

text \<open>What the two calls for the parts left and right of the pivot leave.\<close>

lemma qsort_halves:
  assumes cmp: "comparator cmp" and inv: "pinv cmp f l ys m m m"
    and left: "if f < m then permuted f (m - 1) ys zs \<and> sorted_between cmp f (m - 1) zs else zs = ys"
    and right: "if m < l then permuted (m + 1) l zs ws \<and> sorted_between cmp (m + 1) l ws else ws = zs"
  shows "permuted f l ys ws" and "sorted_between cmp f l ws"
proof -
  have m: "f \<le> m" "m \<le> l" "l < length ys" and lo: "\<forall>k\<in>{f..<m}. le cmp (ys ! k) (ys ! m)"
    and hi: "\<forall>k\<in>{m<..l}. le cmp (ys ! m) (ys ! k)"
    using inv by (simp_all add: pinv_def)
  have zy: "permuted f l ys zs" and wz: "permuted f l zs ws"
    using left right m by (auto intro: permuted_widen split: if_splits)
  show "permuted f l ys ws"
    by (rule permuted_trans [OF zy wz])
  have lz: "length zs = length ys"
    by (rule permuted_length [OF zy])
  have low: "ws ! k = zs ! k" if "k \<le> m" for k
    using right permuted_nth [of "m + 1" l zs ws k] that m lz by (auto split: if_splits)
  have high: "zs ! k = ys ! k" if "m \<le> k" "k \<le> l" for k
    using left permuted_nth [of f "m - 1" ys zs k] that m by (auto split: if_splits)
  have "le cmp (zs ! k) (ys ! m)" if k: "f \<le> k" "k < m" for k
  proof -
    have "\<forall>k \<in> {f..m - 1}. le cmp (ys ! k) (ys ! m)"
      using lo k by auto
    then have "\<forall>k \<in> {f..m - 1}. le cmp (zs ! k) (ys ! m)"
      using left k m by (intro permuted_all [of f "m - 1" ys zs "\<lambda>v. le cmp v (ys ! m)"]) auto
    then show ?thesis
      using k by auto
  qed
  moreover have "le cmp (ys ! m) (ws ! k)" if "m < k" "k \<le> l" for k
    using right that permuted_all [of "m + 1" l zs ws "\<lambda>v. le cmp (ys ! m) v"] hi high m lz by auto
  moreover have "sorted_between cmp f (m - 1) ws" if "f < m"
    using left that low by (auto simp: sorted_between_def)
  ultimately show "sorted_between cmp f l ws"
    using right low [of m] high [of m] low m
    by (intro sorted_between_join [OF cmp, of f m ws l]) (auto split: if_splits)
qed

lemma bscl_qsort_spec:
  assumes cmp: "comparator cmp"
  shows "f \<le> l \<Longrightarrow> l < length xs \<Longrightarrow> length xs < 2 ^ 31 \<Longrightarrow>
    \<exists>ys r'. bscl_qsort rand cmp xs f l r = Some (ys, r') \<and> permuted f l xs ys \<and> sorted_between cmp f l ys"
proof (induction "l - f" arbitrary: f l xs r rule: less_induct)
  case less
  show ?case
  proof (cases "f = l")
    case True
    then have "sorted_between cmp f l xs"
      unfolding sorted_between_def using cmp_refl [OF cmp] by (metis le_antisym order_trans)
    with True show ?thesis
      by (subst bscl_qsort.simps) simp
  next
    case False
    then have lt: "f < l"
      using less.prems by simp
    let ?m = "f + fst (rand r) mod (l - f + 1)" and ?r = "snd (rand r)"
    have "fst (rand r) mod (l - f + 1) < l - f + 1"
      by (rule mod_less_divisor) simp
    then have "?m \<le> l"
      using lt by linarith
    then have "pinv cmp f l xs f ?m l"
      using less.prems by (simp add: pinv_def)
    from partition_loop_spec [OF cmp this] obtain ys m where part:
        "partition_loop cmp xs f ?m l = Some (ys, m)" "pinv cmp f l ys m m m" "permuted f l xs ys"
      by blast
    have m: "f \<le> m" "m \<le> l" and ly: "length ys = length xs"
      using part(2) permuted_length [OF part(3)] by (simp_all add: pinv_def)
    have "f < m \<Longrightarrow> \<exists>zs r1. bscl_qsort rand cmp ys f (m - 1) ?r = Some (zs, r1)
        \<and> permuted f (m - 1) ys zs \<and> sorted_between cmp f (m - 1) zs"
      using less.prems m ly by (intro less.hyps) simp_all
    then obtain zs r1 where left: "(if f < m then bscl_qsort rand cmp ys f (m - 1) ?r else Some (ys, ?r)) = Some (zs, r1)"
        "if f < m then permuted f (m - 1) ys zs \<and> sorted_between cmp f (m - 1) zs else zs = ys"
      by (cases "f < m") auto
    then have lz: "length zs = length ys"
      using permuted_length by (auto split: if_splits)
    have "m < l \<Longrightarrow> \<exists>ws r2. bscl_qsort rand cmp zs (m + 1) l r1 = Some (ws, r2)
        \<and> permuted (m + 1) l zs ws \<and> sorted_between cmp (m + 1) l ws"
      using less.prems m ly lz by (intro less.hyps) simp_all
    then obtain ws r2 where right: "(if m < l then bscl_qsort rand cmp zs (m + 1) l r1 else Some (zs, r1)) = Some (ws, r2)"
        "if m < l then permuted (m + 1) l zs ws \<and> sorted_between cmp (m + 1) l ws else ws = zs"
      by (cases "m < l") auto
    have "bscl_qsort rand cmp xs f l r = Some (ws, r2)"
      using lt less.prems part(1) left(1) right(1) by (subst bscl_qsort.simps) simp
    then show ?thesis
      using qsort_halves [OF cmp part(2) left(2) right(2)] permuted_trans [OF part(3)] by blast
  qed
qed

section \<open>Properties\<close>

text \<open>
  C5: for every comparison function that is a total preorder and every random generator,
  \<open>bscl_qsort\<close> terminates without an access out of range and returns the container with the
  elements between \<open>first\<close> and \<open>last\<close> sorted: a permutation of the input that agrees with it
  before \<open>first\<close> and after \<open>last\<close>.
\<close>

theorem bscl_qsort_sorts:
  assumes "comparator cmp" and "f \<le> l" and "l < length xs" and "length xs < 2 ^ 31"
  shows "\<exists>ys r'. bscl_qsort rand cmp xs f l r = Some (ys, r') \<and> mset ys = mset xs
    \<and> take f ys = take f xs \<and> drop (Suc l) ys = drop (Suc l) xs
    \<and> (\<forall>i j. f \<le> i \<and> i \<le> j \<and> j \<le> l \<longrightarrow> \<not> 0 < cmp (ys ! i) (ys ! j))"
  using bscl_qsort_spec [OF assms, of rand r] by (auto simp: permuted_def sorted_between_def le_def)

lemma bscl_qsort_sorts_witness:
  "\<exists>ys r'. bscl_qsort (\<lambda>r. (r, r + 3)) (\<lambda>a b. a - b) [5, 3, 9, 1, 3 :: int] 0 4 (7 :: nat) = Some (ys, r')
    \<and> mset ys = {#1, 3, 3, 5, 9#}"
proof -
  have "comparator (\<lambda>a b. a - b :: int)"
    by (auto simp: comparator_def le_def)
  from bscl_qsort_sorts [OF this, of 0 4 "[5, 3, 9, 1, 3]" "\<lambda>r. (r, r + 3)" 7] show ?thesis
    by auto
qed

end
