(* ===== verification/Bheap.thy ===== *)
theory Bheap
  imports Compare "HOL-Library.Multiset"
begin

text \<open>
  The binary heap of \<open>src/bscl_bheap.c\<close>. The storage belongs to the user, who passes functions
  that compare, swap and put by position; here it is a list, with these functions undefined out
  of range and \<open>cmp\<close> the comparison of the values. \<open>bh_vptr\<close> says that the heap has its table of
  these functions, which \<open>bscl_bheap_deinit\<close> takes away. Positions are unbounded integers: the overflow of
  the macros that compute the children in a heap of more than \<open>2 ^ 30\<close> values is not modelled.
\<close>

section \<open>The code\<close>

record 'a bscl_bheap_t =
  bh_store :: "'a list"
  bh_capacity :: int
  bh_size :: int
  bh_vptr :: bool

definition bscl_bheap_lc :: "int \<Rightarrow> int" where
  "bscl_bheap_lc i = i * 2 + 1"

definition bscl_bheap_rc :: "int \<Rightarrow> int" where
  "bscl_bheap_rc i = i * 2 + 2"

text \<open>The division of C rounds to zero; the code calls this for \<open>i = -1\<close> and \<open>i = 0\<close>, too.\<close>

definition bscl_bheap_p :: "int \<Rightarrow> int" where
  "bscl_bheap_p i = (if i - 1 < 0 then - ((1 - i) div 2) else (i - 1) div 2)"

definition store_get :: "'a list \<Rightarrow> int \<Rightarrow> 'a option" where
  "store_get xs i = (if 0 \<le> i \<and> i < int (length xs) then Some (xs ! nat i) else None)"

definition bscl_bheap_compare :: "('a \<Rightarrow> 'a \<Rightarrow> int) \<Rightarrow> 'a list \<Rightarrow> int \<Rightarrow> int \<Rightarrow> int option" where
  "bscl_bheap_compare cmp xs x y = do {
     a \<leftarrow> store_get xs x;
     b \<leftarrow> store_get xs y;
     Some (cmp a b)
   }"

definition bscl_bheap_swap :: "'a list \<Rightarrow> int \<Rightarrow> int \<Rightarrow> 'a list option" where
  "bscl_bheap_swap xs x y = do {
     a \<leftarrow> store_get xs x;
     b \<leftarrow> store_get xs y;
     Some (xs[nat x := b, nat y := a])
   }"

definition bscl_bheap_put :: "'a list \<Rightarrow> int \<Rightarrow> 'a \<Rightarrow> 'a list option" where
  "bscl_bheap_put xs pos d = do { _ \<leftarrow> store_get xs pos; Some (xs[nat pos := d]) }"

text \<open>The loop changes the store but never \<open>c\<close>.\<close>

partial_function (option) bscl_bheap_sift_down ::
    "('a \<Rightarrow> 'a \<Rightarrow> int) \<Rightarrow> 'a list \<Rightarrow> int \<Rightarrow> int \<Rightarrow> 'a list option" where
  "bscl_bheap_sift_down cmp xs sz c =
     (if c < sz then
        (let l = bscl_bheap_lc c; r = bscl_bheap_rc c
         in if sz \<le> l then Some xs
            else do {
              mn \<leftarrow> (if sz \<le> r then Some l
                else do { k \<leftarrow> bscl_bheap_compare cmp xs l r; Some (if k < 0 then l else r) });
              k \<leftarrow> bscl_bheap_compare cmp xs c mn;
              if 0 < k then do {
                xs \<leftarrow> bscl_bheap_swap xs c mn;
                bscl_bheap_sift_down cmp xs sz c
              } else Some xs
            })
      else Some xs)"

declare bscl_bheap_sift_down.simps [code]

function bscl_bheap_sift_up :: "('a \<Rightarrow> 'a \<Rightarrow> int) \<Rightarrow> 'a list \<Rightarrow> int \<Rightarrow> 'a list option" where
  "bscl_bheap_sift_up cmp xs c =
     (if 0 < c then
        (let p = bscl_bheap_p c
         in do {
              k \<leftarrow> bscl_bheap_compare cmp xs c p;
              if k < 0 then do {
                xs \<leftarrow> bscl_bheap_swap xs c p;
                bscl_bheap_sift_up cmp xs p
              } else Some xs
            })
      else Some xs)"
  by pat_completeness auto
termination
  by (relation "measure (\<lambda>(cmp, xs, c). nat c)") (auto simp: bscl_bheap_p_def)

declare bscl_bheap_sift_up.simps [simp del]

text \<open>\<open>for (i = start; i >= 0; --i)\<close>; \<open>n\<close> is \<open>i + 1\<close>.\<close>

fun bheapity_loop :: "('a \<Rightarrow> 'a \<Rightarrow> int) \<Rightarrow> 'a list \<Rightarrow> int \<Rightarrow> nat \<Rightarrow> 'a list option" where
  "bheapity_loop cmp xs sz 0 = Some xs"
| "bheapity_loop cmp xs sz (Suc n) = do {
     xs \<leftarrow> bscl_bheap_sift_down cmp xs sz (int n);
     bheapity_loop cmp xs sz n
   }"

definition bscl_bheapity :: "('a \<Rightarrow> 'a \<Rightarrow> int) \<Rightarrow> 'a bscl_bheap_t \<Rightarrow> 'a bscl_bheap_t option" where
  "bscl_bheapity cmp h = do {
     xs \<leftarrow> bheapity_loop cmp (bh_store h) (bh_size h) (nat (bscl_bheap_p (bh_size h - 1) + 1));
     Some (h\<lparr>bh_store := xs\<rparr>)
   }"

definition bscl_bheap_insert ::
    "('a \<Rightarrow> 'a \<Rightarrow> int) \<Rightarrow> 'a bscl_bheap_t \<Rightarrow> 'a \<Rightarrow> (int \<times> 'a bscl_bheap_t) option" where
  "bscl_bheap_insert cmp h d =
     (let pos = bh_size h
      in if \<not> bh_vptr h then None
         else if bh_capacity h \<le> pos then Some (- 1, h)
         else do {
           xs \<leftarrow> bscl_bheap_put (bh_store h) pos d;
           xs \<leftarrow> bscl_bheap_sift_up cmp xs pos;
           Some (0, h\<lparr>bh_store := xs, bh_size := bh_size h + 1\<rparr>)
         })"

definition bscl_bheap_init ::
    "('a \<Rightarrow> 'a \<Rightarrow> int) \<Rightarrow> 'a list \<Rightarrow> int \<Rightarrow> int \<Rightarrow> (int \<times> 'a bscl_bheap_t) option" where
  "bscl_bheap_init cmp xs cap sz = do {
     h \<leftarrow> bscl_bheapity cmp \<lparr>bh_store = xs, bh_capacity = cap, bh_size = sz, bh_vptr = True\<rparr>;
     Some (0, h)
   }"

definition bscl_bheap_deinit :: "'a bscl_bheap_t \<Rightarrow> 'a bscl_bheap_t" where
  "bscl_bheap_deinit h = h\<lparr>bh_vptr := False, bh_size := 0\<rparr>"

definition bscl_bheap_remove ::
    "('a \<Rightarrow> 'a \<Rightarrow> int) \<Rightarrow> 'a bscl_bheap_t \<Rightarrow> int \<Rightarrow> 'a bscl_bheap_t option" where
  "bscl_bheap_remove cmp h n =
     (let lst = bh_size h - 1
      in if lst < n then Some h
         else if n < lst then do {
           guard (bh_vptr h);
           xs \<leftarrow> bscl_bheap_swap (bh_store h) n lst;
           xs \<leftarrow> bscl_bheap_sift_down cmp xs (bh_size h - 1) n;
           Some (h\<lparr>bh_store := xs, bh_size := bh_size h - 1\<rparr>)
         } else Some (h\<lparr>bh_size := bh_size h - 1\<rparr>))"

section \<open>The heap order\<close>

text \<open>The parent of position \<open>i\<close> is \<open>(i - 1) div 2\<close>, on natural numbers.\<close>

definition heap_ordered :: "('a \<Rightarrow> 'a \<Rightarrow> int) \<Rightarrow> 'a list \<Rightarrow> bool" where
  "heap_ordered cmp xs \<longleftrightarrow> (\<forall>i. 0 < i \<and> i < length xs \<longrightarrow> le cmp (xs ! ((i - 1) div 2)) (xs ! i))"

definition bheap_inv :: "'a bscl_bheap_t \<Rightarrow> bool" where
  "bheap_inv h \<longleftrightarrow> 0 \<le> bh_size h \<and> bh_size h \<le> bh_capacity h
     \<and> bh_capacity h \<le> int (length (bh_store h)) \<and> bh_vptr h"

definition bheap_items :: "'a bscl_bheap_t \<Rightarrow> 'a list" where
  "bheap_items h = take (nat (bh_size h)) (bh_store h)"

lemma heap_ordered_code [code]:
  "heap_ordered cmp xs = list_all (\<lambda>i. le cmp (xs ! ((i - 1) div 2)) (xs ! i)) [1..<length xs]"
  by (auto simp: heap_ordered_def list_all_iff)

lemma heap_ordered_take:
  "n \<le> length xs \<Longrightarrow> heap_ordered cmp (take n xs)
     \<longleftrightarrow> (\<forall>i. 0 < i \<and> i < n \<longrightarrow> le cmp (xs ! ((i - 1) div 2)) (xs ! i))"
  by (auto simp: heap_ordered_def)

lemma store_get_int [simp]: "store_get xs (int i) = (if i < length xs then Some (xs ! i) else None)"
  by (simp add: store_get_def)

lemma bscl_bheap_p_int: "0 < i \<Longrightarrow> bscl_bheap_p (int i) = int ((i - 1) div 2)"
  by (simp add: bscl_bheap_p_def zdiv_int of_nat_diff)

lemma bscl_bheap_compare_int [simp]:
  "i < length xs \<Longrightarrow> j < length xs \<Longrightarrow>
     bscl_bheap_compare cmp xs (int i) (int j) = Some (cmp (xs ! i) (xs ! j))"
  by (simp add: bscl_bheap_compare_def)

lemma bscl_bheap_swap_int [simp]:
  "i < length xs \<Longrightarrow> j < length xs \<Longrightarrow>
     bscl_bheap_swap xs (int i) (int j) = Some (xs[i := xs ! j, j := xs ! i])"
  by (simp add: bscl_bheap_swap_def)

section \<open>Sifting up\<close>

text \<open>The first \<open>n\<close> positions are ordered, except that \<open>c\<close> may be too small for its parent.\<close>

definition heap_except :: "('a \<Rightarrow> 'a \<Rightarrow> int) \<Rightarrow> 'a list \<Rightarrow> nat \<Rightarrow> nat \<Rightarrow> bool" where
  "heap_except cmp xs n c \<longleftrightarrow>
     (\<forall>i. 0 < i \<and> i < n \<and> i \<noteq> c \<longrightarrow> le cmp (xs ! ((i - 1) div 2)) (xs ! i))
     \<and> (\<forall>i. 0 < c \<and> 0 < i \<and> i < n \<and> (i - 1) div 2 = c \<longrightarrow> le cmp (xs ! ((c - 1) div 2)) (xs ! i))"

lemma heap_except_swap:
  assumes cmp: "comparator cmp" and c: "0 < c" "c < n" "n \<le> length xs"
    and h: "heap_except cmp xs n c" and lt: "\<not> le cmp (xs ! ((c - 1) div 2)) (xs ! c)"
  shows "heap_except cmp (xs[c := xs ! ((c - 1) div 2), (c - 1) div 2 := xs ! c]) n ((c - 1) div 2)"
proof -
  define p where "p = (c - 1) div 2"
  define ys where "ys = xs[c := xs ! p, p := xs ! c]"
  have p: "p < c" using c by (simp add: p_def)
  have up: "le cmp (xs ! ((i - 1) div 2)) (xs ! i)" if "0 < i" "i < n" "i \<noteq> c" for i
    using h that by (simp add: heap_except_def)
  have gp: "le cmp (xs ! p) (xs ! i)" if "0 < i" "i < n" "(i - 1) div 2 = c" for i
    using h that c by (simp add: heap_except_def p_def)
  have cp: "le cmp (xs ! c) (xs ! p)"
    using cmp_gt [OF cmp lt] by (simp add: p_def)
  note tr = cmp_trans [OF cmp]
  have nth: "ys ! k = (if k = p then xs ! c else if k = c then xs ! p else xs ! k)" if "k < n" for k
    using that c p by (auto simp: ys_def nth_list_update)
  have "le cmp (ys ! ((i - 1) div 2)) (ys ! i)" if i: "0 < i" "i < n" "i \<noteq> p" for i
  proof -
    have q: "(i - 1) div 2 < i" "(i - 1) div 2 < n"
      using i by auto
    consider "i = c" | "(i - 1) div 2 = c" | "i \<noteq> c" "(i - 1) div 2 = p" | "i \<noteq> c" "(i - 1) div 2 \<noteq> c" "(i - 1) div 2 \<noteq> p"
      by blast
    then show ?thesis
    proof cases
      case 1
      then have "(i - 1) div 2 = p" by (simp add: p_def)
      with 1 show ?thesis using nth i q cp p by simp
    next
      case 2
      then show ?thesis using nth i q gp p by auto
    next
      case 3
      then show ?thesis using nth i q tr [OF cp] up [of i] p by auto
    next
      case 4
      then show ?thesis using nth i q up [of i] by auto
    qed
  qed
  moreover have "le cmp (ys ! ((p - 1) div 2)) (ys ! i)"
    if i: "0 < p" "0 < i" "i < n" "(i - 1) div 2 = p" for i
  proof -
    have q: "(p - 1) div 2 < p" "(p - 1) div 2 < n" "p < n"
      using i p c by auto
    have pp: "le cmp (xs ! ((p - 1) div 2)) (xs ! p)"
      using up [of p] i p q by auto
    have "le cmp (xs ! p) (xs ! i)" if "i \<noteq> c"
      using up [of i] i that by simp
    moreover have "i \<noteq> p" using i by auto
    ultimately show ?thesis
      using nth i q pp tr [OF pp] p by auto
  qed
  ultimately show ?thesis
    unfolding heap_except_def p_def [symmetric] ys_def [symmetric] by blast
qed

lemma bscl_bheap_sift_up_spec:
  assumes cmp: "signed_comparator cmp"
  shows "c < n \<Longrightarrow> n \<le> length xs \<Longrightarrow> heap_except cmp xs n c \<Longrightarrow>
    \<exists>ys. bscl_bheap_sift_up cmp xs (int c) = Some ys \<and> mset ys = mset xs \<and> drop n ys = drop n xs
      \<and> heap_ordered cmp (take n ys)"
proof (induction c arbitrary: xs rule: less_induct)
  case (less c)
  show ?case
  proof (cases "0 < c")
    case False
    then show ?thesis
      using less.prems by (simp add: bscl_bheap_sift_up.simps heap_except_def heap_ordered_take)
  next
    case True
    let ?p = "(c - 1) div 2"
    have p: "?p < c" using True by simp
    then have get: "?p < length xs" "c < length xs"
      using less.prems by simp_all
    show ?thesis
    proof (cases "le cmp (xs ! ?p) (xs ! c)")
      case le: True
      then have "bscl_bheap_sift_up cmp xs (int c) = Some xs"
        using True get signed_less [OF cmp, of "xs ! c" "xs ! ?p"]
        by (subst bscl_bheap_sift_up.simps) (simp add: Let_def bscl_bheap_p_int)
      moreover have "heap_ordered cmp (take n xs)"
        using less.prems le by (auto simp: heap_ordered_take heap_except_def)
      ultimately show ?thesis by simp
    next
      case gt: False
      let ?ys = "xs[c := xs ! ?p, ?p := xs ! c]"
      have run: "bscl_bheap_sift_up cmp xs (int c) = bscl_bheap_sift_up cmp ?ys (int ?p)"
        using True get gt signed_less [OF cmp, of "xs ! c" "xs ! ?p"]
        by (subst bscl_bheap_sift_up.simps) (simp add: Let_def bscl_bheap_p_int)
      have "heap_except cmp ?ys n ?p"
        using heap_except_swap [OF signed_comparator [OF cmp] True less.prems gt] .
      moreover have "mset ?ys = mset xs"
        using get by (simp add: mset_swap)
      moreover have "drop n ?ys = drop n xs"
        using p less.prems by simp
      ultimately show ?thesis
        using less.IH [of ?p ?ys] p less.prems run by auto
    qed
  qed
qed

section \<open>Sifting down\<close>

text \<open>
  The loop exchanges the value at \<open>c\<close> with the smaller child, and then stops: it looks at \<open>c\<close>
  again, where the smallest of the three is now.
\<close>

definition min_child :: "('a \<Rightarrow> 'a \<Rightarrow> int) \<Rightarrow> 'a list \<Rightarrow> nat \<Rightarrow> nat \<Rightarrow> nat" where
  "min_child cmp xs n c =
     (if n \<le> 2 * c + 2 then 2 * c + 1
      else if cmp (xs ! (2 * c + 1)) (xs ! (2 * c + 2)) < 0 then 2 * c + 1 else 2 * c + 2)"

definition one_exchange :: "('a \<Rightarrow> 'a \<Rightarrow> int) \<Rightarrow> 'a list \<Rightarrow> nat \<Rightarrow> nat \<Rightarrow> 'a list" where
  "one_exchange cmp xs n c =
     (let m = min_child cmp xs n c
      in if n \<le> 2 * c + 1 \<or> le cmp (xs ! c) (xs ! m) then xs else xs[c := xs ! m, m := xs ! c])"

lemma min_child_bounds:
  "2 * c + 1 < n \<Longrightarrow> c < min_child cmp xs n c \<and> min_child cmp xs n c < n"
  by (auto simp: min_child_def)

lemma min_child_le:
  assumes "signed_comparator cmp" and "j = 2 * c + 1 \<or> j = 2 * c + 2" and "j < n"
  shows "le cmp (xs ! min_child cmp xs n c) (xs ! j)"
proof -
  note c = signed_comparator [OF assms(1)]
  show ?thesis
    using assms(2,3) cmp_refl [OF c] cmp_gt [OF c] signed_less [OF assms(1)]
    by (auto simp: min_child_def)
qed

lemma sift_down_unfold:
  assumes "c < n" and "n \<le> length xs"
  shows "bscl_bheap_sift_down cmp xs (int n) (int c) =
    (let m = min_child cmp xs n c
     in if n \<le> 2 * c + 1 \<or> le cmp (xs ! c) (xs ! m) then Some xs
        else bscl_bheap_sift_down cmp (xs[c := xs ! m, m := xs ! c]) (int n) (int c))"
proof -
  have lc: "bscl_bheap_lc (int c) = int (2 * c + 1)" and rc: "bscl_bheap_rc (int c) = int (2 * c + 2)"
    by (simp_all add: bscl_bheap_lc_def bscl_bheap_rc_def)
  show ?thesis
  proof (cases "n \<le> 2 * c + 1")
    case True
    then have "int n \<le> int (2 * c + 1)"
      by (simp only: of_nat_le_iff)
    with True assms(1) show ?thesis
      by (subst bscl_bheap_sift_down.simps) (simp only: lc rc Let_def of_nat_less_iff if_True simp_thms)
  next
    case False
    let ?m = "min_child cmp xs n c"
    have m: "c < ?m" "?m < n"
      using min_child_bounds [of c n] False by auto
    have mn: "(if int n \<le> int (2 * c + 2) then Some (int (2 * c + 1))
        else do { k \<leftarrow> bscl_bheap_compare cmp xs (int (2 * c + 1)) (int (2 * c + 2));
          Some (if k < 0 then int (2 * c + 1) else int (2 * c + 2)) }) = Some (int ?m)"
      using assms(2) False unfolding of_nat_le_iff
      by (auto simp: min_child_def simp del: of_nat_add of_nat_mult of_nat_Suc)
    have "\<not> int n \<le> int (2 * c + 1)"
      using False by (subst of_nat_le_iff)
    then show ?thesis
      using False assms m
      by (subst bscl_bheap_sift_down.simps)
        (simp only: lc rc Let_def mn of_nat_less_iff if_True if_False, simp add: le_def)
  qed
qed

lemma bscl_bheap_sift_down_spec:
  assumes cmp: "signed_comparator cmp" and c: "c < n" and n: "n \<le> length xs"
  shows "bscl_bheap_sift_down cmp xs (int n) (int c) = Some (one_exchange cmp xs n c)"
proof (cases "n \<le> 2 * c + 1 \<or> le cmp (xs ! c) (xs ! min_child cmp xs n c)")
  case True
  then show ?thesis
    using sift_down_unfold [OF c n, of cmp] by (auto simp: Let_def one_exchange_def)
next
  case False
  define m where "m = min_child cmp xs n c"
  define ys where "ys = xs[c := xs ! m, m := xs ! c]"
  have m: "c < m" "m < n" "m = 2 * c + 1 \<or> m = 2 * c + 2"
    using min_child_bounds [of c n cmp xs] False by (auto simp: m_def min_child_def)
  have gt: "le cmp (xs ! m) (xs ! c)"
    using cmp_gt [OF signed_comparator [OF cmp]] False by (auto simp: m_def)
  define m' where "m' = min_child cmp ys n c"
  have m': "m' < n" "m' = 2 * c + 1 \<or> m' = 2 * c + 2" "c \<noteq> m'"
    using min_child_bounds [of c n cmp ys] False by (auto simp: m'_def min_child_def)
  have ysc: "ys ! c = xs ! m"
    using m c n by (simp add: ys_def)
  have ysm: "ys ! m' = (if m' = m then xs ! c else xs ! m')"
    using m m' n by (simp add: ys_def)
  have "le cmp (xs ! m) (ys ! m')"
  proof (cases "m' = m")
    case False
    then show ?thesis
      using min_child_le [OF cmp m'(2,1), of xs] ysm by (simp add: m_def)
  qed (use ysm gt in simp)
  then have "bscl_bheap_sift_down cmp ys (int n) (int c) = Some ys"
    using sift_down_unfold [of c n ys cmp] c n ysc by (simp add: Let_def m'_def ys_def)
  then show ?thesis
    using sift_down_unfold [OF c n, of cmp] False
    by (simp add: Let_def one_exchange_def ys_def m_def)
qed

section \<open>Properties\<close>

text \<open>
  C12: insertion into a full heap returns -1 and changes nothing; otherwise
  \<open>bscl_bheap_insert\<close> returns 0, adds exactly the new value to the items, keeps the heap order
  when it held before, and leaves the store behind the new item as it was.
\<close>

theorem bscl_bheap_insert_keeps_order:
  assumes "signed_comparator cmp" and "bheap_inv h" and "heap_ordered cmp (bheap_items h)"
  shows "if bh_capacity h \<le> bh_size h then bscl_bheap_insert cmp h d = Some (- 1, h)
    else \<exists>h'. bscl_bheap_insert cmp h d = Some (0, h') \<and> bheap_inv h'
      \<and> mset (bheap_items h') = add_mset d (mset (bheap_items h))
      \<and> heap_ordered cmp (bheap_items h')
      \<and> drop (nat (bh_size h')) (bh_store h') = drop (nat (bh_size h')) (bh_store h)"
proof (cases "bh_capacity h \<le> bh_size h")
  case True
  with assms(2) show ?thesis by (simp add: bscl_bheap_insert_def Let_def bheap_inv_def)
next
  case False
  obtain n where n: "bh_size h = int n"
    using assms(2) by (metis bheap_inv_def nonneg_int_cases)
  let ?xs = "bh_store h" and ?ys = "(bh_store h)[n := d]"
  have len: "n < length ?xs"
    using assms(2) False n by (simp add: bheap_inv_def)
  then have "\<forall>i. 0 < i \<and> i < n \<longrightarrow> le cmp (?xs ! ((i - 1) div 2)) (?xs ! i)"
    using assms(3) n by (simp add: bheap_items_def heap_ordered_take)
  then have "heap_except cmp ?ys (Suc n) n"
    by (auto simp: heap_except_def nth_list_update less_Suc_eq)
  with bscl_bheap_sift_up_spec [OF assms(1), of n "Suc n" ?ys] len obtain zs where zs:
    "bscl_bheap_sift_up cmp ?ys (int n) = Some zs" "mset zs = mset ?ys"
    "drop (Suc n) zs = drop (Suc n) ?ys" "heap_ordered cmp (take (Suc n) zs)"
    by auto
  have "mset (take (Suc n) zs) + mset (drop (Suc n) zs) = mset (take (Suc n) ?ys) + mset (drop (Suc n) ?ys)"
    using zs(2) by (metis append_take_drop_id mset_append)
  then have "mset (take (Suc n) zs) = mset (take (Suc n) ?ys)"
    using zs(3) by simp
  also have "\<dots> = add_mset d (mset (take n ?xs))"
    using len by (simp add: take_Suc_conv_app_nth)
  finally have "mset (take (Suc n) zs) = add_mset d (mset (take n ?xs))" .
  moreover have "length zs = length ?xs"
    using zs(2) by (metis length_list_update mset_eq_length)
  moreover have "bscl_bheap_insert cmp h d = Some (0, h\<lparr>bh_store := zs, bh_size := int n + 1\<rparr>)"
    using False assms(2) len zs(1) n
    by (simp add: bscl_bheap_insert_def Let_def bscl_bheap_put_def bheap_inv_def)
  moreover have "nat (int n + 1) = Suc n" by simp
  ultimately show ?thesis
    using False assms(2) zs n by (auto simp: bheap_inv_def bheap_items_def)
qed

lemma bscl_bheap_insert_keeps_order_witness:
  "\<exists>h'. bscl_bheap_insert (\<lambda>a b. a - b) \<lparr>bh_store = [2, 5, 3, 0 :: int], bh_capacity = 4, bh_size = 3, bh_vptr = True\<rparr> 1
     = Some (0, h') \<and> heap_ordered (\<lambda>a b. a - b) (bheap_items h')"
proof -
  let ?h = "\<lparr>bh_store = [2, 5, 3, 0 :: int], bh_capacity = 4, bh_size = 3, bh_vptr = True\<rparr>"
  have "bheap_inv ?h" and "heap_ordered (\<lambda>a b. a - b) (bheap_items ?h)"
    by (auto simp: bheap_inv_def bheap_items_def heap_ordered_def le_def less_Suc_eq numeral_eq_Suc)
  from bscl_bheap_insert_keeps_order [OF signed_int this, of 1] show ?thesis
    by auto
qed

text \<open>
  Removing item \<open>n\<close> that is not the last exchanges it with the last one, shortens the heap
  and then makes at most one exchange with the smaller child; removing the last or a position
  behind it only shortens the heap or does nothing.
\<close>

lemma bscl_bheap_remove_one_exchange:
  assumes "signed_comparator cmp" and "bheap_inv h" and "0 \<le> n"
  shows "bscl_bheap_remove cmp h n =
    (let l = nat (bh_size h) - 1; xs = bh_store h; k = nat n
     in Some (if bh_size h \<le> n then h
         else if k = l then h\<lparr>bh_size := bh_size h - 1\<rparr>
         else h\<lparr>bh_store := one_exchange cmp (xs[k := xs ! l, l := xs ! k]) l k,
                bh_size := bh_size h - 1\<rparr>))"
proof -
  obtain k where k: "n = int k"
    using assms(3) by (metis nonneg_int_cases)
  obtain z where z: "bh_size h = int z"
    using assms(2) by (metis bheap_inv_def nonneg_int_cases)
  have len: "z \<le> length (bh_store h)"
    using assms(2) z by (simp add: bheap_inv_def)
  consider "z \<le> k" | "k = z - 1" "k < z" | "k < z - 1"
    by linarith
  then show ?thesis
  proof cases
    case 3
    let ?xs = "(bh_store h)[k := bh_store h ! (z - 1), z - 1 := bh_store h ! k]"
    have "bscl_bheap_swap (bh_store h) (int k) (int (z - 1)) = Some ?xs"
      using 3 len by (intro bscl_bheap_swap_int) simp_all
    moreover have "bscl_bheap_sift_down cmp ?xs (int (z - 1)) (int k) = Some (one_exchange cmp ?xs (z - 1) k)"
      using 3 len by (intro bscl_bheap_sift_down_spec [OF assms(1)]) simp_all
    moreover have "int z - 1 = int (z - 1)"
      using 3 by simp
    ultimately show ?thesis
      using 3 assms(2) by (simp add: bscl_bheap_remove_def Let_def k z bheap_inv_def del: of_nat_diff)
  qed (auto simp: bscl_bheap_remove_def Let_def k z)
qed

lemma bscl_bheap_remove_one_exchange_witness:
  "bscl_bheap_remove (\<lambda>a b. a - b) \<lparr>bh_store = [1, 2, 3 :: int], bh_capacity = 3, bh_size = 3, bh_vptr = True\<rparr> 0
   = Some \<lparr>bh_store = [2, 3, 1], bh_capacity = 3, bh_size = 2, bh_vptr = True\<rparr>"
  using bscl_bheap_remove_one_exchange [OF signed_int,
    of "\<lparr>bh_store = [1, 2, 3 :: int], bh_capacity = 3, bh_size = 3, bh_vptr = True\<rparr>" 0]
  by (simp add: bheap_inv_def one_exchange_def min_child_def le_def Let_def)

text \<open>\<open>bscl_bheapity\<close> makes one such exchange per inner position, from the last to the first.\<close>

lemma bheapity_loop_spec:
  assumes "signed_comparator cmp"
  shows "k \<le> n \<Longrightarrow> n \<le> length xs \<Longrightarrow> bheapity_loop cmp xs (int n) k
    = Some (fold (\<lambda>c xs. one_exchange cmp xs n c) (rev [0..<k]) xs)"
proof (induction k arbitrary: xs)
  case 0
  then show ?case by simp
next
  case (Suc k)
  have "length (one_exchange cmp xs n k) = length xs"
    by (simp add: one_exchange_def Let_def)
  with Suc show ?case
    by (simp add: bscl_bheap_sift_down_spec [OF assms])
qed

text \<open>After \<open>deinit\<close> a heap refuses positions to remove, and every insertion is an access through a null pointer.\<close>

lemma bscl_bheap_deinit_dead:
  "bscl_bheap_insert cmp (bscl_bheap_deinit h) d = None"
  "0 \<le> n \<Longrightarrow> bscl_bheap_remove cmp (bscl_bheap_deinit h) n = Some (bscl_bheap_deinit h)"
  by (simp_all add: bscl_bheap_insert_def bscl_bheap_remove_def bscl_bheap_deinit_def)

text \<open>
  One exchange is not enough: there is an array that \<open>bscl_bheap_init\<close> leaves unordered,
  and a heap in order from which removing the root leaves a heap out of order (the sifted value
  moves down one level only, because the loop never moves \<open>c\<close>).
\<close>

lemma bscl_bheap_order_lost:
  "(\<exists>h. bscl_bheap_init (\<lambda>a b. a - b) [7, 1, 2, 3, 4, 5, 6 :: int] 7 7 = Some (0, h)
      \<and> \<not> heap_ordered (\<lambda>a b. a - b) (bheap_items h))
   \<and> (\<exists>h h'. heap_ordered (\<lambda>a b :: int. a - b) (bheap_items h) \<and> bheap_inv h
      \<and> bscl_bheap_remove (\<lambda>a b. a - b) h 0 = Some h'
      \<and> \<not> heap_ordered (\<lambda>a b. a - b) (bheap_items h'))"
proof
  have "bheapity_loop (\<lambda>a b. a - b) [7, 1, 2, 3, 4, 5, 6 :: int] (int 7) 3
      = Some [1, 7, 2, 3, 4, 5, 6]"
    by (subst bheapity_loop_spec [OF signed_int])
      (simp_all add: upt_rec one_exchange_def min_child_def le_def)
  then have "bscl_bheap_init (\<lambda>a b. a - b) [7, 1, 2, 3, 4, 5, 6 :: int] 7 7
      = Some (0, \<lparr>bh_store = [1, 7, 2, 3, 4, 5, 6], bh_capacity = 7, bh_size = 7, bh_vptr = True\<rparr>)"
    by (simp add: bscl_bheap_init_def bscl_bheapity_def bscl_bheap_p_def)
  moreover have "\<not> heap_ordered (\<lambda>a b. a - b) [1, 7, 2, 3, 4, 5, 6 :: int]"
    unfolding heap_ordered_def by (intro notI) (drule spec [of _ 3], simp add: le_def)
  ultimately show "\<exists>h. bscl_bheap_init (\<lambda>a b. a - b) [7, 1, 2, 3, 4, 5, 6 :: int] 7 7 = Some (0, h)
      \<and> \<not> heap_ordered (\<lambda>a b. a - b) (bheap_items h)"
    by (simp add: bheap_items_def)
next
  let ?h = "\<lparr>bh_store = [1, 2, 3, 4, 5, 6, 7 :: int], bh_capacity = 7, bh_size = 7, bh_vptr = True\<rparr>"
  let ?xs = "[7, 2, 3, 4, 5, 6, 1 :: int]"
  have "heap_ordered (\<lambda>a b. a - b) (bheap_items ?h)" and inv: "bheap_inv ?h"
    by (simp_all add: bheap_items_def bheap_inv_def heap_ordered_code le_def upt_rec)
  moreover have "bscl_bheap_sift_down (\<lambda>a b. a - b) ?xs (int 6) (int 0) = Some [2, 7, 3, 4, 5, 6, 1]"
    by (subst bscl_bheap_sift_down_spec [OF signed_int])
      (simp_all add: one_exchange_def min_child_def le_def)
  then have "bscl_bheap_remove (\<lambda>a b. a - b) ?h 0
      = Some (?h\<lparr>bh_store := [2, 7, 3, 4, 5, 6, 1], bh_size := 6\<rparr>)"
    by (simp add: bscl_bheap_remove_def bscl_bheap_swap_def store_get_def)
  moreover have "\<not> heap_ordered (\<lambda>a b. a - b) [2, 7, 3, 4, 5, 6 :: int]"
    unfolding heap_ordered_def by (intro notI) (drule spec [of _ 3], simp add: le_def)
  ultimately show "\<exists>h h'. heap_ordered (\<lambda>a b :: int. a - b) (bheap_items h) \<and> bheap_inv h
      \<and> bscl_bheap_remove (\<lambda>a b. a - b) h 0 = Some h'
      \<and> \<not> heap_ordered (\<lambda>a b. a - b) (bheap_items h')"
    by (intro exI [of _ ?h] exI [of _ "?h\<lparr>bh_store := [2, 7, 3, 4, 5, 6, 1], bh_size := 6\<rparr>"])
      (simp add: bheap_items_def)
qed

end
