(* ===== verification/Vector.thy ===== *)
theory Vector
  imports Prelude
begin

text \<open>
  The growing array of \<open>src/bscl_vector.c\<close> and its header: \<open>capacity * type_size\<close> bytes, of which
  the first \<open>size * type_size\<close> hold elements. Sizes are \<open>size_t\<close>, 64 bits, and wrap.

  \<open>fresh n\<close> stands for \<open>malloc(n)\<close>: no memory, or \<open>n\<close> bytes with arbitrary contents. A failed
  assertion, \<open>exit\<close> and \<open>bscl_abort\<close> do not return.
\<close>

section \<open>The code\<close>

record bscl_vector_t =
  v_data :: "u8 list"
  type_size :: u64
  v_capacity :: u64
  v_size :: u64

type_synonym malloc = "nat \<Rightarrow> u8 list option"

definition realloc :: "malloc \<Rightarrow> u8 list \<Rightarrow> nat \<Rightarrow> u8 list option" where
  "realloc fresh old n = do { m \<leftarrow> fresh n; Some (take n old @ drop (length old) m) }"

text \<open>\<open>memmove\<close> inside one memory.\<close>

definition mem_move :: "u8 list \<Rightarrow> nat \<Rightarrow> nat \<Rightarrow> nat \<Rightarrow> u8 list option" where
  "mem_move m dst src n = do { xs \<leftarrow> mem_read m src n; mem_write m dst xs }"

partial_function (option) vector_top_bit :: "u64 \<Rightarrow> u64 \<Rightarrow> u64 option" where
  "vector_top_bit capacity initial_size =
     (if capacity \<noteq> 1 \<and> capacity AND initial_size = 0
      then vector_top_bit (shr capacity 1) initial_size else Some capacity)"

declare vector_top_bit.simps [code]

definition vector_initial_capacity :: "u64 \<Rightarrow> u64 option" where
  "vector_initial_capacity initial_size =
     (if initial_size = 0 then Some 1
      else do {
        capacity \<leftarrow> vector_top_bit (shl 1 63) initial_size;
        Some (shl capacity 1)
      })"

fun vector_fill :: "u8 list \<Rightarrow> nat \<Rightarrow> nat \<Rightarrow> u8 list \<Rightarrow> nat \<Rightarrow> u8 list option" where
  "vector_fill m i 0 v ts = Some m"
| "vector_fill m i (Suc n) v ts = do {
     xs \<leftarrow> mem_read v 0 ts;
     m \<leftarrow> mem_write m (i * ts) xs;
     vector_fill m (i + 1) n v ts
   }"

text \<open>
  The inner \<open>None\<close> is the null pointer; \<open>head_ok\<close> says whether the header could be allocated.
\<close>

definition bscl_vector_new ::
    "bool \<Rightarrow> malloc \<Rightarrow> u64 \<Rightarrow> u8 list option \<Rightarrow> u64 \<Rightarrow> bscl_vector_t option option" where
  "bscl_vector_new head_ok fresh initial_size initial_value ts = do {
     guard (ts \<noteq> 0);
     guard (initial_size = 0 \<or> initial_value \<noteq> None);
     if \<not> head_ok then Some None
     else do {
       capacity \<leftarrow> vector_initial_capacity initial_size;
       case fresh (unat (capacity * ts)) of
         None \<Rightarrow> Some None
       | Some m \<Rightarrow> do {
           m \<leftarrow> vector_fill m 0 (unat initial_size)
             (case initial_value of None \<Rightarrow> [] | Some v \<Rightarrow> v) (unat ts);
           Some (Some \<lparr>v_data = m, type_size = ts, v_capacity = capacity, v_size = initial_size\<rparr>)
         }
     }
   }"

definition bscl_vector_capacity :: "bscl_vector_t \<Rightarrow> u64" where
  "bscl_vector_capacity this = v_capacity this"

definition bscl_vector_size :: "bscl_vector_t \<Rightarrow> u64" where
  "bscl_vector_size this = v_size this"

text \<open>The element at the returned pointer.\<close>

definition bscl_vector_at :: "bscl_vector_t \<Rightarrow> u64 \<Rightarrow> u8 list option" where
  "bscl_vector_at this index = do {
     guard (index < v_size this);
     mem_read (v_data this) (unat (index * type_size this)) (unat (type_size this))
   }"

definition bscl_vector_set :: "bscl_vector_t \<Rightarrow> u64 \<Rightarrow> u64 \<Rightarrow> u8 list \<Rightarrow> bscl_vector_t option" where
  "bscl_vector_set this start count data = do {
     guard (count \<noteq> 0);
     guard (start + count \<le> v_size this);
     xs \<leftarrow> mem_read data 0 (unat (type_size this * count));
     m \<leftarrow> mem_write (v_data this) (unat (start * type_size this)) xs;
     Some (this\<lparr>v_data := m\<rparr>)
   }"

partial_function (option) vector_grow :: "u64 \<Rightarrow> u64 \<Rightarrow> u64 option" where
  "vector_grow need capacity =
     (if capacity < need then vector_grow need (shl capacity 1) else Some capacity)"

declare vector_grow.simps [code]

definition bscl_vector_insert ::
    "malloc \<Rightarrow> bscl_vector_t \<Rightarrow> u64 \<Rightarrow> u64 \<Rightarrow> u8 list \<Rightarrow> bscl_vector_t option" where
  "bscl_vector_insert fresh this index count data = do {
     guard (count \<noteq> 0);
     guard (index \<le> v_size this);
     this \<leftarrow> (if v_capacity this < v_size this + count then do {
         capacity \<leftarrow> vector_grow (v_size this + count) (v_capacity this);
         m \<leftarrow> realloc fresh (v_data this) (unat (capacity * type_size this));
         Some (this\<lparr>v_capacity := capacity, v_data := m\<rparr>)
       } else Some this);
     guard (index + count \<le> v_capacity this);
     m \<leftarrow> mem_move (v_data this) (unat ((index + count) * type_size this))
       (unat (index * type_size this)) (unat ((v_size this - index) * type_size this));
     xs \<leftarrow> mem_read data 0 (unat (count * type_size this));
     m \<leftarrow> mem_write m (unat (index * type_size this)) xs;
     Some (this\<lparr>v_data := m, v_size := v_size this + count\<rparr>)
   }"

definition bscl_vector_remove ::
    "malloc \<Rightarrow> bscl_vector_t \<Rightarrow> u64 \<Rightarrow> u64 \<Rightarrow> bscl_vector_t option" where
  "bscl_vector_remove fresh this index count = do {
     guard (count \<noteq> 0);
     guard (index + count \<le> v_size this);
     m \<leftarrow> mem_move (v_data this) (unat (index * type_size this))
       (unat ((index + count) * type_size this))
       (unat ((v_size this - index - count) * type_size this));
     let this = this\<lparr>v_data := m, v_size := v_size this - count\<rparr>;
     if v_size this < shr (v_capacity this) 1 then do {
       let capacity = shr (v_capacity this) 1;
       m \<leftarrow> realloc fresh (v_data this) (unat (capacity * type_size this));
       Some (this\<lparr>v_capacity := capacity, v_data := m\<rparr>)
     } else Some this
   }"

text \<open>What the pointer of the caller points to, \<open>None\<close> for the null pointer and for memory that was freed.\<close>

definition bscl_vector_delete :: "bscl_vector_t option \<Rightarrow> bscl_vector_t option option" where
  "bscl_vector_delete this = do { guard (this \<noteq> None); Some None }"

section \<open>Invariant and contents\<close>

definition vector_inv :: "bscl_vector_t \<Rightarrow> bool" where
  "vector_inv v \<longleftrightarrow> 0 < unat (type_size v) \<and> (\<exists>k. unat (v_capacity v) = 2 ^ k)
     \<and> unat (v_size v) \<le> unat (v_capacity v)
     \<and> length (v_data v) = unat (v_capacity v) * unat (type_size v)
     \<and> length (v_data v) < 2 ^ 64"

definition vector_bytes :: "bscl_vector_t \<Rightarrow> u8 list" where
  "vector_bytes v = take (unat (v_size v) * unat (type_size v)) (v_data v)"

definition malloc_ok :: "malloc \<Rightarrow> bool" where
  "malloc_ok fresh \<longleftrightarrow> (\<forall>n m. fresh n = Some m \<longrightarrow> length m = n)"

lemma unat_mult_small:
  fixes x y :: "'a::len word"
  shows "unat x * unat y < 2 ^ LENGTH('a) \<Longrightarrow> unat (x * y) = unat x * unat y"
  by (simp add: unat_word_ariths)

lemma realloc_spec:
  assumes "malloc_ok fresh" and "realloc fresh old n = Some m"
  shows "length m = n" and "k \<le> n \<Longrightarrow> k \<le> length old \<Longrightarrow> take k m = take k old"
  using assms by (auto simp: realloc_def malloc_ok_def min_def split: Option.bind_splits)

text \<open>Doubling stops at a power of two below twice the need.\<close>

lemma vector_grow_spec:
  "unat cap = 2 ^ k \<Longrightarrow> 2 * unat need < 2 ^ 64 \<Longrightarrow> unat cap \<le> 2 * unat need \<Longrightarrow>
    \<exists>cap' k'. vector_grow need cap = Some cap' \<and> unat cap' = 2 ^ k' \<and> need \<le> cap'
      \<and> unat cap' \<le> 2 * unat need"
proof (induction "unat need - unat cap" arbitrary: cap k rule: less_induct)
  case less
  show ?case
  proof (cases "cap < need")
    case True
    then have lt: "unat cap < unat need"
      by (simp add: word_less_nat_alt)
    have dbl: "unat (shl cap 1) = 2 * unat cap"
      using lt less.prems(2) by (simp add: unat_word_ariths)
    then have "unat (shl cap 1) = 2 ^ Suc k"
      using less.prems(1) by simp
    moreover have "unat need - unat (shl cap 1) < unat need - unat cap"
    proof -
      have "0 < unat cap"
        using less.prems(1) by simp
      then show ?thesis
        using lt unfolding dbl by linarith
    qed
    moreover have "unat (shl cap 1) \<le> 2 * unat need"
      using lt unfolding dbl by simp
    ultimately obtain cap' k' where "vector_grow need (shl cap 1) = Some cap'" "unat cap' = 2 ^ k'"
      "need \<le> cap'" "unat cap' \<le> 2 * unat need"
      using less.hyps [of "shl cap 1" "Suc k"] less.prems(2) by blast
    then show ?thesis
      using True by (subst vector_grow.simps) auto
  next
    case False
    then show ?thesis
      using less.prems by (subst vector_grow.simps) auto
  qed
qed

text \<open>Making room for \<open>xs\<close> at \<open>a\<close> in the first \<open>b\<close> bytes, and closing a gap.\<close>

lemma insert_bytes:
  assumes "a \<le> b" and "b + length xs \<le> length m"
  shows "\<exists>m1 m2. mem_move m (a + length xs) a (b - a) = Some m1 \<and> mem_write m1 a xs = Some m2
    \<and> length m2 = length m \<and> take (b + length xs) m2 = take a m @ xs @ drop a (take b m)"
proof -
  let ?n = "length xs"
  let ?m1 = "take (a + ?n) m @ take (b - a) (drop a m) @ drop (b + ?n) m"
  have move: "mem_move m (a + ?n) a (b - a) = Some ?m1"
    using assms by (simp add: mem_move_def mem_read_def mem_write_def add.commute)
  have l1: "length ?m1 = length m"
    using assms by simp
  let ?m2 = "take a m @ xs @ take (b - a) (drop a m) @ drop (b + ?n) m"
  have "take a ?m1 = take a m"
    using assms by (simp add: min_absorb1)
  moreover have "drop (a + ?n) ?m1 = take (b - a) (drop a m) @ drop (b + ?n) m"
    using assms by simp
  moreover have "a + ?n \<le> length ?m1"
    unfolding l1 using assms by simp
  ultimately have "mem_write ?m1 a xs = Some ?m2"
    by (simp only: mem_write_def if_True append_assoc)
  moreover have "length ?m2 = length m"
    using assms by simp
  moreover have "take (b + ?n) ?m2 = take a m @ xs @ drop a (take b m)"
    using assms by (simp add: drop_take)
  ultimately show ?thesis
    using move by blast
qed

lemma remove_bytes:
  assumes "a + n \<le> b" and "b \<le> length m"
  shows "\<exists>m'. mem_move m a (a + n) (b - a - n) = Some m' \<and> length m' = length m
    \<and> take (b - n) m' = take a m @ drop (a + n) (take b m)"
proof -
  let ?m' = "take a m @ take (b - a - n) (drop (a + n) m) @ drop (b - n) m"
  have "a + (b - a - n) = b - n"
    using assms by simp
  then have "mem_move m a (a + n) (b - a - n) = Some ?m'"
    using assms by (simp add: mem_move_def mem_read_def mem_write_def)
  moreover have "length ?m' = length m"
    using assms by simp
  moreover have "take (b - n) ?m' = take a m @ drop (a + n) (take b m)"
    using assms by (simp add: drop_take min_absorb1 add.commute)
  ultimately show ?thesis by blast
qed

lemma vector_inv_fits:
  assumes "vector_inv v" and "n \<le> unat (v_capacity v)"
  shows "n * unat (type_size v) < 2 ^ 64"
proof -
  have "n * unat (type_size v) \<le> unat (v_capacity v) * unat (type_size v)"
    using assms(2) by simp
  also have "\<dots> < 2 ^ 64"
    using assms(1) unfolding vector_inv_def by metis
  finally show ?thesis .
qed

text \<open>The first step of an insertion: room for \<open>need\<close> elements.\<close>

lemma vector_make_room:
  assumes inv: "vector_inv v" and ok: "malloc_ok fresh" and mem: "\<And>n. fresh n \<noteq> None"
    and size: "v_size v \<le> need" and lim: "2 * unat need * unat (type_size v) < 2 ^ 64"
    and pos: "need \<noteq> 0"
  shows "\<exists>v'. (if v_capacity v < need then do {
         capacity \<leftarrow> vector_grow need (v_capacity v);
         m \<leftarrow> realloc fresh (v_data v) (unat (capacity * type_size v));
         Some (v\<lparr>v_capacity := capacity, v_data := m\<rparr>)
       } else Some v) = Some v'
    \<and> vector_inv v' \<and> need \<le> v_capacity v' \<and> v_size v' = v_size v \<and> type_size v' = type_size v
    \<and> vector_bytes v' = vector_bytes v"
proof (cases "v_capacity v < need")
  case False
  then show ?thesis using inv by auto
next
  case True
  obtain k where k: "unat (v_capacity v) = 2 ^ k" and t: "0 < unat (type_size v)"
    and len: "length (v_data v) = unat (v_capacity v) * unat (type_size v)"
    and sz: "unat (v_size v) \<le> unat (v_capacity v)"
    using inv by (auto simp: vector_inv_def)
  have "2 * unat need \<le> 2 * unat need * unat (type_size v)"
    using t by simp
  then have "2 * unat need < 2 ^ 64"
    using lim by linarith
  moreover have lt: "unat (v_capacity v) < unat need"
    using True by (simp add: word_less_nat_alt)
  ultimately obtain cap k' where cap: "vector_grow need (v_capacity v) = Some cap"
    "unat cap = 2 ^ k'" "need \<le> cap" "unat cap \<le> 2 * unat need"
    using vector_grow_spec [OF k, of need] by auto
  have "unat cap * unat (type_size v) \<le> 2 * unat need * unat (type_size v)"
    using cap(4) by simp
  then have small: "unat cap * unat (type_size v) < 2 ^ 64"
    using lim by linarith
  then have mult: "unat (cap * type_size v) = unat cap * unat (type_size v)"
    by (simp add: unat_mult_small)
  obtain m where m: "realloc fresh (v_data v) (unat cap * unat (type_size v)) = Some m"
    using mem [of "unat cap * unat (type_size v)"] by (auto simp: realloc_def)
  let ?v = "v\<lparr>v_capacity := cap, v_data := m\<rparr>"
  have lm: "length m = unat cap * unat (type_size v)"
    by (rule realloc_spec(1) [OF ok m])
  have "unat (v_capacity v) \<le> unat cap"
    using lt cap(3) by (simp add: word_le_nat_alt)
  then have "unat (v_size v) * unat (type_size v) \<le> unat cap * unat (type_size v)"
    and "unat (v_size v) * unat (type_size v) \<le> length (v_data v)"
    using sz by (simp_all add: len)
  then have "vector_bytes ?v = vector_bytes v"
    using realloc_spec(2) [OF ok m] by (simp add: vector_bytes_def)
  moreover have "vector_inv ?v"
    using t cap(2) lm small sz \<open>unat (v_capacity v) \<le> unat cap\<close> by (auto simp: vector_inv_def)
  ultimately show ?thesis
    using True cap m mult by auto
qed

lemma insert_offsets:
  assumes le_s: "i \<le> s" and t: "0 < t" and sct: "(s + c) * t < 2 ^ 64"
    and names: "unat (n :: u64) = s" "unat (count :: u64) = c" "unat (index :: u64) = i" "unat (ts :: u64) = t"
  shows "unat (n + count) = s + c" "unat (index + count) = i + c"
    "unat (index * ts) = i * t" "unat ((index + count) * ts) = (i + c) * t"
    "unat (count * ts) = c * t" "unat ((n - index) * ts) = (s - i) * t"
proof -
  have fit: "m * t < 2 ^ 64" if "m \<le> s + c" for m
    using mult_le_mono1 [OF that, of t] sct by linarith
  have "s + c \<le> (s + c) * t"
    using t by simp
  then have sc: "s + c < 2 ^ 64"
    using sct by linarith
  show "unat (n + count) = s + c" and ic: "unat (index + count) = i + c"
    using sc le_s names by (simp_all add: unat_plus_small)
  show "unat (index * ts) = i * t" "unat ((index + count) * ts) = (i + c) * t" "unat (count * ts) = c * t"
    using fit [of i] fit [of "i + c"] fit [of c] ic le_s names by (simp_all add: unat_mult_small)
  have "unat (n - index) = s - i"
    using le_s names by (simp add: unat_minus_le word_le_nat_alt)
  then show "unat ((n - index) * ts) = (s - i) * t"
    using fit [of "s - i"] names by (simp add: unat_mult_small)
qed

lemma vector_shrink:
  assumes inv: "vector_inv v" and ok: "malloc_ok fresh" and mem: "\<And>n. fresh n \<noteq> None"
    and small: "v_size v < hc" and hc: "hc = shr (v_capacity v) 1"
  shows "\<exists>d. realloc fresh (v_data v) (unat (hc * type_size v)) = Some d
    \<and> vector_inv (v\<lparr>v_capacity := hc, v_data := d\<rparr>)
    \<and> vector_bytes (v\<lparr>v_capacity := hc, v_data := d\<rparr>) = vector_bytes v"
proof -
  let ?t = "unat (type_size v)" and ?s = "unat (v_size v)"
  have half: "unat hc = unat (v_capacity v) div 2"
    by (simp add: hc unat_div drop_bit_eq_div)
  have lt: "?s < unat hc"
    using small by (simp add: word_less_nat_alt)
  have le: "unat hc \<le> unat (v_capacity v)"
    by (simp add: half)
  have fits: "unat hc * ?t < 2 ^ 64"
    by (rule vector_inv_fits [OF inv le])
  then have mult: "unat (hc * type_size v) = unat hc * ?t"
    by (simp add: unat_mult_small)
  obtain d where d: "realloc fresh (v_data v) (unat hc * ?t) = Some d"
    using mem [of "unat hc * ?t"] by (auto simp: realloc_def)
  obtain k where k: "unat (v_capacity v) = 2 ^ k"
    using inv by (auto simp: vector_inv_def)
  with lt half have "unat hc = 2 ^ (k - 1)"
    by (cases k) simp_all
  moreover have "?s * ?t \<le> unat hc * ?t" "?s * ?t \<le> length (v_data v)"
    using lt le inv by (auto simp: vector_inv_def intro!: mult_le_mono1)
  then have "take (?s * ?t) d = take (?s * ?t) (v_data v)"
    by (rule realloc_spec(2) [OF ok d])
  ultimately show ?thesis
    using d mult fits lt realloc_spec(1) [OF ok d] inv
    by (auto simp: vector_inv_def vector_bytes_def)
qed

lemma bscl_vector_insert_spec:
  assumes inv: "vector_inv v" and ok: "malloc_ok fresh" and mem: "\<And>n. fresh n \<noteq> None"
    and idx: "index \<le> v_size v" and cnt: "count \<noteq> 0"
    and lim: "2 * (s + c) * t < 2 ^ 64" and data: "c * t \<le> length data"
    and names: "unat (v_size v) = s" "unat count = c" "unat index = i" "unat (type_size v) = t"
  shows "\<exists>v'. bscl_vector_insert fresh v index count data = Some v' \<and> vector_inv v'
    \<and> unat (v_size v') = s + c \<and> type_size v' = type_size v
    \<and> vector_bytes v' = take (i * t) (vector_bytes v) @ take (c * t) data @ drop (i * t) (vector_bytes v)"
proof -
  have t: "0 < t"
    using inv names by (simp add: vector_inv_def)
  have le_s: "i \<le> s"
    using idx names by (simp add: word_le_nat_alt)
  have "(s + c) * t \<le> 2 * (s + c) * t"
    by simp
  then have sct: "(s + c) * t < 2 ^ 64"
    using lim by linarith
  note off = insert_offsets [OF le_s t sct names]
  note need = off(1)
  have "v_size v \<le> v_size v + count" and "v_size v + count \<noteq> 0"
    using need cnt names by (auto simp: word_le_nat_alt unat_eq_zero)
  with lim need names obtain v1 where v1: "(if v_capacity v < v_size v + count then do {
         capacity \<leftarrow> vector_grow (v_size v + count) (v_capacity v);
         m \<leftarrow> realloc fresh (v_data v) (unat (capacity * type_size v));
         Some (v\<lparr>v_capacity := capacity, v_data := m\<rparr>)
       } else Some v) = Some v1" "vector_inv v1" "v_size v + count \<le> v_capacity v1"
    "v_size v1 = v_size v" "type_size v1 = type_size v" "vector_bytes v1 = vector_bytes v"
    using vector_make_room [OF inv ok mem, of "v_size v + count"] by auto
  have cap: "s + c \<le> unat (v_capacity v1)"
    using v1(3) need by (simp add: word_le_nat_alt)
  let ?xs = "take (c * t) data" and ?m = "v_data v1"
  have lx: "length ?xs = c * t"
    using data by simp
  have lm: "length ?m = unat (v_capacity v1) * t"
    using v1(2,5) names by (simp add: vector_inv_def)
  have "(s + c) * t \<le> unat (v_capacity v1) * t"
    using cap by simp
  then have "i * t \<le> s * t" "s * t + length ?xs \<le> length ?m"
    using le_s lx lm by (simp_all add: add_mult_distrib)
  from insert_bytes [OF this] obtain m1' m2' where mm:
    "mem_move ?m (i * t + c * t) (i * t) (s * t - i * t) = Some m1'"
    "mem_write m1' (i * t) ?xs = Some m2'" "length m2' = length ?m"
    "take (s * t + c * t) m2' = take (i * t) ?m @ ?xs @ drop (i * t) (take (s * t) ?m)"
    unfolding lx by blast
  have read: "mem_read data 0 (c * t) = Some ?xs"
    using data by (simp add: mem_read_def)
  have "index + count \<le> v_capacity v1"
    using off(2) le_s cap by (simp add: word_le_nat_alt)
  then have "bscl_vector_insert fresh v index count data
      = Some (v1\<lparr>v_data := m2', v_size := v_size v + count\<rparr>)"
    using cnt idx v1(4,5) mm(1,2) read
    by (simp add: bscl_vector_insert_def v1(1) off(3-6) add_mult_distrib diff_mult_distrib)
  moreover have "vector_inv (v1\<lparr>v_data := m2', v_size := v_size v + count\<rparr>)"
    using v1(2,5) mm(3) cap need by (simp add: vector_inv_def)
  moreover have "take (s * t) ?m = vector_bytes v"
    using v1(4-6) names by (simp add: vector_bytes_def)
  moreover from this have "take (i * t) ?m = take (i * t) (vector_bytes v)"
    using le_s by (metis min_absorb1 mult_le_mono1 take_take)
  ultimately show ?thesis
    using mm(4) need v1(5) names by (simp add: vector_bytes_def add_mult_distrib)
qed

lemma bscl_vector_remove_spec:
  assumes inv: "vector_inv v" and ok: "malloc_ok fresh" and mem: "\<And>n. fresh n \<noteq> None"
    and cnt: "count \<noteq> 0" and fits: "i + c \<le> s"
    and names: "unat (v_size v) = s" "unat count = c" "unat index = i" "unat (type_size v) = t"
  shows "\<exists>v'. bscl_vector_remove fresh v index count = Some v' \<and> vector_inv v'
    \<and> unat (v_size v') = s - c \<and> type_size v' = type_size v
    \<and> vector_bytes v' = take (i * t) (vector_bytes v) @ drop ((i + c) * t) (vector_bytes v)"
proof -
  have t: "0 < t" and len: "length (v_data v) = unat (v_capacity v) * t"
    and cap: "s \<le> unat (v_capacity v)"
    using inv names by (simp_all add: vector_inv_def)
  have s64: "s < 2 ^ 64"
    using names(1) by auto
  have uic: "unat (index + count) = i + c"
    using fits names s64 by (simp add: unat_plus_small)
  have sub: "unat (v_size v - index) = s - i" "unat (v_size v - index - count) = s - i - c"
    "unat (v_size v - count) = s - c"
    using fits names by (simp_all add: unat_minus_le word_le_nat_alt)
  have fit: "n * t < 2 ^ 64" if "n \<le> s" for n
    using vector_inv_fits [OF inv, of n] that cap names by simp
  have m: "unat (index * type_size v) = i * t" "unat ((index + count) * type_size v) = (i + c) * t"
    "unat ((v_size v - index - count) * type_size v) = (s - i - c) * t"
    using fit [of i] fit [of "i + c"] fit [of "s - i - c"] fits names uic sub
    by (simp_all add: unat_mult_small)
  have "i * t + c * t \<le> s * t"
    using fits by (simp flip: add_mult_distrib)
  moreover have "s * t \<le> length (v_data v)"
    using cap len by simp
  ultimately obtain m' where m': "mem_move (v_data v) (i * t) (i * t + c * t) (s * t - i * t - c * t) = Some m'"
    "length m' = length (v_data v)"
    "take (s * t - c * t) m' = take (i * t) (v_data v) @ drop (i * t + c * t) (take (s * t) (v_data v))"
    using remove_bytes by blast
  let ?v = "v\<lparr>v_data := m', v_size := v_size v - count\<rparr>"
  have bytes: "vector_bytes ?v = take (i * t) (vector_bytes v) @ drop ((i + c) * t) (vector_bytes v)"
    using m'(3) fits names sub(3)
    by (simp add: vector_bytes_def diff_mult_distrib add_mult_distrib min_def)
  have inv': "vector_inv ?v"
    using inv m'(2) cap sub(3) by (auto simp: vector_inv_def)
  have guards: "index + count \<le> v_size v"
    using uic fits names by (simp add: word_le_nat_alt)
  show ?thesis
  proof (cases "v_size v - count < shr (v_capacity v) 1")
    case False
    then have "bscl_vector_remove fresh v index count = Some ?v"
      using cnt guards m m'(1)
      by (simp add: bscl_vector_remove_def Let_def diff_mult_distrib add_mult_distrib)
    then show ?thesis
      using inv' bytes sub(3) by auto
  next
    case True
    then obtain d where d:
      "realloc fresh m' (unat (shr (v_capacity v) 1 * type_size v)) = Some d"
      "vector_inv (?v\<lparr>v_capacity := shr (v_capacity v) 1, v_data := d\<rparr>)"
      "vector_bytes (?v\<lparr>v_capacity := shr (v_capacity v) 1, v_data := d\<rparr>) = vector_bytes ?v"
      using vector_shrink [OF inv' ok mem _ refl] by auto
    then have "bscl_vector_remove fresh v index count
        = Some (?v\<lparr>v_capacity := shr (v_capacity v) 1, v_data := d\<rparr>)"
      using True cnt guards m m'(1)
      by (simp add: bscl_vector_remove_def Let_def diff_mult_distrib add_mult_distrib)
    then show ?thesis
      using d(2,3) bytes sub(3) by auto
  qed
qed

section \<open>A new vector\<close>

lemma and_pow2_eq_zero:
  fixes x :: u64
  assumes "k < 64"
  shows "push_bit k 1 AND x = 0 \<longleftrightarrow> \<not> bit x k"
proof -
  have "push_bit k 1 AND x = (if bit x k then push_bit k 1 else 0)"
    by (rule bit_word_eqI) (auto simp: bit_simps)
  moreover have "bit (push_bit k (1 :: u64)) k"
    using assms by (simp add: bit_simps)
  then have "push_bit k (1 :: u64) \<noteq> 0"
    by (metis bit_0_eq bot_apply bot_bool_def)
  ultimately show ?thesis by simp
qed

lemma vector_top_bit_spec:
  assumes "j \<le> 63" and "bit x j" and "\<And>i. j < i \<Longrightarrow> i < 64 \<Longrightarrow> \<not> bit (x :: u64) i"
  shows "j \<le> k \<Longrightarrow> k < 64 \<Longrightarrow> vector_top_bit (push_bit k 1) x = Some (push_bit j 1)"
proof (induction "k - j" arbitrary: k)
  case 0
  then have "push_bit k 1 AND x \<noteq> 0"
    using and_pow2_eq_zero [of k x] assms(2) by simp
  with 0 show ?case
    by (subst vector_top_bit.simps) simp
next
  case (Suc d)
  then have lt: "j < k" by simp
  have "push_bit k 1 AND x = 0"
    using and_pow2_eq_zero [of k x] assms(3) [of k] lt Suc.prems by simp
  moreover have "push_bit k (1 :: u64) \<noteq> 1"
  proof
    assume "push_bit k (1 :: u64) = 1"
    then have "bit (push_bit k (1 :: u64)) 0 = bit (1 :: u64) 0" by simp
    with lt show False by (simp add: bit_simps)
  qed
  moreover have "drop_bit 1 (push_bit k (1 :: u64)) = push_bit (k - 1) 1"
    using lt Suc.prems by (intro bit_word_eqI) (auto simp: bit_simps)
  moreover have "vector_top_bit (push_bit (k - 1) 1) x = Some (push_bit j 1)"
    using Suc lt by (intro Suc.hyps(1)) simp_all
  ultimately show ?case
    by (subst vector_top_bit.simps) simp
qed

lemma vector_fill_spec:
  assumes "t \<le> length v"
  shows "(i + n) * t \<le> length m \<Longrightarrow> \<exists>m'. vector_fill m i n v t = Some m' \<and> length m' = length m
    \<and> take ((i + n) * t) m' = take (i * t) m @ concat (replicate n (take t v))"
proof (induction n arbitrary: m i)
  case 0
  then show ?case by simp
next
  case (Suc n)
  let ?x = "take t v"
  have lx: "length ?x = t" using assms by simp
  have fit: "i * t + t \<le> length m"
  proof -
    have "i * t + t \<le> (i + Suc n) * t" by simp
    then show ?thesis using Suc.prems by linarith
  qed
  let ?m = "take (i * t) m @ ?x @ drop (i * t + t) m"
  have w: "mem_write m (i * t) ?x = Some ?m"
    using fit lx by (simp add: mem_write_def)
  have lm: "length ?m = length m"
    using fit lx by simp
  have "(i + 1 + n) * t \<le> length ?m"
    using Suc.prems lm by simp
  from Suc.IH [OF this] obtain m' where m': "vector_fill ?m (i + 1) n v t = Some m'" "length m' = length ?m"
    "take ((i + 1 + n) * t) m' = take ((i + 1) * t) ?m @ concat (replicate n ?x)"
    by blast
  have "take ((i + 1) * t) ?m = take (i * t) m @ ?x"
    using fit lx by (simp add: add.commute)
  then show ?case
    using m' w lm assms by (simp add: mem_read_def add.commute)
qed

lemma top_bit_exists:
  assumes "(x :: u64) \<noteq> 0"
  obtains j where "j < 64" "bit x j" "\<And>i. j < i \<Longrightarrow> \<not> bit x i" "2 ^ j \<le> unat x" "unat x < 2 ^ Suc j"
proof -
  have "1 \<le> unat x"
    using assms by (simp add: Suc_le_eq unat_gt_0)
  then obtain j where j: "2 ^ j \<le> unat x" "unat x < 2 ^ Suc j"
    using ex_power_ivl1 [of 2 "unat x"] by auto
  have bit: "bit x i \<longleftrightarrow> odd (unat x div 2 ^ i)" for i
  proof -
    have "bit x i \<longleftrightarrow> bit (unat x) i"
      by (simp add: bit_unsigned_iff)
    also have "\<dots> \<longleftrightarrow> odd (unat x div 2 ^ i)"
      by (rule bit_iff_odd)
    finally show ?thesis .
  qed
  have "unat x div 2 ^ j = 1"
    using j by (intro div_nat_eqI) simp_all
  then have "bit x j" by (simp add: bit)
  moreover have "\<not> bit x i" if "j < i" for i
  proof -
    have "(2 :: nat) ^ Suc j \<le> 2 ^ i"
      using that by (intro power_increasing) simp_all
    with j have "unat x div 2 ^ i = 0" by simp
    then show ?thesis by (simp add: bit)
  qed
  moreover have "j < 64"
    using bit_imp_le_length [OF \<open>bit x j\<close>] by simp
  ultimately show thesis
    using that j by blast
qed

lemma vector_initial_capacity_spec:
  assumes "2 * unat x < 2 ^ 64"
  shows "\<exists>cap k. vector_initial_capacity x = Some cap \<and> unat cap = 2 ^ k \<and> unat x \<le> unat cap
    \<and> unat cap \<le> max 1 (2 * unat x)"
proof (cases "x = 0")
  case True
  then show ?thesis
    by (intro exI [of _ 1] exI [of _ 0]) (simp add: vector_initial_capacity_def)
next
  case False
  from top_bit_exists [OF this] obtain j where j: "j < 64" "bit x j" "\<And>i. j < i \<Longrightarrow> \<not> bit x i"
    "2 ^ j \<le> unat x" "unat x < 2 ^ Suc j" by metis
  have "(2 :: nat) * 2 ^ j < 2 ^ 64"
    using j(4) assms by linarith
  then have lt: "(2 :: nat) ^ Suc j < 2 ^ 64"
    by simp
  then have "Suc j < 64"
    by (rule power_less_imp_less_exp [rotated]) simp
  then have "vector_top_bit (push_bit 63 1) x = Some (push_bit j 1)"
    using vector_top_bit_spec [of j x 63] j by simp
  moreover have "push_bit 1 (push_bit j 1) = (push_bit (Suc j) 1 :: u64)"
    by (simp add: push_bit_push_bit)
  moreover have "unat (push_bit (Suc j) 1 :: u64) = 2 ^ Suc j"
  proof -
    have "(push_bit (Suc j) 1 :: u64) = word_of_nat (2 ^ Suc j)"
      by (simp add: push_bit_eq_mult)
    moreover have "unat (word_of_nat (2 ^ Suc j) :: u64) = 2 ^ Suc j"
      using lt take_bit_nat_eq_self [of "2 ^ Suc j" 64] by (simp only: unsigned_of_nat of_nat_id) simp
    ultimately show ?thesis by simp
  qed
  ultimately have "vector_initial_capacity x = Some (push_bit (Suc j) 1)"
    and "unat (push_bit (Suc j) 1 :: u64) = 2 ^ Suc j"
    using False by (simp_all only: vector_initial_capacity_def if_False bind.bind_lunit)
  then show ?thesis
    using j(4,5) by (intro exI [of _ "push_bit (Suc j) 1"] exI [of _ "Suc j"]) auto
qed

section \<open>Properties\<close>

text \<open>
  \<open>bscl_vector_new\<close> returns null when memory is short, and otherwise a well-formed vector of
  the requested size all of whose elements are the given value, as long as twice the requested
  bytes stay below \<open>2 ^ 64\<close>; its capacity is a power of two.
\<close>

lemma bscl_vector_new_filled:
  assumes "malloc_ok fresh" and "ts \<noteq> 0" and "unat n = 0 \<or> unat ts \<le> length v"
    and "2 * unat n * unat ts < 2 ^ 64"
  shows "bscl_vector_new ok fresh n (Some v) ts = Some None
    \<or> (\<exists>vec. bscl_vector_new ok fresh n (Some v) ts = Some (Some vec) \<and> vector_inv vec
      \<and> v_size vec = n \<and> type_size vec = ts
      \<and> vector_bytes vec = concat (replicate (unat n) (take (unat ts) v)))"
proof -
  have t: "0 < unat ts"
    using assms(2) by (simp add: unat_gt_0)
  then have "2 * unat n \<le> 2 * unat n * unat ts"
    by simp
  then have "2 * unat n < 2 ^ 64"
    using assms(4) by linarith
  from vector_initial_capacity_spec [OF this] obtain cap k where cap:
    "vector_initial_capacity n = Some cap" "unat cap = 2 ^ k" "unat n \<le> unat cap"
    "unat cap \<le> max 1 (2 * unat n)" by blast
  have "unat cap * unat ts \<le> max 1 (2 * unat n) * unat ts"
    using cap(4) by (rule mult_le_mono1)
  also have "\<dots> < 2 ^ 64"
    using assms(4) unsigned_less [of ts] by (simp add: max_def)
  finally have small: "unat cap * unat ts < 2 ^ 64" .
  then have mult: "unat (cap * ts) = unat cap * unat ts"
    by (simp add: unat_mult_small)
  show ?thesis
  proof (cases "ok \<and> fresh (unat cap * unat ts) \<noteq> None")
    case False
    then show ?thesis
      using assms(2) cap(1) by (auto simp: bscl_vector_new_def mult)
  next
    case True
    then obtain m where m: "fresh (unat cap * unat ts) = Some m" by auto
    then have lm: "length m = unat cap * unat ts"
      using assms(1) by (simp add: malloc_ok_def)
    have "\<exists>m'. vector_fill m 0 (unat n) v (unat ts) = Some m' \<and> length m' = length m
        \<and> take (unat n * unat ts) m' = concat (replicate (unat n) (take (unat ts) v))"
    proof (cases "unat n = 0")
      case False
      then show ?thesis
        using vector_fill_spec [of "unat ts" v 0 "unat n" m] assms(3) cap(3) lm by simp
    qed simp
    then obtain m' where m': "vector_fill m 0 (unat n) v (unat ts) = Some m'" "length m' = length m"
      "take (unat n * unat ts) m' = concat (replicate (unat n) (take (unat ts) v))" by blast
    then have "bscl_vector_new ok fresh n (Some v) ts
        = Some (Some \<lparr>v_data = m', type_size = ts, v_capacity = cap, v_size = n\<rparr>)"
      using True assms(2) cap(1) m by (simp add: bscl_vector_new_def mult)
    then show ?thesis
      using m' lm small t cap by (auto simp: vector_inv_def vector_bytes_def)
  qed
qed

lemma bscl_vector_new_filled_witness:
  "\<exists>vec. bscl_vector_new True (\<lambda>n. Some (replicate n 0)) 3 (Some [1, 2]) 2 = Some (Some vec)
    \<and> vector_inv vec \<and> vector_bytes vec = [1, 2, 1, 2, 1, 2]"
proof -
  let ?f = "\<lambda>n. Some (replicate n 0)"
  have "vector_initial_capacity 3 = Some 4"
  proof -
    have b: "bit (3 :: u64) i \<longleftrightarrow> i < 2" for i
      using bit_mask_iff [where 'a=u64, of 2 i]
      by (auto simp: mask_numeral dest: bit_imp_le_length)
    have "bit (3 :: u64) 1" and "\<And>i. 1 < i \<Longrightarrow> i < 64 \<Longrightarrow> \<not> bit (3 :: u64) i"
      unfolding b by simp_all
    then have "vector_top_bit (push_bit 63 1) 3 = Some (push_bit 1 1)"
      by (intro vector_top_bit_spec) simp_all
    then show ?thesis by (simp add: vector_initial_capacity_def)
  qed
  then have "bscl_vector_new True ?f 3 (Some [1, 2]) 2 \<noteq> Some None"
    by (simp add: bscl_vector_new_def split: Option.bind_splits)
  moreover have "malloc_ok ?f"
    by (simp add: malloc_ok_def)
  moreover have "bscl_vector_new True ?f 3 (Some [1, 2]) 2 = Some None
    \<or> (\<exists>vec. bscl_vector_new True ?f 3 (Some [1, 2]) 2 = Some (Some vec) \<and> vector_inv vec
      \<and> v_size vec = 3 \<and> type_size vec = 2
      \<and> vector_bytes vec = concat (replicate (unat (3 :: u64)) (take (unat (2 :: u64)) [1, 2])))"
    using \<open>malloc_ok ?f\<close> by (rule bscl_vector_new_filled) simp_all
  moreover have "concat (replicate (unat (3 :: u64)) (take (unat (2 :: u64)) [1, 2])) = [1, 2, 1, 2, 1, 2 :: u8]"
  proof -
    have "unat (3 :: u64) = 3" and "replicate 3 y = [y, y, y]" for y :: "u8 list"
      by (simp, simp add: numeral_3_eq_3)
    then show ?thesis by simp
  qed
  ultimately show ?thesis by auto
qed

text \<open>
  C10: as long as twice the new number of bytes stays below \<open>2 ^ 64\<close> and memory is not short,
  \<open>bscl_vector_insert\<close> puts \<open>count\<close> elements in front of position \<open>index\<close> and shifts the rest,
  whether it must grow or not, and keeps the vector well-formed (its capacity stays a power of
  two); \<open>bscl_vector_remove\<close> takes \<open>count\<close> elements out, whether it shrinks or not.
\<close>

theorem bscl_vector_insert_remove:
  assumes "vector_inv v" and "malloc_ok fresh" and "\<forall>n. fresh n \<noteq> None" and "count \<noteq> 0"
    and "unat (v_size v) = s" "unat count = c" "unat index = i" "unat (type_size v) = t"
  shows "(i \<le> s \<and> 2 * (s + c) * t < 2 ^ 64 \<and> c * t \<le> length data \<longrightarrow>
      (\<exists>v'. bscl_vector_insert fresh v index count data = Some v' \<and> vector_inv v'
        \<and> unat (v_size v') = s + c \<and> vector_bytes v' = take (i * t) (vector_bytes v)
          @ take (c * t) data @ drop (i * t) (vector_bytes v)))
    \<and> (i + c \<le> s \<longrightarrow>
      (\<exists>v'. bscl_vector_remove fresh v index count = Some v' \<and> vector_inv v'
        \<and> unat (v_size v') = s - c
        \<and> vector_bytes v' = take (i * t) (vector_bytes v) @ drop ((i + c) * t) (vector_bytes v)))"
proof -
  have mem: "fresh n \<noteq> None" for n
    using assms(3) by blast
  have "index \<le> v_size v" if "i \<le> s"
    using that assms(5,7) by (simp add: word_le_nat_alt)
  then show ?thesis
    using bscl_vector_insert_spec [OF assms(1,2) mem, of index count s c t data i]
      bscl_vector_remove_spec [OF assms(1,2) mem assms(4), of i c s index t] assms(4-8)
    by blast
qed

lemma bscl_vector_insert_remove_witness:
  "\<exists>v'. bscl_vector_insert (\<lambda>n. Some (replicate n 0))
      \<lparr>v_data = [1, 2, 3, 4], type_size = 2, v_capacity = 2, v_size = 2\<rparr> 1 1 [8, 9] = Some v'
    \<and> vector_bytes v' = [1, 2, 8, 9, 3, 4]"
proof -
  let ?v = "\<lparr>v_data = [1, 2, 3, 4], type_size = 2, v_capacity = 2, v_size = 2\<rparr> :: bscl_vector_t"
  have "\<exists>k. unat (2 :: u64) = 2 ^ k"
    by (intro exI [of _ 1]) simp
  then have "vector_inv ?v" and "malloc_ok (\<lambda>n. Some (replicate n 0))"
    by (simp_all add: vector_inv_def malloc_ok_def)
  then have "\<exists>v'. bscl_vector_insert (\<lambda>n. Some (replicate n 0)) ?v 1 1 [8, 9] = Some v'
      \<and> vector_bytes v' = take 2 (vector_bytes ?v) @ [8, 9] @ drop 2 (vector_bytes ?v)"
    using bscl_vector_insert_remove [of ?v "\<lambda>n. Some (replicate n 0)" 1 2 1 1 1 2 "[8, 9]"] by auto
  moreover have "vector_bytes ?v = [1, 2, 3, 4]"
    by (simp add: vector_bytes_def)
  ultimately show ?thesis by simp
qed

text \<open>
  \<open>bscl_vector_set\<close> overwrites exactly the elements from \<open>start\<close> on and \<open>bscl_vector_at\<close>
  finds them again; a position behind the last element fails the assertion.
\<close>

lemma bscl_vector_at_after_set:
  assumes "vector_inv v" and "count \<noteq> 0" and "unat start + unat count \<le> unat (v_size v)"
    and "length data = unat count * unat (type_size v)" and "unat i < unat count"
  shows "\<exists>v'. bscl_vector_set v start count data = Some v' \<and> vector_inv v'
    \<and> bscl_vector_at v' (start + i)
      = Some (take (unat (type_size v)) (drop (unat i * unat (type_size v)) data))
    \<and> (\<forall>k. v_size v' \<le> k \<longrightarrow> bscl_vector_at v' k = None)"
proof -
  define t where "t = unat (type_size v)"
  have cap: "unat (v_size v) \<le> unat (v_capacity v)"
    and len: "length (v_data v) = unat (v_capacity v) * t"
    using assms(1) by (simp_all add: vector_inv_def t_def)
  have "unat start + unat count < 2 ^ 64" and "unat start + unat i < 2 ^ 64"
  proof -
    have "unat (v_size v) < 2 ^ 64"
      using unsigned_less [of "v_size v"] by simp
    then show "unat start + unat count < 2 ^ 64" and "unat start + unat i < 2 ^ 64"
      using assms(3,5) by linarith+
  qed
  then have sum: "unat (start + count) = unat start + unat count"
      "unat (start + i) = unat start + unat i"
    by (simp_all add: unat_plus_small)
  have fit: "unat n * t < 2 ^ 64" if "unat n \<le> unat (v_size v)" for n :: u64
    using vector_inv_fits [OF assms(1), of "unat n"] that cap by (simp add: t_def)
  have m: "unat (type_size v * count) = unat count * t" "unat (start * type_size v) = unat start * t"
    "unat ((start + i) * type_size v) = (unat start + unat i) * t"
    using fit [of count] fit [of start] fit [of "start + i"] assms(3,5) sum
    by (simp_all add: unat_mult_small t_def mult.commute)
  have bound: "unat start * t + length data \<le> length (v_data v)"
  proof -
    have "(unat start + unat count) * t \<le> unat (v_capacity v) * t"
      using assms(3) cap by simp
    then show ?thesis
      using len assms(4) by (simp add: add_mult_distrib t_def)
  qed
  let ?m = "take (unat start * t) (v_data v) @ data @ drop (unat start * t + length data) (v_data v)"
  let ?v = "v\<lparr>v_data := ?m\<rparr>"
  have "start + count \<le> v_size v"
    using sum assms(3) by (simp add: word_le_nat_alt)
  moreover have "mem_read data 0 (unat count * t) = Some data"
    using assms(4) by (simp add: mem_read_def t_def)
  moreover have "mem_write (v_data v) (unat start * t) data = Some ?m"
    using bound by (simp add: mem_write_def)
  ultimately have set: "bscl_vector_set v start count data = Some ?v"
    using assms(2) by (simp add: bscl_vector_set_def m)
  have lm: "length ?m = length (v_data v)"
    using bound by simp
  then have inv: "vector_inv ?v"
    using assms(1) by (simp add: vector_inv_def del: length_append)
  have in_data: "unat i * t + t \<le> length data"
  proof -
    have "Suc (unat i) * t \<le> unat count * t"
      using assms(5) by (intro mult_le_mono1) simp
    then show ?thesis using assms(4) by (simp add: t_def)
  qed
  have "start + i < v_size v"
    using sum assms(3,5) by (simp add: word_less_nat_alt)
  moreover have "mem_read ?m ((unat start + unat i) * t) t = Some (take t (drop (unat i * t) data))"
    using bound in_data by (simp add: mem_read_def add_mult_distrib)
  ultimately have "bscl_vector_at ?v (start + i) = Some (take t (drop (unat i * t) data))"
    using m(3) by (simp add: bscl_vector_at_def t_def)
  moreover have "bscl_vector_at ?v k = None" if "v_size ?v \<le> k" for k
  proof -
    have "\<not> k < v_size v"
      using that by (simp add: not_less)
    then show ?thesis
      by (simp add: bscl_vector_at_def)
  qed
  ultimately show ?thesis
    using set inv by (auto simp: t_def)
qed

lemma bscl_vector_at_after_set_witness:
  "\<exists>v'. bscl_vector_set \<lparr>v_data = [1, 2, 3, 4], type_size = 2, v_capacity = 2, v_size = 2\<rparr> 1 1 [8, 9]
      = Some v' \<and> bscl_vector_at v' 1 = Some [8, 9]"
proof -
  let ?v = "\<lparr>v_data = [1, 2, 3, 4], type_size = 2, v_capacity = 2, v_size = 2\<rparr> :: bscl_vector_t"
  have "\<exists>k. unat (2 :: u64) = 2 ^ k"
    by (intro exI [of _ 1]) simp
  then have "vector_inv ?v"
    by (simp add: vector_inv_def)
  from bscl_vector_at_after_set [OF this, of 1 1 "[8, 9]" 0] show ?thesis by auto
qed

end
