(* ===== verification/Links.thy ===== *)
theory Links
  imports Prelude
begin

text \<open>
  The pointer structures of the library: a heap of nodes, the two fields \<open>next\<close> and \<open>prev\<close>,
  and the macros of \<open>include/bscl_list_head.h\<close> on them.

  An address is a natural number and 0 is the null pointer. Reading or writing a field
  through a null or dangling pointer is \<open>None\<close>. A node type extends the record \<open>link\<close> by the
  fields of the C struct, as the structs of the code do by embedding a \<open>bscl_list_head_t\<close>.
\<close>

section \<open>The heap\<close>

type_synonym addr = nat

type_synonym 'a heap = "addr \<Rightarrow> 'a option"

text \<open>\<open>malloc\<close>: an address and what the memory there happens to hold, or failure.\<close>

type_synonym 'a allocator = "'a heap \<Rightarrow> (addr \<times> 'a) option"

definition fresh_allocator :: "'a allocator \<Rightarrow> bool" where
  "fresh_allocator new \<longleftrightarrow> (\<forall>h p x. new h = Some (p, x) \<longrightarrow> p \<noteq> 0 \<and> h p = None)"

lemma fresh_allocatorD:
  "fresh_allocator new \<Longrightarrow> new h = Some (p, x) \<Longrightarrow> p \<noteq> 0"
  "fresh_allocator new \<Longrightarrow> new h = Some (p, x) \<Longrightarrow> h p = None"
  unfolding fresh_allocator_def by blast+

definition deref :: "'a heap \<Rightarrow> addr \<Rightarrow> 'a option" where
  "deref h p = (if p = 0 then None else h p)"

definition assign :: "'a heap \<Rightarrow> addr \<Rightarrow> ('a \<Rightarrow> 'a) \<Rightarrow> 'a heap option" where
  "assign h p f = do { x \<leftarrow> deref h p; Some (h(p \<mapsto> f x)) }"

text \<open>Freeing the null pointer does nothing, freeing a dangling one is undefined.\<close>

definition free :: "'a heap \<Rightarrow> addr \<Rightarrow> 'a heap option" where
  "free h p = (if p = 0 then Some h else do { _ \<leftarrow> h p; Some (h(p := None)) })"

record link =
  l_next :: addr
  l_prev :: addr

type_synonym 'z links = "'z link_scheme heap"

definition get_next :: "'z links \<Rightarrow> addr \<Rightarrow> addr option" where
  "get_next h p = do { x \<leftarrow> deref h p; Some (l_next x) }"

definition get_prev :: "'z links \<Rightarrow> addr \<Rightarrow> addr option" where
  "get_prev h p = do { x \<leftarrow> deref h p; Some (l_prev x) }"

definition set_next :: "'z links \<Rightarrow> addr \<Rightarrow> addr \<Rightarrow> 'z links option" where
  "set_next h p q = assign h p (\<lambda>x. x\<lparr>l_next := q\<rparr>)"

definition set_prev :: "'z links \<Rightarrow> addr \<Rightarrow> addr \<Rightarrow> 'z links option" where
  "set_prev h p q = assign h p (\<lambda>x. x\<lparr>l_prev := q\<rparr>)"

section \<open>The list head macros\<close>

definition bscl_list_init :: "'z links \<Rightarrow> addr \<Rightarrow> 'z links option" where
  "bscl_list_init h lst = do { h \<leftarrow> set_prev h lst lst; set_next h lst lst }"

definition bscl_list_head_insert_next :: "'z links \<Rightarrow> addr \<Rightarrow> addr \<Rightarrow> 'z links option" where
  "bscl_list_head_insert_next h lh new =
     (if lh \<noteq> new then do {
        h \<leftarrow> set_prev h new lh;
        n \<leftarrow> get_next h lh;
        h \<leftarrow> set_next h new n;
        h \<leftarrow> set_next h lh new;
        n \<leftarrow> get_next h new;
        if n \<noteq> 0 then set_prev h n new else Some h
      } else Some h)"

definition bscl_list_head_insert_prev :: "'z links \<Rightarrow> addr \<Rightarrow> addr \<Rightarrow> 'z links option" where
  "bscl_list_head_insert_prev h lh new =
     (if lh \<noteq> new then do {
        p \<leftarrow> get_prev h lh;
        h \<leftarrow> set_prev h new p;
        h \<leftarrow> set_next h new lh;
        h \<leftarrow> set_prev h lh new;
        p \<leftarrow> get_prev h new;
        if p \<noteq> 0 then set_next h p new else Some h
      } else Some h)"

definition bscl_list_head_remove :: "'z links \<Rightarrow> addr \<Rightarrow> 'z links option" where
  "bscl_list_head_remove h lh = do {
     p \<leftarrow> get_prev h lh;
     n \<leftarrow> get_next h lh;
     h \<leftarrow> (if p \<noteq> 0 then set_next h p n else Some h);
     n \<leftarrow> get_next h lh;
     p \<leftarrow> get_prev h lh;
     if n \<noteq> 0 then set_prev h n p else Some h
   }"

definition bscl_list_is_empty :: "'z links \<Rightarrow> addr \<Rightarrow> bool option" where
  "bscl_list_is_empty h lst = do { n \<leftarrow> get_next h lst; Some (n = lst) }"

definition bscl_list_is_last :: "'z links \<Rightarrow> addr \<Rightarrow> addr \<Rightarrow> bool option" where
  "bscl_list_is_last h lst p = do { n \<leftarrow> get_next h p; Some (lst = n) }"

definition bscl_list_insert_tail :: "'z links \<Rightarrow> addr \<Rightarrow> addr \<Rightarrow> 'z links option" where
  "bscl_list_insert_tail h lst p = bscl_list_head_insert_prev h lst p"

section \<open>Fields of a heap\<close>

definition nxt :: "'z links \<Rightarrow> addr \<Rightarrow> addr option" where
  "nxt h p = map_option l_next (h p)"

definition prv :: "'z links \<Rightarrow> addr \<Rightarrow> addr option" where
  "prv h p = map_option l_prev (h p)"

definition rest :: "'z links \<Rightarrow> addr \<Rightarrow> 'z option" where
  "rest h p = map_option link.more (h p)"

definition upd_next :: "'z links \<Rightarrow> addr \<Rightarrow> addr \<Rightarrow> 'z links" where
  "upd_next h p q = h(p := map_option (\<lambda>x. x\<lparr>l_next := q\<rparr>) (h p))"

definition upd_prev :: "'z links \<Rightarrow> addr \<Rightarrow> addr \<Rightarrow> 'z links" where
  "upd_prev h p q = h(p := map_option (\<lambda>x. x\<lparr>l_prev := q\<rparr>) (h p))"

named_theorems link_simps "reads of fields after writes of fields"

lemma get_next_eq [link_simps]: "get_next h p = (if p = 0 then None else nxt h p)"
  by (cases "h p") (auto simp: get_next_def deref_def nxt_def)

lemma get_prev_eq [link_simps]: "get_prev h p = (if p = 0 then None else prv h p)"
  by (cases "h p") (auto simp: get_prev_def deref_def prv_def)

lemma set_next_eq [link_simps]:
  "set_next h p q = (if p = 0 \<or> h p = None then None else Some (upd_next h p q))"
  by (cases "h p") (auto simp: set_next_def assign_def deref_def upd_next_def)

lemma set_prev_eq [link_simps]:
  "set_prev h p q = (if p = 0 \<or> h p = None then None else Some (upd_prev h p q))"
  by (cases "h p") (auto simp: set_prev_def assign_def deref_def upd_prev_def)

lemma upd_None [link_simps]:
  "upd_next h p q x = None \<longleftrightarrow> h x = None" "upd_prev h p q x = None \<longleftrightarrow> h x = None"
  by (auto simp: upd_next_def upd_prev_def)

lemma nxt_upd [link_simps]:
  "nxt (upd_next h p q) x = (if x = p \<and> h p \<noteq> None then Some q else nxt h x)"
  "nxt (upd_prev h p q) x = nxt h x"
  "nxt (h(p \<mapsto> y)) x = (if x = p then Some (l_next y) else nxt h x)"
  "nxt (h(p := None)) x = (if x = p then None else nxt h x)"
  by (auto simp: upd_next_def upd_prev_def nxt_def map_option_case split: option.splits)

lemma prv_upd [link_simps]:
  "prv (upd_prev h p q) x = (if x = p \<and> h p \<noteq> None then Some q else prv h x)"
  "prv (upd_next h p q) x = prv h x"
  "prv (h(p \<mapsto> y)) x = (if x = p then Some (l_prev y) else prv h x)"
  "prv (h(p := None)) x = (if x = p then None else prv h x)"
  by (auto simp: upd_next_def upd_prev_def prv_def map_option_case split: option.splits)

lemma rest_upd [link_simps]:
  "rest (upd_prev h p q) x = rest h x"
  "rest (upd_next h p q) x = rest h x"
  "rest (h(p \<mapsto> y)) x = (if x = p then Some (link.more y) else rest h x)"
  "rest (h(p := None)) x = (if x = p then None else rest h x)"
  by (auto simp: upd_next_def upd_prev_def rest_def map_option_case split: option.splits)

lemma field_Some:
  "nxt h p = Some q \<Longrightarrow> h p \<noteq> None" "prv h p = Some q \<Longrightarrow> h p \<noteq> None"
  "rest h p = Some z \<Longrightarrow> h p \<noteq> None"
  by (auto simp: nxt_def prv_def rest_def)

lemma field_not_None:
  "h p \<noteq> None \<Longrightarrow> nxt h p \<noteq> None" "h p \<noteq> None \<Longrightarrow> prv h p \<noteq> None" "h p \<noteq> None \<Longrightarrow> rest h p \<noteq> None"
  by (auto simp: nxt_def prv_def rest_def)

section \<open>Linked sequences\<close>

text \<open>
  \<open>links h zs\<close>: every two neighbours of \<open>zs\<close> point to each other, except that null has no
  fields. A list that ends in null pointers is \<open>0 # xs @ [0]\<close>, a circular one with its head
  \<open>l\<close> is \<open>l # xs @ [l]\<close>.
\<close>

fun nexts :: "'z links \<Rightarrow> addr list \<Rightarrow> bool" where
  "nexts h (a # b # zs) \<longleftrightarrow> (a \<noteq> 0 \<longrightarrow> nxt h a = Some b) \<and> nexts h (b # zs)"
| "nexts h _ \<longleftrightarrow> True"

fun prevs :: "'z links \<Rightarrow> addr list \<Rightarrow> bool" where
  "prevs h (a # b # zs) \<longleftrightarrow> (b \<noteq> 0 \<longrightarrow> prv h b = Some a) \<and> prevs h (b # zs)"
| "prevs h _ \<longleftrightarrow> True"

definition links :: "'z links \<Rightarrow> addr list \<Rightarrow> bool" where
  "links h zs \<longleftrightarrow> nexts h zs \<and> prevs h zs"

lemma nexts_append: "nexts h (xs @ a # ys) \<longleftrightarrow> nexts h (xs @ [a]) \<and> nexts h (a # ys)"
  by (induction xs rule: induct_list012) auto

lemma prevs_append: "prevs h (xs @ a # ys) \<longleftrightarrow> prevs h (xs @ [a]) \<and> prevs h (a # ys)"
  by (induction xs rule: induct_list012) auto

lemma nexts_frame:
  "nexts h zs \<Longrightarrow> (\<And>a. a \<in> set (butlast zs) \<Longrightarrow> a \<noteq> 0 \<Longrightarrow> nxt h' a = nxt h a) \<Longrightarrow> nexts h' zs"
  by (induction zs rule: induct_list012) auto

lemma prevs_frame:
  "prevs h zs \<Longrightarrow> (\<And>b. b \<in> set (tl zs) \<Longrightarrow> b \<noteq> 0 \<Longrightarrow> prv h' b = prv h b) \<Longrightarrow> prevs h' zs"
proof (induction zs rule: induct_list012)
  case (3 a b zs)
  then have "prevs h' (b # zs)"
    by (cases zs) auto
  then show ?case using 3 by simp
qed simp_all

lemma nexts_dom: "nexts h zs \<Longrightarrow> p \<in> set (butlast zs) \<Longrightarrow> p \<noteq> 0 \<Longrightarrow> h p \<noteq> None"
  by (induction zs rule: induct_list012) (auto simp: nxt_def split: if_splits)

text \<open>A sequence in which the links can be followed without doubt.\<close>

definition simple :: "addr list \<Rightarrow> bool" where
  "simple zs \<longleftrightarrow> distinct (butlast zs) \<and> distinct (tl zs)"

lemma simple_split:
  assumes "simple (xs @ a # b # ys)"
  shows "a \<notin> set xs" "a \<notin> set (butlast (b # ys))" "b \<notin> set (tl (xs @ [a]))" "b \<notin> set ys"
  using assms by (auto simp: simple_def butlast_append tl_append split: list.splits if_splits)

lemma links_insert:
  assumes l: "links h (xs @ a # b # ys)" and s: "simple (xs @ a # b # ys)"
    and c: "c \<notin> set (xs @ a # b # ys)"
    and new: "nxt h' c = Some b" "prv h' c = Some a" "a \<noteq> 0 \<longrightarrow> nxt h' a = Some c"
      "b \<noteq> 0 \<longrightarrow> prv h' b = Some c"
    and old: "\<And>x. x \<noteq> 0 \<Longrightarrow> x \<noteq> a \<Longrightarrow> x \<noteq> c \<Longrightarrow> nxt h' x = nxt h x"
      "\<And>x. x \<noteq> 0 \<Longrightarrow> x \<noteq> b \<Longrightarrow> x \<noteq> c \<Longrightarrow> prv h' x = prv h x"
  shows "links h' (xs @ a # c # b # ys)"
proof -
  note s = simple_split [OF s]
  have n: "nexts h (xs @ [a])" "nexts h (b # ys)" and p: "prevs h (xs @ [a])" "prevs h (b # ys)"
    using l nexts_append [of h xs a "b # ys"] prevs_append [of h xs a "b # ys"]
    by (simp_all add: links_def)
  have cb: "c \<notin> set (butlast (b # ys))" and ct: "c \<notin> set (tl (xs @ [a]))"
    using c by (auto dest: in_set_butlastD list.set_sel(2) [rotated] simp: tl_append split: list.splits)
  have "nexts h' (xs @ [a])" and "nexts h' (b # ys)"
    using s(1,2) c cb by (auto intro!: nexts_frame [OF n(1)] nexts_frame [OF n(2)] old(1))
  moreover have "prevs h' (xs @ [a])" and "prevs h' (b # ys)"
    using s(3,4) c ct by (auto intro!: prevs_frame [OF p(1)] prevs_frame [OF p(2)] old(2))
  ultimately show ?thesis
    using new nexts_append [of h' xs a "c # b # ys"] prevs_append [of h' xs a "c # b # ys"]
    by (simp add: links_def)
qed

lemma links_remove:
  assumes l: "links h (xs @ a # c # b # ys)" and s: "simple (xs @ a # c # b # ys)"
    and new: "a \<noteq> 0 \<longrightarrow> nxt h' a = Some b" "b \<noteq> 0 \<longrightarrow> prv h' b = Some a"
    and old: "\<And>x. x \<noteq> 0 \<Longrightarrow> x \<noteq> a \<Longrightarrow> x \<noteq> c \<Longrightarrow> nxt h' x = nxt h x"
      "\<And>x. x \<noteq> 0 \<Longrightarrow> x \<noteq> b \<Longrightarrow> x \<noteq> c \<Longrightarrow> prv h' x = prv h x"
  shows "links h' (xs @ a # b # ys)"
proof -
  have s1: "a \<notin> set xs" "a \<notin> set (butlast (b # ys))" "c \<notin> set xs" "c \<notin> set (butlast (b # ys))"
    using s by (auto simp: simple_def butlast_append split: if_splits)
  have s2: "b \<notin> set (tl (xs @ [a]))" "b \<notin> set ys" "c \<notin> set (tl (xs @ [a]))" "c \<notin> set ys"
    using s by (auto simp: simple_def tl_append split: list.splits)
  have n: "nexts h (xs @ [a])" "nexts h (b # ys)" and p: "prevs h (xs @ [a])" "prevs h (b # ys)"
    using l nexts_append [of h xs a "c # b # ys"] prevs_append [of h xs a "c # b # ys"]
    by (simp_all add: links_def)
  have "nexts h' (xs @ [a])" and "nexts h' (b # ys)"
    using s1 by (auto intro!: nexts_frame [OF n(1)] nexts_frame [OF n(2)] old(1))
  moreover have "prevs h' (xs @ [a])" and "prevs h' (b # ys)"
    using s2 by (auto intro!: prevs_frame [OF p(1)] prevs_frame [OF p(2)] old(2))
  ultimately show ?thesis
    using new nexts_append [of h' xs a "b # ys"] prevs_append [of h' xs a "b # ys"]
    by (simp add: links_def)
qed

text \<open>What the neighbours of a node hold.\<close>

lemma links_mid:
  assumes "links h (xs @ a # c # b # ys)" and "c \<noteq> 0"
  shows "nxt h c = Some b" "prv h c = Some a" "a \<noteq> 0 \<Longrightarrow> nxt h a = Some c" "b \<noteq> 0 \<Longrightarrow> prv h b = Some c"
  using assms nexts_append [of h xs a "c # b # ys"] prevs_append [of h xs a "c # b # ys"]
  by (simp_all add: links_def)

lemma links_pair:
  assumes "links h (xs @ a # b # ys)"
  shows "a \<noteq> 0 \<Longrightarrow> nxt h a = Some b" "b \<noteq> 0 \<Longrightarrow> prv h b = Some a"
  using assms nexts_append [of h xs a "b # ys"] prevs_append [of h xs a "b # ys"]
  by (simp_all add: links_def)

text \<open>The sequence cut between two items.\<close>

lemma list_cut:
  "0 # (pre @ post) @ [0]
     = butlast (0 # pre) @ last (0 # pre) # hd (post @ [0]) # tl (post @ [0])"
proof -
  have "0 # pre = butlast (0 # pre) @ [last (0 # pre)]"
    by simp
  moreover have "post @ [0] = hd (post @ [0]) # tl (post @ [0])"
    by simp
  ultimately show ?thesis
    by (metis append_Cons append_assoc append_Nil)
qed

lemma last_null: "0 \<notin> set pre \<Longrightarrow> last (0 # pre) = (0 :: addr) \<longleftrightarrow> pre = []"
  by (metis last_ConsL last_ConsR last_in_set)

lemma hd_null: "0 \<notin> set post \<Longrightarrow> hd (post @ [0]) = (0 :: addr) \<longleftrightarrow> post = []"
  by (cases post) auto

section \<open>What the macros do to the fields\<close>

lemma list_head_insert_prev_runs:
  assumes "l \<noteq> 0" and "c \<noteq> 0" and "l \<noteq> c" and "h c \<noteq> None" and "prv h l = Some a"
    and "a \<noteq> 0 \<Longrightarrow> h a \<noteq> None" and "a \<noteq> c"
  shows "\<exists>h'. bscl_list_head_insert_prev h l c = Some h' \<and> nxt h' c = Some l \<and> prv h' c = Some a
    \<and> prv h' l = Some c \<and> (a \<noteq> 0 \<longrightarrow> nxt h' a = Some c)
    \<and> (\<forall>p. p \<noteq> a \<longrightarrow> p \<noteq> c \<longrightarrow> nxt h' p = nxt h p) \<and> (\<forall>p. p \<noteq> l \<longrightarrow> p \<noteq> c \<longrightarrow> prv h' p = prv h p)
    \<and> (\<forall>p. rest h' p = rest h p) \<and> (\<forall>p. h' p = None \<longleftrightarrow> h p = None)
    \<and> (a = 0 \<longrightarrow> (\<forall>p. p \<noteq> c \<longrightarrow> nxt h' p = nxt h p))"
  using assms field_Some(2) [OF assms(5)]
  by (cases "a = 0") (auto simp: bscl_list_head_insert_prev_def link_simps)

lemma list_head_remove_runs:
  assumes "c \<noteq> 0" and "nxt h c = Some b" and "prv h c = Some a"
    and "a \<noteq> 0 \<Longrightarrow> h a \<noteq> None" and "b \<noteq> 0 \<Longrightarrow> h b \<noteq> None" and "a \<noteq> c" and "b \<noteq> c"
  shows "\<exists>h'. bscl_list_head_remove h c = Some h'
    \<and> (a \<noteq> 0 \<longrightarrow> nxt h' a = Some b) \<and> (b \<noteq> 0 \<longrightarrow> prv h' b = Some a)
    \<and> (\<forall>p. p \<noteq> a \<longrightarrow> nxt h' p = nxt h p) \<and> (\<forall>p. p \<noteq> b \<longrightarrow> prv h' p = prv h p)
    \<and> (\<forall>p. rest h' p = rest h p) \<and> (\<forall>p. h' p = None \<longleftrightarrow> h p = None)
    \<and> (a = 0 \<longrightarrow> (\<forall>p. nxt h' p = nxt h p)) \<and> (b = 0 \<longrightarrow> (\<forall>p. prv h' p = prv h p))"
  using assms
  by (cases "a = 0"; cases "b = 0") (auto simp: bscl_list_head_remove_def link_simps)

end
