(* ===== verification/Linked_List.thy ===== *)
theory Linked_List
  imports Links
begin

text \<open>
  The doubly linked list of \<open>src/bscl_list.c\<close> and the queue that \<open>include/bscl_queue.h\<close> makes
  of it. The items are nodes of a heap; the list itself is a record. The mutex serialises the
  operations, so each is modelled as one step; the data pointers are not followed by the code.

  \<open>list_rep\<close> relates a list in the heap to the sequence of its item addresses, and the
  interface \<open>pointer_queue\<close> says what the clients of the queue rely on.
\<close>

section \<open>The code\<close>

record bscl_list_item_t = link +
  item_data :: addr
  item_len :: u64

record bscl_list_t =
  l_head :: addr
  l_tail :: addr
  l_size :: u64

type_synonym items = "bscl_list_item_t heap"

text \<open>The boolean result, the list and the heap.\<close>

definition bscl_list_insert ::
    "bscl_list_item_t allocator \<Rightarrow> items \<Rightarrow> bscl_list_t \<Rightarrow> addr \<Rightarrow> addr \<Rightarrow> u64
       \<Rightarrow> (bool \<times> bscl_list_t \<times> items) option" where
  "bscl_list_insert malloc h lst item data len =
     (case malloc h of None \<Rightarrow> Some (False, lst, h)
      | Some (newItem, x) \<Rightarrow> do {
          let h = h(newItem \<mapsto> x);
          (lst, h) \<leftarrow>
            (if item = 0 then do {
               h \<leftarrow> set_next h newItem (l_head lst);
               h \<leftarrow> set_prev h newItem 0;
               Some (lst\<lparr>l_head := newItem\<rparr>, h)
             } else do {
               n \<leftarrow> get_next h item;
               h \<leftarrow> set_next h newItem n;
               h \<leftarrow> set_prev h newItem item;
               h \<leftarrow> set_next h item newItem;
               Some (lst, h)
             });
          n \<leftarrow> get_next h newItem;
          (lst, h) \<leftarrow>
            (if n \<noteq> 0 then do { h \<leftarrow> set_prev h n newItem; Some (lst, h) }
             else Some (lst\<lparr>l_tail := newItem\<rparr>, h));
          let lst = lst\<lparr>l_size := l_size lst + 1\<rparr>;
          h \<leftarrow> assign h newItem (\<lambda>x. x\<lparr>item_data := data\<rparr>);
          h \<leftarrow> assign h newItem (\<lambda>x. x\<lparr>item_len := len\<rparr>);
          Some (True, lst, h)
        })"

definition bscl_list_remove ::
    "items \<Rightarrow> bscl_list_t \<Rightarrow> addr \<Rightarrow> (bool \<times> bscl_list_t \<times> items) option" where
  "bscl_list_remove h lst item = do {
     guard (item \<noteq> 0);
     if l_size lst = 0 then Some (False, lst, h)
     else do {
       p \<leftarrow> get_prev h item;
       n \<leftarrow> get_next h item;
       (lst, h) \<leftarrow>
         (if p = 0 then Some (lst\<lparr>l_head := n\<rparr>, h)
          else do { h \<leftarrow> set_next h p n; Some (lst, h) });
       n \<leftarrow> get_next h item;
       p \<leftarrow> get_prev h item;
       (lst, h) \<leftarrow>
         (if n = 0 then Some (lst\<lparr>l_tail := p\<rparr>, h)
          else do { h \<leftarrow> set_prev h n p; Some (lst, h) });
       let lst = lst\<lparr>l_size := l_size lst - 1\<rparr>;
       h \<leftarrow> free h item;
       Some (True, lst, h)
     }
   }"

definition list_init :: bscl_list_t where
  "list_init = \<lparr>l_head = 0, l_tail = 0, l_size = 0\<rparr>"

text \<open>\<open>ok\<close>: the list structure could be allocated.\<close>

definition bscl_list_new :: "bool \<Rightarrow> bscl_list_t option" where
  "bscl_list_new ok = (if ok then Some list_init else None)"

text \<open>The loop steps to the next item and frees what precedes it.\<close>

partial_function (option) deninit_loop :: "items \<Rightarrow> addr \<Rightarrow> items option" where
  "deninit_loop h item =
     (if item \<noteq> 0 then do {
        item \<leftarrow> get_next h item;
        p \<leftarrow> get_prev h item;
        h \<leftarrow> free h p;
        deninit_loop h item
      } else Some h)"

declare deninit_loop.simps [code]

definition bscl_list_deninit :: "items \<Rightarrow> bscl_list_t \<Rightarrow> items option" where
  "bscl_list_deninit h lst = deninit_loop h (l_head lst)"

text \<open>The list structure is gone afterwards; what is left is the heap of items.\<close>

definition bscl_list_delete :: "items \<Rightarrow> bscl_list_t \<Rightarrow> items option" where
  "bscl_list_delete h lst = bscl_list_deninit h lst"

definition bscl_list_item_data :: "items \<Rightarrow> addr \<Rightarrow> (addr \<times> u64) option" where
  "bscl_list_item_data h item = do { x \<leftarrow> deref h item; Some (item_data x, item_len x) }"

definition bscl_list_item_prev :: "items \<Rightarrow> addr \<Rightarrow> addr option" where
  "bscl_list_item_prev h item = get_prev h item"

definition bscl_list_item_next :: "items \<Rightarrow> addr \<Rightarrow> addr option" where
  "bscl_list_item_next h item = get_next h item"

definition bscl_list_head :: "bscl_list_t \<Rightarrow> addr" where
  "bscl_list_head lst = l_head lst"

definition bscl_list_tail :: "bscl_list_t \<Rightarrow> addr" where
  "bscl_list_tail lst = l_tail lst"

definition bscl_list_size :: "bscl_list_t \<Rightarrow> u64" where
  "bscl_list_size lst = l_size lst"

definition bscl_queue_push ::
    "bscl_list_item_t allocator \<Rightarrow> items \<Rightarrow> bscl_list_t \<Rightarrow> addr \<Rightarrow> u64
       \<Rightarrow> (bool \<times> bscl_list_t \<times> items) option" where
  "bscl_queue_push malloc h queue data len = bscl_list_insert malloc h queue 0 data len"

text \<open>The data and the length that are stored for the caller, the list and the heap.\<close>

definition bscl_queue_pop ::
    "items \<Rightarrow> bscl_list_t \<Rightarrow> ((addr \<times> u64) \<times> bscl_list_t \<times> items) option" where
  "bscl_queue_pop h queue = do {
     let item = bscl_list_tail queue;
     if item \<noteq> 0 then do {
       d \<leftarrow> bscl_list_item_data h item;
       (_, queue, h) \<leftarrow> bscl_list_remove h queue item;
       Some (d, queue, h)
     } else Some ((0, 0), queue, h)
   }"

definition bscl_queue_size :: "bscl_list_t \<Rightarrow> u64" where
  "bscl_queue_size queue = bscl_list_size queue"

section \<open>Lists in the heap\<close>

definition content :: "items \<Rightarrow> addr \<Rightarrow> (addr \<times> u64) option" where
  "content h p = map_option (\<lambda>x. (item_data x, item_len x)) (h p)"

definition list_rep :: "bscl_list_t \<Rightarrow> items \<Rightarrow> addr list \<Rightarrow> bool" where
  "list_rep lst h xs \<longleftrightarrow> links h (0 # xs @ [0]) \<and> distinct xs \<and> 0 \<notin> set xs
     \<and> l_head lst = hd (xs @ [0]) \<and> l_tail lst = last (0 # xs) \<and> unat (l_size lst) = length xs"

definition list_items :: "items \<Rightarrow> addr list \<Rightarrow> (addr \<times> u64) list" where
  "list_items h xs = map (\<lambda>p. the (content h p)) xs"

lemma content_upd [link_simps]:
  "content (upd_next h p q) x = content h x"
  "content (upd_prev h p q) x = content h x"
  "content (h(p \<mapsto> y)) x = (if x = p then Some (item_data y, item_len y) else content h x)"
  "content (h(p := None)) x = (if x = p then None else content h x)"
  by (auto simp: upd_next_def upd_prev_def content_def map_option_case split: option.splits)

lemma list_rep_simple: "list_rep lst h xs \<Longrightarrow> simple (0 # xs @ [0])"
  by (auto simp: list_rep_def simple_def butlast_append)

lemma list_rep_dom: "list_rep lst h xs \<Longrightarrow> p \<in> set xs \<Longrightarrow> h p \<noteq> None"
  using nexts_dom [of h "0 # xs @ [0]" p]
  by (auto simp: list_rep_def links_def butlast_append)

lemma hd_list_rep: "hd ((pre @ x # post) @ [0]) = (if pre = [] then x else hd ((pre @ post) @ [0]))"
  by (cases pre) auto

lemma last_list_rep:
  "last (0 # pre @ x # post) = (if post = [] then x else last (0 # pre @ post))"
  by auto

section \<open>Insertion and removal\<close>

lemma bscl_list_insert_runs:
  assumes "malloc h = Some (c, x)" and "c \<noteq> 0" and "h c = None"
    and item: "item \<noteq> 0 \<longrightarrow> nxt h item = Some b" "item = 0 \<longrightarrow> l_head lst = b"
    and b: "b \<noteq> 0 \<longrightarrow> h b \<noteq> None"
  shows "\<exists>h'. bscl_list_insert malloc h lst item data len = Some (True,
      lst\<lparr>l_head := (if item = 0 then c else l_head lst), l_tail := (if b = 0 then c else l_tail lst),
        l_size := l_size lst + 1\<rparr>, h')
    \<and> nxt h' c = Some b \<and> prv h' c = Some item \<and> content h' c = Some (data, len)
    \<and> (item \<noteq> 0 \<longrightarrow> nxt h' item = Some c) \<and> (b \<noteq> 0 \<longrightarrow> prv h' b = Some c)
    \<and> (\<forall>p. p \<noteq> item \<longrightarrow> p \<noteq> c \<longrightarrow> nxt h' p = nxt h p)
    \<and> (\<forall>p. p \<noteq> b \<longrightarrow> p \<noteq> c \<longrightarrow> prv h' p = prv h p)
    \<and> (\<forall>p. p \<noteq> c \<longrightarrow> content h' p = content h p)"
proof -
  have ic: "item \<noteq> c" if "item \<noteq> 0"
    using that item assms(3) by (auto dest: field_Some)
  have bc: "b \<noteq> c" if "b \<noteq> 0"
    using that b assms(3) by auto
  have hi: "h item \<noteq> None" if "item \<noteq> 0"
    using that item by (auto dest: field_Some)
  have assign_c: "assign g c f = Some (g(c \<mapsto> f (the (g c))))" if "g c \<noteq> None" for g :: items and f
    using that assms(2) by (auto simp: assign_def deref_def)
  show ?thesis
    using assms ic bc hi
    by (cases "item = 0"; cases "b = 0")
      (auto simp: bscl_list_insert_def assign_c link_simps; simp add: upd_next_def upd_prev_def)+
qed

lemma bscl_list_insert_spec:
  assumes rep: "list_rep lst h (pre @ post)" and new: "malloc h = Some (c, x)" "fresh_allocator malloc"
    and size: "Suc (length (pre @ post)) < 2 ^ 64" and item: "item = last (0 # pre)"
  shows "\<exists>lst' h'. bscl_list_insert malloc h lst item data len = Some (True, lst', h')
    \<and> list_rep lst' h' (pre @ c # post) \<and> content h' c = Some (data, len)
    \<and> (\<forall>p. p \<noteq> c \<longrightarrow> content h' p = content h p)"
proof -
  let ?b = "hd (post @ [0])"
  have c: "c \<noteq> 0" "h c = None"
    using new by (auto simp: fresh_allocator_def)
  have l: "links h (0 # (pre @ post) @ [0])"
    using rep by (simp add: list_rep_def)
  note cut = list_cut [of pre post]
  have nulls: "item = 0 \<longleftrightarrow> pre = []" "?b = 0 \<longleftrightarrow> post = []"
    using rep item last_null [of pre] hd_null [of post] by (auto simp: list_rep_def)
  have "item \<noteq> 0 \<longrightarrow> nxt h item = Some ?b"
    using links_pair(1) [OF l [unfolded cut]] item by blast
  moreover have "item = 0 \<longrightarrow> l_head lst = ?b"
    using nulls rep by (auto simp: list_rep_def)
  moreover have "?b \<noteq> 0 \<longrightarrow> h ?b \<noteq> None"
    using links_pair(2) [OF l [unfolded cut]] by (auto dest: field_Some)
  ultimately obtain h' where h': "bscl_list_insert malloc h lst item data len = Some (True,
      lst\<lparr>l_head := (if item = 0 then c else l_head lst), l_tail := (if ?b = 0 then c else l_tail lst),
        l_size := l_size lst + 1\<rparr>, h')"
    "nxt h' c = Some ?b" "prv h' c = Some item" "content h' c = Some (data, len)"
    "item \<noteq> 0 \<longrightarrow> nxt h' item = Some c" "?b \<noteq> 0 \<longrightarrow> prv h' ?b = Some c"
    "\<And>p. p \<noteq> item \<Longrightarrow> p \<noteq> c \<Longrightarrow> nxt h' p = nxt h p" "\<And>p. p \<noteq> ?b \<Longrightarrow> p \<noteq> c \<Longrightarrow> prv h' p = prv h p"
    "\<And>p. p \<noteq> c \<Longrightarrow> content h' p = content h p"
    using bscl_list_insert_runs [where malloc = malloc and h = h and c = c and x = x
        and item = item and b = ?b and lst = lst and data = data and len = len] new(1) c by blast
  have fresh: "c \<notin> set (pre @ post)"
    using list_rep_dom [OF rep] c(2) by blast
  then have "c \<notin> set (0 # (pre @ post) @ [0])"
    using c(1) by simp
  then have "links h' (butlast (0 # pre) @ last (0 # pre) # c # ?b # tl (post @ [0]))"
    using links_insert [OF l [unfolded cut] list_rep_simple [OF rep, unfolded cut]] h' item
    unfolding cut by blast
  then have links': "links h' (0 # (pre @ c # post) @ [0])"
    unfolding list_cut [of pre "c # post"] by simp
  have "unat (l_size lst + 1) = Suc (length (pre @ post))"
    using rep size by (subst unat_plus_small) (simp_all add: list_rep_def)
  then have "list_rep (lst\<lparr>l_head := (if item = 0 then c else l_head lst),
      l_tail := (if ?b = 0 then c else l_tail lst), l_size := l_size lst + 1\<rparr>) h' (pre @ c # post)"
    using rep links' fresh c(1) nulls unfolding list_rep_def hd_list_rep last_list_rep by auto
  with h' show ?thesis by blast
qed

lemma bscl_list_remove_runs:
  assumes "c \<noteq> 0" and "nxt h c = Some b" and "prv h c = Some a"
    and "a \<noteq> 0 \<Longrightarrow> nxt h a = Some c" and "b \<noteq> 0 \<Longrightarrow> prv h b = Some c"
    and "a \<noteq> c" and "b \<noteq> c" and "l_size lst \<noteq> 0"
  shows "\<exists>h'. bscl_list_remove h lst c = Some (True,
      lst\<lparr>l_head := (if a = 0 then b else l_head lst), l_tail := (if b = 0 then a else l_tail lst),
        l_size := l_size lst - 1\<rparr>, h')
    \<and> (a \<noteq> 0 \<longrightarrow> nxt h' a = Some b) \<and> (b \<noteq> 0 \<longrightarrow> prv h' b = Some a) \<and> h' c = None
    \<and> (\<forall>p. p \<noteq> a \<longrightarrow> p \<noteq> c \<longrightarrow> nxt h' p = nxt h p)
    \<and> (\<forall>p. p \<noteq> b \<longrightarrow> p \<noteq> c \<longrightarrow> prv h' p = prv h p)
    \<and> (\<forall>p. p \<noteq> c \<longrightarrow> content h' p = content h p)"
proof -
  have alive: "h c \<noteq> None" "a \<noteq> 0 \<longrightarrow> h a \<noteq> None" "b \<noteq> 0 \<longrightarrow> h b \<noteq> None"
    using assms(2,4,5) by (auto dest: field_Some)
  have free_c: "free g c = Some (g(c := None))" if "g c \<noteq> None" for g :: items
    using that assms(1) by (auto simp: free_def)
  show ?thesis
    using assms alive
    by (cases "a = 0"; cases "b = 0") (auto simp: bscl_list_remove_def free_c link_simps)
qed

lemma bscl_list_remove_spec:
  assumes rep: "list_rep lst h (pre @ c # post)"
  shows "\<exists>lst' h'. bscl_list_remove h lst c = Some (True, lst', h')
    \<and> list_rep lst' h' (pre @ post) \<and> h' c = None
    \<and> (\<forall>p. p \<noteq> c \<longrightarrow> content h' p = content h p)"
proof -
  let ?a = "last (0 # pre)" and ?b = "hd (post @ [0])"
  have l: "links h (0 # (pre @ c # post) @ [0])" and c: "c \<noteq> 0"
    using rep by (auto simp: list_rep_def)
  have cut: "0 # (pre @ c # post) @ [0] = butlast (0 # pre) @ ?a # c # ?b # tl (post @ [0])"
    using list_cut [of pre "c # post"] by simp
  note mid = links_mid [OF l [unfolded cut] c]
  have nulls: "?a = 0 \<longleftrightarrow> pre = []" "?b = 0 \<longleftrightarrow> post = []"
    using rep last_null [of pre] hd_null [of post] by (auto simp: list_rep_def)
  have "?a \<noteq> c" and "?b \<noteq> c"
    using rep c last_in_set [of pre] by (auto simp: list_rep_def, cases post, auto)
  moreover have "l_size lst \<noteq> 0"
    using rep by (auto simp: list_rep_def)
  ultimately obtain h' where h': "bscl_list_remove h lst c = Some (True,
      lst\<lparr>l_head := (if ?a = 0 then ?b else l_head lst), l_tail := (if ?b = 0 then ?a else l_tail lst),
        l_size := l_size lst - 1\<rparr>, h')"
    "?a \<noteq> 0 \<longrightarrow> nxt h' ?a = Some ?b" "?b \<noteq> 0 \<longrightarrow> prv h' ?b = Some ?a" "h' c = None"
    "\<And>p. p \<noteq> ?a \<Longrightarrow> p \<noteq> c \<Longrightarrow> nxt h' p = nxt h p" "\<And>p. p \<noteq> ?b \<Longrightarrow> p \<noteq> c \<Longrightarrow> prv h' p = prv h p"
    "\<And>p. p \<noteq> c \<Longrightarrow> content h' p = content h p"
    using bscl_list_remove_runs [OF c mid] by blast
  have "links h' (butlast (0 # pre) @ ?a # ?b # tl (post @ [0]))"
    using links_remove [OF l [unfolded cut] list_rep_simple [OF rep, unfolded cut]] h' by blast
  then have links': "links h' (0 # (pre @ post) @ [0])"
    unfolding list_cut [of pre post] .
  have "1 \<le> l_size lst"
    using rep by (auto simp: list_rep_def word_le_nat_alt)
  then have "unat (l_size lst - 1) = length (pre @ post)"
    using rep by (simp add: unat_minus_le list_rep_def)
  then have "list_rep (lst\<lparr>l_head := (if ?a = 0 then ?b else l_head lst),
      l_tail := (if ?b = 0 then ?a else l_tail lst), l_size := l_size lst - 1\<rparr>) h' (pre @ post)"
    using rep links' nulls unfolding list_rep_def hd_list_rep last_list_rep by auto
  with h' show ?thesis by blast
qed

text \<open>Items whose content has not changed.\<close>

lemma list_items_same:
  "(\<And>p. p \<noteq> c \<Longrightarrow> content h' p = content h p) \<Longrightarrow> c \<notin> set xs \<Longrightarrow> list_items h' xs = list_items h xs"
  unfolding list_items_def by (rule map_cong [OF refl]) metis

lemma list_items_simps [simp]:
  "list_items h [] = []" "list_items h (x # xs) = the (content h x) # list_items h xs"
  "list_items h (xs @ ys) = list_items h xs @ list_items h ys"
  by (simp_all add: list_items_def)

lemma list_rep_Nil: "list_rep list_init h []"
  by (simp add: list_rep_def links_def list_init_def)

lemma bscl_list_item_data_eq: "p \<noteq> 0 \<Longrightarrow> bscl_list_item_data h p = content h p"
  by (cases "h p") (simp_all add: bscl_list_item_data_def deref_def content_def)

lemma bscl_list_insert_items:
  assumes rep: "list_rep lst h (pre @ post)" and new: "malloc h = Some (c, x)" "fresh_allocator malloc"
    and size: "Suc (length (pre @ post)) < 2 ^ 64"
  shows "\<exists>lst' h'. bscl_list_insert malloc h lst (last (0 # pre)) data len = Some (True, lst', h')
    \<and> list_rep lst' h' (pre @ c # post)
    \<and> list_items h' (pre @ c # post) = list_items h pre @ (data, len) # list_items h post"
proof -
  have "c \<notin> set (pre @ post)"
    using list_rep_dom [OF rep, of c] fresh_allocatorD(2) [OF new(2,1)] by blast
  moreover obtain lst' h' where "bscl_list_insert malloc h lst (last (0 # pre)) data len = Some (True, lst', h')"
    "list_rep lst' h' (pre @ c # post)" "content h' c = Some (data, len)"
    "\<And>p. p \<noteq> c \<Longrightarrow> content h' p = content h p"
    using bscl_list_insert_spec [OF rep new size refl] by blast
  ultimately show ?thesis
    using list_items_same [of c h' h pre] list_items_same [of c h' h post] by simp
qed

lemma bscl_list_remove_items:
  assumes rep: "list_rep lst h (pre @ c # post)"
  shows "\<exists>lst' h'. bscl_list_remove h lst c = Some (True, lst', h') \<and> list_rep lst' h' (pre @ post)
    \<and> list_items h' (pre @ post) = list_items h pre @ list_items h post \<and> h' c = None"
proof -
  have "c \<notin> set (pre @ post)"
    using rep by (auto simp: list_rep_def)
  moreover obtain lst' h' where "bscl_list_remove h lst c = Some (True, lst', h')"
    "list_rep lst' h' (pre @ post)" "h' c = None" "\<And>p. p \<noteq> c \<Longrightarrow> content h' p = content h p"
    using bscl_list_remove_spec [OF rep] by blast
  ultimately show ?thesis
    using list_items_same [of c h' h pre] list_items_same [of c h' h post] by simp
qed

section \<open>The queue interface\<close>

text \<open>
  A record of a use of the queue: each push with the state of the memory before it and its success, each
  pop with what it delivered. \<open>replay\<close> says which records are those of a first-in first-out queue
  whose pushes succeed exactly if there is memory.
\<close>

datatype 'd event = Pushed 'd bool bool | Popped 'd

fun replay :: "'d \<Rightarrow> 'd list \<Rightarrow> 'd event list \<Rightarrow> 'd list option" where
  "replay null q [] = Some q"
| "replay null q (Pushed x memory ok # es) =
     (if ok = memory then replay null (if ok then q @ [x] else q) es else None)"
| "replay null [] (Popped x # es) = (if x = null then replay null [] es else None)"
| "replay null (y # q) (Popped x # es) = (if x = y then replay null q es else None)"

text \<open>A use of a queue: \<open>Some x\<close> pushes \<open>x\<close>, \<open>None\<close> pops.\<close>

fun use_queue ::
    "('s \<Rightarrow> bool) \<Rightarrow> ('s \<Rightarrow> 'd \<Rightarrow> (bool \<times> 's) option) \<Rightarrow> ('s \<Rightarrow> ('d \<times> 's) option) \<Rightarrow> 's
       \<Rightarrow> 'd option list \<Rightarrow> ('d event list \<times> 's) option" where
  "use_queue room push pop s [] = Some ([], s)"
| "use_queue room push pop s (Some x # ops) = do {
     let memory = room s;
     (ok, s) \<leftarrow> push s x;
     (es, s) \<leftarrow> use_queue room push pop s ops;
     Some (Pushed x memory ok # es, s)
   }"
| "use_queue room push pop s (None # ops) = do {
     (x, s) \<leftarrow> pop s;
     (es, s) \<leftarrow> use_queue room push pop s ops;
     Some (Popped x # es, s)
   }"

locale pointer_queue =
  fixes holds :: "'s \<Rightarrow> 'd list \<Rightarrow> bool"
    and room :: "'s \<Rightarrow> bool"
    and push :: "'s \<Rightarrow> 'd \<Rightarrow> (bool \<times> 's) option"
    and pop :: "'s \<Rightarrow> ('d \<times> 's) option"
    and null :: 'd and bound :: nat
  assumes push: "holds s q \<Longrightarrow> Suc (length q) < bound
      \<Longrightarrow> \<exists>s'. push s x = Some (room s, s') \<and> holds s' (if room s then q @ [x] else q)"
    and pop: "holds s (x # q) \<Longrightarrow> \<exists>s'. pop s = Some (x, s') \<and> holds s' q"
    and pop_empty: "holds s [] \<Longrightarrow> pop s = Some (null, s)"
begin

lemma use_replays:
  "holds s q \<Longrightarrow> length q + length ops < bound
     \<Longrightarrow> \<exists>es s' q'. use_queue room push pop s ops = Some (es, s') \<and> replay null q es = Some q'
       \<and> holds s' q'"
proof (induction ops arbitrary: s q)
  case (Cons opn ops)
  show ?case
  proof (cases opn)
    case (Some x)
    obtain s1 where s1: "push s x = Some (room s, s1)" "holds s1 (if room s then q @ [x] else q)"
      using push [OF Cons.prems(1)] Cons.prems(2) by fastforce
    moreover have "length (if room s then q @ [x] else q) + length ops < bound"
      using Cons.prems(2) by simp
    ultimately show ?thesis
      using Cons.IH [OF s1(2)] Some by auto
  next
    case None
    show ?thesis
    proof (cases q)
      case Nil
      then show ?thesis
        using Cons None pop_empty by fastforce
    next
      case (Cons x q1)
      then obtain s1 where "pop s = Some (x, s1)" "holds s1 q1"
        using pop Cons.prems(1) by blast
      then show ?thesis
        using Cons.IH [of s1 q1] Cons.prems(2) Cons None by fastforce
    qed
  qed
qed auto

end

text \<open>The state of the queue of the library: the allocator, the list and the heap.\<close>

type_synonym queue_state = "bscl_list_item_t allocator \<times> bscl_list_t \<times> items"

definition queue_holds :: "queue_state \<Rightarrow> (addr \<times> u64) list \<Rightarrow> bool" where
  "queue_holds = (\<lambda>(malloc, lst, h) q. fresh_allocator malloc
     \<and> (\<exists>xs. list_rep lst h xs \<and> list_items h xs = rev q))"

text \<open>Memory for one more item.\<close>

definition queue_room :: "queue_state \<Rightarrow> bool" where
  "queue_room = (\<lambda>(malloc, lst, h). malloc h \<noteq> None)"

definition queue_push_step :: "queue_state \<Rightarrow> addr \<times> u64 \<Rightarrow> (bool \<times> queue_state) option" where
  "queue_push_step = (\<lambda>(malloc, lst, h) (data, len). do {
     (ok, lst, h) \<leftarrow> bscl_queue_push malloc h lst data len;
     Some (ok, malloc, lst, h)
   })"

definition queue_pop_step :: "queue_state \<Rightarrow> ((addr \<times> u64) \<times> queue_state) option" where
  "queue_pop_step = (\<lambda>(malloc, lst, h). do {
     (d, lst, h) \<leftarrow> bscl_queue_pop h lst;
     Some (d, malloc, lst, h)
   })"

lemma queue_push_ok:
  assumes "queue_holds s q" and "Suc (length q) < 2 ^ 64"
  shows "\<exists>s'. queue_push_step s d = Some (queue_room s, s')
    \<and> queue_holds s' (if queue_room s then q @ [d] else q)"
proof -
  obtain malloc lst h data len xs where s: "s = (malloc, lst, h)" "d = (data, len)"
    "fresh_allocator malloc" "list_rep lst h xs" "list_items h xs = rev q"
    using assms(1) by (cases s, cases d) (auto simp: queue_holds_def)
  have "length xs = length q"
    using s(5) by (metis length_map length_rev list_items_def)
  show ?thesis
  proof (cases "malloc h")
    case None
    then show ?thesis
      using s assms(1) by (auto simp: queue_push_step_def queue_room_def bscl_queue_push_def bscl_list_insert_def)
  next
    case (Some cx)
    obtain c x where c: "malloc h = Some (c, x)"
      using Some by (cases cx) auto
    have "list_rep lst h ([] @ xs)" and "Suc (length ([] @ xs)) < 2 ^ 64"
      using s(4) assms(2) \<open>length xs = _\<close> by simp_all
    from bscl_list_insert_items [OF this(1) c s(3) this(2), of data len] obtain lst' h' where
      "bscl_list_insert malloc h lst 0 data len = Some (True, lst', h')"
      "list_rep lst' h' (c # xs)" "list_items h' (c # xs) = (data, len) # list_items h xs"
      by auto
    then have "queue_push_step s d = Some (True, malloc, lst', h')"
      using s(1,2) by (simp add: queue_push_step_def bscl_queue_push_def)
    moreover have "list_items h' (c # xs) = rev (q @ [d])"
      using \<open>list_items h' (c # xs) = _\<close> s(2,5) by (simp only: rev_append rev.simps append.simps)
    then have "queue_holds (malloc, lst', h') (q @ [d])"
      unfolding queue_holds_def prod.case using s(3) \<open>list_rep lst' h' (c # xs)\<close> by blast
    moreover have "queue_room s"
      using s(1) c by (simp add: queue_room_def)
    ultimately show ?thesis
      by (intro exI [of _ "(malloc, lst', h')"]) (simp only: if_True simp_thms)
  qed
qed

lemma queue_pop_ok:
  assumes "queue_holds s (d # q)"
  shows "\<exists>s'. queue_pop_step s = Some (d, s') \<and> queue_holds s' q"
proof -
  obtain malloc lst h xs where s: "s = (malloc, lst, h)"
    "fresh_allocator malloc" "list_rep lst h xs" "list_items h xs = rev q @ [d]"
    using assms by (cases s) (auto simp: queue_holds_def)
  then obtain ys c where xs: "xs = ys @ [c]"
    by (cases xs rule: rev_cases) auto
  then have items: "list_items h ys = rev q" "the (content h c) = d"
    using s(4) by simp_all
  have c: "l_tail lst = c" "c \<noteq> 0" "h c \<noteq> None"
    using s(3) xs list_rep_dom [OF s(3), of c] by (auto simp: list_rep_def)
  then have "bscl_list_item_data h c = Some d"
    using items(2) by (auto simp: bscl_list_item_data_eq content_def)
  moreover obtain lst' h' where "bscl_list_remove h lst c = Some (True, lst', h')" "list_rep lst' h' ys"
    "list_items h' ys = list_items h ys"
    using bscl_list_remove_items [of lst h ys c "[]"] s(3) xs by auto
  ultimately have "queue_pop_step s = Some (d, malloc, lst', h')" "queue_holds (malloc, lst', h') q"
    using s(1,2) c items(1)
    by (auto simp: queue_pop_step_def bscl_queue_pop_def bscl_list_tail_def queue_holds_def)
  then show ?thesis by blast
qed

lemma queue_pop_empty: "queue_holds s [] \<Longrightarrow> queue_pop_step s = Some ((0, 0), s)"
  by (auto simp: queue_holds_def queue_pop_step_def bscl_queue_pop_def bscl_list_tail_def
      list_items_def list_rep_def)

interpretation list_queue: pointer_queue queue_holds queue_room queue_push_step queue_pop_step "(0, 0)" "2 ^ 64"
  by unfold_locales (fact queue_push_ok queue_pop_ok queue_pop_empty)+

section \<open>Destruction\<close>

lemma deninit_loop_undefined:
  "links h (x # xs @ [0]) \<Longrightarrow> distinct (x # xs) \<Longrightarrow> 0 \<notin> set (x # xs) \<Longrightarrow> deninit_loop h x = None"
proof (induction xs arbitrary: h x)
  case Nil
  then show ?case
    by (subst deninit_loop.simps) (auto simp: links_def link_simps)
next
  case (Cons y xs)
  have y: "nxt h x = Some y" "prv h y = Some x"
    using Cons.prems by (auto simp: links_def)
  then have "free h x = Some (h(x := None))"
    using Cons.prems(3) by (auto simp: free_def dest: field_Some)
  moreover have "links (h(x := None)) (y # xs @ [0])"
  proof -
    have "nexts h (y # xs @ [0])" and "prevs h (y # xs @ [0])"
      using Cons.prems(1) by (simp_all add: links_def)
    moreover have "x \<notin> set (butlast (y # xs @ [0]))" and "x \<notin> set (tl (y # xs @ [0]))"
      using Cons.prems(2,3) by (auto simp: butlast_append)
    ultimately show ?thesis
      by (auto simp: links_def link_simps elim!: nexts_frame prevs_frame)
  qed
  then have "deninit_loop (h(x := None)) y = None"
    by (rule Cons.IH) (use Cons.prems in simp_all)
  ultimately show ?case
    using y Cons.prems(3) by (subst deninit_loop.simps) (simp add: link_simps)
qed

section \<open>Properties\<close>

text \<open>A list of two items and an allocator for two more, for the applications below.\<close>

definition two_items :: items where
  "two_items = [1 \<mapsto> \<lparr>l_next = 2, l_prev = 0, item_data = 11, item_len = 5\<rparr>,
                2 \<mapsto> \<lparr>l_next = 0, l_prev = 1, item_data = 12, item_len = 6\<rparr>]"

definition two_list :: bscl_list_t where
  "two_list = \<lparr>l_head = 1, l_tail = 2, l_size = 2\<rparr>"

definition small_malloc :: "bscl_list_item_t allocator" where
  "small_malloc h = (if h 3 = None then Some (3, \<lparr>l_next = 7, l_prev = 7, item_data = 7, item_len = 7\<rparr>)
     else if h 4 = None then Some (4, \<lparr>l_next = 8, l_prev = 8, item_data = 8, item_len = 8\<rparr>)
     else None)"

lemma two_list_rep: "list_rep two_list two_items [1, 2]"
  by (simp add: list_rep_def links_def nxt_def prv_def two_list_def two_items_def)

lemma small_malloc_fresh: "fresh_allocator small_malloc"
  by (auto simp: fresh_allocator_def small_malloc_def split: if_splits)

text \<open>
  \<open>bscl_list_insert\<close> on a well-formed list returns \<open>false\<close> and changes nothing when memory
  is short; otherwise it puts the new item in front (for a null position) or right behind the
  given item, in both directions of linking, with the size, head and tail kept right and every
  other item's data untouched.
\<close>

lemma bscl_list_insert_places:
  assumes "list_rep lst h (pre @ post)" and "fresh_allocator malloc"
    and "Suc (length (pre @ post)) < 2 ^ 64"
  shows "case malloc h of
      None \<Rightarrow> bscl_list_insert malloc h lst (last (0 # pre)) data len = Some (False, lst, h)
    | Some (c, x) \<Rightarrow> \<exists>lst' h'.
        bscl_list_insert malloc h lst (last (0 # pre)) data len = Some (True, lst', h')
        \<and> list_rep lst' h' (pre @ c # post)
        \<and> list_items h' (pre @ c # post) = list_items h pre @ (data, len) # list_items h post"
proof (cases "malloc h")
  case None
  then show ?thesis by (simp add: bscl_list_insert_def)
next
  case (Some cx)
  obtain c x where cx: "cx = (c, x)" by (cases cx)
  show ?thesis
    unfolding Some cx option.case prod.case
    by (rule bscl_list_insert_items [OF assms(1) Some [unfolded cx] assms(2,3)])
qed

lemma bscl_list_insert_places_witness:
  "\<exists>lst' h'. bscl_list_insert small_malloc two_items two_list 1 20 9 = Some (True, lst', h')
    \<and> list_rep lst' h' [1, 3, 2]"
proof -
  have "list_rep two_list two_items ([1] @ [2])"
    using two_list_rep by simp
  from bscl_list_insert_places [OF this small_malloc_fresh, of 20 9] show ?thesis
    by (auto simp: small_malloc_def two_items_def)
qed

text \<open>
  \<open>bscl_list_remove\<close> takes exactly the given item out of a well-formed list (first, middle
  or last), frees it, and leaves the data and the order of the others.
\<close>

lemma bscl_list_remove_unlinks:
  assumes "list_rep lst h (pre @ c # post)"
  shows "\<exists>lst' h'. bscl_list_remove h lst c = Some (True, lst', h') \<and> list_rep lst' h' (pre @ post)
    \<and> list_items h' (pre @ post) = list_items h pre @ list_items h post \<and> h' c = None"
  by (rule bscl_list_remove_items [OF assms])

lemma bscl_list_remove_unlinks_witness:
  "\<exists>lst' h'. bscl_list_remove two_items two_list 1 = Some (True, lst', h') \<and> list_rep lst' h' [2]"
proof -
  have "list_rep two_list two_items ([] @ 1 # [2])"
    using two_list_rep by simp
  from bscl_list_remove_unlinks [OF this] show ?thesis by auto
qed

text \<open>
  C16: whatever sequence of pushes and pops is run on the queue, every operation returns, the
  pops deliver the data and lengths of the successful pushes in their order, a pop of the empty
  queue delivers a null pointer and length 0, and a push succeeds exactly if \<open>malloc\<close> has
  memory for the item at that moment.
\<close>

theorem bscl_queue_fifo:
  assumes "list_rep lst h xs" and "fresh_allocator malloc" and "length xs + length ops < 2 ^ 64"
  shows "\<exists>es malloc' lst' h' xs' q.
    use_queue queue_room queue_push_step queue_pop_step (malloc, lst, h) ops = Some (es, malloc', lst', h')
    \<and> replay (0, 0) (rev (list_items h xs)) es = Some q
    \<and> list_rep lst' h' xs' \<and> list_items h' xs' = rev q"
proof -
  have holds: "queue_holds (malloc, lst, h) (rev (list_items h xs))"
    using assms(1,2) by (auto simp: queue_holds_def)
  have "length (rev (list_items h xs)) = length xs"
    by (simp add: list_items_def)
  with assms(3) have "length (rev (list_items h xs)) + length ops < 2 ^ 64"
    by simp
  from list_queue.use_replays [OF holds this] obtain es s' q where
    "use_queue queue_room queue_push_step queue_pop_step (malloc, lst, h) ops = Some (es, s')"
    "replay (0, 0) (rev (list_items h xs)) es = Some q" "queue_holds s' q"
    by blast
  then show ?thesis
    by (cases s') (auto simp: queue_holds_def)
qed

lemma bscl_queue_fifo_witness:
  "\<exists>es malloc' lst' h' q. use_queue queue_room queue_push_step queue_pop_step (small_malloc, two_list, two_items)
      [Some (20, 1), None, None, None, None] = Some (es, malloc', lst', h')
    \<and> replay (0, 0) [(12, 6), (11, 5)] es = Some q"
proof -
  have "rev (list_items two_items [1, 2]) = [(12, 6), (11, 5)]"
    by (simp add: content_def two_items_def)
  with bscl_queue_fifo [OF two_list_rep small_malloc_fresh, of "[Some (20, 1), None, None, None, None]"]
  show ?thesis by auto
qed

text \<open>
  \<open>bscl_list_deninit\<close> and \<open>bscl_list_delete\<close> are defined only on an empty list: on any
  other well-formed list the loop steps past the last item and reads the \<open>prev\<close> field of the
  null pointer.
\<close>

lemma bscl_list_deninit_only_empty:
  assumes "list_rep lst h xs"
  shows "bscl_list_deninit h lst = (if xs = [] then Some h else None)
    \<and> bscl_list_delete h lst = (if xs = [] then Some h else None)"
proof (cases xs)
  case Nil
  then have "deninit_loop h (l_head lst) = Some h"
    using assms by (subst deninit_loop.simps) (simp add: list_rep_def)
  then show ?thesis
    using Nil by (simp add: bscl_list_deninit_def bscl_list_delete_def)
next
  case (Cons x ys)
  then have "deninit_loop h x = None" and "l_head lst = x"
    using assms by (auto intro!: deninit_loop_undefined simp: list_rep_def links_def)
  then show ?thesis
    using Cons by (simp add: bscl_list_deninit_def bscl_list_delete_def)
qed

lemma bscl_list_deninit_only_empty_witness: "bscl_list_delete two_items two_list = None"
  using bscl_list_deninit_only_empty [OF two_list_rep] by simp

end
