(* ===== verification/Hashmap.thy ===== *)
theory Hashmap
  imports Links
begin

text \<open>
  The hash map of \<open>src/bscl_hashmap.c\<close>: an array of bucket pointers, each to a chain of items
  in the heap that are linked by the macros of \<open>include/bscl_list_head.h\<close> and end in null
  pointers. An item is a list head with the bytes of the key and of the value behind it.

  The hash function is a parameter, as in the code. Sizes are natural numbers: the sum of the
  sizes of an item is taken not to overflow.
\<close>

section \<open>The code\<close>

text \<open>\<open>bscl_byteCmp\<close> of \<open>src/bscl_common.c\<close>; its counter has 32 bits.\<close>

partial_function (option) byteCmp_loop :: "u8 list \<Rightarrow> u8 list \<Rightarrow> nat \<Rightarrow> u32 \<Rightarrow> bool option" where
  "byteCmp_loop b1 b2 len i =
     (if unat i < len then do {
        x \<leftarrow> mem_read b1 (unat i) 1;
        y \<leftarrow> mem_read b2 (unat i) 1;
        if x \<noteq> y then Some False else byteCmp_loop b1 b2 len (i + 1)
      } else Some True)"

declare byteCmp_loop.simps [code]

definition bscl_byteCmp :: "u8 list \<Rightarrow> u8 list \<Rightarrow> nat \<Rightarrow> bool option" where
  "bscl_byteCmp b1 b2 len = byteCmp_loop b1 b2 len 0"

record hashmap_item = link +
  hm_bytes :: "u8 list"

type_synonym hm_heap = "hashmap_item heap"

text \<open>\<open>buck\<close> is \<open>None\<close> for a null pointer.\<close>

record bscl_hashmap_t =
  key_size :: nat
  buck :: "addr list option"
  buck_len :: nat
  hash :: "u8 list \<Rightarrow> nat"

definition bscl_hashmap_defalthash :: "u8 list \<Rightarrow> nat" where
  "bscl_hashmap_defalthash key = 0"

text \<open>\<open>ok\<close> and \<open>buck_ok\<close>: the two allocations succeed.\<close>

definition bscl_hashmap_new ::
    "bool \<Rightarrow> bool \<Rightarrow> nat \<Rightarrow> nat \<Rightarrow> (u8 list \<Rightarrow> nat) option \<Rightarrow> bscl_hashmap_t option" where
  "bscl_hashmap_new ok buck_ok ksz blen hsh =
     (if ok then Some \<lparr>key_size = ksz, buck = (if buck_ok then Some (replicate blen 0) else None),
        buck_len = blen,
        hash = (case hsh of Some f \<Rightarrow> f | None \<Rightarrow> bscl_hashmap_defalthash)\<rparr>
      else None)"

definition bucket :: "bscl_hashmap_t \<Rightarrow> nat \<Rightarrow> addr option" where
  "bucket m i = do { b \<leftarrow> buck m; guard (i < length b); Some (b ! i) }"

definition set_bucket :: "bscl_hashmap_t \<Rightarrow> nat \<Rightarrow> addr \<Rightarrow> bscl_hashmap_t option" where
  "set_bucket m i p = do { b \<leftarrow> buck m; guard (i < length b); Some (m\<lparr>buck := Some (b[i := p])\<rparr>) }"

text \<open>Without memory for the item the code aborts.\<close>

definition bscl_hashmap_set ::
    "hashmap_item allocator \<Rightarrow> hm_heap \<Rightarrow> bscl_hashmap_t \<Rightarrow> u8 list \<Rightarrow> u8 list \<Rightarrow> nat
       \<Rightarrow> (bscl_hashmap_t \<times> hm_heap) option" where
  "bscl_hashmap_set malloc h this key val value_size = do {
     let index = hash this key;
     (item, x) \<leftarrow> malloc h;
     let h = h(item \<mapsto> x);
     ks \<leftarrow> mem_read key 0 (key_size this);
     vs \<leftarrow> mem_read val 0 value_size;
     h \<leftarrow> assign h item (\<lambda>x. x\<lparr>hm_bytes := ks @ vs\<rparr>);
     b \<leftarrow> bucket this index;
     h \<leftarrow> (if b \<noteq> 0 then bscl_list_head_insert_prev h b item
       else do { h \<leftarrow> set_prev h item 0; set_next h item 0 });
     this \<leftarrow> set_bucket this index item;
     Some (this, h)
   }"

partial_function (option) hashmap_find_loop ::
    "hm_heap \<Rightarrow> nat \<Rightarrow> u8 list \<Rightarrow> addr \<Rightarrow> addr option" where
  "hashmap_find_loop h ksz key p =
     (if p \<noteq> 0 then do {
        x \<leftarrow> deref h p;
        eq \<leftarrow> bscl_byteCmp (hm_bytes x) key ksz;
        if eq then Some p else do {
          n \<leftarrow> get_next h p;
          hashmap_find_loop h ksz key n
        }
      } else Some 0)"

declare hashmap_find_loop.simps [code]

definition bscl_hashmap_find :: "hm_heap \<Rightarrow> bscl_hashmap_t \<Rightarrow> u8 list \<Rightarrow> addr option" where
  "bscl_hashmap_find h this key = do {
     let index = hash this key;
     b \<leftarrow> bucket this index;
     hashmap_find_loop h (key_size this) key b
   }"

text \<open>The result is the bytes the returned pointer points to, or \<open>None\<close> for null.\<close>

definition bscl_hashmap_get ::
    "hm_heap \<Rightarrow> bscl_hashmap_t \<Rightarrow> u8 list \<Rightarrow> (u8 list option \<times> hm_heap) option" where
  "bscl_hashmap_get h this key = do {
     p \<leftarrow> bscl_hashmap_find h this key;
     if p \<noteq> 0 then do {
       h \<leftarrow> bscl_list_head_remove h p;
       b \<leftarrow> bucket this (hash this key);
       h \<leftarrow> bscl_list_head_insert_prev h b p;
       x \<leftarrow> deref h p;
       Some (Some (drop (key_size this) (hm_bytes x)), h)
     } else Some (None, h)
   }"

definition bscl_hashmap_remove :: "hm_heap \<Rightarrow> bscl_hashmap_t \<Rightarrow> u8 list \<Rightarrow> hm_heap option" where
  "bscl_hashmap_remove h this key = do {
     p \<leftarrow> bscl_hashmap_find h this key;
     if p \<noteq> 0 then do {
       h \<leftarrow> bscl_list_head_remove h p;
       free h p
     } else Some h
   }"

partial_function (option) free_chain :: "hm_heap \<Rightarrow> addr \<Rightarrow> hm_heap option" where
  "free_chain h p =
     (if p \<noteq> 0 then do {
        temp \<leftarrow> get_next h p;
        h \<leftarrow> free h p;
        free_chain h temp
      } else Some h)"

declare free_chain.simps [code]

text \<open>\<open>n\<close> buckets are left, the next is \<open>i\<close>. The map itself is gone afterwards.\<close>

fun free_buckets :: "hm_heap \<Rightarrow> bscl_hashmap_t \<Rightarrow> nat \<Rightarrow> nat \<Rightarrow> hm_heap option" where
  "free_buckets h this i 0 = Some h"
| "free_buckets h this i (Suc n) = do {
     p \<leftarrow> bucket this i;
     h \<leftarrow> free_chain h p;
     free_buckets h this (i + 1) n
   }"

definition bscl_hashmap_delete :: "hm_heap \<Rightarrow> bscl_hashmap_t \<Rightarrow> hm_heap option" where
  "bscl_hashmap_delete h this = free_buckets h this 0 (buck_len this)"

section \<open>Searching a chain\<close>

lemma byteCmp_loop_spec:
  "len < 2 ^ 32 \<Longrightarrow> len \<le> length b1 \<Longrightarrow> len \<le> length b2 \<Longrightarrow> unat i \<le> len
     \<Longrightarrow> byteCmp_loop b1 b2 len i
       = Some (take (len - unat i) (drop (unat i) b1) = take (len - unat i) (drop (unat i) b2))"
proof (induction "len - unat i" arbitrary: i)
  case 0
  then show ?case
    by (subst byteCmp_loop.simps) simp
next
  case (Suc n)
  then have lt: "unat i < len" and next_i: "unat (i + 1) = unat i + 1"
    by (auto simp: unat_plus_small)
  have "byteCmp_loop b1 b2 len (i + 1)
      = Some (take (len - unat (i + 1)) (drop (unat (i + 1)) b1)
            = take (len - unat (i + 1)) (drop (unat (i + 1)) b2))"
    using Suc by (intro Suc.hyps(1)) (simp_all add: next_i)
  moreover have "take (len - unat i) (drop (unat i) b)
      = b ! unat i # take (len - unat (i + 1)) (drop (unat (i + 1)) b)" if "len \<le> length b"
    for b :: "u8 list"
    using that lt by (simp add: next_i take_Suc_conv_app_nth Cons_nth_drop_Suc [symmetric] take_Cons'
        flip: Suc_diff_Suc)
  moreover have "mem_read b (unat i) 1 = Some [b ! unat i]" if "len \<le> length b" for b :: "u8 list"
    using that lt by (simp add: mem_read_def take_Suc_conv_app_nth hd_drop_conv_nth [symmetric] take_Suc)
  ultimately show ?case
    using Suc.prems lt by (subst byteCmp_loop.simps) simp
qed

lemma bscl_byteCmp_eq:
  "len < 2 ^ 32 \<Longrightarrow> len \<le> length b1 \<Longrightarrow> len \<le> length b2
     \<Longrightarrow> bscl_byteCmp b1 b2 len = Some (take len b1 = take len b2)"
  using byteCmp_loop_spec [of len b1 b2 0] by (simp add: bscl_byteCmp_def)

definition bytes_at :: "hm_heap \<Rightarrow> addr \<Rightarrow> u8 list" where
  "bytes_at h p = (case h p of None \<Rightarrow> [] | Some x \<Rightarrow> hm_bytes x)"

definition key_at :: "nat \<Rightarrow> hm_heap \<Rightarrow> addr \<Rightarrow> u8 list" where
  "key_at ksz h p = take ksz (bytes_at h p)"

definition value_at :: "nat \<Rightarrow> hm_heap \<Rightarrow> addr \<Rightarrow> u8 list" where
  "value_at ksz h p = drop ksz (bytes_at h p)"

definition first_match :: "nat \<Rightarrow> hm_heap \<Rightarrow> u8 list \<Rightarrow> addr list \<Rightarrow> addr" where
  "first_match ksz h key xs = (case List.find (\<lambda>p. key_at ksz h p = take ksz key) xs of
     None \<Rightarrow> 0 | Some p \<Rightarrow> p)"

lemma hashmap_find_loop_spec:
  "nexts h (xs @ [0]) \<Longrightarrow> 0 \<notin> set xs \<Longrightarrow> ksz < 2 ^ 32 \<Longrightarrow> ksz \<le> length key
     \<Longrightarrow> (\<And>p. p \<in> set xs \<Longrightarrow> ksz \<le> length (bytes_at h p))
     \<Longrightarrow> hashmap_find_loop h ksz key (hd (xs @ [0])) = Some (first_match ksz h key xs)"
proof (induction xs)
  case Nil
  then show ?case
    by (subst hashmap_find_loop.simps) (simp add: first_match_def)
next
  case (Cons p xs)
  have "nxt h p = Some (hd (xs @ [0]))" and ns: "nexts h (xs @ [0])"
    using Cons.prems(1,2) by (cases xs; simp)+
  moreover from this obtain x where x: "h p = Some x"
    by (auto simp: nxt_def)
  moreover have "bscl_byteCmp (hm_bytes x) key ksz = Some (key_at ksz h p = take ksz key)"
    using Cons.prems(3,4) Cons.prems(5) [of p] x
    by (simp add: bscl_byteCmp_eq key_at_def bytes_at_def)
  moreover have "hashmap_find_loop h ksz key (hd (xs @ [0])) = Some (first_match ksz h key xs)"
    using Cons.prems ns by (intro Cons.IH) simp_all
  ultimately show ?case
    using Cons.prems(2)
    by (subst hashmap_find_loop.simps) (simp add: deref_def get_next_eq first_match_def)
qed

section \<open>Maps in the heap\<close>

text \<open>\<open>cs\<close> holds the items of each bucket, first to last.\<close>

definition hm_rep :: "bscl_hashmap_t \<Rightarrow> hm_heap \<Rightarrow> addr list list \<Rightarrow> bool" where
  "hm_rep m h cs \<longleftrightarrow> buck m = Some (map (\<lambda>xs. hd (xs @ [0])) cs) \<and> buck_len m = length cs
     \<and> (\<forall>xs \<in> set cs. links h (0 # xs @ [0])) \<and> distinct (concat cs) \<and> 0 \<notin> set (concat cs)
     \<and> (\<forall>p \<in> set (concat cs). key_size m \<le> length (bytes_at h p)) \<and> key_size m < 2 ^ 32"

definition chain_items :: "nat \<Rightarrow> hm_heap \<Rightarrow> addr list \<Rightarrow> (u8 list \<times> u8 list) list" where
  "chain_items ksz h xs = map (\<lambda>p. (key_at ksz h p, value_at ksz h p)) xs"

definition hm_lookup :: "bscl_hashmap_t \<Rightarrow> hm_heap \<Rightarrow> addr list list \<Rightarrow> u8 list \<Rightarrow> u8 list option" where
  "hm_lookup m h cs key = map_of (chain_items (key_size m) h (cs ! hash m key)) (take (key_size m) key)"

lemma hm_bytes_more: "link.more x = link.more y \<Longrightarrow> hm_bytes x = hm_bytes y"
  for x y :: hashmap_item
  by (cases x rule: hashmap_item.cases; cases y rule: hashmap_item.cases) simp

lemma chain_items_Cons [simp]:
  "chain_items ksz h (x # xs) = (key_at ksz h x, value_at ksz h x) # chain_items ksz h xs"
  by (simp add: chain_items_def)

lemma bytes_at_rest: "rest h' p = rest h p \<Longrightarrow> bytes_at h' p = bytes_at h p"
  for h h' :: hm_heap
  by (cases "h p"; cases "h' p") (auto simp: rest_def bytes_at_def dest: hm_bytes_more)

lemma chain_items_cong:
  "(\<And>p. p \<in> set xs \<Longrightarrow> bytes_at h' p = bytes_at h p) \<Longrightarrow> chain_items ksz h' xs = chain_items ksz h xs"
  by (auto simp: chain_items_def key_at_def value_at_def)

lemma bytes_at_alive: "bytes_at h p \<noteq> [] \<Longrightarrow> h p \<noteq> None"
  by (auto simp: bytes_at_def split: option.splits)

lemma first_match_items:
  "0 \<notin> set xs \<Longrightarrow> first_match ksz h key xs \<noteq> 0
     \<longleftrightarrow> map_of (chain_items ksz h xs) (take ksz key) \<noteq> None"
  "first_match ksz h key xs = p \<Longrightarrow> p \<noteq> 0
     \<Longrightarrow> map_of (chain_items ksz h xs) (take ksz key) = Some (value_at ksz h p)"
  by (induction xs) (auto simp: first_match_def chain_items_def split: if_splits)

lemma first_match_in: "first_match ksz h key xs = p \<Longrightarrow> p \<noteq> 0 \<Longrightarrow> p \<in> set xs"
  by (auto simp: first_match_def find_Some_iff split: option.splits)

lemma hm_repD:
  assumes "hm_rep m h cs" and "i < length cs"
  shows "bucket m i = Some (hd (cs ! i @ [0]))" "links h (0 # cs ! i @ [0])" "distinct (cs ! i)"
    "0 \<notin> set (cs ! i)" "p \<in> set (cs ! i) \<Longrightarrow> key_size m \<le> length (bytes_at h p)"
    "key_size m < 2 ^ 32" "p \<in> set (cs ! i) \<Longrightarrow> h p \<noteq> None"
proof -
  have i: "cs ! i \<in> set cs"
    using assms(2) by simp
  show "bucket m i = Some (hd (cs ! i @ [0]))"
    using assms by (simp add: hm_rep_def bucket_def)
  show l: "links h (0 # cs ! i @ [0])" and "0 \<notin> set (cs ! i)" and "key_size m < 2 ^ 32"
    using assms(1) i by (auto simp: hm_rep_def)
  show "distinct (cs ! i)"
    using assms(1) i by (auto simp: hm_rep_def distinct_concat_iff)
  show "key_size m \<le> length (bytes_at h p)" if "p \<in> set (cs ! i)"
    using assms(1) i that by (auto simp: hm_rep_def)
  show "h p \<noteq> None" if "p \<in> set (cs ! i)"
    using nexts_dom [of h "0 # cs ! i @ [0]" p] l \<open>0 \<notin> set (cs ! i)\<close> that
    by (auto simp: links_def butlast_append)
qed

section \<open>The operations\<close>

lemma bscl_hashmap_find_eq:
  assumes "hm_rep m h cs" and "hash m key < length cs" and "key_size m \<le> length key"
  shows "bscl_hashmap_find h m key = Some (first_match (key_size m) h key (cs ! hash m key))"
proof -
  note D = hm_repD [OF assms(1,2)]
  have "nexts h (cs ! hash m key @ [0])"
    using D(2) by (cases "cs ! hash m key") (auto simp: links_def)
  from hashmap_find_loop_spec [OF this D(4,6) assms(3) D(5)] show ?thesis
    using D(1) by (simp add: bscl_hashmap_find_def)
qed

text \<open>A new item in front of a chain.\<close>

lemma hashmap_link_front:
  assumes "links h (0 # xs @ [0])" and "0 \<notin> set xs" and "distinct xs"
    and "c \<noteq> 0" and "h c \<noteq> None" and "c \<notin> set xs"
  shows "\<exists>h'. (let b = hd (xs @ [0]) in if b \<noteq> 0 then bscl_list_head_insert_prev h b c
      else do { h \<leftarrow> set_prev h c 0; set_next h c 0 }) = Some h'
    \<and> links h' (0 # (c # xs) @ [0]) \<and> (\<forall>p. rest h' p = rest h p)
    \<and> (\<forall>p. p \<notin> set (c # xs) \<longrightarrow> nxt h' p = nxt h p \<and> prv h' p = prv h p)"
proof (cases xs)
  case Nil
  then show ?thesis
    using assms(4,5) by (simp add: link_simps links_def)
next
  case (Cons b ys)
  then have b: "b \<noteq> 0" "b \<noteq> c" "prv h b = Some 0"
    using assms(1,2,6) links_mid(2) [of h "[]" 0 b "hd (ys @ [0])" "tl (ys @ [0])"] by auto
  obtain h' where h': "bscl_list_head_insert_prev h b c = Some h'" "nxt h' c = Some b" "prv h' c = Some 0"
    "prv h' b = Some c" "\<And>p. p \<noteq> c \<Longrightarrow> nxt h' p = nxt h p" "\<And>p. p \<noteq> b \<Longrightarrow> p \<noteq> c \<Longrightarrow> prv h' p = prv h p"
    "\<And>p. rest h' p = rest h p"
    using list_head_insert_prev_runs [of b c h 0] b assms(4,5) by blast
  have s: "simple ([] @ 0 # b # ys @ [0])"
    using assms(2,3) Cons by (auto simp: simple_def butlast_append)
  have "links h ([] @ 0 # b # ys @ [0])"
    using assms(1) Cons by simp
  from links_insert [OF this s, of c h'] have "links h' (0 # c # b # ys @ [0])"
    using h' assms(4,6) Cons by simp
  then show ?thesis
    using h' b(1) Cons by auto
qed

text \<open>Chains whose fields do not change stay chains.\<close>

lemma links_same:
  "links h zs \<Longrightarrow> (\<And>p. p \<in> set zs \<Longrightarrow> p \<noteq> 0 \<Longrightarrow> nxt h' p = nxt h p \<and> prv h' p = prv h p)
     \<Longrightarrow> links h' zs"
  by (cases zs) (auto simp: links_def elim!: nexts_frame prevs_frame dest: in_set_butlastD)

lemma hm_rep_upd:
  assumes rep: "hm_rep m h cs" and i: "i < length cs"
    and ys: "links h' (0 # ys @ [0])" "distinct ys" "0 \<notin> set ys"
      "\<And>p. p \<in> set ys \<Longrightarrow> key_size m \<le> length (bytes_at h' p)"
    and fresh: "\<And>p. p \<in> set ys \<Longrightarrow> p \<notin> set (cs ! i) \<Longrightarrow> h p = None"
    and frame: "\<And>p. p \<notin> set ys \<Longrightarrow> p \<notin> set (cs ! i) \<Longrightarrow>
      nxt h' p = nxt h p \<and> prv h' p = prv h p \<and> bytes_at h' p = bytes_at h p"
  shows "hm_rep (m\<lparr>buck := Some ((map (\<lambda>xs. hd (xs @ [0])) cs)[i := hd (ys @ [0])])\<rparr>) h' (cs[i := ys])"
proof -
  define A xs B where "A = take i cs" and "xs = cs ! i" and "B = drop (Suc i) cs"
  have cs: "cs = A @ xs # B" "i = length A"
    using i by (simp_all add: A_def xs_def B_def id_take_nth_drop)
  have old: "h p \<noteq> None" if "p \<in> set (concat (A @ B))" for p
  proof -
    from that obtain zs where "zs \<in> set cs" "p \<in> set zs"
      by (auto simp: cs)
    then obtain j where "j < length cs" "p \<in> set (cs ! j)"
      by (auto simp: in_set_conv_nth)
    then show ?thesis
      using hm_repD(7) [OF rep] by blast
  qed
  have "set xs \<inter> set (concat (A @ B)) = {}"
    using rep by (auto simp: hm_rep_def cs)
  then have notin: "p \<notin> set xs" if "p \<in> set (concat (A @ B))" for p
    using that by blast
  have disj: "p \<notin> set xs" "p \<notin> set ys" if "p \<in> set (concat (A @ B))" for p
    using notin [OF that] old [OF that] fresh [of p] by (auto simp: cs)
  have same: "nxt h' p = nxt h p \<and> prv h' p = prv h p \<and> bytes_at h' p = bytes_at h p"
    if "p \<in> set (concat (A @ B))" for p
    using frame [of p] disj [OF that] by (simp add: cs)
  have "links h' (0 # zs @ [0])" if "zs \<in> set (A @ B)" for zs
  proof (rule links_same [of h])
    show "links h (0 # zs @ [0])"
      using rep that by (auto simp: hm_rep_def cs)
    show "nxt h' p = nxt h p \<and> prv h' p = prv h p" if "p \<in> set (0 # zs @ [0])" "p \<noteq> 0" for p
      using same [of p] that \<open>zs \<in> set (A @ B)\<close> by auto
  qed
  moreover have "key_size m \<le> length (bytes_at h' p)" if "p \<in> set (concat (A @ B))" for p
    using same [OF that] that rep by (auto simp: hm_rep_def cs)
  moreover have "distinct (concat (A @ ys # B))"
  proof -
    have "distinct (concat A)" "distinct (concat B)" "set (concat A) \<inter> set (concat B) = {}"
      using rep by (auto simp: hm_rep_def cs)
    moreover have "set ys \<inter> set (concat (A @ B)) = {}"
      using disj(2) by blast
    ultimately show ?thesis
      using ys(2) by auto
  qed
  ultimately show ?thesis
    using rep ys unfolding hm_rep_def cs by (auto simp: list_update_append)
qed

text \<open>The value at an item that is found.\<close>

definition found_value :: "bscl_hashmap_t \<Rightarrow> hm_heap \<Rightarrow> addr \<Rightarrow> u8 list option" where
  "found_value m h p = (if p = 0 then None else Some (value_at (key_size m) h p))"

lemma found_value_lookup:
  assumes "0 \<notin> set (cs ! hash m key)"
  shows "found_value m h (first_match (key_size m) h key (cs ! hash m key)) = hm_lookup m h cs key"
  using first_match_items(1) [OF assms, of "key_size m" h key]
    first_match_items(2) [of "key_size m" h key "cs ! hash m key"]
  by (cases "first_match (key_size m) h key (cs ! hash m key) = 0")
    (auto simp: found_value_def hm_lookup_def)

lemma bscl_hashmap_set_spec:
  assumes rep: "hm_rep m h cs" and i: "hash m key < length cs"
    and new: "malloc h = Some (c, x)" "fresh_allocator malloc"
    and len: "key_size m \<le> length key" "value_size \<le> length val"
  shows "\<exists>m' h'. bscl_hashmap_set malloc h m key val value_size = Some (m', h')
    \<and> key_size m' = key_size m \<and> hash m' = hash m
    \<and> hm_rep m' h' (cs[hash m key := c # cs ! hash m key])
    \<and> bytes_at h' c = take (key_size m) key @ take value_size val
    \<and> c \<notin> set (concat cs) \<and> (\<forall>p. p \<noteq> c \<longrightarrow> bytes_at h' p = bytes_at h p)"
proof -
  note D = hm_repD [OF rep i]
  let ?i = "hash m key" let ?xs = "cs ! hash m key"
  let ?bytes = "take (key_size m) key @ take value_size val"
  define h2 where "h2 = h(c \<mapsto> x\<lparr>hm_bytes := ?bytes\<rparr>)"
  have c: "c \<noteq> 0" "h c = None"
    using fresh_allocatorD [OF new(2,1)] by simp_all
  have "p \<noteq> c" if "p \<in> set zs" "zs \<in> set cs" for p zs
  proof -
    obtain j where "j < length cs" "zs = cs ! j"
      using \<open>zs \<in> set cs\<close> by (auto simp: in_set_conv_nth)
    then show ?thesis
      using hm_repD(7) [OF rep, of j p] c(2) that by auto
  qed
  then have "\<forall>zs \<in> set cs. c \<notin> set zs"
    by blast
  then have notin: "c \<notin> set (concat cs)" "c \<notin> set ?xs"
    using i by auto
  have "links h2 (0 # ?xs @ [0])"
    by (rule links_same [OF D(2)]) (use notin(2) c in \<open>auto simp: h2_def link_simps\<close>)
  from hashmap_link_front [OF this D(4,3) c(1) _ notin(2)] obtain h' where h':
    "(let b = hd (?xs @ [0]) in if b \<noteq> 0 then bscl_list_head_insert_prev h2 b c
      else do { h \<leftarrow> set_prev h2 c 0; set_next h c 0 }) = Some h'"
    "links h' (0 # (c # ?xs) @ [0])" "\<forall>p. rest h' p = rest h2 p"
    "\<forall>p. p \<notin> set (c # ?xs) \<longrightarrow> nxt h' p = nxt h2 p \<and> prv h' p = prv h2 p"
    by (auto simp: h2_def)
  have bytes: "bytes_at h' p = (if p = c then ?bytes else bytes_at h p)" for p
    using bytes_at_rest [of h' p h2] h'(3) by (simp add: h2_def bytes_at_def)
  let ?m = "m\<lparr>buck := Some ((map (\<lambda>xs. hd (xs @ [0])) cs)[?i := hd ((c # ?xs) @ [0])])\<rparr>"
  have "hm_rep ?m h' (cs[?i := c # ?xs])"
  proof (rule hm_rep_upd [OF rep i h'(2)])
    show "key_size m \<le> length (bytes_at h' p)" if "p \<in> set (c # ?xs)" for p
      using that bytes D(5) len(1) by auto
    show "nxt h' p = nxt h p \<and> prv h' p = prv h p \<and> bytes_at h' p = bytes_at h p"
      if "p \<notin> set (c # ?xs)" for p
      using that h'(4) bytes by (simp add: h2_def link_simps)
  qed (use D(3,4) notin c in auto)
  moreover have "bscl_hashmap_set malloc h m key val value_size = Some (?m, h')"
    using new(1) len D(1) i rep h'(1) [unfolded h2_def Let_def] c(1)
    by (auto simp: bscl_hashmap_set_def mem_read_def assign_def deref_def
        set_bucket_def hm_rep_def Option.bind_eq_Some_conv split: if_splits)
  ultimately show ?thesis
    using bytes notin(1) by auto
qed

text \<open>Taking an item that is not the first out of its chain.\<close>

lemma hashmap_unlink:
  assumes rep: "hm_rep m h cs" and i: "i < length cs" and cs: "cs ! i = b # pre @ p # post"
  shows "\<exists>h'. bscl_list_head_remove h p = Some h' \<and> links h' (0 # (b # pre @ post) @ [0])
    \<and> (\<forall>q. rest h' q = rest h q) \<and> (\<forall>q. h' q = None \<longleftrightarrow> h q = None) \<and> h p \<noteq> None
    \<and> (\<forall>q. q \<notin> set (cs ! i) \<longrightarrow> nxt h' q = nxt h q \<and> prv h' q = prv h q)"
proof -
  note D = hm_repD [OF rep i]
  let ?a = "last (b # pre)" and ?n = "hd (post @ [0])"
  have cut: "0 # (b # pre @ p # post) @ [0]
      = (0 # butlast (b # pre)) @ ?a # p # ?n # tl (post @ [0])"
    using list_cut [of "b # pre" "p # post"] by simp
  have p0: "p \<noteq> 0"
    using D(4) cs by auto
  note mid = links_mid [OF D(2) [unfolded cs cut] p0]
  have a: "?a \<in> set (b # pre)"
    by (rule last_in_set) simp
  then have a0: "?a \<noteq> 0" "?a \<noteq> p"
    using D(3,4) cs by (auto simp del: last.simps)
  have n: "?n \<noteq> p" "?n \<noteq> 0 \<Longrightarrow> ?n \<in> set (cs ! i)"
    using D(3,4) cs p0 by (cases post; auto)+
  obtain h1 where h1: "bscl_list_head_remove h p = Some h1" "nxt h1 ?a = Some ?n"
    "?n \<noteq> 0 \<longrightarrow> prv h1 ?n = Some ?a"
    "\<forall>q. q \<noteq> ?a \<longrightarrow> nxt h1 q = nxt h q" "\<forall>q. q \<noteq> ?n \<longrightarrow> prv h1 q = prv h q"
    "\<forall>q. rest h1 q = rest h q" "\<forall>q. h1 q = None \<longleftrightarrow> h q = None"
    "?n = 0 \<longrightarrow> (\<forall>q. prv h1 q = prv h q)"
    using list_head_remove_runs [OF p0 mid(1,2) field_Some(1) [OF mid(3)] field_Some(2) [OF mid(4)]
        a0(2) n(1)] a0(1) by (auto simp del: last.simps)
  have s: "simple ((0 # butlast (b # pre)) @ ?a # p # ?n # tl (post @ [0]))"
    unfolding cut [symmetric] using D(3,4) cs by (auto simp: simple_def butlast_append)
  have "links h1 ((0 # butlast (b # pre)) @ ?a # ?n # tl (post @ [0]))"
    using links_remove [OF D(2) [unfolded cs cut] s] h1 by blast
  moreover have "0 # (b # pre @ post) @ [0] = (0 # butlast (b # pre)) @ ?a # ?n # tl (post @ [0])"
    using list_cut [of "b # pre" post] by simp
  ultimately have "links h1 (0 # (b # pre @ post) @ [0])"
    by (simp only:)
  moreover have "nxt h1 q = nxt h q \<and> prv h1 q = prv h q" if "q \<notin> set (cs ! i)" for q
  proof -
    have "q \<noteq> ?a"
      using that a cs by (auto simp del: last.simps)
    moreover have "q \<noteq> ?n \<or> ?n = 0"
      using that n(2) by auto
    ultimately show ?thesis
      using h1(4,5,8) by blast
  qed
  ultimately show ?thesis
    using h1(1,6,7) field_Some(1) [OF mid(1)] by blast
qed

text \<open>What a lookup does to the chain when the item is not the first: the item leaves it.\<close>

lemma get_moves_front:
  assumes rep: "hm_rep m h cs" and i: "hash m key < length cs" and len: "key_size m \<le> length key"
    and "first_match (key_size m) h key (cs ! hash m key) = p" "p \<noteq> 0"
    and "bscl_list_head_remove h p = Some h1"
    and "bscl_list_head_insert_prev h1 (hd (cs ! hash m key @ [0])) p = Some h2"
    and "bytes_at h2 p = bytes_at h p" "h2 p \<noteq> None"
  shows "bscl_hashmap_get h m key = Some (hm_lookup m h cs key, h2)"
proof -
  note D = hm_repD [OF rep i]
  show ?thesis
    using assms(4-9) bscl_hashmap_find_eq [OF rep i len] found_value_lookup [OF D(4), of h] D(1)
    by (auto simp: bscl_hashmap_get_def deref_def found_value_def value_at_def bytes_at_def)
qed

lemma get_found_first:
  assumes rep: "hm_rep m h cs" and i: "hash m key < length cs" and len: "key_size m \<le> length key"
    and p: "first_match (key_size m) h key (cs ! hash m key) = p"
    and cs: "cs ! hash m key = p # post"
  shows "\<exists>h'. bscl_hashmap_get h m key = Some (hm_lookup m h cs key, h')"
proof -
  note D = hm_repD [OF rep i]
  have p0: "p \<noteq> 0"
    using D(4) cs by auto
  have l: "links h ([] @ 0 # p # hd (post @ [0]) # tl (post @ [0]))"
    using D(2) cs by simp
  note mid = links_mid [OF l p0]
  have n: "hd (post @ [0]) \<noteq> p"
    using D(3) cs p0 by (cases post) auto
  obtain h1 where h1: "bscl_list_head_remove h p = Some h1"
    "\<forall>q. rest h1 q = rest h q" "\<forall>q. h1 q = None \<longleftrightarrow> h q = None"
    using list_head_remove_runs [OF p0 mid(1,2) _ field_Some(2) [OF mid(4)] p0 [symmetric] n]
    by blast
  moreover have "bscl_list_head_insert_prev h1 (hd (cs ! hash m key @ [0])) p = Some h1"
    using cs by (simp add: bscl_list_head_insert_prev_def)
  moreover have "h1 p \<noteq> None"
    using h1(3) field_Some(1) [OF mid(1)] by simp
  ultimately show ?thesis
    using get_moves_front [OF rep i len, where ?h1.0 = h1 and ?h2.0 = h1] p p0 bytes_at_rest [of h1 p h] by auto
qed

lemma get_found_later:
  assumes rep: "hm_rep m h cs" and i: "hash m key < length cs" and len: "key_size m \<le> length key"
    and p: "first_match (key_size m) h key (cs ! hash m key) = p"
    and cs: "cs ! hash m key = b # pre @ p # post"
  shows "\<exists>h'. bscl_hashmap_get h m key = Some (hm_lookup m h cs key, h')
    \<and> nexts h' (b # pre @ post @ [0]) \<and> (\<forall>q. bytes_at h' q = bytes_at h q)"
proof -
  note D = hm_repD [OF rep i]
  have p0: "p \<noteq> 0" and b0: "b \<noteq> 0" "b \<noteq> p"
    using D(3,4) cs by auto
  obtain h1 where h1: "bscl_list_head_remove h p = Some h1" "\<forall>q. rest h1 q = rest h q"
    "\<forall>q. h1 q = None \<longleftrightarrow> h q = None" "h p \<noteq> None" and l1: "links h1 (0 # (b # pre @ post) @ [0])"
    using hashmap_unlink [OF rep i cs] by blast
  have pb: "prv h1 b = Some 0"
    using l1 b0 links_pair(2) [of h1 "[]" 0 b "(pre @ post) @ [0]"] by simp
  have alive: "h1 p \<noteq> None"
    using h1(3,4) by simp
  obtain h2 where h2:
    "bscl_list_head_insert_prev h1 b p = Some h2" "\<forall>q. rest h2 q = rest h1 q"
    "\<forall>q. h2 q = None \<longleftrightarrow> h1 q = None" "\<forall>q. q \<noteq> p \<longrightarrow> nxt h2 q = nxt h1 q"
    using list_head_insert_prev_runs [OF b0(1) p0 b0(2) alive pb _ p0 [symmetric]] by blast
  have bytes: "bytes_at h2 q = bytes_at h q" for q
    using bytes_at_rest [of h2 q h] h1(2) h2(2) by simp
  have "nexts h1 (b # pre @ post @ [0])"
    using l1 by (simp add: links_def)
  then have "nexts h2 (b # pre @ post @ [0])"
  proof (rule nexts_frame)
    fix q assume "q \<in> set (butlast (b # pre @ post @ [0]))"
    then have "q \<noteq> p"
      using D(3) cs by (auto simp: butlast_append split: if_splits)
    then show "nxt h2 q = nxt h1 q"
      using h2(4) by blast
  qed
  moreover have "bscl_hashmap_get h m key = Some (hm_lookup m h cs key, h2)"
    using get_moves_front [OF rep i len, where ?h1.0 = h1 and ?h2.0 = h2] p p0 cs h1(1) h2(1,3) bytes alive by simp
  ultimately show ?thesis
    using bytes by blast
qed

lemma bscl_hashmap_get_spec:
  assumes rep: "hm_rep m h cs" and i: "hash m key < length cs" and len: "key_size m \<le> length key"
  shows "\<exists>h'. bscl_hashmap_get h m key = Some (hm_lookup m h cs key, h')"
    "first_match (key_size m) h key (cs ! hash m key) = p \<Longrightarrow> cs ! hash m key = b # pre @ p # post
      \<Longrightarrow> \<exists>h'. bscl_hashmap_get h m key = Some (hm_lookup m h cs key, h')
        \<and> nexts h' (b # pre @ post @ [0]) \<and> (\<forall>q. bytes_at h' q = bytes_at h q)"
proof -
  let ?p = "first_match (key_size m) h key (cs ! hash m key)"
  show "\<exists>h'. bscl_hashmap_get h m key = Some (hm_lookup m h cs key, h')"
  proof (cases "?p = 0")
    case True
    then show ?thesis
      using bscl_hashmap_find_eq [OF assms] found_value_lookup [OF hm_repD(4) [OF rep i], of h]
      by (simp add: bscl_hashmap_get_def found_value_def)
  next
    case False
    then obtain pre post where split: "cs ! hash m key = pre @ ?p # post"
      by (metis first_match_in split_list)
    show ?thesis
    proof (cases pre)
      case Nil
      then show ?thesis
        using get_found_first [OF assms refl, of post] split by simp
    next
      case (Cons b ys)
      then show ?thesis
        using get_found_later [OF assms refl, of b ys post] split by auto
    qed
  qed
qed (rule get_found_later [OF assms])

lemma bscl_hashmap_remove_spec:
  assumes rep: "hm_rep m h cs" and i: "hash m key < length cs" and len: "key_size m \<le> length key"
    and p: "first_match (key_size m) h key (cs ! hash m key) = p"
    and cs: "cs ! hash m key = b # pre @ p # post"
  shows "\<exists>h'. bscl_hashmap_remove h m key = Some h' \<and> h' p = None
    \<and> hm_rep m h' (cs[hash m key := b # pre @ post]) \<and> (\<forall>q. q \<noteq> p \<longrightarrow> bytes_at h' q = bytes_at h q)"
proof -
  note D = hm_repD [OF rep i]
  have p0: "p \<noteq> 0"
    using D(4) cs by auto
  obtain h1 where h1: "bscl_list_head_remove h p = Some h1" "links h1 (0 # (b # pre @ post) @ [0])"
    "\<forall>q. rest h1 q = rest h q" "\<forall>q. h1 q = None \<longleftrightarrow> h q = None" "h p \<noteq> None"
    "\<forall>q. q \<notin> set (cs ! hash m key) \<longrightarrow> nxt h1 q = nxt h q \<and> prv h1 q = prv h q"
    using hashmap_unlink [OF rep i cs] by blast
  obtain y where "h1 p = Some y"
    using h1(4,5) by (metis not_None_eq)
  then have "bscl_hashmap_remove h m key = Some (h1(p := None))"
    using bscl_hashmap_find_eq [OF rep i len] p p0 h1(1)
    by (simp add: bscl_hashmap_remove_def free_def)
  moreover let ?h = "h1(p := None)"
  have bytes: "bytes_at ?h q = bytes_at h q" if "q \<noteq> p" for q
    using that bytes_at_rest [of h1 q h] h1(3) by (simp add: bytes_at_def)
  moreover have "hm_rep (m\<lparr>buck := Some ((map (\<lambda>xs. hd (xs @ [0])) cs)
      [hash m key := hd ((b # pre @ post) @ [0])])\<rparr>) ?h (cs[hash m key := b # pre @ post])"
  proof (rule hm_rep_upd [OF rep i])
    show "links ?h (0 # (b # pre @ post) @ [0])"
      by (rule links_same [OF h1(2)]) (use D(3,4) cs p0 in \<open>auto simp: link_simps\<close>)
    show "key_size m \<le> length (bytes_at ?h q)" if "q \<in> set (b # pre @ post)" for q
    proof -
      have "q \<noteq> p" and "q \<in> set (cs ! hash m key)"
        using that D(3) cs by auto
      then show ?thesis
        using bytes [of q] D(5) [of q] by simp
    qed
    show "nxt ?h q = nxt h q \<and> prv ?h q = prv h q \<and> bytes_at ?h q = bytes_at h q"
      if "q \<notin> set (cs ! hash m key)" for q
      using that h1(6) bytes [of q] cs by (auto simp: link_simps)
  qed (use D(3,4) cs in auto)
  moreover have "(map (\<lambda>xs. hd (xs @ [0])) cs)[hash m key := b] = map (\<lambda>xs. hd (xs @ [0])) cs"
    using i cs by (metis append_Cons length_map list.sel(1) list_update_id nth_map)
  then have "m\<lparr>buck := Some ((map (\<lambda>xs. hd (xs @ [0])) cs)
      [hash m key := hd ((b # pre @ post) @ [0])])\<rparr> = m"
    using rep by (simp add: hm_rep_def)
  ultimately show ?thesis by auto
qed

section \<open>Properties\<close>

text \<open>Two items in one bucket.\<close>

definition two_entries :: hm_heap where
  "two_entries = [1 \<mapsto> \<lparr>l_next = 2, l_prev = 0, hm_bytes = [5, 50]\<rparr>,
                  2 \<mapsto> \<lparr>l_next = 0, l_prev = 1, hm_bytes = [6, 60]\<rparr>]"

definition two_map :: bscl_hashmap_t where
  "two_map = \<lparr>key_size = 1, buck = Some [1, 0], buck_len = 2, hash = (\<lambda>k. 0)\<rparr>"

lemma two_map_rep: "hm_rep two_map two_entries [[1, 2], []]"
  by (auto simp: hm_rep_def two_map_def two_entries_def links_def nxt_def prv_def bytes_at_def)

text \<open>
  C17: on a well-formed map whose hash function gives an existing bucket, \<open>bscl_hashmap_set\<close>
  stores the value under the key: a following \<open>bscl_hashmap_get\<close> of the same key bytes returns
  it, a get of any other key returns what it would have returned before, and the map stays
  well-formed.
\<close>

theorem bscl_hashmap_get_after_set:
  assumes "hm_rep m h cs" and "hash m key < length cs"
    and "malloc h = Some (c, x)" and "fresh_allocator malloc"
    and "key_size m \<le> length key" and "value_size \<le> length val"
  shows "\<exists>m' h' cs'. bscl_hashmap_set malloc h m key val value_size = Some (m', h') \<and> hm_rep m' h' cs'
    \<and> (\<forall>k. hash m k < length cs \<and> key_size m \<le> length k \<longrightarrow>
        (\<exists>h''. bscl_hashmap_get h' m' k = Some
          (if hash m k = hash m key \<and> take (key_size m) k = take (key_size m) key
           then Some (take value_size val) else hm_lookup m h cs k, h'')))"
proof -
  let ?i = "hash m key" and ?cs = "cs[hash m key := c # cs ! hash m key]"
  obtain m' h' where s: "bscl_hashmap_set malloc h m key val value_size = Some (m', h')"
    "key_size m' = key_size m" "hash m' = hash m" "hm_rep m' h' ?cs"
    "bytes_at h' c = take (key_size m) key @ take value_size val"
    "c \<notin> set (concat cs)" "\<forall>p. p \<noteq> c \<longrightarrow> bytes_at h' p = bytes_at h p"
    using bscl_hashmap_set_spec [OF assms] by blast
  have same: "chain_items ksz h' (cs ! j) = chain_items ksz h (cs ! j)" if "j < length cs" for j ksz
  proof (rule chain_items_cong)
    fix p assume "p \<in> set (cs ! j)"
    then have "p \<noteq> c"
      using that s(6) by auto
    then show "bytes_at h' p = bytes_at h p"
      using s(7) by blast
  qed
  have kv: "key_at (key_size m) h' c = take (key_size m) key"
      "value_at (key_size m) h' c = take value_size val"
    using s(5) assms(5) by (simp_all add: key_at_def value_at_def)
  have "hm_lookup m' h' ?cs k = (if hash m k = ?i \<and> take (key_size m) k = take (key_size m) key
      then Some (take value_size val) else hm_lookup m h cs k)" if "hash m k < length cs" for k
    using same [OF that] same [OF assms(2)] that s(2,3) kv assms(2)
    by (auto simp: hm_lookup_def nth_list_update)
  then have "\<exists>h''. bscl_hashmap_get h' m' k = Some
      (if hash m k = ?i \<and> take (key_size m) k = take (key_size m) key
       then Some (take value_size val) else hm_lookup m h cs k, h'')"
    if "hash m k < length cs" "key_size m \<le> length k" for k
    using bscl_hashmap_get_spec(1) [OF s(4), of k] that s(2,3) by (simp del: ex_simps)
  then show ?thesis
    using s(1,4) by blast
qed

definition one_malloc :: "hashmap_item allocator" where
  "one_malloc h = (if h 9 = None then Some (9, \<lparr>l_next = 3, l_prev = 3, hm_bytes = []\<rparr>) else None)"

lemma one_malloc_fresh: "fresh_allocator one_malloc"
  by (auto simp: fresh_allocator_def one_malloc_def split: if_splits)

lemma bscl_hashmap_get_after_set_witness:
  "\<exists>m' h' h''. bscl_hashmap_set one_malloc two_entries two_map [6] [61, 62] 2 = Some (m', h')
    \<and> bscl_hashmap_get h' m' [6] = Some (Some [61, 62], h'')"
proof -
  have "one_malloc two_entries = Some (9, \<lparr>l_next = 3, l_prev = 3, hm_bytes = []\<rparr>)"
    by (simp add: one_malloc_def two_entries_def)
  from bscl_hashmap_get_after_set [OF two_map_rep _ this one_malloc_fresh, of "[6]" 2 "[61, 62]"]
  obtain m' h' where "bscl_hashmap_set one_malloc two_entries two_map [6] [61, 62] 2 = Some (m', h')"
    and "\<forall>k. hash two_map k < 2 \<and> key_size two_map \<le> length k \<longrightarrow>
        (\<exists>h''. bscl_hashmap_get h' m' k = Some
          (if hash two_map k = hash two_map [6] \<and> take (key_size two_map) k = take (key_size two_map) [6]
           then Some (take 2 [61, 62]) else hm_lookup two_map two_entries [[1, 2], []] k, h''))"
    by (auto simp: two_map_def)
  then show ?thesis
    by (auto simp: two_map_def dest!: spec [of _ "[6]"])
qed

text \<open>
  a lookup loses the item it finds unless it is the first of its bucket: the code links the
  item in front of the first one but leaves the bucket pointing behind it. \<open>bscl_hashmap_get\<close>
  returns the value once, and the next get of a key that is stored once returns null.
\<close>

lemma bscl_hashmap_get_loses:
  assumes "hm_rep m h cs" and "hash m key < length cs" and "key_size m \<le> length key"
    and "cs ! hash m key = b # pre @ p # post" and "key_at (key_size m) h p = take (key_size m) key"
    and "\<forall>q \<in> set (b # pre @ post). key_at (key_size m) h q \<noteq> take (key_size m) key"
  shows "\<exists>h'. bscl_hashmap_get h m key = Some (Some (value_at (key_size m) h p), h')
    \<and> bscl_hashmap_get h' m key = Some (None, h')"
proof -
  note D = hm_repD [OF assms(1,2)]
  let ?xs = "cs ! hash m key"
  have "List.find (\<lambda>q. key_at (key_size m) h q = take (key_size m) key) ?xs = Some p"
  proof -
    have "List.find (\<lambda>q. key_at (key_size m) h q = take (key_size m) key) ((b # pre) @ [p] @ post) = Some p"
      using assms(5,6) by (induction pre) auto
    then show ?thesis by (simp add: assms(4))
  qed
  then have p: "first_match (key_size m) h key ?xs = p"
    by (simp add: first_match_def)
  moreover have "p \<noteq> 0"
    using D(4) assms(4) by auto
  ultimately have "hm_lookup m h cs key = Some (value_at (key_size m) h p)"
    using found_value_lookup [of cs m key h] D(4) by (simp add: found_value_def)
  moreover obtain h' where h': "bscl_hashmap_get h m key = Some (hm_lookup m h cs key, h')"
    "nexts h' ((b # pre @ post) @ [0])" "\<forall>q. bytes_at h' q = bytes_at h q"
    using bscl_hashmap_get_spec(2) [OF assms(1-3) p assms(4)] by auto
  moreover have "hashmap_find_loop h' (key_size m) key (hd ((b # pre @ post) @ [0]))
      = Some (first_match (key_size m) h' key (b # pre @ post))"
    using D(4,5) assms(4) h'(3)
    by (intro hashmap_find_loop_spec [OF h'(2) _ D(6) assms(3)]) auto
  moreover have "List.find (\<lambda>q. key_at (key_size m) h' q = take (key_size m) key) (b # pre @ post) = None"
    unfolding find_None_iff using assms(6) h'(3) by (auto simp: key_at_def)
  then have "first_match (key_size m) h' key (b # pre @ post) = 0"
    unfolding first_match_def by simp
  ultimately have "bscl_hashmap_find h' m key = Some 0"
    using D(1) assms(4) by (simp add: bscl_hashmap_find_def)
  then show ?thesis
    using h'(1) \<open>hm_lookup m h cs key = _\<close> by (auto simp: bscl_hashmap_get_def)
qed

lemma bscl_hashmap_get_loses_witness:
  "\<exists>h'. bscl_hashmap_get two_entries two_map [6] = Some (Some [60], h')
    \<and> bscl_hashmap_get h' two_map [6] = Some (None, h')"
  using bscl_hashmap_get_loses [OF two_map_rep, of "[6]" 1 "[]" 2 "[]"]
  by (simp add: two_map_def two_entries_def key_at_def value_at_def bytes_at_def)

text \<open>
  \<open>bscl_hashmap_remove\<close> of an item that is not the first of its bucket takes it out and
  frees it, and the map stays well-formed. When it is the first, the item is freed but the
  bucket keeps pointing to it: every later get or remove of a key of this bucket touches freed
  memory.
\<close>

lemma bscl_hashmap_remove_first_dangles:
  assumes "hm_rep m h cs" and "hash m key < length cs" and "key_size m \<le> length key"
    and "first_match (key_size m) h key (cs ! hash m key) = p" and "cs ! hash m key = pre @ p # post"
  shows "\<exists>h'. bscl_hashmap_remove h m key = Some h' \<and> h' p = None
    \<and> (pre \<noteq> [] \<longrightarrow> hm_rep m h' (cs[hash m key := pre @ post]))
    \<and> (pre = [] \<longrightarrow> (\<forall>k. hash m k = hash m key \<longrightarrow>
        bscl_hashmap_get h' m k = None \<and> bscl_hashmap_remove h' m k = None))"
proof (cases pre)
  case (Cons b ys)
  then show ?thesis
    using bscl_hashmap_remove_spec [OF assms(1-4), of b ys post] assms(5) by auto
next
  case Nil
  note D = hm_repD [OF assms(1,2)]
  have p0: "p \<noteq> 0"
    using D(4) assms(5) by auto
  have l: "links h ([] @ 0 # p # hd (post @ [0]) # tl (post @ [0]))"
    using D(2) assms(5) Nil by simp
  note mid = links_mid [OF l p0]
  have n: "hd (post @ [0]) \<noteq> p"
    using D(3) assms(5) Nil p0 by (cases post) auto
  obtain h1 where h1: "bscl_list_head_remove h p = Some h1" "\<forall>q. h1 q = None \<longleftrightarrow> h q = None"
    using list_head_remove_runs [OF p0 mid(1,2) _ field_Some(2) [OF mid(4)] p0 [symmetric] n]
    by blast
  then obtain y where "h1 p = Some y"
    using field_Some(1) [OF mid(1)] by (metis not_None_eq)
  then have "bscl_hashmap_remove h m key = Some (h1(p := None))"
    using bscl_hashmap_find_eq [OF assms(1-3)] assms(4) p0 h1(1)
    by (simp add: bscl_hashmap_remove_def free_def)
  moreover have "bscl_hashmap_find (h1(p := None)) m k = None" if "hash m k = hash m key" for k
  proof -
    have "hashmap_find_loop (h1(p := None)) (key_size m) k p = None"
      using p0 by (subst hashmap_find_loop.simps) (simp add: deref_def)
    then show ?thesis
      using that D(1) assms(5) Nil by (simp add: bscl_hashmap_find_def)
  qed
  ultimately show ?thesis
    using Nil by (auto simp: bscl_hashmap_get_def bscl_hashmap_remove_def)
qed

lemma bscl_hashmap_remove_first_dangles_witness:
  "\<exists>h'. bscl_hashmap_remove two_entries two_map [5] = Some h' \<and> bscl_hashmap_get h' two_map [6] = None"
proof -
  have "first_match 1 two_entries [5] [1, 2] = 1"
    by (simp add: first_match_def key_at_def bytes_at_def two_entries_def)
  then show ?thesis
    using bscl_hashmap_remove_first_dangles [OF two_map_rep, of "[5]" 1 "[]" "[2]"]
    by (fastforce simp: two_map_def)
qed

end
