(* ===== verification/Bstree.thy ===== *)
theory Bstree
  imports Links Compare "HOL-Library.Tree" "HOL-Library.Multiset"
begin

text \<open>
  The binary search tree of \<open>src/bscl_bstree.c\<close>: nodes in the heap with pointers to both
  children and to the parent. The class structure that every node points to holds the
  comparison function, which is a parameter here. \<open>tree_at\<close> relates a tree in the heap to a
  tree of addresses and data.
\<close>

section \<open>The code\<close>

record 'a bscl_bstree_t =
  t_left :: addr
  t_right :: addr
  t_parent :: addr
  t_data :: 'a

type_synonym 'a tree_heap = "'a bscl_bstree_t heap"

text \<open>The new node (0 when memory is short) and the heap.\<close>

definition bscl_bstree_new ::
    "'a bscl_bstree_t allocator \<Rightarrow> 'a tree_heap \<Rightarrow> 'a \<Rightarrow> addr \<times> 'a tree_heap" where
  "bscl_bstree_new malloc h d =
     (case malloc h of None \<Rightarrow> (0, h)
      | Some (item, x) \<Rightarrow>
          (item, h(item \<mapsto> \<lparr>t_left = 0, t_right = 0, t_parent = 0, t_data = d\<rparr>)))"

partial_function (option) bstree_insert_loop ::
    "('a \<Rightarrow> 'a \<Rightarrow> int) \<Rightarrow> 'a tree_heap \<Rightarrow> addr \<Rightarrow> 'a \<Rightarrow> addr \<Rightarrow> 'a tree_heap option" where
  "bstree_insert_loop cmp h item d temp =
     (if temp \<noteq> 0 then do {
        t \<leftarrow> deref h temp;
        let res = cmp d (t_data t);
        if res < 0 then
          if t_left t \<noteq> 0 then bstree_insert_loop cmp h item d (t_left t)
          else do {
            h \<leftarrow> assign h temp (\<lambda>x. x\<lparr>t_left := item\<rparr>);
            assign h item (\<lambda>x. x\<lparr>t_parent := temp\<rparr>)
          }
        else if 0 < res then
          if t_right t \<noteq> 0 then bstree_insert_loop cmp h item d (t_right t)
          else do {
            h \<leftarrow> assign h temp (\<lambda>x. x\<lparr>t_right := item\<rparr>);
            assign h item (\<lambda>x. x\<lparr>t_parent := temp\<rparr>)
          }
        else do {
          h \<leftarrow> assign h item (\<lambda>x. x\<lparr>t_left := t_left t\<rparr>);
          h \<leftarrow> assign h item (\<lambda>x. x\<lparr>t_parent := temp\<rparr>);
          i \<leftarrow> deref h item;
          h \<leftarrow> (if t_left i \<noteq> 0 then assign h (t_left i) (\<lambda>x. x\<lparr>t_parent := item\<rparr>) else Some h);
          assign h temp (\<lambda>x. x\<lparr>t_left := item\<rparr>)
        }
      } else Some h)"

declare bstree_insert_loop.simps [code]

text \<open>The parent field of the new node is what the memory held until it is linked.\<close>

definition bscl_bstree_insert ::
    "('a \<Rightarrow> 'a \<Rightarrow> int) \<Rightarrow> 'a bscl_bstree_t allocator \<Rightarrow> 'a tree_heap \<Rightarrow> addr \<Rightarrow> 'a
       \<Rightarrow> 'a tree_heap option" where
  "bscl_bstree_insert cmp malloc h this d = do {
     guard (this \<noteq> 0);
     (item, x) \<leftarrow> malloc h;
     let h = h(item \<mapsto> x\<lparr>t_data := d, t_left := 0, t_right := 0\<rparr>);
     bstree_insert_loop cmp h item d this
   }"

text \<open>The loop compares through the class of the node \<open>this\<close> the search starts from.\<close>

partial_function (option) bscl_bstree_find ::
    "('a \<Rightarrow> 'a \<Rightarrow> int) \<Rightarrow> 'a tree_heap \<Rightarrow> addr \<Rightarrow> 'a \<Rightarrow> addr option" where
  "bscl_bstree_find cmp h temp d =
     (if temp \<noteq> 0 then do {
        t \<leftarrow> deref h temp;
        let res = cmp d (t_data t);
        if res < 0 then bscl_bstree_find cmp h (t_left t) d
        else if 0 < res then bscl_bstree_find cmp h (t_right t) d
        else Some temp
      } else Some 0)"

declare bscl_bstree_find.simps [code]

partial_function (option) bstree_leftmost :: "'a tree_heap \<Rightarrow> addr \<Rightarrow> addr option" where
  "bstree_leftmost h temp = do {
     t \<leftarrow> deref h temp;
     if t_left t \<noteq> 0 then bstree_leftmost h (t_left t) else Some temp
   }"

declare bstree_leftmost.simps [code]

definition bscl_bstree_minimum :: "'a tree_heap \<Rightarrow> addr \<Rightarrow> addr option" where
  "bscl_bstree_minimum h this = (if this = 0 then Some this else bstree_leftmost h this)"

partial_function (option) bstree_rightmost :: "'a tree_heap \<Rightarrow> addr \<Rightarrow> addr option" where
  "bstree_rightmost h temp = do {
     t \<leftarrow> deref h temp;
     if t_right t \<noteq> 0 then bstree_rightmost h (t_right t) else Some temp
   }"

declare bstree_rightmost.simps [code]

definition bscl_bstree_maximum :: "'a tree_heap \<Rightarrow> addr \<Rightarrow> addr option" where
  "bscl_bstree_maximum h this = (if this = 0 then Some this else bstree_rightmost h this)"

partial_function (option) bstree_climb_left :: "'a tree_heap \<Rightarrow> addr \<Rightarrow> addr option" where
  "bstree_climb_left h tree = do {
     t \<leftarrow> deref h tree;
     if t_parent t = 0 then Some 0
     else do {
       p \<leftarrow> deref h (t_parent t);
       if tree = t_left p then bstree_climb_left h (t_parent t) else Some (t_parent t)
     }
   }"

declare bstree_climb_left.simps [code]

definition bscl_bstree_predecessor :: "'a tree_heap \<Rightarrow> addr \<Rightarrow> addr option" where
  "bscl_bstree_predecessor h tree = do {
     t \<leftarrow> deref h tree;
     if t_left t \<noteq> 0 then bscl_bstree_maximum h (t_left t) else bstree_climb_left h tree
   }"

partial_function (option) bstree_climb_right :: "'a tree_heap \<Rightarrow> addr \<Rightarrow> addr option" where
  "bstree_climb_right h tree = do {
     t \<leftarrow> deref h tree;
     if t_parent t = 0 then Some 0
     else do {
       p \<leftarrow> deref h (t_parent t);
       if tree = t_right p then bstree_climb_right h (t_parent t) else Some (t_parent t)
     }
   }"

declare bstree_climb_right.simps [code]

definition bscl_bstree_successor :: "'a tree_heap \<Rightarrow> addr \<Rightarrow> addr option" where
  "bscl_bstree_successor h tree = do {
     t \<leftarrow> deref h tree;
     if t_right t \<noteq> 0 then bscl_bstree_minimum h (t_right t) else bstree_climb_right h tree
   }"

text \<open>The smallest node \<open>x\<close> of the right subtree is unlinked and put above this subtree.\<close>

definition bstree_unlink_minimum :: "'a tree_heap \<Rightarrow> addr \<Rightarrow> 'a tree_heap option" where
  "bstree_unlink_minimum h x = do {
     xn \<leftarrow> deref h x;
     h \<leftarrow> (if t_right xn \<noteq> 0 then assign h (t_right xn) (\<lambda>n. n\<lparr>t_parent := t_parent xn\<rparr>) else Some h);
     xn \<leftarrow> deref h x;
     assign h (t_parent xn) (\<lambda>n. n\<lparr>t_left := t_right xn\<rparr>)
   }"

definition bstree_lift_minimum :: "'a tree_heap \<Rightarrow> addr \<Rightarrow> addr \<Rightarrow> 'a tree_heap option" where
  "bstree_lift_minimum h item x = do {
     h \<leftarrow> bstree_unlink_minimum h x;
     it \<leftarrow> deref h item;
     h \<leftarrow> assign h x (\<lambda>n. n\<lparr>t_right := t_right it\<rparr>);
     xn \<leftarrow> deref h x;
     assign h (t_right xn) (\<lambda>n. n\<lparr>t_parent := x\<rparr>)
   }"

definition bstree_hang_left :: "'a tree_heap \<Rightarrow> addr \<Rightarrow> addr \<Rightarrow> 'a tree_heap option" where
  "bstree_hang_left h item x = do {
     it \<leftarrow> deref h item;
     h \<leftarrow> assign h x (\<lambda>n. n\<lparr>t_left := t_left it\<rparr>);
     xn \<leftarrow> deref h x;
     if t_left xn \<noteq> 0 then assign h (t_left xn) (\<lambda>n. n\<lparr>t_parent := x\<rparr>) else Some h
   }"

text \<open>The node that takes the place of \<open>item\<close>, with the links below it set.\<close>

definition bstree_replacement :: "'a tree_heap \<Rightarrow> addr \<Rightarrow> (addr \<times> 'a tree_heap) option" where
  "bstree_replacement h item = do {
     it \<leftarrow> deref h item;
     if t_left it = 0 then Some (t_right it, h)
     else if t_right it = 0 then Some (t_left it, h)
     else do {
       x \<leftarrow> bscl_bstree_minimum h (t_right it);
       h \<leftarrow> (if x = t_right it then Some h else bstree_lift_minimum h item x);
       h \<leftarrow> bstree_hang_left h item x;
       Some (x, h)
     }
   }"

text \<open>The new root and the heap.\<close>

definition bscl_bstree_remove_item :: "'a tree_heap \<Rightarrow> addr \<Rightarrow> addr \<Rightarrow> (addr \<times> 'a tree_heap) option" where
  "bscl_bstree_remove_item h tree item = do {
     (x, h) \<leftarrow> bstree_replacement h item;
     it \<leftarrow> deref h item;
     (tree, h) \<leftarrow>
       (if item = tree then Some (x, h)
        else do {
          p \<leftarrow> deref h (t_parent it);
          h \<leftarrow> (if t_left p = item then assign h (t_parent it) (\<lambda>n. n\<lparr>t_left := x\<rparr>)
            else assign h (t_parent it) (\<lambda>n. n\<lparr>t_right := x\<rparr>));
          Some (tree, h)
        });
     it \<leftarrow> deref h item;
     h \<leftarrow> (if x \<noteq> 0 then assign h x (\<lambda>n. n\<lparr>t_parent := t_parent it\<rparr>) else Some h);
     h \<leftarrow> free h item;
     Some (tree, h)
   }"

partial_function (option) bscl_bstree_remove ::
    "('a \<Rightarrow> 'a \<Rightarrow> int) \<Rightarrow> 'a tree_heap \<Rightarrow> addr \<Rightarrow> 'a \<Rightarrow> (addr \<times> 'a tree_heap) option" where
  "bscl_bstree_remove cmp h tree d =
     Option.bind (bscl_bstree_find cmp h tree d) (\<lambda>temp.
       if temp \<noteq> 0 then
         Option.bind (bscl_bstree_remove_item h tree temp) (\<lambda>r.
           bscl_bstree_remove cmp (snd r) (fst r) d)
       else Some (tree, h))"

declare bscl_bstree_remove.simps [code]

section \<open>Trees in the heap\<close>

fun tree_at :: "'a tree_heap \<Rightarrow> addr \<Rightarrow> addr \<Rightarrow> (addr \<times> 'a) tree \<Rightarrow> bool" where
  "tree_at h par p Leaf \<longleftrightarrow> p = 0"
| "tree_at h par p (Node l (a, d) r) \<longleftrightarrow> p = a \<and> a \<noteq> 0
     \<and> (\<exists>lp rp. h a = Some \<lparr>t_left = lp, t_right = rp, t_parent = par, t_data = d\<rparr>
         \<and> tree_at h a lp l \<and> tree_at h a rp r)"

definition addrs :: "(addr \<times> 'a) tree \<Rightarrow> addr list" where
  "addrs t = map fst (inorder t)"

definition contents :: "(addr \<times> 'a) tree \<Rightarrow> 'a list" where
  "contents t = map snd (inorder t)"

lemma addrs_simps [simp]:
  "addrs Leaf = []" "addrs (Node l (a, d) r) = addrs l @ a # addrs r"
  by (simp_all add: addrs_def)

lemma contents_simps [simp]:
  "contents Leaf = []" "contents (Node l (a, d) r) = contents l @ d # contents r"
  by (simp_all add: contents_def)

lemma tree_at_frame:
  "tree_at h par p t \<Longrightarrow> (\<And>q. q \<in> set (addrs t) \<Longrightarrow> h' q = h q) \<Longrightarrow> tree_at h' par p t"
proof (induction h par p t rule: tree_at.induct)
  case (2 h par p l a d r)
  then show ?case by (auto 4 3)
qed simp

lemma tree_at_upd_other:
  "tree_at h par p t \<Longrightarrow> q \<notin> set (addrs t) \<Longrightarrow> tree_at (h(q := v)) par p t"
  by (rule tree_at_frame [where h = h]) auto

lemma tree_at_null: "tree_at h par p t \<Longrightarrow> p = 0 \<longleftrightarrow> t = Leaf"
  by (cases t) (auto split: prod.splits)

lemma tree_at_nonnull: "tree_at h par p t \<Longrightarrow> q \<in> set (addrs t) \<Longrightarrow> q \<noteq> 0 \<and> h q \<noteq> None"
  by (induction h par p t rule: tree_at.induct) auto

lemma assign_Some [simp]: "p \<noteq> 0 \<Longrightarrow> h p = Some x \<Longrightarrow> assign h p f = Some (h(p \<mapsto> f x))"
  by (simp add: assign_def deref_def)

lemma deref_Some [simp]: "p \<noteq> 0 \<Longrightarrow> deref h p = h p"
  by (simp add: deref_def)

text \<open>A subtree hung below another parent: only the parent field of its root changes.\<close>

lemma tree_at_new_parent:
  assumes "tree_at h par p t" and "t \<noteq> Leaf" and "distinct (addrs t)"
  shows "\<exists>x. h p = Some x \<and> p \<noteq> 0 \<and> p \<in> set (addrs t)
    \<and> tree_at (h(p \<mapsto> x\<lparr>t_parent := q\<rparr>)) q p t"
  using assms by (cases t) (auto simp: tree_at_upd_other split: prod.splits)

section \<open>Insertion\<close>

fun tree_ins :: "('a \<Rightarrow> 'a \<Rightarrow> int) \<Rightarrow> addr \<times> 'a \<Rightarrow> (addr \<times> 'a) tree \<Rightarrow> (addr \<times> 'a) tree" where
  "tree_ins cmp x Leaf = Node Leaf x Leaf"
| "tree_ins cmp x (Node l y r) =
     (let k = cmp (snd x) (snd y)
      in if k < 0 then Node (tree_ins cmp x l) y r
         else if 0 < k then Node l y (tree_ins cmp x r)
         else Node (Node l x Leaf) y r)"

text \<open>A key that is already there goes between the node and its left subtree.\<close>

lemma insert_loop_equal:
  assumes t: "tree_at h par a (Node l (a, e) r)" and dist: "distinct (addrs (Node l (a, e) r))" and eq: "cmp d e = 0"
    and item: "item \<notin> set (addrs (Node l (a, e) r))" "item \<noteq> 0"
      "h item = Some \<lparr>t_left = 0, t_right = 0, t_parent = q, t_data = d\<rparr>"
  shows "\<exists>h'. bstree_insert_loop cmp h item d a = Some h'
    \<and> tree_at h' par a (Node (Node l (item, d) Leaf) (a, e) r)
    \<and> (\<forall>x. x \<notin> set (item # addrs (Node l (a, e) r)) \<longrightarrow> h' x = h x)"
proof -
  obtain lp rp where a: "a \<noteq> 0" "tree_at h a lp l" "tree_at h a rp r"
      "h a = Some \<lparr>t_left = lp, t_right = rp, t_parent = par, t_data = e\<rparr>"
    using t by auto
  show ?thesis
  proof (cases "l = Leaf")
    case True
    then show ?thesis
      using a eq tree_at_null [OF a(2)] dist item
      by (subst bstree_insert_loop.simps) (simp add: tree_at_upd_other)
  next
    case False
    obtain x where x: "h lp = Some x" "lp \<noteq> 0" "lp \<in> set (addrs l)" "tree_at (h(lp \<mapsto> x\<lparr>t_parent := item\<rparr>)) item lp l"
      using tree_at_new_parent [OF a(2) False, of item] dist by auto
    then have ne: "lp \<noteq> a" "lp \<noteq> item" "lp \<notin> set (addrs r)"
      using dist item(1) by auto
    let ?h = "h(item \<mapsto> \<lparr>t_left = lp, t_right = 0, t_parent = a, t_data = d\<rparr>,
        lp \<mapsto> x\<lparr>t_parent := item\<rparr>, a \<mapsto> \<lparr>t_left = item, t_right = rp, t_parent = par, t_data = e\<rparr>)"
    have "bstree_insert_loop cmp h item d a = Some ?h"
      using a eq tree_at_null [OF a(2)] False dist item x ne
      by (subst bstree_insert_loop.simps) (simp add: fun_upd_twist)
    moreover have "tree_at ?h item lp l"
      using ne dist item(1) by (intro tree_at_frame [OF x(4)]) auto
    moreover have "tree_at ?h a rp r"
      using ne dist item(1) by (intro tree_at_frame [OF a(3)]) auto
    ultimately show ?thesis
      using a item(1,2) ne x(3) dist by auto
  qed
qed

lemma bstree_insert_loop_spec:
  "tree_at h par p t \<Longrightarrow> t \<noteq> Leaf \<Longrightarrow> distinct (addrs t) \<Longrightarrow> item \<notin> set (addrs t) \<Longrightarrow> item \<noteq> 0
     \<Longrightarrow> h item = Some \<lparr>t_left = 0, t_right = 0, t_parent = q, t_data = d\<rparr>
     \<Longrightarrow> \<exists>h'. bstree_insert_loop cmp h item d p = Some h'
       \<and> tree_at h' par p (tree_ins cmp (item, d) t)
       \<and> (\<forall>x. x \<notin> set (item # addrs t) \<longrightarrow> h' x = h x)"
proof (induction h par p t rule: tree_at.induct)
  case (2 h par p l a e r)
  obtain lp rp where a: "p = a" "a \<noteq> 0" "tree_at h a lp l" "tree_at h a rp r"
    "h a = Some \<lparr>t_left = lp, t_right = rp, t_parent = par, t_data = e\<rparr>"
    using "2.prems"(1) by auto
  have dist: "distinct (addrs l)" "distinct (addrs r)" "a \<notin> set (addrs l)" "a \<notin> set (addrs r)"
    "set (addrs l) \<inter> set (addrs r) = {}" "item \<noteq> a" "item \<notin> set (addrs l)" "item \<notin> set (addrs r)"
    using "2.prems"(3,4) by auto
  note null = tree_at_null [OF a(3)] tree_at_null [OF a(4)]
  consider (lt) "cmp d e < 0" | (gt) "0 < cmp d e" | (eq) "cmp d e = 0" by linarith
  then show ?case
  proof cases
    case lt
    show ?thesis
    proof (cases "l = Leaf")
      case True
      then show ?thesis
        using a lt null dist "2.prems"(5,6)
        by (subst bstree_insert_loop.simps) (simp add: tree_at_upd_other)
    next
      case False
      obtain h' where h': "bstree_insert_loop cmp h item d lp = Some h'"
        "tree_at h' a lp (tree_ins cmp (item, d) l)" "\<forall>x. x \<notin> set (item # addrs l) \<longrightarrow> h' x = h x"
        using "2.IH"(1) [of lp, OF a(3) False dist(1,7) "2.prems"(5,6)] a by blast
      have "tree_at h' a rp r"
        using h'(3) dist by (intro tree_at_frame [OF a(4)]) auto
      then show ?thesis
        using h' a lt null False dist by (subst bstree_insert_loop.simps) simp
    qed
  next
    case gt
    show ?thesis
    proof (cases "r = Leaf")
      case True
      then show ?thesis
        using a gt null dist "2.prems"(5,6)
        by (subst bstree_insert_loop.simps) (simp add: tree_at_upd_other)
    next
      case False
      obtain h' where h': "bstree_insert_loop cmp h item d rp = Some h'"
        "tree_at h' a rp (tree_ins cmp (item, d) r)" "\<forall>x. x \<notin> set (item # addrs r) \<longrightarrow> h' x = h x"
        using "2.IH"(2) [of rp, OF a(4) False dist(2,8) "2.prems"(5,6)] a by blast
      have "tree_at h' a lp l"
        using h'(3) dist by (intro tree_at_frame [OF a(3)]) auto
      then show ?thesis
        using h' a gt null False dist by (subst bstree_insert_loop.simps) simp
    qed
  next
    case eq
    then show ?thesis
      using insert_loop_equal [of h par a l e r cmp d item q] "2.prems" a(1) by simp
  qed
qed simp

definition search_tree :: "('a \<Rightarrow> 'a \<Rightarrow> int) \<Rightarrow> (addr \<times> 'a) tree \<Rightarrow> bool" where
  "search_tree cmp t \<longleftrightarrow> sorted_wrt (le cmp) (contents t)"

lemma tree_ins_mset: "mset (inorder (tree_ins cmp x t)) = add_mset x (mset (inorder t))"
  by (induction t) (auto simp: Let_def)

lemma tree_ins_set: "set (contents (tree_ins cmp x t)) = insert (snd x) (set (contents t))"
  unfolding contents_def set_map
  by (metis (no_types) image_insert set_mset_add_mset_insert set_mset_mset tree_ins_mset)

lemma tree_ins_distinct:
  assumes "distinct (addrs t)" and "fst x \<notin> set (addrs t)"
  shows "distinct (addrs (tree_ins cmp x t))"
proof -
  have "mset (addrs (tree_ins cmp x t)) = mset (fst x # addrs t)"
    by (simp add: addrs_def mset_map tree_ins_mset)
  then show ?thesis
    using assms by (metis distinct.simps(2) mset_eq_imp_distinct_iff)
qed

lemma signed_le: "signed_comparator cmp \<Longrightarrow> 0 \<le> cmp a b \<Longrightarrow> le cmp b a"
  by (metis le_def not_less signed_comparator_def)

lemma tree_ins_sorted:
  "signed_comparator cmp \<Longrightarrow> search_tree cmp t \<Longrightarrow> search_tree cmp (tree_ins cmp x t)"
proof (induction t)
  case (Node l y r)
  obtain a e where y: "y = (a, e)" by (cases y)
  obtain b d where x: "x = (b, d)" by (cases x)
  have s: "search_tree cmp l" "search_tree cmp r" "\<forall>z\<in>set (contents l). le cmp z e"
    "\<forall>z\<in>set (contents r). le cmp e z" "\<forall>z\<in>set (contents l). \<forall>w\<in>set (contents r). le cmp z w"
    using Node.prems(2) by (auto simp: y search_tree_def sorted_wrt_append)
  note trans = cmp_trans [OF signed_comparator [OF Node.prems(1)]]
  have de: "le cmp d e" "\<forall>w\<in>set (contents r). le cmp d w" if "\<not> 0 < cmp d e"
  proof -
    show "le cmp d e"
      using that by (simp add: le_def)
    then show "\<forall>w\<in>set (contents r). le cmp d w"
      using s(4) trans by blast
  qed
  have ed: "le cmp e d" "\<forall>w\<in>set (contents l). le cmp w d" if "\<not> cmp d e < 0"
  proof -
    show "le cmp e d"
      using signed_le [OF Node.prems(1), of d e] that by simp
    then show "\<forall>w\<in>set (contents l). le cmp w d"
      using s(3) trans by blast
  qed
  have ih: "sorted_wrt (le cmp) (contents (tree_ins cmp x l))"
    "sorted_wrt (le cmp) (contents (tree_ins cmp x r))"
    using Node.IH Node.prems(1) s(1,2) by (simp_all add: search_tree_def)
  consider (lt) "cmp d e < 0" | (gt) "0 < cmp d e" | (eq) "cmp d e = 0" by linarith
  then show ?case
  proof cases
    case lt
    then show ?thesis
      using s de ih(1) tree_ins_set [of cmp x l]
      by (auto simp: search_tree_def x y sorted_wrt_append)
  next
    case gt
    then show ?thesis
      using s ed ih(2) tree_ins_set [of cmp x r]
      by (auto simp: search_tree_def x y sorted_wrt_append)
  next
    case eq
    then show ?thesis
      using s de ed by (auto simp: search_tree_def x y sorted_wrt_append)
  qed
qed (cases x, simp add: search_tree_def)

lemma bscl_bstree_find_spec:
  "tree_at h par p t \<Longrightarrow> \<exists>q. bscl_bstree_find cmp h p d = Some q
     \<and> (q \<noteq> 0 \<longrightarrow> (\<exists>e. (q, e) \<in> set (inorder t) \<and> cmp d e = 0))
     \<and> (q = 0 \<longrightarrow> signed_comparator cmp \<longrightarrow> search_tree cmp t \<longrightarrow> (\<forall>e\<in>set (contents t). cmp d e \<noteq> 0))"
proof (induction h par p t rule: tree_at.induct)
  case (1 h par p)
  then show ?case
    by (subst bscl_bstree_find.simps) simp
next
  case (2 h par p l a e r)
  obtain lp rp where a: "p = a" "a \<noteq> 0" "tree_at h a lp l" "tree_at h a rp r"
    "h a = Some \<lparr>t_left = lp, t_right = rp, t_parent = par, t_data = e\<rparr>"
    using "2.prems"(1) by auto
  have s: "search_tree cmp l" "search_tree cmp r" "\<forall>z\<in>set (contents l). le cmp z e"
    "\<forall>z\<in>set (contents r). le cmp e z" if "search_tree cmp (Node l (a, e) r)"
    using that by (auto simp: search_tree_def sorted_wrt_append)
  have side: "cmp d z \<noteq> 0" if "signed_comparator cmp" "cmp d e < 0 \<and> le cmp e z \<or> 0 < cmp d e \<and> le cmp z e"
    for z
    using that cmp_trans [OF signed_comparator [OF that(1)]] signed_less [OF that(1)]
      signed_le [OF that(1)] by (metis le_def less_irrefl order_refl)
  consider (lt) "cmp d e < 0" | (gt) "0 < cmp d e" | (eq) "cmp d e = 0" by linarith
  then show ?case
  proof cases
    case lt
    from "2.IH"(1) [OF a(3)] a obtain q where q: "bscl_bstree_find cmp h lp d = Some q"
      "q \<noteq> 0 \<longrightarrow> (\<exists>e. (q, e) \<in> set (inorder l) \<and> cmp d e = 0)"
      "q = 0 \<longrightarrow> signed_comparator cmp \<longrightarrow> search_tree cmp l \<longrightarrow> (\<forall>e\<in>set (contents l). cmp d e \<noteq> 0)"
      by blast
    moreover have "bscl_bstree_find cmp h p d = Some q"
      using lt a q(1) by (subst bscl_bstree_find.simps) simp
    ultimately show ?thesis
      using lt s side by auto
  next
    case gt
    from "2.IH"(2) [OF a(4)] a obtain q where q: "bscl_bstree_find cmp h rp d = Some q"
      "q \<noteq> 0 \<longrightarrow> (\<exists>e. (q, e) \<in> set (inorder r) \<and> cmp d e = 0)"
      "q = 0 \<longrightarrow> signed_comparator cmp \<longrightarrow> search_tree cmp r \<longrightarrow> (\<forall>e\<in>set (contents r). cmp d e \<noteq> 0)"
      by blast
    moreover have "bscl_bstree_find cmp h p d = Some q"
      using gt a q(1) by (subst bscl_bstree_find.simps) simp
    ultimately show ?thesis
      using gt s side by auto
  next
    case eq
    then have "bscl_bstree_find cmp h p d = Some a"
      using a by (subst bscl_bstree_find.simps) simp
    then show ?thesis
      using eq a(2) by auto
  qed
qed

section \<open>A tree with a hole\<close>

datatype 'a step = GoLeft "addr \<times> 'a" "(addr \<times> 'a) tree" | GoRight "(addr \<times> 'a) tree" "addr \<times> 'a"

fun plug :: "'a step list \<Rightarrow> (addr \<times> 'a) tree \<Rightarrow> (addr \<times> 'a) tree" where
  "plug [] t = t"
| "plug (GoLeft x r # C) t = Node (plug C t) x r"
| "plug (GoRight l x # C) t = Node l x (plug C t)"

fun before :: "'a step list \<Rightarrow> (addr \<times> 'a) list" where
  "before [] = []"
| "before (GoLeft x r # C) = before C"
| "before (GoRight l x # C) = inorder l @ x # before C"

fun after :: "'a step list \<Rightarrow> (addr \<times> 'a) list" where
  "after [] = []"
| "after (GoLeft x r # C) = after C @ x # inorder r"
| "after (GoRight l x # C) = after C"

lemma inorder_plug: "inorder (plug C t) = before C @ inorder t @ after C"
  by (induction C t rule: plug.induct) auto

definition hole_addrs :: "'a step list \<Rightarrow> addr set" where
  "hole_addrs C = fst ` (set (before C) \<union> set (after C))"

lemma addrs_plug: "set (addrs (plug C t)) = hole_addrs C \<union> set (addrs t)"
  by (auto simp: addrs_def inorder_plug hole_addrs_def)

lemma hole_addrs_simps [simp]:
  "hole_addrs [] = {}"
  "hole_addrs (GoLeft (a, d) r # C) = insert a (hole_addrs C \<union> set (addrs r))"
  "hole_addrs (GoRight l (a, d) # C) = insert a (hole_addrs C \<union> set (addrs l))"
  by (auto simp: hole_addrs_def addrs_def)

text \<open>The nodes around the hole: the hole is the subtree at \<open>s\<close>, its parent is \<open>q\<close>.\<close>

fun hole_at :: "'a tree_heap \<Rightarrow> addr \<Rightarrow> addr \<Rightarrow> 'a step list \<Rightarrow> addr \<Rightarrow> addr \<Rightarrow> bool" where
  "hole_at h par p [] q s \<longleftrightarrow> q = par \<and> s = p"
| "hole_at h par p (GoLeft (a, d) r # C) q s \<longleftrightarrow> p = a \<and> a \<noteq> 0
     \<and> (\<exists>lp rp. h a = Some \<lparr>t_left = lp, t_right = rp, t_parent = par, t_data = d\<rparr>
         \<and> hole_at h a lp C q s \<and> tree_at h a rp r)"
| "hole_at h par p (GoRight l (a, d) # C) q s \<longleftrightarrow> p = a \<and> a \<noteq> 0
     \<and> (\<exists>lp rp. h a = Some \<lparr>t_left = lp, t_right = rp, t_parent = par, t_data = d\<rparr>
         \<and> tree_at h a lp l \<and> hole_at h a rp C q s)"

lemma tree_at_plug:
  "tree_at h par p (plug C t) \<longleftrightarrow> (\<exists>q s. hole_at h par p C q s \<and> tree_at h q s t)"
proof (induction C arbitrary: par p)
  case (Cons st C)
  then show ?case
    by (cases st) (auto, blast+)
qed simp

lemma hole_at_frame:
  "hole_at h par p C q s \<Longrightarrow> (\<And>x. x \<in> hole_addrs C \<Longrightarrow> h' x = h x) \<Longrightarrow> hole_at h' par p C q s"
proof (induction C arbitrary: par p)
  case (Cons st C)
  show ?case
  proof (cases st)
    case (GoLeft x r)
    obtain a d where x: "x = (a, d)" by (cases x)
    obtain lp rp where a: "p = a" "a \<noteq> 0"
      "h a = Some \<lparr>t_left = lp, t_right = rp, t_parent = par, t_data = d\<rparr>"
      "hole_at h a lp C q s" "tree_at h a rp r"
      using Cons.prems(1) by (auto simp: GoLeft x)
    have "hole_at h' a lp C q s"
      using Cons.prems(2) by (intro Cons.IH [OF a(4)]) (simp add: GoLeft x)
    moreover have "tree_at h' a rp r"
      using Cons.prems(2) by (intro tree_at_frame [OF a(5)]) (simp add: GoLeft x)
    ultimately show ?thesis
      using a Cons.prems(2) [of a] by (simp add: GoLeft x)
  next
    case (GoRight l x)
    obtain a d where x: "x = (a, d)" by (cases x)
    obtain lp rp where a: "p = a" "a \<noteq> 0"
      "h a = Some \<lparr>t_left = lp, t_right = rp, t_parent = par, t_data = d\<rparr>"
      "tree_at h a lp l" "hole_at h a rp C q s"
      using Cons.prems(1) by (auto simp: GoRight x)
    have "hole_at h' a rp C q s"
      using Cons.prems(2) by (intro Cons.IH [OF a(5)]) (simp add: GoRight x)
    moreover have "tree_at h' a lp l"
      using Cons.prems(2) by (intro tree_at_frame [OF a(4)]) (simp add: GoRight x)
    ultimately show ?thesis
      using a Cons.prems(2) [of a] by (simp add: GoRight x)
  qed
qed simp

lemma hole_at_null: "hole_at h par p C q s \<Longrightarrow> C \<noteq> [] \<Longrightarrow> p \<noteq> 0 \<and> p \<in> hole_addrs C"
  by (cases C rule: before.cases) (auto split: prod.splits)

lemma hole_at_append:
  "hole_at h par p (C @ D) q s \<longleftrightarrow> (\<exists>q1 s1. hole_at h par p C q1 s1 \<and> hole_at h q1 s1 D q s)"
proof (induction C arbitrary: par p)
  case (Cons st C)
  then show ?case
    by (cases st) (auto, blast+)
qed simp

lemma plug_append: "plug (C @ D) t = plug C (plug D t)"
  by (induction C t rule: plug.induct) auto

lemma before_append: "before (C @ D) = before C @ before D"
  by (induction C rule: before.induct) simp_all

lemma after_append: "after (C @ D) = after D @ after C"
  by (induction C rule: after.induct) simp_all

lemma hole_addrs_append: "hole_addrs (C @ D) = hole_addrs C \<union> hole_addrs D"
proof (induction C)
  case (Cons st C)
  then show ?case
    by (cases st) (auto split: prod.splits)
qed simp

text \<open>The pointer to the hole is the left field of the parent, or the right one.\<close>

lemma hole_at_left:
  assumes "hole_at h par p (C @ [GoLeft (a, d) r]) q s" and "a \<notin> hole_addrs C" and "a \<notin> set (addrs r)"
  shows "\<exists>rp par'. q = a \<and> a \<noteq> 0 \<and> h a = Some \<lparr>t_left = s, t_right = rp, t_parent = par', t_data = d\<rparr>
    \<and> (\<forall>s'. hole_at (h(a \<mapsto> \<lparr>t_left = s', t_right = rp, t_parent = par', t_data = d\<rparr>))
         par p (C @ [GoLeft (a, d) r]) a s')"
proof -
  obtain par' rp where C: "hole_at h par p C par' a" and a: "q = a" "a \<noteq> 0"
    "h a = Some \<lparr>t_left = s, t_right = rp, t_parent = par', t_data = d\<rparr>" "tree_at h a rp r"
    using assms(1) by (auto simp: hole_at_append)
  have "hole_at (h(a \<mapsto> x)) par p C par' a" for x
    using assms(2) by (intro hole_at_frame [OF C]) auto
  then show ?thesis
    using a assms(3) by (auto simp: hole_at_append tree_at_upd_other)
qed

lemma hole_at_right:
  assumes "hole_at h par p (C @ [GoRight l (a, d)]) q s" and "a \<notin> hole_addrs C" and "a \<notin> set (addrs l)"
  shows "\<exists>lp par'. q = a \<and> a \<noteq> 0 \<and> h a = Some \<lparr>t_left = lp, t_right = s, t_parent = par', t_data = d\<rparr>
    \<and> lp \<in> insert 0 (set (addrs l))
    \<and> (\<forall>s'. hole_at (h(a \<mapsto> \<lparr>t_left = lp, t_right = s', t_parent = par', t_data = d\<rparr>))
         par p (C @ [GoRight l (a, d)]) a s')"
proof -
  obtain par' lp where C: "hole_at h par p C par' a" and a: "q = a" "a \<noteq> 0"
    "h a = Some \<lparr>t_left = lp, t_right = s, t_parent = par', t_data = d\<rparr>" "tree_at h a lp l"
    using assms(1) by (auto simp: hole_at_append)
  have "hole_at (h(a \<mapsto> x)) par p C par' a" for x
    using assms(2) by (intro hole_at_frame [OF C]) auto
  moreover have "lp \<in> insert 0 (set (addrs l))"
    using a(4) by (cases l) (auto split: prod.splits)
  ultimately show ?thesis
    using a assms(3) by (auto simp: hole_at_append tree_at_upd_other)
qed

section \<open>Removal\<close>

fun split_min :: "(addr \<times> 'a) tree \<Rightarrow> (addr \<times> 'a) \<times> (addr \<times> 'a) tree" where
  "split_min Leaf = undefined"
| "split_min (Node l x r) =
     (if l = Leaf then (x, r) else let (m, l') = split_min l in (m, Node l' x r))"

definition join_sides :: "(addr \<times> 'a) tree \<Rightarrow> (addr \<times> 'a) tree \<Rightarrow> (addr \<times> 'a) tree" where
  "join_sides l r = (if l = Leaf then r else if r = Leaf then l
     else let (x, r') = split_min r in Node l x r')"

lemma split_min_plug:
  "t \<noteq> Leaf \<Longrightarrow> split_min t = (m, t') \<Longrightarrow>
     \<exists>C xr. t = plug C (Node Leaf m xr) \<and> t' = plug C xr
       \<and> (C = [] \<or> (\<exists>D y r. C = D @ [GoLeft y r]))
       \<and> (\<forall>h par p. tree_at h par p t \<longrightarrow> bstree_leftmost h p = Some (fst m))"
proof (induction t arbitrary: m t')
  case (Node l y r)
  obtain a d where y: "y = (a, d)" by (cases y)
  show ?case
  proof (cases "l = Leaf")
    case True
    then have "bstree_leftmost h p = Some a" if "tree_at h par p (Node l y r)" for h par p
      using that by (subst bstree_leftmost.simps) (auto simp: y)
    then show ?thesis
      using Node.prems True by (intro exI [of _ "[]"] exI [of _ r]) (auto simp: y)
  next
    case False
    obtain l' where l': "split_min l = (m, l')" "t' = Node l' y r"
      using Node.prems(2) False by (auto split: prod.splits)
    from Node.IH(1) [OF False l'(1)] obtain C xr where C: "l = plug C (Node Leaf m xr)" "l' = plug C xr"
      "C = [] \<or> (\<exists>D y r. C = D @ [GoLeft y r])"
      "\<forall>h par p. tree_at h par p l \<longrightarrow> bstree_leftmost h p = Some (fst m)" by blast
    have "bstree_leftmost h p = Some (fst m)" if "tree_at h par p (Node l y r)" for h par p
      using that C(4) False tree_at_null by (subst bstree_leftmost.simps) (fastforce simp: y)
    moreover have "GoLeft y r # C = [] \<or> (\<exists>D z u. GoLeft y r # C = D @ [GoLeft z u])"
      using C(3) by (metis append_Cons append_Nil)
    ultimately show ?thesis
      using C(1,2) l'(2) by (intro exI [of _ "GoLeft y r # C"] exI [of _ xr]) auto
  qed
qed simp

lemma inorder_split_min: "t \<noteq> Leaf \<Longrightarrow> split_min t = (m, t') \<Longrightarrow> inorder t = m # inorder t'"
  by (induction t arbitrary: m t') (auto split: if_splits prod.splits)

lemma inorder_join: "inorder (join_sides l r) = inorder l @ inorder r"
  by (auto simp: join_sides_def inorder_split_min split: prod.splits)

lemma distinct_addrs_node:
  assumes "distinct (addrs (Node l (a, d) r))"
  shows "distinct (addrs l)" "distinct (addrs r)" "a \<notin> set (addrs l)" "a \<notin> set (addrs r)"
    "set (addrs l) \<inter> set (addrs r) = {}"
  using assms by auto

text \<open>Setting the parent field of the root of a subtree, if there is one.\<close>

lemma tree_at_reparent:
  assumes "tree_at h q x t" and "distinct (addrs t)"
  shows "\<exists>h'. (if x \<noteq> 0 then assign h x (\<lambda>n. n\<lparr>t_parent := par\<rparr>) else Some h) = Some h'
    \<and> tree_at h' par x t \<and> (\<forall>y. y \<notin> set (addrs t) \<longrightarrow> h' y = h y)"
proof (cases "t = Leaf")
  case True
  then show ?thesis
    using assms(1) by auto
next
  case False
  with tree_at_new_parent [OF assms(1) False assms(2), of par] show ?thesis
    by auto
qed

text \<open>The last step of the replacement: the left subtree is hung below the new root.\<close>

lemma bstree_hang_left_spec:
  assumes l: "tree_at h q lp l" "l \<noteq> Leaf" "distinct (addrs l)"
    and item: "h item = Some i" "t_left i = lp" "item \<noteq> 0"
    and x: "h x = Some \<lparr>t_left = xl, t_right = xr, t_parent = par, t_data = e\<rparr>" "x \<noteq> 0" "x \<notin> set (addrs l)"
    and r: "tree_at h x xr r" "x \<notin> set (addrs r)" "set (addrs l) \<inter> set (addrs r) = {}"
  shows "\<exists>h'. bstree_hang_left h item x = Some h'
    \<and> tree_at h' par x (Node l (x, e) r) \<and> (\<forall>y. y \<noteq> x \<longrightarrow> y \<notin> set (addrs l) \<longrightarrow> h' y = h y)"
proof -
  from tree_at_new_parent [OF l, of x] obtain n where n: "h lp = Some n" "lp \<noteq> 0" "lp \<in> set (addrs l)"
    "tree_at (h(lp \<mapsto> n\<lparr>t_parent := x\<rparr>)) x lp l" by blast
  then have ne: "lp \<noteq> x" "lp \<notin> set (addrs r)"
    using x(3) r(3) by auto
  let ?h = "h(x \<mapsto> \<lparr>t_left = lp, t_right = xr, t_parent = par, t_data = e\<rparr>, lp \<mapsto> n\<lparr>t_parent := x\<rparr>)"
  have "bstree_hang_left h item x = Some ?h"
    using n ne x item by (simp add: bstree_hang_left_def)
  moreover have "tree_at ?h x lp l"
    by (rule tree_at_frame [OF n(4)]) (use x(3) ne in auto)
  moreover have "tree_at ?h x xr r"
    by (rule tree_at_frame [OF r(1)]) (use r(2) ne in auto)
  ultimately show ?thesis
    using n ne x by auto
qed

text \<open>The addresses around the smallest node \<open>x\<close> of a subtree, which is the left child of \<open>c\<close>.\<close>

lemma minimum_distinct:
  assumes "distinct (addrs (plug (D @ [GoLeft (c, v) u]) (Node Leaf (x, e) xr)))"
  shows "distinct (addrs xr)" "x \<notin> set (addrs xr)" "x \<notin> hole_addrs (D @ [GoLeft (c, v) u])"
    "distinct (addrs (plug (D @ [GoLeft (c, v) u]) xr))" "hole_addrs (D @ [GoLeft (c, v) u]) \<inter> set (addrs xr) = {}"
    "c \<notin> hole_addrs D" "c \<notin> set (addrs u)" "c \<noteq> x" "c \<notin> set (addrs xr)"
  using assms by (auto simp: plug_append addrs_def inorder_plug hole_addrs_def before_append after_append)

lemma bstree_unlink_minimum_spec:
  assumes hole: "hole_at h a rp (D @ [GoLeft (c, v) u]) b x" and xt: "tree_at h b x (Node Leaf (x, e) xr)"
    and dist: "distinct (addrs (plug (D @ [GoLeft (c, v) u]) (Node Leaf (x, e) xr)))"
  shows "\<exists>h' xrp. bstree_unlink_minimum h x = Some h' \<and> tree_at h' a rp (plug (D @ [GoLeft (c, v) u]) xr)
    \<and> h' x = Some \<lparr>t_left = 0, t_right = xrp, t_parent = c, t_data = e\<rparr>
    \<and> (\<forall>z. z \<notin> hole_addrs (D @ [GoLeft (c, v) u]) \<longrightarrow> z \<notin> set (addrs xr) \<longrightarrow> h' z = h z)"
proof -
  let ?C = "D @ [GoLeft (c, v) u]"
  note dst = minimum_distinct [OF dist]
  from hole_at_left [OF hole dst(6,7)] obtain up yp where
    b: "b = c" "c \<noteq> 0" "h c = Some \<lparr>t_left = x, t_right = up, t_parent = yp, t_data = v\<rparr>"
      "\<And>s'. hole_at (h(c \<mapsto> \<lparr>t_left = s', t_right = up, t_parent = yp, t_data = v\<rparr>)) a rp ?C c s'"
    by blast
  obtain xrp where x: "x \<noteq> 0" "tree_at h x xrp xr" "h x = Some \<lparr>t_left = 0, t_right = xrp, t_parent = c, t_data = e\<rparr>"
    using xt b(1) by auto
  obtain h1 where h1: "(if xrp \<noteq> 0 then assign h xrp (\<lambda>n. n\<lparr>t_parent := c\<rparr>) else Some h) = Some h1"
      "tree_at h1 c xrp xr" "\<forall>z. z \<notin> set (addrs xr) \<longrightarrow> h1 z = h z"
    using tree_at_reparent [OF x(2) dst(1), of c] by blast
  let ?h2 = "h1(c \<mapsto> \<lparr>t_left = xrp, t_right = up, t_parent = yp, t_data = v\<rparr>)"
  have "h1 x = h x" "h1 c = h c"
    using h1(3) dst(2,9) by auto
  then have "bstree_unlink_minimum h x = Some ?h2"
    using x b(2,3) h1(1) dst(8) by (cases "xrp = 0") (simp_all add: bstree_unlink_minimum_def)
  moreover have "hole_at ?h2 a rp ?C c xrp"
    using h1(3) dst(5) by (intro hole_at_frame [OF b(4) [of xrp]]) auto
  then have "tree_at ?h2 a rp (plug ?C xr)"
    unfolding tree_at_plug using tree_at_upd_other [OF h1(2) dst(9)] by blast
  ultimately show ?thesis
    using x(3) h1(3) dst(2,8) by (auto simp: hole_addrs_append)
qed

lemma bstree_lift_minimum_spec:
  assumes hole: "hole_at h a rp (D @ [GoLeft y u]) b x" and xt: "tree_at h b x (Node Leaf (x, e) xr)"
    and item: "h a = Some i" "t_right i = rp" "a \<noteq> 0" "a \<notin> set (addrs (plug (D @ [GoLeft y u]) (Node Leaf (x, e) xr)))"
    and dist: "distinct (addrs (plug (D @ [GoLeft y u]) (Node Leaf (x, e) xr)))"
  shows "\<exists>h'. bstree_lift_minimum h a x = Some h'
    \<and> (\<exists>xl b'. h' x = Some \<lparr>t_left = xl, t_right = rp, t_parent = b', t_data = e\<rparr>)
    \<and> tree_at h' x rp (plug (D @ [GoLeft y u]) xr)
    \<and> (\<forall>z. z \<notin> set (addrs (plug (D @ [GoLeft y u]) (Node Leaf (x, e) xr))) \<longrightarrow> h' z = h z)"
proof -
  obtain c v where y: "y = (c, v)" by (cases y)
  let ?C = "D @ [GoLeft y u]"
  note dst = minimum_distinct [OF dist [unfolded y], folded y]
  obtain h2 xrp where h2: "bstree_unlink_minimum h x = Some h2" "tree_at h2 a rp (plug ?C xr)"
      "h2 x = Some \<lparr>t_left = 0, t_right = xrp, t_parent = c, t_data = e\<rparr>"
      "\<And>z. z \<notin> hole_addrs ?C \<Longrightarrow> z \<notin> set (addrs xr) \<Longrightarrow> h2 z = h z"
    using bstree_unlink_minimum_spec [OF hole [unfolded y] xt dist [unfolded y], folded y] by blast
  have xC: "x \<notin> set (addrs (plug ?C xr))" and x0: "x \<noteq> 0"
    unfolding addrs_plug using dst(2,3) xt by auto
  have a: "a \<notin> hole_addrs ?C" "a \<notin> set (addrs xr)" "a \<noteq> x"
    using item(4) unfolding addrs_plug by auto
  let ?h3 = "h2(x \<mapsto> \<lparr>t_left = 0, t_right = rp, t_parent = c, t_data = e\<rparr>)"
  have ne: "plug ?C xr \<noteq> Leaf"
    by (simp add: plug_append y) (metis plug.elims tree.distinct(1))
  from tree_at_new_parent [OF tree_at_upd_other [OF h2(2) xC] ne dst(4), of _ x] obtain n where
    n: "?h3 rp = Some n" "rp \<noteq> 0" "rp \<in> set (addrs (plug ?C xr))" "tree_at (?h3(rp \<mapsto> n\<lparr>t_parent := x\<rparr>)) x rp (plug ?C xr)"
    by blast
  have "rp \<noteq> x" "rp \<noteq> a"
    using n(3) xC a(1,2) unfolding addrs_plug by auto
  moreover have "h2 a = h a"
    using h2(4) a(1,2) by blast
  ultimately have "bstree_lift_minimum h a x = Some (?h3(rp \<mapsto> n\<lparr>t_parent := x\<rparr>))"
    using h2(1,3) item(1-3) x0 a(3) n(1,2) by (simp add: bstree_lift_minimum_def)
  moreover have "(?h3(rp \<mapsto> n\<lparr>t_parent := x\<rparr>)) z = h z" if "z \<notin> set (addrs (plug ?C (Node Leaf (x, e) xr)))" for z
    using that n(3) h2(4) [of z] unfolding addrs_plug by auto
  ultimately show ?thesis
    using n(4) \<open>rp \<noteq> x\<close> by auto
qed

text \<open>In either case the smallest node ends above what is left of the right subtree.\<close>

lemma replacement_right_side:
  assumes r: "tree_at h a rp r" "r \<noteq> Leaf" "distinct (addrs r)" and m: "split_min r = ((x, e), r')"
    and a: "a \<noteq> 0" "h a = Some i" "t_right i = rp" "a \<notin> set (addrs r)"
  shows "bstree_leftmost h rp = Some x \<and> x \<noteq> 0 \<and> x \<in> set (addrs r) \<and> set (addrs r') \<subseteq> set (addrs r) \<and> x \<notin> set (addrs r')
    \<and> (\<exists>h1 xl xr' b'. (if x = rp then Some h else bstree_lift_minimum h a x) = Some h1
      \<and> h1 x = Some \<lparr>t_left = xl, t_right = xr', t_parent = b', t_data = e\<rparr>
      \<and> tree_at h1 x xr' r' \<and> (\<forall>z. z \<notin> set (addrs r) \<longrightarrow> h1 z = h z))"
proof -
  obtain C xr where C: "r = plug C (Node Leaf (x, e) xr)" "r' = plug C xr"
      "C = [] \<or> (\<exists>D y u. C = D @ [GoLeft y u])" "bstree_leftmost h rp = Some x"
    using split_min_plug [OF r(2) m] r(1) by fastforce
  have in_r: "x \<in> set (addrs r)" "set (addrs r') \<subseteq> set (addrs r)" "x \<notin> set (addrs r')" "x \<notin> hole_addrs C"
    using r(3) by (auto simp: C(1,2) addrs_plug) (auto simp: addrs_def inorder_plug hole_addrs_def)
  obtain b where hole: "hole_at h a rp C b x" and xt: "tree_at h b x (Node Leaf (x, e) xr)"
    using r(1) C(1) by (auto simp: tree_at_plug)
  have "\<exists>h1 xl xr' b'. (if x = rp then Some h else bstree_lift_minimum h a x) = Some h1
      \<and> h1 x = Some \<lparr>t_left = xl, t_right = xr', t_parent = b', t_data = e\<rparr>
      \<and> tree_at h1 x xr' r' \<and> (\<forall>z. z \<notin> set (addrs r) \<longrightarrow> h1 z = h z)"
  proof (cases "C = []")
    case True
    then show ?thesis
      using hole xt C(2) by auto
  next
    case False
    then have "x \<noteq> rp"
      using hole_at_null [OF hole] in_r(4) by auto
    moreover obtain D y u where D: "C = D @ [GoLeft y u]"
      using C(3) False by blast
    ultimately show ?thesis
      using bstree_lift_minimum_spec [OF hole [unfolded D] xt a(2,3,1)] r(3) a(4) C(1,2) unfolding D by fastforce
  qed
  then show ?thesis
    using C(4) xt in_r by auto
qed

lemma bstree_replacement_spec:
  assumes t: "tree_at h par a (Node l (a, d) r)" and dist: "distinct (addrs (Node l (a, d) r))"
  shows "\<exists>x h'. bstree_replacement h a = Some (x, h') \<and> h' a = h a
    \<and> (\<exists>par'. tree_at h' par' x (join_sides l r))
    \<and> (\<forall>y. y \<notin> set (addrs l) \<union> set (addrs r) \<longrightarrow> h' y = h y)"
proof -
  obtain lp rp where a: "a \<noteq> 0" "h a = Some \<lparr>t_left = lp, t_right = rp, t_parent = par, t_data = d\<rparr>"
    "tree_at h a lp l" "tree_at h a rp r"
    using t by auto
  note dst = distinct_addrs_node [OF dist]
  note null = tree_at_null [OF a(3)] tree_at_null [OF a(4)]
  show ?thesis
  proof (cases "l = Leaf \<or> r = Leaf")
    case True
    then show ?thesis
      using a null by (auto simp: bstree_replacement_def join_sides_def)
  next
    case False
    obtain x e r' where m: "split_min r = ((x, e), r')"
      by (metis surj_pair)
    then have join: "join_sides l r = Node l (x, e) r'"
      using False by (simp add: join_sides_def)
    obtain h1 xl xr' b' where x: "bstree_leftmost h rp = Some x" "x \<noteq> 0" "x \<in> set (addrs r)"
        "set (addrs r') \<subseteq> set (addrs r)" "x \<notin> set (addrs r')"
      and h1: "(if x = rp then Some h else bstree_lift_minimum h a x) = Some h1"
        "h1 x = Some \<lparr>t_left = xl, t_right = xr', t_parent = b', t_data = e\<rparr>"
        "tree_at h1 x xr' r'" "\<forall>z. z \<notin> set (addrs r) \<longrightarrow> h1 z = h z"
      using replacement_right_side [OF a(4) _ dst(2) m a(1,2) _ dst(4)] False by auto
    have xa: "x \<noteq> a" "x \<notin> set (addrs l)" "set (addrs l) \<inter> set (addrs r') = {}"
      using x(3,4) dst by auto
    have "tree_at h1 a lp l"
      by (rule tree_at_frame [OF a(3)]) (use h1(4) dst(5) in auto)
    from bstree_hang_left_spec [OF this _ dst(1) _ _ a(1) h1(2) x(2) xa(2) h1(3) x(5) xa(3), of _]
    obtain h2 where h2: "bstree_hang_left h1 a x = Some h2" "tree_at h2 b' x (Node l (x, e) r')"
        "\<forall>y. y \<noteq> x \<longrightarrow> y \<notin> set (addrs l) \<longrightarrow> h2 y = h1 y"
      using False a(2) h1(4) dst(4) by auto
    have "bstree_replacement h a = Some (x, h2)"
      using a False null x(1) h1(1) h2(1) by (simp add: bstree_replacement_def bscl_bstree_minimum_def)
    moreover have "h2 a = h a"
      using h2(3) h1(4) xa(1) dst(3,4) by auto
    ultimately show ?thesis
      using h2 h1(4) x(3) unfolding join by fastforce
  qed
qed

text \<open>The parent field of the replacement is set, and the item is freed.\<close>

lemma tree_at_adopt:
  assumes "tree_at h q x t" and "distinct (addrs t)" and "a \<notin> set (addrs t)"
  shows "\<exists>h'. (if x \<noteq> 0 then assign h x (\<lambda>n. n\<lparr>t_parent := par\<rparr>) else Some h) = Some h'
    \<and> tree_at (h'(a := None)) par x t \<and> h' a = h a \<and> (\<forall>y. y \<notin> set (addrs t) \<longrightarrow> h' y = h y)"
  using tree_at_reparent [OF assms(1,2), of par] assms(3) tree_at_upd_other by metis

text \<open>The field of the parent that points to the hole is set.\<close>

lemma hole_at_redirect:
  assumes hole: "hole_at h par p (D @ [st]) q a" and "a \<noteq> 0" and "a \<notin> hole_addrs (D @ [st])"
    and dist: "distinct (map fst (before (D @ [st]) @ after (D @ [st])))"
  shows "\<exists>n. q \<noteq> 0 \<and> h q = Some n \<and> q \<in> hole_addrs (D @ [st])
    \<and> hole_at (h(q \<mapsto> (if t_left n = a then n\<lparr>t_left := x\<rparr> else n\<lparr>t_right := x\<rparr>))) par p (D @ [st]) q x"
proof (cases st)
  case (GoLeft y u)
  obtain c v where y: "y = (c, v)" by (cases y)
  have "c \<notin> hole_addrs D" "c \<notin> set (addrs u)"
    using dist by (auto simp: GoLeft y addrs_def hole_addrs_def before_append after_append)
  from hole_at_left [OF hole [unfolded GoLeft y] this] obtain rp par' where
    "q = c" "c \<noteq> 0" "h c = Some \<lparr>t_left = a, t_right = rp, t_parent = par', t_data = v\<rparr>"
    "hole_at (h(c \<mapsto> \<lparr>t_left = x, t_right = rp, t_parent = par', t_data = v\<rparr>)) par p (D @ [st]) c x"
    unfolding GoLeft y by blast
  then show ?thesis
    by (intro exI [of _ "\<lparr>t_left = a, t_right = rp, t_parent = par', t_data = v\<rparr>"])
      (simp add: GoLeft y hole_addrs_append)
next
  case (GoRight u y)
  obtain c v where y: "y = (c, v)" by (cases y)
  have "c \<notin> hole_addrs D" "c \<notin> set (addrs u)"
    using dist by (auto simp: GoRight y addrs_def hole_addrs_def before_append after_append)
  from hole_at_right [OF hole [unfolded GoRight y] this] obtain lp par' where
    lp: "lp \<in> insert 0 (set (addrs u))" and
    "q = c" "c \<noteq> 0" "h c = Some \<lparr>t_left = lp, t_right = a, t_parent = par', t_data = v\<rparr>"
    "hole_at (h(c \<mapsto> \<lparr>t_left = lp, t_right = x, t_parent = par', t_data = v\<rparr>)) par p (D @ [st]) c x"
    unfolding GoRight y by blast
  moreover have "lp \<noteq> a"
    using lp assms(2,3) by (auto simp: GoRight y hole_addrs_append)
  ultimately show ?thesis
    by (intro exI [of _ "\<lparr>t_left = lp, t_right = a, t_parent = par', t_data = v\<rparr>"])
      (simp add: GoRight y hole_addrs_append)
qed

lemma bscl_bstree_remove_item_spec:
  assumes t: "tree_at h par p (plug C (Node l (a, d) r))"
    and dist: "distinct (addrs (plug C (Node l (a, d) r)))"
  shows "\<exists>p' h'. bscl_bstree_remove_item h p a = Some (p', h')
    \<and> tree_at h' par p' (plug C (join_sides l r)) \<and> h' a = None"
proof -
  let ?N = "Node l (a, d) r" and ?J = "join_sides l r"
  obtain q s where hole: "hole_at h par p C q s" and N: "tree_at h q s ?N"
    using t by (auto simp: tree_at_plug)
  then have "s = a" and a0: "a \<noteq> 0" and "\<exists>i. h a = Some i \<and> t_parent i = q"
    by auto
  then obtain i where i: "h a = Some i" "t_parent i = q" and N: "tree_at h q a ?N"
    using N by blast
  have dN: "distinct (addrs ?N)" and disj: "hole_addrs C \<inter> set (addrs ?N) = {}"
    using dist by (auto simp: addrs_def inorder_plug hole_addrs_def)
  have J: "distinct (addrs ?J)" "a \<notin> set (addrs ?J)" "set (addrs ?J) = set (addrs l) \<union> set (addrs r)"
    using dN by (auto simp: addrs_def inorder_join)
  from bstree_replacement_spec [OF N dN] obtain x h1 q1 where
    h1: "bstree_replacement h a = Some (x, h1)" "h1 a = h a" "tree_at h1 q1 x ?J"
      "\<forall>y. y \<notin> set (addrs l) \<union> set (addrs r) \<longrightarrow> h1 y = h y"
    by blast
  show ?thesis
  proof (cases C rule: rev_cases)
    case Nil
    then have "p = a" "q = par"
      using hole \<open>s = a\<close> by simp_all
    moreover from tree_at_adopt [OF h1(3) J(1,2), of par] obtain h2 where
      "(if x \<noteq> 0 then assign h1 x (\<lambda>n. n\<lparr>t_parent := par\<rparr>) else Some h1) = Some h2"
      "tree_at (h2(a := None)) par x ?J" "h2 a = h1 a" by blast
    ultimately show ?thesis
      using Nil h1(1,2) i a0
      by (cases "x = 0") (simp_all add: bscl_bstree_remove_item_def free_def)
  next
    case (snoc D st)
    have pa: "p \<noteq> a"
      using hole_at_null [OF hole] snoc disj by auto
    have hole1: "hole_at h1 par p C q a"
      using hole \<open>s = a\<close> h1(4) disj by (auto intro: hole_at_frame)
    have dh: "distinct (map fst (before C @ after C))"
      using dist by (auto simp: addrs_def inorder_plug)
    have "a \<notin> hole_addrs C"
      using disj by auto
    from hole_at_redirect [OF hole1 [unfolded snoc] a0 this [unfolded snoc] dh [unfolded snoc], of x, folded snoc]
    obtain n where n: "q \<noteq> 0" "h1 q = Some n" "q \<in> hole_addrs C"
      and g: "hole_at (h1(q \<mapsto> (if t_left n = a then n\<lparr>t_left := x\<rparr> else n\<lparr>t_right := x\<rparr>))) par p C q x"
      by blast
    let ?h = "h1(q \<mapsto> (if t_left n = a then n\<lparr>t_left := x\<rparr> else n\<lparr>t_right := x\<rparr>))"
    have q: "q \<noteq> a" "q \<notin> set (addrs ?J)"
      using n(3) disj J(3) by auto
    from tree_at_adopt [where h = ?h and par = q, OF tree_at_upd_other [OF h1(3) q(2)] J(1,2)] obtain h3 where
      h3: "(if x \<noteq> 0 then assign ?h x (\<lambda>n. n\<lparr>t_parent := q\<rparr>) else Some ?h) = Some h3"
      "tree_at (h3(a := None)) q x ?J" "h3 a = h1 a" "\<forall>y. y \<notin> set (addrs ?J) \<longrightarrow> h3 y = ?h y"
      using q by (auto simp del: fun_upd_apply) (metis fun_upd_other)
    have "hole_at (h3(a := None)) par p C q x"
      using h3(4) disj J(3) by (intro hole_at_frame [OF g]) auto
    then have "tree_at (h3(a := None)) par p (plug C ?J)"
      using h3(2) by (auto simp: tree_at_plug)
    moreover have "bscl_bstree_remove_item h p a = Some (p, h3(a := None))"
      using h1(1,2) i a0 pa n h3(1,3) q(1)
      by (cases "x = 0"; cases "t_left n = a") (simp_all add: bscl_bstree_remove_item_def free_def)
    ultimately show ?thesis by auto
  qed
qed

lemma inorder_split_plug: "x \<in> set (inorder t) \<Longrightarrow> \<exists>C l r. t = plug C (Node l x r)"
proof (induction t)
  case (Node l y r)
  then consider "x = y" | "x \<in> set (inorder l)" | "x \<in> set (inorder r)"
    by auto
  then show ?case
  proof cases
    case 1
    then show ?thesis
      by (intro exI [of _ "[]"]) auto
  next
    case 2
    then obtain C a b where "l = plug C (Node a x b)"
      using Node.IH(1) by blast
    then show ?thesis
      by (intro exI [of _ "GoLeft y r # C"]) auto
  next
    case 3
    then obtain C a b where "r = plug C (Node a x b)"
      using Node.IH(2) by blast
    then show ?thesis
      by (intro exI [of _ "GoRight l y # C"]) auto
  qed
qed simp

lemma bscl_bstree_remove_spec:
  assumes "signed_comparator cmp"
  shows "tree_at h par p t \<Longrightarrow> distinct (addrs t) \<Longrightarrow> search_tree cmp t \<Longrightarrow>
    \<exists>p' h' t'. bscl_bstree_remove cmp h p d = Some (p', h') \<and> tree_at h' par p' t'
      \<and> distinct (addrs t') \<and> contents t' = filter (\<lambda>e. cmp d e \<noteq> 0) (contents t)"
proof (induction "length (contents t)" arbitrary: h p t rule: less_induct)
  case less
  obtain q where q: "bscl_bstree_find cmp h p d = Some q"
    "q \<noteq> 0 \<longrightarrow> (\<exists>e. (q, e) \<in> set (inorder t) \<and> cmp d e = 0)"
    "q = 0 \<longrightarrow> (\<forall>e\<in>set (contents t). cmp d e \<noteq> 0)"
    using bscl_bstree_find_spec [OF less.prems(1), of cmp d] assms less.prems(3) by blast
  show ?case
  proof (cases "q = 0")
    case True
    then have "filter (\<lambda>e. cmp d e \<noteq> 0) (contents t) = contents t"
      using q(3) by (simp add: filter_id_conv)
    moreover have "bscl_bstree_remove cmp h p d = Some (p, h)"
      using True q(1) by (subst bscl_bstree_remove.simps) simp
    ultimately show ?thesis
      using less.prems by auto
  next
    case False
    then obtain e C l r where e: "cmp d e = 0" "t = plug C (Node l (q, e) r)"
      using q(2) inorder_split_plug by metis
    let ?t = "plug C (join_sides l r)"
    obtain p1 h1 where h1: "bscl_bstree_remove_item h p q = Some (p1, h1)" "tree_at h1 par p1 ?t"
      using bscl_bstree_remove_item_spec [of h par p C l q e r] less.prems(1,2) e(2) by blast
    have con: "contents t = map snd (before C) @ contents l @ e # contents r @ map snd (after C)"
      "contents ?t = map snd (before C) @ contents l @ contents r @ map snd (after C)"
      by (simp_all add: e(2) contents_def inorder_plug inorder_join)
    have "search_tree cmp ?t"
      using less.prems(3) unfolding search_tree_def con by (auto simp: sorted_wrt_append)
    moreover have "distinct (addrs ?t)"
      using less.prems(2) by (auto simp: e(2) addrs_def inorder_plug inorder_join)
    moreover have "length (contents ?t) < length (contents t)"
      unfolding con by simp
    ultimately obtain p' h' t' where t': "bscl_bstree_remove cmp h1 p1 d = Some (p', h')"
      "tree_at h' par p' t'" "distinct (addrs t')" "contents t' = filter (\<lambda>e. cmp d e \<noteq> 0) (contents ?t)"
      using less.hyps [OF _ h1(2)] by blast
    moreover have "filter (\<lambda>e. cmp d e \<noteq> 0) (contents ?t) = filter (\<lambda>e. cmp d e \<noteq> 0) (contents t)"
      unfolding con using e(1) by simp
    moreover have "bscl_bstree_remove cmp h p d = Some (p', h')"
      using False q(1) h1(1) t'(1) by (subst bscl_bstree_remove.simps) simp
    ultimately show ?thesis by auto
  qed
qed

section \<open>Properties\<close>

text \<open>A tree with the data 4 and 7.\<close>

definition two_nodes :: "int tree_heap" where
  "two_nodes = [1 \<mapsto> \<lparr>t_left = 2, t_right = 0, t_parent = 0, t_data = 7\<rparr>,
                2 \<mapsto> \<lparr>t_left = 0, t_right = 0, t_parent = 1, t_data = 4\<rparr>]"

lemma two_nodes_tree:
  "tree_at two_nodes 0 1 (Node (Node Leaf (2, 4) Leaf) (1, 7) Leaf)"
  "distinct (addrs (Node (Node Leaf (2, 4 :: int) Leaf) (1, 7) Leaf))"
  "search_tree (\<lambda>a b. a - b) (Node (Node Leaf (2, 4 :: int) Leaf) (1, 7) Leaf)"
  by (simp_all add: two_nodes_def search_tree_def le_def)

text \<open>
  C15: inserting into a well-formed search tree returns, adds exactly the new item (also when an
  equal one is there already), keeps the parent pointers and the search order, and afterwards a
  search for any key ends at a node with equal data, or with null when there is none.
\<close>

theorem bscl_bstree_insert_then_find:
  assumes "signed_comparator cmp" and "tree_at h par p t" and "t \<noteq> Leaf" and "distinct (addrs t)"
    and "search_tree cmp t" and "malloc h = Some (c, x)" and "fresh_allocator malloc"
  shows "\<exists>h' t'. bscl_bstree_insert cmp malloc h p d = Some h' \<and> tree_at h' par p t'
    \<and> distinct (addrs t') \<and> search_tree cmp t' \<and> mset (inorder t') = add_mset (c, d) (mset (inorder t))
    \<and> (\<forall>k. \<exists>q. bscl_bstree_find cmp h' p k = Some q
        \<and> (q \<noteq> 0 \<longrightarrow> (\<exists>e. (q, e) \<in> set (inorder t') \<and> cmp k e = 0))
        \<and> (q = 0 \<longleftrightarrow> (\<forall>e\<in>set (contents t'). cmp k e \<noteq> 0)))"
proof -
  have c: "c \<noteq> 0" "h c = None"
    using fresh_allocatorD [OF assms(7,6)] by simp_all
  then have notin: "c \<notin> set (addrs t)"
    using tree_at_nonnull [OF assms(2)] by blast
  have p0: "p \<noteq> 0"
    using tree_at_null [OF assms(2)] assms(3) by simp
  let ?x = "x\<lparr>t_data := d, t_left := 0, t_right := 0\<rparr>" and ?t = "tree_ins cmp (c, d) t"
  have "(h(c \<mapsto> ?x)) c = Some \<lparr>t_left = 0, t_right = 0, t_parent = t_parent x, t_data = d\<rparr>"
    by simp
  from bstree_insert_loop_spec [OF tree_at_upd_other [OF assms(2) notin] assms(3,4) notin c(1) this]
  obtain h' where h': "bstree_insert_loop cmp (h(c \<mapsto> ?x)) c d p = Some h'" "tree_at h' par p ?t"
    by blast
  have "bscl_bstree_insert cmp malloc h p d = Some h'"
    using h'(1) assms(6) p0 by (simp add: bscl_bstree_insert_def)
  moreover have s: "search_tree cmp ?t"
    using assms(1,5) by (rule tree_ins_sorted)
  moreover have "distinct (addrs ?t)"
    using assms(4) notin by (simp add: tree_ins_distinct)
  moreover have "\<exists>q. bscl_bstree_find cmp h' p k = Some q
      \<and> (q \<noteq> 0 \<longrightarrow> (\<exists>e. (q, e) \<in> set (inorder ?t) \<and> cmp k e = 0))
      \<and> (q = 0 \<longleftrightarrow> (\<forall>e\<in>set (contents ?t). cmp k e \<noteq> 0))" for k
    using bscl_bstree_find_spec [OF h'(2), of cmp k] assms(1) s
    by (auto simp: contents_def) force+
  ultimately show ?thesis
    using h'(2) tree_ins_mset [of cmp "(c, d)" t] by auto
qed

lemma bscl_bstree_insert_then_find_witness:
  "\<exists>h'. bscl_bstree_insert (\<lambda>a b. a - b) (\<lambda>h. if h 3 = None then Some (3, \<lparr>t_left = 9, t_right = 9, t_parent = 9, t_data = 9\<rparr>) else None)
      two_nodes 1 (5 :: int) = Some h'
    \<and> (\<exists>q. bscl_bstree_find (\<lambda>a b. a - b) h' 1 6 = Some q)"
proof -
  let ?new = "\<lambda>h :: int tree_heap. if h 3 = None
    then Some (3 :: addr, \<lparr>t_left = 9, t_right = 9, t_parent = 9, t_data = 9 :: int\<rparr>) else None"
  have "fresh_allocator ?new"
    by (auto simp: fresh_allocator_def split: if_splits)
  moreover have "?new two_nodes = Some (3, \<lparr>t_left = 9, t_right = 9, t_parent = 9, t_data = 9\<rparr>)"
    by (simp add: two_nodes_def)
  ultimately show ?thesis
    using bscl_bstree_insert_then_find [OF signed_int two_nodes_tree(1) _ two_nodes_tree(2,3), of ?new 3 _ 5]
    by blast
qed

text \<open>
  C14: \<open>bscl_bstree_remove\<close> on a well-formed search tree returns, removes every item that
  compares equal and no other, keeps the order of the rest and all parent pointers, and returns
  the new root.
\<close>

theorem bscl_bstree_remove_all_equal:
  assumes "signed_comparator cmp" and "tree_at h par p t" and "distinct (addrs t)" and "search_tree cmp t"
  shows "\<exists>p' h' t'. bscl_bstree_remove cmp h p d = Some (p', h') \<and> tree_at h' par p' t'
    \<and> distinct (addrs t') \<and> search_tree cmp t'
    \<and> contents t' = filter (\<lambda>e. cmp d e \<noteq> 0) (contents t)"
  using bscl_bstree_remove_spec [OF assms] assms(4)
  by (metis search_tree_def sorted_wrt_filter)

lemma bscl_bstree_remove_all_equal_witness:
  "\<exists>p' h' t'. bscl_bstree_remove (\<lambda>a b. a - b) two_nodes 1 7 = Some (p', h')
    \<and> tree_at h' 0 p' t' \<and> contents t' = [4]"
  using bscl_bstree_remove_all_equal [OF signed_int two_nodes_tree, of 7] by auto

section \<open>Printing\<close>

text \<open>The output, where \<open>pv\<close> is what \<open>print_value\<close> writes for the data of a node.\<close>

partial_function (option) bscl_bstree_print :: "('a \<Rightarrow> string) \<Rightarrow> 'a tree_heap \<Rightarrow> addr \<Rightarrow> string option" where
  "bscl_bstree_print pv h p =
     (if p = 0 then Some []
      else do {
        t \<leftarrow> deref h p;
        xs \<leftarrow> bscl_bstree_print pv h (t_left t);
        ys \<leftarrow> bscl_bstree_print pv h (t_right t);
        Some (xs @ pv (t_data t) @ '' '' @ ys)
      })"

partial_function (option) bscl_bstree_print2 :: "('a \<Rightarrow> string) \<Rightarrow> 'a tree_heap \<Rightarrow> addr \<Rightarrow> nat \<Rightarrow> string option" where
  "bscl_bstree_print2 pv h p blk =
     (let lead = replicate blk CHR '' '' @ ''|--'' in
      if p = 0 then Some (lead @ ''*'')
      else do {
        t \<leftarrow> deref h p;
        xs \<leftarrow> bscl_bstree_print2 pv h (t_left t) (blk + 1);
        ys \<leftarrow> bscl_bstree_print2 pv h (t_right t) (blk + 1);
        Some (lead @ pv (t_data t) @ CHR 0x0A # '' '' @ xs @ CHR 0x0A # '' '' @ ys)
      })"

fun tree_picture :: "('a \<Rightarrow> string) \<Rightarrow> (addr \<times> 'a) tree \<Rightarrow> nat \<Rightarrow> string" where
  "tree_picture pv Leaf blk = replicate blk CHR '' '' @ ''|--*''"
| "tree_picture pv (Node l (a, d) r) blk = replicate blk CHR '' '' @ ''|--'' @ pv d
     @ CHR 0x0A # '' '' @ tree_picture pv l (blk + 1) @ CHR 0x0A # '' '' @ tree_picture pv r (blk + 1)"

text \<open>A tree is printed completely, in the order of its items, and as a picture of its shape.\<close>

lemma bscl_bstree_print_in_order:
  "tree_at h par p t \<Longrightarrow> bscl_bstree_print pv h p = Some (concat (map (\<lambda>d. pv d @ '' '') (contents t)))"
proof (induction h par p t rule: tree_at.induct)
  case (2 h par p l a d r)
  then show ?case
    by (subst bscl_bstree_print.simps) (auto simp: deref_def)
qed (simp add: bscl_bstree_print.simps)

lemma bscl_bstree_print2_picture:
  "tree_at h par p t \<Longrightarrow> bscl_bstree_print2 pv h p blk = Some (tree_picture pv t blk)"
proof (induction h par p t arbitrary: blk rule: tree_at.induct)
  case (2 h par p l a d r)
  then show ?case
    by (subst bscl_bstree_print2.simps) (auto simp: deref_def Let_def)
qed (simp add: bscl_bstree_print2.simps)

end
