(* ===== verification/Rbtree.thy ===== *)
theory Rbtree
  imports Links "HOL-Library.Tree"
begin

text \<open>
  The unfinished red-black tree of \<open>src/bscl_rbtree.c\<close>: rotations, insertion with a repair loop
  that does not repair, and a removal that is not there.

  The nodes belong to the client, who embeds them in its own structures; the comparison gets
  the addresses of two nodes.
\<close>

section \<open>Data\<close>

datatype bscl_rbtree_color_t = BSCL_RBTREE_RED | BSCL_RBTREE_BLACK

record bscl_rbtree_node_t =
  rb_p :: addr
  rb_l :: addr
  rb_r :: addr
  rb_color :: bscl_rbtree_color_t

type_synonym rb_heap = "bscl_rbtree_node_t heap"

record bscl_rbtree_t =
  rb_root :: addr
  rb_comp :: "addr \<Rightarrow> addr \<Rightarrow> int"

definition is_left_child :: "rb_heap \<Rightarrow> addr \<Rightarrow> bool option" where
  "is_left_child h x = do { n \<leftarrow> deref h x; p \<leftarrow> deref h (rb_p n); Some (rb_l p = x) }"

definition is_right_child :: "rb_heap \<Rightarrow> addr \<Rightarrow> bool option" where
  "is_right_child h x = do { n \<leftarrow> deref h x; p \<leftarrow> deref h (rb_p n); Some (rb_r p = x) }"

section \<open>Rotations\<close>

text \<open>
  The end of both rotations: the node \<open>x\<close> that moved up becomes the root or the child of its new
  parent. It is \<open>x\<close> itself, not the node it replaces, that is looked for among the children;
  \<open>assert(0)\<close> is undefined.
\<close>

definition rotate_attach :: "bscl_rbtree_t \<Rightarrow> rb_heap \<Rightarrow> addr \<Rightarrow> (int \<times> bscl_rbtree_t \<times> rb_heap) option" where
  "rotate_attach tree h x = do {
     n \<leftarrow> deref h x;
     if rb_p n = 0 then Some (0, tree\<lparr>rb_root := x\<rparr>, h)
     else do {
       left \<leftarrow> is_left_child h x;
       if left then do { h \<leftarrow> assign h (rb_p n) (\<lambda>p. p\<lparr>rb_l := x\<rparr>); Some (0, tree, h) }
       else do {
         right \<leftarrow> is_right_child h x;
         if right then do { h \<leftarrow> assign h (rb_p n) (\<lambda>p. p\<lparr>rb_r := x\<rparr>); Some (0, tree, h) }
         else None
       }
     }
   }"

definition left_rotate :: "bscl_rbtree_t \<Rightarrow> rb_heap \<Rightarrow> addr \<Rightarrow> (int \<times> bscl_rbtree_t \<times> rb_heap) option" where
  "left_rotate tree h x = do {
     n \<leftarrow> deref h x;
     let temp = rb_r n;
     t \<leftarrow> deref h temp;
     h \<leftarrow> assign h x (\<lambda>n. n\<lparr>rb_r := rb_l t\<rparr>);
     h \<leftarrow> (if rb_l t \<noteq> 0 then assign h (rb_l t) (\<lambda>c. c\<lparr>rb_p := x\<rparr>) else Some h);
     h \<leftarrow> assign h temp (\<lambda>t. t\<lparr>rb_l := x\<rparr>);
     n \<leftarrow> deref h x;
     h \<leftarrow> assign h temp (\<lambda>t. t\<lparr>rb_p := rb_p n\<rparr>);
     h \<leftarrow> assign h x (\<lambda>n. n\<lparr>rb_p := temp\<rparr>);
     rotate_attach tree h temp
   }"

definition right_rotate :: "bscl_rbtree_t \<Rightarrow> rb_heap \<Rightarrow> addr \<Rightarrow> (int \<times> bscl_rbtree_t \<times> rb_heap) option" where
  "right_rotate tree h x = do {
     n \<leftarrow> deref h x;
     let temp = rb_l n;
     t \<leftarrow> deref h temp;
     h \<leftarrow> assign h x (\<lambda>n. n\<lparr>rb_l := rb_r t\<rparr>);
     h \<leftarrow> (if rb_r t \<noteq> 0 then assign h (rb_r t) (\<lambda>c. c\<lparr>rb_p := x\<rparr>) else Some h);
     h \<leftarrow> assign h temp (\<lambda>t. t\<lparr>rb_r := x\<rparr>);
     n \<leftarrow> deref h x;
     h \<leftarrow> assign h temp (\<lambda>t. t\<lparr>rb_p := rb_p n\<rparr>);
     h \<leftarrow> assign h x (\<lambda>n. n\<lparr>rb_p := temp\<rparr>);
     rotate_attach tree h temp
   }"

section \<open>Insertion\<close>

definition bscl_rbtree_init :: "bscl_rbtree_t \<Rightarrow> int \<times> bscl_rbtree_t" where
  "bscl_rbtree_init tree = (0, tree\<lparr>rb_root := 0\<rparr>)"

text \<open>The body of the loop looks at the uncle and changes nothing.\<close>

partial_function (option) insert_fixup :: "rb_heap \<Rightarrow> addr \<Rightarrow> int option" where
  "insert_fixup h x = do {
     n \<leftarrow> deref h x;
     if rb_p n = 0 then Some 0
     else do {
       parent \<leftarrow> deref h (rb_p n);
       if rb_color parent = BSCL_RBTREE_RED then do {
         _ \<leftarrow> (if rb_p parent \<noteq> 0 then is_left_child h (rb_p n) else Some False);
         insert_fixup h x
       } else Some 0
     }
   }"

partial_function (option) rbtree_descend ::
    "(addr \<Rightarrow> addr \<Rightarrow> int) \<Rightarrow> rb_heap \<Rightarrow> addr \<Rightarrow> addr \<Rightarrow> addr \<Rightarrow> addr option" where
  [code]: "rbtree_descend cmp h x where p =
     (if where = 0 then Some p
      else do {
        w \<leftarrow> deref h where;
        if cmp x where \<le> 0 then rbtree_descend cmp h x (rb_l w) where
        else rbtree_descend cmp h x (rb_r w) where
      })"

definition bscl_rbtree_insert ::
    "bscl_rbtree_t \<Rightarrow> rb_heap \<Rightarrow> addr \<Rightarrow> (int \<times> bscl_rbtree_t \<times> rb_heap) option" where
  "bscl_rbtree_insert tree h x = do {
     w \<leftarrow> deref h (rb_root tree);
     p \<leftarrow> rbtree_descend (rb_comp tree) h x (rb_root tree) (rb_p w);
     h \<leftarrow> assign h x (\<lambda>n. n\<lparr>rb_l := 0\<rparr>);
     h \<leftarrow> assign h x (\<lambda>n. n\<lparr>rb_r := 0\<rparr>);
     (tree, h) \<leftarrow> (if p = 0 then do {
         h \<leftarrow> assign h x (\<lambda>n. n\<lparr>rb_p := 0\<rparr>);
         Some (tree\<lparr>rb_root := x\<rparr>, h)
       }
       else do {
         h \<leftarrow> assign h x (\<lambda>n. n\<lparr>rb_p := p\<rparr>);
         h \<leftarrow> (if rb_comp tree x p \<le> 0 then assign h p (\<lambda>n. n\<lparr>rb_l := x\<rparr>)
               else assign h p (\<lambda>n. n\<lparr>rb_r := x\<rparr>));
         Some (tree, h)
       });
     h \<leftarrow> assign h x (\<lambda>n. n\<lparr>rb_color := BSCL_RBTREE_RED\<rparr>);
     _ \<leftarrow> insert_fixup h x;
     Some (0, tree, h)
   }"

definition bscl_rbtree_remove :: "bscl_rbtree_t \<Rightarrow> rb_heap \<Rightarrow> addr \<Rightarrow> int" where
  "bscl_rbtree_remove tree h x = -1"

section \<open>Trees in the heap\<close>

text \<open>The tree of addresses below \<open>p\<close>, with \<open>q\<close> as its parent.\<close>

fun rb_at :: "rb_heap \<Rightarrow> addr \<Rightarrow> addr \<Rightarrow> addr tree \<Rightarrow> bool" where
  "rb_at h q p Leaf \<longleftrightarrow> p = 0"
| "rb_at h q p (Node l a r) \<longleftrightarrow> p = a \<and> p \<noteq> 0 \<and> (\<exists>n. h p = Some n \<and> rb_p n = q
     \<and> rb_at h p (rb_l n) l \<and> rb_at h p (rb_r n) r)"

lemma rb_at_frame:
  "rb_at h q p t \<Longrightarrow> (\<And>a. a \<in> set_tree t \<Longrightarrow> h' a = h a) \<Longrightarrow> rb_at h' q p t"
  by (induction t arbitrary: q p) auto

text \<open>Where the descent ends, and what insertion makes of the tree.\<close>

fun leaf_parent :: "(addr \<Rightarrow> addr \<Rightarrow> int) \<Rightarrow> addr \<Rightarrow> addr tree \<Rightarrow> addr \<Rightarrow> addr" where
  "leaf_parent cmp x Leaf q = q"
| "leaf_parent cmp x (Node l a r) q =
     (if cmp x a \<le> 0 then leaf_parent cmp x l a else leaf_parent cmp x r a)"

fun rb_ins :: "(addr \<Rightarrow> addr \<Rightarrow> int) \<Rightarrow> addr \<Rightarrow> addr tree \<Rightarrow> addr tree" where
  "rb_ins cmp x Leaf = Node Leaf x Leaf"
| "rb_ins cmp x (Node l a r) =
     (if cmp x a \<le> 0 then Node (rb_ins cmp x l) a r else Node l a (rb_ins cmp x r))"

lemma rbtree_descend_tree:
  "rb_at h q p t \<Longrightarrow> rbtree_descend cmp h x p q0 = Some (leaf_parent cmp x t q0)"
proof (induction t arbitrary: q p q0)
  case Leaf
  then show ?case by (subst rbtree_descend.simps) simp
next
  case (Node l a r)
  then show ?case by (subst rbtree_descend.simps) (auto simp: deref_def)
qed

lemma leaf_parent_in: "leaf_parent cmp x t q \<in> insert q (set_tree t)"
  by (induction t arbitrary: q) auto

lemma leaf_parent_node: "leaf_parent cmp x (Node l a r) q \<in> set_tree (Node l a r)"
  using leaf_parent_in [of cmp x l a] leaf_parent_in [of cmp x r a] by auto

lemma leaf_parent_in_tree: "t \<noteq> Leaf \<Longrightarrow> leaf_parent cmp x t q \<in> set_tree t"
  by (cases t) (simp_all only: leaf_parent_node simp_thms)

lemma insert_fixup_black:
  assumes "x \<noteq> 0" and "h x = Some n" and "rb_p n \<noteq> 0" and "h (rb_p n) = Some p"
    and "rb_color p = BSCL_RBTREE_BLACK"
  shows "insert_fixup h x = Some 0"
  using assms by (subst insert_fixup.simps) (simp add: deref_def)

lemma insert_fixup_red:
  assumes "h x = Some n" and "h (rb_p n) = Some p" and "rb_p n \<noteq> 0" and "rb_color p = BSCL_RBTREE_RED"
  shows "insert_fixup h x = None"
proof (rule ccontr)
  assume "insert_fixup h x \<noteq> None"
  then obtain y where y: "insert_fixup h x = Some y"
    by blast
  then have "\<not> (h x = Some n \<and> h (rb_p n) = Some p)"
  proof (rule insert_fixup.raw_induct [where P = "\<lambda>h x y. \<not> (h x = Some n \<and> h (rb_p n) = Some p)"
        and xa = "(h, x)" and y = y, simplified prod.case, rotated], goal_cases)
    case (1 f h x y)
    show ?case
    proof
      assume "h x = Some n \<and> h (rb_p n) = Some p"
      then show False
        using 1 assms(3,4) by (auto simp: deref_def bind_eq_Some_conv split: if_splits)
    qed
  qed
  then show False
    using assms(1,2) by simp
qed

section \<open>Insertion into a tree\<close>

text \<open>The new node hung below the parent the descent found.\<close>

definition hang :: "(addr \<Rightarrow> addr \<Rightarrow> int) \<Rightarrow> rb_heap \<Rightarrow> addr \<Rightarrow> addr \<Rightarrow> rb_heap" where
  "hang cmp h x p = h(x \<mapsto> \<lparr>rb_p = p, rb_l = 0, rb_r = 0, rb_color = BSCL_RBTREE_RED\<rparr>,
     p \<mapsto> (if cmp x p \<le> 0 then (the (h p))\<lparr>rb_l := x\<rparr> else (the (h p))\<lparr>rb_r := x\<rparr>))"

lemma rb_at_new: "h' x = Some \<lparr>rb_p = q, rb_l = 0, rb_r = 0, rb_color = c\<rparr> \<Longrightarrow> x \<noteq> 0
    \<Longrightarrow> rb_at h' q x (rb_ins cmp x Leaf)"
  by simp

lemma hang_rb_ins:
  assumes "rb_at h q p t" and "t \<noteq> Leaf" and "distinct (inorder t)" and "x \<notin> set_tree t" and "x \<noteq> 0"
  shows "rb_at (hang cmp h x (leaf_parent cmp x t q)) q p (rb_ins cmp x t)"
  using assms
proof (induction t arbitrary: q p)
  case (Node l a r)
  obtain n where a: "a \<noteq> 0" "p = a" "h a = Some n" "rb_p n = q" "rb_at h a (rb_l n) l" "rb_at h a (rb_r n) r"
    using Node.prems(1) by auto
  have dis: "distinct (inorder l)" "distinct (inorder r)" "a \<notin> set_tree l" "a \<notin> set_tree r"
      "set_tree l \<inter> set_tree r = {}"
    using Node.prems(3) by (auto simp flip: set_inorder)
  have x: "x \<noteq> a" "x \<notin> set_tree l" "x \<notin> set_tree r"
    using Node.prems(4) by auto
  have other: "hang cmp h x b c = h c" if "c \<noteq> x" "c \<noteq> b" for b c
    using that by (simp add: hang_def)
  have new: "hang cmp h x a x = Some \<lparr>rb_p = a, rb_l = 0, rb_r = 0, rb_color = BSCL_RBTREE_RED\<rparr>"
      "cmp x a \<le> 0 \<Longrightarrow> hang cmp h x a a = Some (n\<lparr>rb_l := x\<rparr>)"
      "\<not> cmp x a \<le> 0 \<Longrightarrow> hang cmp h x a a = Some (n\<lparr>rb_r := x\<rparr>)"
    using a(3) x(1) by (simp_all add: hang_def)
  show ?case
  proof (cases "cmp x a \<le> 0")
    case True
    let ?b = "leaf_parent cmp x l a"
    have b: "?b = a \<or> ?b \<in> set_tree l" "l \<noteq> Leaf \<Longrightarrow> ?b \<in> set_tree l"
      using leaf_parent_in [of cmp x l a] leaf_parent_in_tree [of l cmp x a] by auto
    have r: "rb_at (hang cmp h x ?b) a (rb_r n) r"
      using a(6) b(1) dis x by (elim rb_at_frame) (auto intro!: other)
    show ?thesis
    proof (cases "l = Leaf")
      case True
      then show ?thesis
        using a r Node.prems(5) True new by (simp add: \<open>cmp x a \<le> 0\<close>)
    next
      case False
      have "hang cmp h x ?b a = h a"
        using b(2) [OF False] dis x by (intro other) auto
      then show ?thesis
        using \<open>cmp x a \<le> 0\<close> a r Node.IH(1) [OF a(5) False dis(1) x(2) Node.prems(5)] by simp
    qed
  next
    case False
    let ?b = "leaf_parent cmp x r a"
    have b: "?b = a \<or> ?b \<in> set_tree r" "r \<noteq> Leaf \<Longrightarrow> ?b \<in> set_tree r"
      using leaf_parent_in [of cmp x r a] leaf_parent_in_tree [of r cmp x a] by auto
    have l: "rb_at (hang cmp h x ?b) a (rb_l n) l"
      using a(5) b(1) dis x by (elim rb_at_frame) (auto intro!: other)
    show ?thesis
    proof (cases "r = Leaf")
      case True
      then show ?thesis
        using a l Node.prems(5) True new by (simp add: \<open>\<not> cmp x a \<le> 0\<close>)
    next
      case ne: False
      have "hang cmp h x ?b a = h a"
        using b(2) [OF ne] dis x by (intro other) auto
      then show ?thesis
        using False a l Node.IH(2) [OF a(6) ne dis(2) x(3) Node.prems(5)] by simp
    qed
  qed
qed simp

lemma node_fields:
  fixes n :: bscl_rbtree_node_t
  shows "n\<lparr>rb_l := l, rb_r := r, rb_p := p, rb_color := c\<rparr> = \<lparr>rb_p = p, rb_l = l, rb_r = r, rb_color = c\<rparr>"
  by (cases n) simp

lemma rb_insert_hangs_node:
  assumes t: "rb_at h q (rb_root tree) t" "t \<noteq> Leaf" "distinct (inorder t)"
    and x: "x \<notin> set_tree t" "x \<noteq> 0" "h x = Some n"
    and p: "p = leaf_parent (rb_comp tree) x t q"
  shows "bscl_rbtree_insert tree h x = (if rb_color (the (h p)) = BSCL_RBTREE_RED then None
    else Some (0, tree, hang (rb_comp tree) h x p))"
proof -
  have pt: "p \<in> set_tree t"
    using leaf_parent_in_tree [OF t(2)] p by simp
  have "\<exists>m. h a = Some m \<and> a \<noteq> 0" if "a \<in> set_tree t" "rb_at h q r t" for a r
    using that by (induction t arbitrary: q r) auto
  then obtain m where m: "h p = Some m" "p \<noteq> 0"
    using pt t(1) by blast
  have ne: "p \<noteq> x"
    using pt x(1) by auto
  obtain w where w: "h (rb_root tree) = Some w" "rb_root tree \<noteq> 0" "rb_p w = q"
    using t(1,2) by (cases t) auto
  have d: "rbtree_descend (rb_comp tree) h x (rb_root tree) q = Some p"
    using rbtree_descend_tree [OF t(1)] p by simp
  let ?h' = "hang (rb_comp tree) h x p"
  have run: "bscl_rbtree_insert tree h x = do { _ \<leftarrow> insert_fixup ?h' x; Some (0, tree, ?h') }"
    using w d m ne x(2,3)
    by (simp add: bscl_rbtree_insert_def deref_def assign_def hang_def fun_upd_twist node_fields)
  have xn: "?h' x = Some \<lparr>rb_p = p, rb_l = 0, rb_r = 0, rb_color = BSCL_RBTREE_RED\<rparr>"
    using ne by (simp add: hang_def)
  obtain m' where m': "?h' p = Some m'" "rb_color m' = rb_color m"
    using m ne by (simp add: hang_def)
  show ?thesis
  proof (cases "rb_color m")
    case BSCL_RBTREE_RED
    then show ?thesis
      using run insert_fixup_red [of ?h' x "\<lparr>rb_p = p, rb_l = 0, rb_r = 0, rb_color = BSCL_RBTREE_RED\<rparr>" m'] xn m m' by simp
  next
    case BSCL_RBTREE_BLACK
    then show ?thesis
      using run insert_fixup_black [of x ?h' "\<lparr>rb_p = p, rb_l = 0, rb_r = 0, rb_color = BSCL_RBTREE_RED\<rparr>" m'] xn x(2) m m' by simp
  qed
qed

section \<open>Rotating a tree\<close>

lemma left_rotate_tree:
  assumes "rb_at h q x (Node A x (Node B y C))" and dis: "distinct (inorder (Node A x (Node B y C)))"
  shows "\<exists>h'. left_rotate tree h x = rotate_attach tree h' y \<and> rb_at h' q y (Node (Node A x B) y C)
    \<and> (\<forall>a. a \<notin> set_tree (Node A x (Node B y C)) \<longrightarrow> h' a = h a)"
proof -
  obtain n m where n: "x \<noteq> 0" "h x = Some n" "rb_p n = q" "rb_at h x (rb_l n) A"
    and m: "rb_r n = y" "y \<noteq> 0" "h y = Some m" "rb_p m = x" "rb_at h y (rb_l m) B" "rb_at h y (rb_r m) C"
    using assms(1) by auto
  have d: "x \<noteq> y" "x \<notin> set_tree A" "y \<notin> set_tree A" "x \<notin> set_tree B" "y \<notin> set_tree B"
      "x \<notin> set_tree C" "y \<notin> set_tree C" "set_tree A \<inter> set_tree B = {}" "set_tree B \<inter> set_tree C = {}"
      "distinct (inorder B)"
    using dis by (auto simp flip: set_inorder)
  have b: "rb_l m \<noteq> x" "rb_l m \<noteq> y" "rb_l m \<noteq> 0 \<Longrightarrow> rb_l m \<in> set_tree B" "rb_l m \<noteq> 0 \<Longrightarrow> h (rb_l m) \<noteq> None"
    using m(5) d n(1) m(2) by (cases B; auto)+
  let ?hb = "if rb_l m \<noteq> 0 then h(rb_l m \<mapsto> (the (h (rb_l m)))\<lparr>rb_p := x\<rparr>) else h"
  let ?h' = "?hb(x \<mapsto> n\<lparr>rb_r := rb_l m, rb_p := y\<rparr>, y \<mapsto> m\<lparr>rb_l := x, rb_p := q\<rparr>)"
  have "left_rotate tree h x = rotate_attach tree ?h' y"
    using n m d(1) b
    by (auto simp: left_rotate_def deref_def assign_def fun_upd_twist)
  moreover have "rb_at ?h' x (rb_l n) A" and "rb_at ?h' y (rb_r m) C"
    using n(4) m(6) d b(3) by (auto elim!: rb_at_frame simp: fun_upd_def)
  moreover have "rb_at ?h' x (rb_l m) B"
    using m(5) d b by (cases B) (auto elim!: rb_at_frame)
  ultimately show ?thesis
    using n(1) m(2) d(1) b(3) by (intro exI [of _ ?h']) (auto simp: d(1) [symmetric])
qed

lemma right_rotate_tree:
  assumes "rb_at h q x (Node (Node C y B) x A)" and dis: "distinct (inorder (Node (Node C y B) x A))"
  shows "\<exists>h'. right_rotate tree h x = rotate_attach tree h' y \<and> rb_at h' q y (Node C y (Node B x A))
    \<and> (\<forall>a. a \<notin> set_tree (Node (Node C y B) x A) \<longrightarrow> h' a = h a)"
proof -
  obtain n m where n: "x \<noteq> 0" "h x = Some n" "rb_p n = q" "rb_at h x (rb_r n) A"
    and m: "rb_l n = y" "y \<noteq> 0" "h y = Some m" "rb_p m = x" "rb_at h y (rb_r m) B" "rb_at h y (rb_l m) C"
    using assms(1) by auto
  have d: "x \<noteq> y" "x \<notin> set_tree A" "y \<notin> set_tree A" "x \<notin> set_tree B" "y \<notin> set_tree B"
      "x \<notin> set_tree C" "y \<notin> set_tree C" "set_tree A \<inter> set_tree B = {}" "set_tree B \<inter> set_tree C = {}"
      "distinct (inorder B)"
    using dis by (auto simp flip: set_inorder)
  have b: "rb_r m \<noteq> x" "rb_r m \<noteq> y" "rb_r m \<noteq> 0 \<Longrightarrow> rb_r m \<in> set_tree B" "rb_r m \<noteq> 0 \<Longrightarrow> h (rb_r m) \<noteq> None"
    using m(5) d n(1) m(2) by (cases B; auto)+
  let ?hb = "if rb_r m \<noteq> 0 then h(rb_r m \<mapsto> (the (h (rb_r m)))\<lparr>rb_p := x\<rparr>) else h"
  let ?h' = "?hb(x \<mapsto> n\<lparr>rb_l := rb_r m, rb_p := y\<rparr>, y \<mapsto> m\<lparr>rb_r := x, rb_p := q\<rparr>)"
  have "right_rotate tree h x = rotate_attach tree ?h' y"
    using n m d(1) b
    by (auto simp: right_rotate_def deref_def assign_def fun_upd_twist)
  moreover have "rb_at ?h' x (rb_r n) A" and "rb_at ?h' y (rb_l m) C"
    using n(4) m(6) d b(3) by (auto elim!: rb_at_frame simp: fun_upd_def)
  moreover have "rb_at ?h' x (rb_r m) B"
    using m(5) d b by (cases B) (auto elim!: rb_at_frame)
  ultimately show ?thesis
    using n(1) m(2) d(1) b(3) by (intro exI [of _ ?h']) (auto simp: d(1) [symmetric])
qed

text \<open>Only the root finds its place after the rotation.\<close>

lemma rotate_attach_root:
  assumes "rb_at h 0 y t" and "t \<noteq> Leaf"
  shows "rotate_attach tree h y = Some (0, tree\<lparr>rb_root := y\<rparr>, h)"
  using assms by (cases t) (auto simp: rotate_attach_def deref_def)

lemma rotate_attach_inner:
  assumes "rb_at h q y t" and "t \<noteq> Leaf" and "q \<noteq> 0" and "h q = Some n" and "rb_l n \<noteq> y" and "rb_r n \<noteq> y"
  shows "rotate_attach tree h y = None"
  using assms by (cases t) (auto simp: rotate_attach_def deref_def is_left_child_def is_right_child_def)

section \<open>Properties\<close>

text \<open>
  C21: Insertion into a search tree in the heap, on every branch: an empty tree is not survived
  (the null root is dereferenced), so no tree can be built from \<open>bscl_rbtree_init\<close>; a node whose
  place is below a black node is linked there as a red leaf and the rest of the tree is as
  before; below a red node the repair loop never ends.
\<close>

theorem bscl_rbtree_insert_outcome:
  assumes "rb_at h q (rb_root tree) t" and "distinct (inorder t)"
    and "x \<notin> set_tree t" and "x \<noteq> 0" and "h x = Some n"
  shows "if t = Leaf \<or> rb_color (the (h (leaf_parent (rb_comp tree) x t q))) = BSCL_RBTREE_RED
    then bscl_rbtree_insert tree h x = None
    else \<exists>h'. bscl_rbtree_insert tree h x = Some (0, tree, h')
      \<and> rb_at h' q (rb_root tree) (rb_ins (rb_comp tree) x t)
      \<and> rb_color (the (h' x)) = BSCL_RBTREE_RED"
proof (cases "t = Leaf")
  case True
  then show ?thesis
    using assms(1) by (simp add: bscl_rbtree_insert_def deref_def)
next
  case False
  let ?p = "leaf_parent (rb_comp tree) x t q"
  have "?p \<noteq> x"
    using leaf_parent_in_tree [OF False, of "rb_comp tree" x q] assms(3) by auto
  then have "rb_color (the (hang (rb_comp tree) h x ?p x)) = BSCL_RBTREE_RED"
    by (simp add: hang_def)
  then show ?thesis
    using rb_insert_hangs_node [OF assms(1) False assms(2-5) refl]
      hang_rb_ins [OF assms(1) False assms(2-4), of "rb_comp tree"] False by simp
qed

definition one_black :: rb_heap where
  "one_black = [1 \<mapsto> \<lparr>rb_p = 0, rb_l = 0, rb_r = 0, rb_color = BSCL_RBTREE_BLACK\<rparr>,
     2 \<mapsto> \<lparr>rb_p = 0, rb_l = 0, rb_r = 0, rb_color = BSCL_RBTREE_BLACK\<rparr>]"

definition by_address :: "addr \<Rightarrow> bscl_rbtree_t" where
  "by_address r = \<lparr>rb_root = r, rb_comp = (\<lambda>x y. int x - int y)\<rparr>"

lemma bscl_rbtree_insert_outcome_witness:
  "(\<exists>h'. bscl_rbtree_insert (by_address 1) one_black 2 = Some (0, by_address 1, h')
      \<and> rb_at h' 0 1 (Node Leaf 1 (Node Leaf 2 Leaf)))
   \<and> bscl_rbtree_insert (snd (bscl_rbtree_init (by_address 1))) one_black 2 = None"
  using bscl_rbtree_insert_outcome [of one_black 0 "by_address 1" "Node Leaf 1 Leaf" 2]
    bscl_rbtree_insert_outcome [of one_black 0 "by_address 0" Leaf 2]
  by (auto simp: one_black_def by_address_def bscl_rbtree_init_def)

text \<open>
  Both rotations turn the tree in the heap as they should and keep the order of its nodes,
  when they are applied to the root, which they update; at any other node they end in
  \<open>assert(0)\<close>, because they look for the node that moved up among the children of its new
  parent, where the node it replaces still is.
\<close>

lemma bscl_rbtree_rotations:
  assumes "rb_at h q x t" and "distinct (inorder t)"
    and "q = 0 \<or> (\<exists>n. h q = Some n \<and> q \<notin> set_tree t \<and> rb_l n \<notin> set_tree t - {x} \<and> rb_r n \<notin> set_tree t - {x})"
  shows "(t = Node A x (Node B y C) \<longrightarrow>
      (if q = 0 then \<exists>h'. left_rotate tree h x = Some (0, tree\<lparr>rb_root := y\<rparr>, h')
           \<and> rb_at h' 0 y (Node (Node A x B) y C)
       else left_rotate tree h x = None))
    \<and> (t = Node (Node A y B) x C \<longrightarrow>
      (if q = 0 then \<exists>h'. right_rotate tree h x = Some (0, tree\<lparr>rb_root := y\<rparr>, h')
           \<and> rb_at h' 0 y (Node A y (Node B x C))
       else right_rotate tree h x = None))"
proof (intro conjI impI)
  assume t: "t = Node A x (Node B y C)"
  obtain h' where h': "left_rotate tree h x = rotate_attach tree h' y" "rb_at h' q y (Node (Node A x B) y C)"
      "\<forall>a. a \<notin> set_tree t \<longrightarrow> h' a = h a"
    using left_rotate_tree assms(1,2) unfolding t by blast
  show "if q = 0 then \<exists>h'. left_rotate tree h x = Some (0, tree\<lparr>rb_root := y\<rparr>, h')
           \<and> rb_at h' 0 y (Node (Node A x B) y C) else left_rotate tree h x = None"
  proof (cases "q = 0")
    case True
    then show ?thesis
      using h'(1,2) rotate_attach_root [of h' y "Node (Node A x B) y C"] by (auto simp del: rb_at.simps)
  next
    case False
    then obtain n where n: "h q = Some n" "q \<notin> set_tree t" "rb_l n \<notin> set_tree t - {x}" "rb_r n \<notin> set_tree t - {x}"
      using assms(3) by blast
    have "y \<in> set_tree t - {x}"
      using assms(2) by (auto simp: t)
    then show ?thesis
      using False n h'(1,3) rotate_attach_inner [OF h'(2) _ False, of n] by auto
  qed
next
  assume t: "t = Node (Node A y B) x C"
  obtain h' where h': "right_rotate tree h x = rotate_attach tree h' y" "rb_at h' q y (Node A y (Node B x C))"
      "\<forall>a. a \<notin> set_tree t \<longrightarrow> h' a = h a"
    using right_rotate_tree assms(1,2) unfolding t by blast
  show "if q = 0 then \<exists>h'. right_rotate tree h x = Some (0, tree\<lparr>rb_root := y\<rparr>, h')
           \<and> rb_at h' 0 y (Node A y (Node B x C)) else right_rotate tree h x = None"
  proof (cases "q = 0")
    case True
    then show ?thesis
      using h'(1,2) rotate_attach_root [of h' y "Node A y (Node B x C)"] by (auto simp del: rb_at.simps)
  next
    case False
    then obtain n where n: "h q = Some n" "q \<notin> set_tree t" "rb_l n \<notin> set_tree t - {x}" "rb_r n \<notin> set_tree t - {x}"
      using assms(3) by blast
    have "y \<in> set_tree t - {x}"
      using assms(2) by (auto simp: t)
    then show ?thesis
      using False n h'(1,3) rotate_attach_inner [OF h'(2) _ False, of n] by auto
  qed
qed

definition chain :: "addr \<Rightarrow> rb_heap" where
  "chain q = [1 \<mapsto> \<lparr>rb_p = q, rb_l = 0, rb_r = 2, rb_color = BSCL_RBTREE_BLACK\<rparr>,
     2 \<mapsto> \<lparr>rb_p = 1, rb_l = 0, rb_r = 0, rb_color = BSCL_RBTREE_RED\<rparr>,
     3 \<mapsto> \<lparr>rb_p = 0, rb_l = 0, rb_r = 1, rb_color = BSCL_RBTREE_BLACK\<rparr>]"

lemma bscl_rbtree_rotations_witness:
  "(\<exists>h'. left_rotate (by_address 1) (chain 0) 1 = Some (0, by_address 2, h')
      \<and> rb_at h' 0 2 (Node (Node Leaf 1 Leaf) 2 Leaf))
   \<and> left_rotate (by_address 3) (chain 3) 1 = None"
proof -
  let ?t = "Node Leaf 1 (Node Leaf 2 Leaf) :: addr tree"
  have at: "rb_at (chain q) q 1 ?t" for q
    by (simp add: chain_def)
  have q: "(0 :: addr) = 0 \<or> (\<exists>n. chain 0 0 = Some n \<and> 0 \<notin> set_tree ?t
      \<and> rb_l n \<notin> set_tree ?t - {1} \<and> rb_r n \<notin> set_tree ?t - {1})"
    "(3 :: addr) = 0 \<or> (\<exists>n. chain 3 3 = Some n \<and> 3 \<notin> set_tree ?t
      \<and> rb_l n \<notin> set_tree ?t - {1} \<and> rb_r n \<notin> set_tree ?t - {1})"
    by (simp_all add: chain_def)
  have d: "distinct (inorder ?t)"
    by simp
  have r: "(by_address 1)\<lparr>rb_root := 2\<rparr> = by_address 2"
    by (simp add: by_address_def)
  show ?thesis
    using bscl_rbtree_rotations [OF at d q(1), where A = Leaf and B = Leaf and C = Leaf and y = 2 and tree = "by_address 1"]
      bscl_rbtree_rotations [OF at d q(2), where A = Leaf and B = Leaf and C = Leaf and y = 2 and tree = "by_address 3"]
    unfolding r by (simp del: rb_at.simps One_nat_def)
qed

end
