(* ===== verification/Circular.thy ===== *)
theory Circular
  imports Links
begin

text \<open>
  Circular lists: a head node that is linked to itself when the list is empty, as
  \<open>bscl_list_init\<close>, \<open>bscl_list_insert_tail\<close> and the traversals of
  \<open>include/bscl_list_head.h\<close> use them. The command line parser and the tasklets rest on these
  lemmas.
\<close>

lemma heap_eqI: "nxt h' p = nxt h p \<Longrightarrow> prv h' p = prv h p \<Longrightarrow> rest h' p = rest h p \<Longrightarrow> h' p = h p"
  by (cases "h p"; cases "h' p") (auto simp: nxt_def prv_def rest_def)

definition circle :: "'z links \<Rightarrow> addr \<Rightarrow> addr list \<Rightarrow> bool" where
  "circle h l xs \<longleftrightarrow> links h (l # xs @ [l]) \<and> distinct (l # xs) \<and> 0 \<notin> set (l # xs)"

lemma circle_distinct: "circle h l xs \<Longrightarrow> distinct (l # xs)" "circle h l xs \<Longrightarrow> 0 \<notin> set (l # xs)"
  by (simp_all add: circle_def)

lemma circle_simple: "circle h l xs \<Longrightarrow> simple (l # xs @ [l])"
  by (simp add: circle_def simple_def butlast_append)

lemma circle_frame:
  assumes "circle h l xs" and "\<And>p. p \<in> set (l # xs) \<Longrightarrow> nxt h' p = nxt h p"
    and "\<And>p. p \<in> set (l # xs) \<Longrightarrow> prv h' p = prv h p"
  shows "circle h' l xs"
proof -
  have "nexts h (l # xs @ [l])" and "prevs h (l # xs @ [l])"
    using assms(1) by (simp_all add: circle_def links_def)
  then have "nexts h' (l # xs @ [l])" and "prevs h' (l # xs @ [l])"
    using assms(2,3) by (auto elim!: nexts_frame prevs_frame simp: butlast_append split: if_splits)
  then show ?thesis
    using assms(1) by (simp add: circle_def links_def)
qed

lemma circle_same:
  "circle h l xs \<Longrightarrow> (\<And>p. p \<in> set (l # xs) \<Longrightarrow> h' p = h p) \<Longrightarrow> circle h' l xs"
  by (erule circle_frame) (simp_all add: nxt_def prv_def)

lemma circle_nth:
  assumes "circle h l xs" and "i < length xs"
  shows "nxt h (xs ! i) = Some ((xs @ [l]) ! Suc i)"
proof -
  have eq: "l # xs @ [l] = (l # take i xs) @ xs ! i # (drop (Suc i) xs @ [l])"
    using assms(2) by (simp add: id_take_nth_drop)
  have nx: "(xs @ [l]) ! Suc i = hd (drop (Suc i) xs @ [l])"
    using assms(2) by (cases "Suc i < length xs") (simp_all add: nth_append hd_drop_conv_nth hd_append not_less)
  have "xs ! i \<noteq> 0"
    using circle_distinct(2) [OF assms(1)] assms(2) by (metis list.set_intros(2) nth_mem)
  moreover have "links h ((l # take i xs) @ xs ! i # hd (drop (Suc i) xs @ [l]) # tl (drop (Suc i) xs @ [l]))"
    using assms(1) eq by (simp add: circle_def)
  ultimately show ?thesis
    using links_pair(1) nx by metis
qed

lemma circle_first: "circle h l xs \<Longrightarrow> nxt h l = Some (hd (xs @ [l]))"
  by (cases xs) (simp_all add: circle_def links_def)

lemma circle_last: "circle h l xs \<Longrightarrow> prv h l = Some (last (l # xs))"
  using links_pair(2) [of h "butlast (l # xs)" "last (l # xs)" l "[]"]
  by (auto simp: circle_def simp del: last.simps butlast.simps)
    (metis append_butlast_last_id append_Cons append_Nil append_assoc list.distinct(1))

lemma circle_dom: "circle h l xs \<Longrightarrow> p \<in> set (l # xs) \<Longrightarrow> h p \<noteq> None"
  using nexts_dom [of h "l # xs @ [l]" p] by (auto simp: circle_def links_def butlast_append)

text \<open>One step of a traversal.\<close>

lemma circle_start: "circle h l xs \<Longrightarrow> get_next h l = Some (hd (xs @ [l]))"
  using circle_first by (auto simp: link_simps circle_def)

lemma circle_step: "circle h l (pre @ x # post) \<Longrightarrow> get_next h x = Some (hd (post @ [l]))"
  using circle_nth [of h l "pre @ x # post" "length pre"]
  by (auto simp: link_simps circle_def nth_append hd_conv_nth)

section \<open>The operations\<close>

lemma list_init_circle:
  assumes "l \<noteq> 0" and "h l \<noteq> None"
  shows "\<exists>h'. bscl_list_init h l = Some h' \<and> circle h' l [] \<and> rest h' l = rest h l
    \<and> (\<forall>p. p \<noteq> l \<longrightarrow> h' p = h p) \<and> (\<forall>p. h' p = None \<longleftrightarrow> h p = None)"
  using assms
  by (auto simp: bscl_list_init_def circle_def links_def link_simps intro!: heap_eqI)

lemma insert_tail_circle:
  assumes c: "circle h l xs" and new: "x \<noteq> 0" "x \<notin> set (l # xs)" "h x \<noteq> None"
  shows "\<exists>h'. bscl_list_insert_tail h l x = Some h' \<and> circle h' l (xs @ [x])
    \<and> (\<forall>p. rest h' p = rest h p) \<and> (\<forall>p. p \<notin> set (x # l # xs) \<longrightarrow> h' p = h p)
    \<and> (\<forall>p. h' p = None \<longleftrightarrow> h p = None)"
proof -
  let ?a = "last (l # xs)"
  have a: "?a \<in> set (l # xs)" "?a \<noteq> 0"
    using circle_distinct(2) [OF c] by (metis last_in_set list.distinct(1))+
  have nz: "l \<noteq> 0" "l \<noteq> x" "?a \<noteq> x"
    using c new a(1) by (auto simp: circle_def)
  obtain h' where h': "bscl_list_head_insert_prev h l x = Some h'" "nxt h' x = Some l" "prv h' x = Some ?a"
      "prv h' l = Some x" "nxt h' ?a = Some x"
    and old: "\<forall>p. p \<noteq> ?a \<longrightarrow> p \<noteq> x \<longrightarrow> nxt h' p = nxt h p"
      "\<forall>p. p \<noteq> l \<longrightarrow> p \<noteq> x \<longrightarrow> prv h' p = prv h p"
      "\<forall>p. rest h' p = rest h p" "\<forall>p. h' p = None \<longleftrightarrow> h p = None"
    using list_head_insert_prev_runs [OF nz(1) new(1) nz(2) new(3) circle_last [OF c] circle_dom [OF c a(1)] nz(3)]
      a(2) by blast
  have eq: "l # xs @ [l] = butlast (l # xs) @ ?a # l # []"
    by (metis append_butlast_last_id append_Cons append_Nil append_assoc list.distinct(1))
  have eq': "l # (xs @ [x]) @ [l] = butlast (l # xs) @ ?a # x # l # []"
    by (metis append_butlast_last_id append_Cons append_Nil append_assoc list.distinct(1))
  have "links h' (butlast (l # xs) @ ?a # x # l # [])"
  proof (rule links_insert)
    show "links h (butlast (l # xs) @ ?a # l # [])"
      using c eq by (simp only: circle_def)
    show "simple (butlast (l # xs) @ ?a # l # [])"
      using circle_simple [OF c] eq by (simp only:)
    show "x \<notin> set (butlast (l # xs) @ ?a # l # [])"
      unfolding eq [symmetric] using new(2) by simp
  qed (use h' old in simp_all)
  then have "circle h' l (xs @ [x])"
    unfolding circle_def eq' using c new by (auto simp: circle_def)
  moreover have "\<forall>p. p \<notin> set (x # l # xs) \<longrightarrow> h' p = h p"
  proof (intro allI impI)
    fix p assume p: "p \<notin> set (x # l # xs)"
    then have "p \<noteq> ?a"
      using a(1) by fastforce
    then show "h' p = h p"
      using p old by (intro heap_eqI) simp_all
  qed
  ultimately show ?thesis
    using h'(1) old(3,4) unfolding bscl_list_insert_tail_def by blast
qed

lemma remove_circle:
  assumes c: "circle h l (pre @ x # post)"
  shows "\<exists>h'. bscl_list_head_remove h x = Some h' \<and> circle h' l (pre @ post)
    \<and> (\<forall>p. rest h' p = rest h p) \<and> (\<forall>p. p \<notin> set (l # pre @ post) \<longrightarrow> h' p = h p)
    \<and> (\<forall>p. h' p = None \<longleftrightarrow> h p = None)"
proof -
  let ?a = "last (l # pre)" and ?b = "hd (post @ [l])"
  let ?xs = "butlast (l # pre)" and ?ys = "tl (post @ [l])"
  have ain: "?a \<in> set (l # pre)" and bin: "?b \<in> set (post @ [l])"
    by (metis last_in_set list.distinct(1)) (metis hd_in_set append_is_Nil_conv list.distinct(1))
  have split1: "l # pre = ?xs @ [?a]" and split2: "post @ [l] = ?b # ?ys"
    by (metis append_butlast_last_id list.distinct(1)) simp
  have eq: "l # (pre @ x # post) @ [l] = ?xs @ ?a # x # ?b # ?ys"
    by (metis split1 split2 append_Cons append_Nil append_assoc)
  have eq': "l # (pre @ post) @ [l] = ?xs @ ?a # ?b # ?ys"
    by (metis split1 split2 append_Cons append_Nil append_assoc)
  have nz: "x \<noteq> 0" "?a \<noteq> 0" "?b \<noteq> 0" "?a \<noteq> x" "?b \<noteq> x"
    using circle_distinct [OF c] ain bin by (auto simp del: last.simps)
  have l: "links h (?xs @ ?a # x # ?b # ?ys)"
    using c eq by (simp only: circle_def)
  have dom: "h ?a \<noteq> None" "h ?b \<noteq> None"
    using circle_dom [OF c, of ?a] circle_dom [OF c, of ?b] ain bin by (auto simp del: last.simps)
  obtain h' where h': "bscl_list_head_remove h x = Some h'" "nxt h' ?a = Some ?b" "prv h' ?b = Some ?a"
    and old: "\<forall>p. p \<noteq> ?a \<longrightarrow> nxt h' p = nxt h p" "\<forall>p. p \<noteq> ?b \<longrightarrow> prv h' p = prv h p"
      "\<forall>p. rest h' p = rest h p" "\<forall>p. h' p = None \<longleftrightarrow> h p = None"
    using list_head_remove_runs [OF nz(1) links_mid(1,2) [OF l nz(1)] dom nz(4,5)] nz(2,3) by blast
  have "links h' (?xs @ ?a # ?b # ?ys)"
  proof (rule links_remove [OF l])
    show "simple (?xs @ ?a # x # ?b # ?ys)"
      using circle_simple [OF c] eq by (simp only:)
  qed (use h' old in simp_all)
  then have "circle h' l (pre @ post)"
    unfolding circle_def eq' using c by (auto simp: circle_def)
  moreover have "\<forall>p. p \<notin> set (l # pre @ post) \<longrightarrow> h' p = h p"
  proof (intro allI impI)
    fix p assume "p \<notin> set (l # pre @ post)"
    then have "p \<noteq> ?a" and "p \<noteq> ?b"
      using ain bin by (fastforce simp del: last.simps)+
    then show "h' p = h p"
      using old by (intro heap_eqI) simp_all
  qed
  ultimately show ?thesis
    using h'(1) old(3,4) by blast
qed

lemma is_empty_circle: "circle h l xs \<Longrightarrow> bscl_list_is_empty h l = Some (xs = [])"
  by (cases xs) (auto simp: bscl_list_is_empty_def link_simps circle_first circle_def links_def)

lemma is_last_circle:
  assumes "circle h l xs" and "i < length xs"
  shows "bscl_list_is_last h l (xs ! i) = Some (Suc i = length xs)"
proof -
  have "xs ! i \<noteq> 0"
    using circle_distinct(2) [OF assms(1)] assms(2) by (metis list.set_intros(2) nth_mem)
  moreover have "(xs @ [l]) ! Suc i = l \<longleftrightarrow> Suc i = length xs"
    using assms circle_distinct(1) [OF assms(1)] by (auto simp: nth_append not_less)
  ultimately show ?thesis
    using circle_nth [OF assms] by (auto simp: bscl_list_is_last_def link_simps)
qed

end
