(* ===== verification/Cstring.thy ===== *)
theory Cstring
  imports Prelude
begin

text \<open>
  C strings: the list of the characters before the terminating zero, with the library functions
  on them that the parsers use.
\<close>

abbreviation NUL :: char where
  "NUL \<equiv> CHR 0x00"

text \<open>\<open>int len = strlen(str)\<close>: exact below \<open>2 ^ 31\<close>.\<close>

definition strlen_int :: "string \<Rightarrow> int" where
  "strlen_int s = sint (word_of_nat (length s) :: u32)"

text \<open>\<open>!strncmp(s, t, n)\<close>.\<close>

definition strncmp_equal :: "string \<Rightarrow> string \<Rightarrow> nat \<Rightarrow> bool" where
  "strncmp_equal s t n \<longleftrightarrow>
     takeWhile (\<lambda>c. c \<noteq> NUL) (take n s) = takeWhile (\<lambda>c. c \<noteq> NUL) (take n t)"

lemma strlen_int_small:
  assumes "length s < 2 ^ 31"
  shows "strlen_int s = int (length s)"
proof -
  have "sint (word_of_nat (length s) :: u32) = signed_take_bit 31 (int (length s))"
    by (simp add: signed_of_nat)
  also have "\<dots> = int (length s)"
    using assms by (intro signed_take_bit_int_eq_self) auto
  finally show ?thesis
    by (simp add: strlen_int_def)
qed

text \<open>\<open>%u\<close>: the decimal digits of a number.\<close>

definition digit :: "nat \<Rightarrow> char" where
  "digit n = char_of (48 + n)"

fun dec :: "nat \<Rightarrow> string" where
  "dec n = (if n < 10 then [digit n] else dec (n div 10) @ [digit (n mod 10)])"

declare dec.simps [simp del]

text \<open>\<open>%11u\<close> and the like.\<close>

definition pad_left :: "nat \<Rightarrow> string \<Rightarrow> string" where
  "pad_left w s = replicate (w - length s) (CHR '' '') @ s"

section \<open>Characters and buffers\<close>

definition isspace :: "char \<Rightarrow> bool" where
  "isspace c \<longleftrightarrow> c \<in> {CHR '' '', CHR 0x09, CHR 0x0A, CHR 0x0B, CHR 0x0C, CHR 0x0D}"

definition isdigit :: "char \<Rightarrow> bool" where
  "isdigit c \<longleftrightarrow> 48 \<le> (of_char c :: nat) \<and> (of_char c :: nat) \<le> 57"

definition digits_value :: "string \<Rightarrow> nat" where
  "digits_value ds = foldl (\<lambda>n c. 10 * n + (of_char c - 48)) 0 ds"

text \<open>
  A buffer is the list of its characters, a pointer into it an index. Reading or writing outside
  is \<open>None\<close>.
\<close>

definition char_at :: "string \<Rightarrow> nat \<Rightarrow> char option" where
  "char_at buf i = (if i < length buf then Some (buf ! i) else None)"

definition set_char :: "string \<Rightarrow> nat \<Rightarrow> char \<Rightarrow> string option" where
  "set_char buf i c = (if i < length buf then Some (buf[i := c]) else None)"

text \<open>The C string at an index.\<close>

definition cstr_at :: "string \<Rightarrow> nat \<Rightarrow> string option" where
  "cstr_at buf i =
     (if NUL \<in> set (drop i buf) then Some (takeWhile (\<lambda>c. c \<noteq> NUL) (drop i buf)) else None)"

text \<open>\<open>while (test(*p)) ++p;\<close>\<close>

function skip_while :: "(char \<Rightarrow> bool) \<Rightarrow> string \<Rightarrow> nat \<Rightarrow> nat option" where
  "skip_while test buf p =
     (if p < length buf then if test (buf ! p) then skip_while test buf (p + 1) else Some p
      else None)"
  by pat_completeness auto

termination
  by (relation "measure (\<lambda>(test, buf, p). length buf - p)") auto

declare skip_while.simps [simp del]

section \<open>Lemmas\<close>

lemma skip_while_stops:
  assumes "mem = pre @ xs @ c # post" and "list_all test xs" and "\<not> test c"
  shows "skip_while test mem (length pre) = Some (length (pre @ xs))"
  using assms
proof (induction xs arbitrary: pre)
  case Nil
  then show ?case by (subst skip_while.simps) simp
next
  case (Cons x xs)
  have "mem ! length pre = x" and "length pre < length mem"
    using Cons.prems(1) by simp_all
  then show ?case
    using Cons.IH [of "pre @ [x]"] Cons.prems by (subst skip_while.simps) simp
qed

lemma isspace_NUL [simp]: "\<not> isspace NUL"
  by (simp add: isspace_def)

lemma takeWhile_no_NUL: "NUL \<notin> set xs \<Longrightarrow> takeWhile (\<lambda>c. c \<noteq> NUL) (xs @ NUL # post) = xs"
  by (induction xs) auto

lemma cstr_at_runs:
  "NUL \<notin> set xs \<Longrightarrow> cstr_at (pre @ xs @ NUL # post) (length pre) = Some xs"
  by (simp add: cstr_at_def takeWhile_no_NUL)

lemma isdigit_digit: "n < 10 \<Longrightarrow> isdigit (digit n)"
  by (simp add: isdigit_def digit_def of_char_of)

lemma foldl_digits: "foldl (\<lambda>n c. 10 * n + (of_char c - 48)) 0 (dec n) = n"
proof (induction n rule: dec.induct)
  case (1 n)
  then show ?case
    by (subst dec.simps) (simp add: digit_def of_char_of)
qed

lemma dec_isdigit: "list_all isdigit (dec n)"
proof (induction n rule: dec.induct)
  case (1 n)
  then show ?case
    by (subst dec.simps) (simp add: isdigit_digit)
qed

lemma isdigit_props: "isdigit c \<Longrightarrow> \<not> isspace c" "isdigit c \<Longrightarrow> c \<noteq> CHR ''-''" "isdigit c \<Longrightarrow> c \<noteq> CHR ''+''"
  by (auto simp: isdigit_def isspace_def)

lemma length_dec: "n < 10 ^ k \<Longrightarrow> 0 < k \<Longrightarrow> length (dec n) \<le> k"
proof (induction n arbitrary: k rule: dec.induct)
  case (1 n)
  show ?case
  proof (cases "n < 10")
    case True
    then show ?thesis using 1 by (subst dec.simps) simp
  next
    case False
    obtain j where k: "k = Suc j"
      using 1(3) by (cases k) simp_all
    have "0 < j"
      using False 1(2) k by (cases j) simp_all
    moreover have "n div 10 < 10 ^ j"
      using 1(2) k by (simp add: less_mult_imp_div_less)
    ultimately show ?thesis
      using 1(1) [OF False, of j] False k by (subst dec.simps) simp
  qed
qed

end
