(* ===== verification/Getopt.thy ===== *)
theory Getopt
  imports Circular Cstring
begin

text \<open>
  The command line parser of \<open>src/bscl_getopt.c\<close>.

  A C string is the list of its characters before the terminating zero, and a pointer into one
  is the rest of the list. A pointer into the array of patterns is an index. The options and
  their arguments are cells of a heap, linked by the circular lists of
  \<open>include/bscl_list_head.h\<close>: the struct of an option holds two list heads, its own at the
  address \<open>p\<close> of the struct and that of its arguments at \<open>p + 1\<close>.
\<close>

section \<open>Data\<close>

record bscl_getopt_patern_t =
  pat_name :: string
  pat_sname :: char

definition BSCL_GETOPT_PATERN_STR_MAX :: nat where
  "BSCL_GETOPT_PATERN_STR_MAX = 64"

text \<open>
  What a struct holds beside its list head: nothing more (the heads embedded in the context and
  in an option), the pattern and the current argument of an option, or the text of an argument.
\<close>

datatype getopt_data = Bare | Opt nat addr | Arg string

record getopt_cell = link +
  cell_data :: getopt_data

type_synonym getopt_heap = "getopt_cell heap"

record bscl_getopt_contex_t =
  paterns :: "bscl_getopt_patern_t list"
  patern_num :: u32
  options_head :: addr
  current_option :: addr

text \<open>\<open>malloc\<close> of a struct with \<open>n\<close> list heads: its address and what the heads happen to hold.\<close>

type_synonym getopt_malloc = "nat \<Rightarrow> getopt_heap \<Rightarrow> (addr \<times> link list) option"

definition getopt_place :: "getopt_heap \<Rightarrow> addr \<Rightarrow> link \<Rightarrow> getopt_data \<Rightarrow> getopt_heap" where
  "getopt_place h p l d = h(p \<mapsto> \<lparr>l_next = l_next l, l_prev = l_prev l, cell_data = d\<rparr>)"

definition data_at :: "getopt_heap \<Rightarrow> addr \<Rightarrow> getopt_data option" where
  "data_at h p = map_option cell_data (h p)"

definition bscl_getopt_option_patern :: "getopt_heap \<Rightarrow> addr \<Rightarrow> nat option" where
  "bscl_getopt_option_patern h p =
     (if p = 0 then None
      else case data_at h p of Some (Opt patern _) \<Rightarrow> Some patern | _ \<Rightarrow> None)"

definition option_current_arg :: "getopt_heap \<Rightarrow> addr \<Rightarrow> addr option" where
  "option_current_arg h p =
     (if p = 0 then None else case data_at h p of Some (Opt _ c) \<Rightarrow> Some c | _ \<Rightarrow> None)"

definition set_current_arg :: "getopt_heap \<Rightarrow> addr \<Rightarrow> addr \<Rightarrow> getopt_heap option" where
  "set_current_arg h p c = do {
     patern \<leftarrow> bscl_getopt_option_patern h p;
     assign h p (\<lambda>x. x\<lparr>cell_data := Opt patern c\<rparr>)
   }"

definition arg_text :: "getopt_heap \<Rightarrow> addr \<Rightarrow> string option" where
  "arg_text h a =
     (if a = 0 then None else case data_at h a of Some (Arg s) \<Rightarrow> Some s | _ \<Rightarrow> None)"

section \<open>Patterns\<close>

function find_patern_loop ::
    "(bscl_getopt_patern_t \<Rightarrow> bool) \<Rightarrow> bscl_getopt_contex_t \<Rightarrow> nat \<Rightarrow> nat option option" where
  "find_patern_loop test ctx i =
     (if i < unat (patern_num ctx)
      then if i < length (paterns ctx)
           then if test (paterns ctx ! i) then Some (Some i)
                else find_patern_loop test ctx (i + 1)
           else None
      else Some None)"
  by pat_completeness auto

termination
  by (relation "measure (\<lambda>(test, ctx, i). unat (patern_num ctx) - i)") auto

declare find_patern_loop.simps [simp del]

definition find_patern_with_name :: "bscl_getopt_contex_t \<Rightarrow> string \<Rightarrow> nat option option" where
  "find_patern_with_name ctx name =
     find_patern_loop (\<lambda>p. strncmp_equal name (pat_name p) BSCL_GETOPT_PATERN_STR_MAX) ctx 0"

definition find_patern_with_sname :: "bscl_getopt_contex_t \<Rightarrow> char \<Rightarrow> nat option option" where
  "find_patern_with_sname ctx sname = find_patern_loop (\<lambda>p. sname = pat_sname p) ctx 0"

section \<open>Options\<close>

partial_function (option) find_option_loop ::
    "getopt_heap \<Rightarrow> bscl_getopt_contex_t \<Rightarrow> nat \<Rightarrow> addr \<Rightarrow> addr option" where
  [code]: "find_option_loop h ctx patern opt =
     (if opt = options_head ctx then Some 0
      else do {
        q \<leftarrow> bscl_getopt_option_patern h opt;
        if q = patern then Some opt
        else do {
          n \<leftarrow> get_next h opt;
          find_option_loop h ctx patern n
        }
      })"

definition find_option :: "getopt_heap \<Rightarrow> bscl_getopt_contex_t \<Rightarrow> nat \<Rightarrow> addr option" where
  "find_option h ctx patern = do {
     n \<leftarrow> get_next h (options_head ctx);
     find_option_loop h ctx patern n
   }"

definition option_new ::
    "getopt_malloc \<Rightarrow> getopt_heap \<Rightarrow> bscl_getopt_contex_t \<Rightarrow> nat \<Rightarrow> (addr \<times> getopt_heap) option" where
  "option_new malloc h ctx patern =
     (case malloc 2 h of
        None \<Rightarrow> Some (0, h)
      | Some (p, ls) \<Rightarrow> do {
          let h = getopt_place (getopt_place h p (ls ! 0) (Opt patern 0)) (p + 1) (ls ! 1) Bare;
          h \<leftarrow> bscl_list_init h (p + 1);
          h \<leftarrow> bscl_list_insert_tail h (options_head ctx) p;
          Some (p, h)
        })"

definition option_append_arg :: "getopt_heap \<Rightarrow> addr \<Rightarrow> addr \<Rightarrow> getopt_heap option" where
  "option_append_arg h opt arg = bscl_list_insert_tail h (opt + 1) arg"

definition bscl_getopt_init ::
    "getopt_heap \<Rightarrow> bscl_getopt_contex_t \<Rightarrow> bscl_getopt_patern_t list \<Rightarrow> u32
      \<Rightarrow> (bscl_getopt_contex_t \<times> getopt_heap) option" where
  "bscl_getopt_init h ctx pats num = do {
     let ctx = ctx\<lparr>patern_num := num, paterns := pats, current_option := 0\<rparr>;
     h \<leftarrow> bscl_list_init h (options_head ctx);
     Some (ctx, h)
   }"

definition bscl_getopt_new ::
    "getopt_malloc \<Rightarrow> getopt_heap \<Rightarrow> bscl_getopt_patern_t list \<Rightarrow> u32
      \<Rightarrow> (bscl_getopt_contex_t option \<times> getopt_heap) option" where
  "bscl_getopt_new malloc h pats num =
     (case malloc 1 h of
        None \<Rightarrow> Some (None, h)
      | Some (p, ls) \<Rightarrow> do {
          let h = getopt_place h p (ls ! 0) Bare;
          (ctx, h) \<leftarrow> bscl_getopt_init h
            \<lparr>paterns = [], patern_num = 0, options_head = p, current_option = 0\<rparr> pats num;
          Some (Some ctx, h)
        })"

section \<open>Parsing\<close>

text \<open>
  The pattern that a word of the command line belongs to and the argument it carries.
  \<open>Some None\<close> stands for the returns of \<open>-1\<close>.
\<close>

definition getopt_classify ::
    "getopt_heap \<Rightarrow> bscl_getopt_contex_t \<Rightarrow> string \<Rightarrow> (nat \<times> string option) option option" where
  "getopt_classify h ctx str =
     (let len = strlen_int str in
      if len < 1 then Some None
      else if str ! 0 = CHR ''-'' then
        if len < 2 then Some None
        else if str ! 1 = CHR ''-'' then do {
          patern \<leftarrow> find_patern_with_name ctx (drop 2 str);
          Some (map_option (\<lambda>q. (q, None)) patern)
        }
        else do {
          patern \<leftarrow> find_patern_with_sname ctx (str ! 1);
          Some (map_option (\<lambda>q. (q, if len > 2 then Some (drop 2 str) else None)) patern)
        }
      else do {
        patern \<leftarrow> (if current_option ctx \<noteq> 0
                  then map_option Some (bscl_getopt_option_patern h (current_option ctx))
                  else find_patern_with_sname ctx NUL);
        Some (map_option (\<lambda>q. (q, Some str)) patern)
      })"

definition bscl_getopt_parse_next ::
    "getopt_malloc \<Rightarrow> getopt_heap \<Rightarrow> bscl_getopt_contex_t \<Rightarrow> string
      \<Rightarrow> (int \<times> bscl_getopt_contex_t \<times> getopt_heap) option" where
  "bscl_getopt_parse_next malloc h ctx str = do {
     found \<leftarrow> getopt_classify h ctx str;
     (case found of
        None \<Rightarrow> Some (-1, ctx, h)
      | Some (patern, arg) \<Rightarrow> do {
          found \<leftarrow> find_option h ctx patern;
          (opt, h) \<leftarrow> (if found = 0 then option_new malloc h ctx patern else Some (found, h));
          if opt = 0 then Some (-1, ctx, h)
          else do {
            let ctx = ctx\<lparr>current_option := opt\<rparr>;
            (case arg of
               None \<Rightarrow> Some (0, ctx, h)
             | Some s \<Rightarrow> do {
                 (a, ls) \<leftarrow> malloc 1 h;
                 let h = getopt_place h a (ls ! 0) (Arg s);
                 h \<leftarrow> bscl_list_insert_tail h (opt + 1) a;
                 Some (0, ctx, h)
               })
          }
        })
   }"

definition bscl_getopt_parse_end :: "bscl_getopt_contex_t \<Rightarrow> int \<times> bscl_getopt_contex_t" where
  "bscl_getopt_parse_end ctx = (0, ctx\<lparr>current_option := 0\<rparr>)"

function getopt_parse_loop ::
    "getopt_malloc \<Rightarrow> string list \<Rightarrow> int \<Rightarrow> nat \<Rightarrow> getopt_heap \<Rightarrow> bscl_getopt_contex_t
      \<Rightarrow> (int \<times> bscl_getopt_contex_t \<times> getopt_heap) option" where
  "getopt_parse_loop malloc argv argc i h ctx =
     (if int i < argc then
        if i < length argv then do {
          (r, ctx, h) \<leftarrow> bscl_getopt_parse_next malloc h ctx (argv ! i);
          if r < 0 then Some (-1, ctx, h)
          else getopt_parse_loop malloc argv argc (i + 1) h ctx
        } else None
      else Some (0, snd (bscl_getopt_parse_end ctx), h))"
  by pat_completeness auto

termination
  by (relation "measure (\<lambda>(malloc, argv, argc, i, h, ctx). nat argc - i)") auto

declare getopt_parse_loop.simps [simp del]

definition bscl_getopt_parse ::
    "getopt_malloc \<Rightarrow> getopt_heap \<Rightarrow> bscl_getopt_contex_t \<Rightarrow> int \<Rightarrow> string list
      \<Rightarrow> (int \<times> bscl_getopt_contex_t \<times> getopt_heap) option" where
  "bscl_getopt_parse malloc h ctx argc argv = getopt_parse_loop malloc argv argc 1 h ctx"

section \<open>Reading the result\<close>

definition bscl_getopt_next_option ::
    "getopt_heap \<Rightarrow> bscl_getopt_contex_t \<Rightarrow> (addr \<times> bscl_getopt_contex_t) option" where
  "bscl_getopt_next_option h ctx = do {
     c \<leftarrow> (if current_option ctx = 0 then get_next h (options_head ctx)
          else do {
            l \<leftarrow> bscl_list_is_last h (options_head ctx) (current_option ctx);
            if l then Some 0 else get_next h (current_option ctx)
          });
     Some (c, ctx\<lparr>current_option := c\<rparr>)
   }"

definition bscl_getopt_option_next_arg ::
    "getopt_heap \<Rightarrow> addr \<Rightarrow> (string option \<times> getopt_heap) option" where
  "bscl_getopt_option_next_arg h opt = do {
     c \<leftarrow> option_current_arg h opt;
     c \<leftarrow> (if c = 0 then get_next h (opt + 1)
          else do {
            l \<leftarrow> bscl_list_is_last h (opt + 1) c;
            if l then Some 0 else get_next h c
          });
     h \<leftarrow> set_current_arg h opt c;
     if c \<noteq> 0 then do {
       s \<leftarrow> arg_text h c;
       Some (Some s, h)
     } else Some (None, h)
   }"

text \<open>
  The two nested loops with which a client reads every option and its arguments until the null
  pointer, as \<open>test/test_getopt.c\<close> does.
\<close>

partial_function (option) read_args ::
    "getopt_heap \<Rightarrow> addr \<Rightarrow> (string list \<times> getopt_heap) option" where
  "read_args h opt = do {
     (a, h) \<leftarrow> bscl_getopt_option_next_arg h opt;
     (case a of
        None \<Rightarrow> Some ([], h)
      | Some s \<Rightarrow> do {
          (ss, h) \<leftarrow> read_args h opt;
          Some (s # ss, h)
        })
   }"

partial_function (option) read_options ::
    "getopt_heap \<Rightarrow> bscl_getopt_contex_t \<Rightarrow> (nat \<times> string list) list option" where
  "read_options h ctx = do {
     (opt, ctx) \<leftarrow> bscl_getopt_next_option h ctx;
     if opt = 0 then Some []
     else do {
       patern \<leftarrow> bscl_getopt_option_patern h opt;
       (ss, h) \<leftarrow> read_args h opt;
       gs \<leftarrow> read_options h ctx;
       Some ((patern, ss) # gs)
     }
   }"

section \<open>What the parser computes\<close>

text \<open>
  The specification: the pattern and the argument of every word, and the arguments grouped by
  pattern in the order in which the patterns first occur.
\<close>

definition spec_find ::
    "(bscl_getopt_patern_t \<Rightarrow> bool) \<Rightarrow> bscl_getopt_patern_t list \<Rightarrow> nat option" where
  "spec_find test pats = find (\<lambda>i. test (pats ! i)) [0..<length pats]"

definition spec_word ::
    "bscl_getopt_patern_t list \<Rightarrow> nat option \<Rightarrow> string \<Rightarrow> (nat \<times> string option) option" where
  "spec_word pats cur w =
     (case w of
        [] \<Rightarrow> None
      | c # cs \<Rightarrow>
          if c \<noteq> CHR ''-'' then
            map_option (\<lambda>q. (q, Some w))
              (if cur \<noteq> None then cur else spec_find (\<lambda>p. NUL = pat_sname p) pats)
          else (case cs of
              [] \<Rightarrow> None
            | d # ds \<Rightarrow>
                if d = CHR ''-''
                then map_option (\<lambda>q. (q, None))
                  (spec_find (\<lambda>p. strncmp_equal ds (pat_name p) BSCL_GETOPT_PATERN_STR_MAX) pats)
                else map_option (\<lambda>q. (q, if ds = [] then None else Some ds))
                  (spec_find (\<lambda>p. d = pat_sname p) pats)))"

type_synonym arg_groups = "(nat \<times> string list) list"

fun spec_add :: "nat \<Rightarrow> string option \<Rightarrow> arg_groups \<Rightarrow> arg_groups" where
  "spec_add q a [] = [(q, case a of None \<Rightarrow> [] | Some s \<Rightarrow> [s])]"
| "spec_add q a ((r, ss) # gs) =
     (if r = q then (r, ss @ (case a of None \<Rightarrow> [] | Some s \<Rightarrow> [s])) # gs
      else (r, ss) # spec_add q a gs)"

fun spec_words ::
    "bscl_getopt_patern_t list \<Rightarrow> arg_groups \<Rightarrow> nat option \<Rightarrow> string list \<Rightarrow> arg_groups option" where
  "spec_words pats gs cur [] = Some gs"
| "spec_words pats gs cur (w # ws) =
     (case spec_word pats cur w of
        None \<Rightarrow> None
      | Some (q, a) \<Rightarrow> spec_words pats (spec_add q a gs) (Some q) ws)"

lemma find_patern_loop_spec:
  assumes "length (paterns ctx) = unat (patern_num ctx)"
  shows "find_patern_loop test ctx i
    = Some (find (\<lambda>j. test (paterns ctx ! j)) [i..<length (paterns ctx)])"
  using assms
proof (induction test ctx i rule: find_patern_loop.induct)
  case (1 test ctx i)
  show ?case
  proof (cases "i < length (paterns ctx)")
    case True
    then show ?thesis
      using 1 by (subst find_patern_loop.simps) (simp add: upt_conv_Cons)
  qed (use 1 in \<open>simp add: find_patern_loop.simps\<close>)
qed

lemma find_patern_spec:
  assumes "length (paterns ctx) = unat (patern_num ctx)"
  shows "find_patern_with_name ctx name = Some (spec_find
      (\<lambda>p. strncmp_equal name (pat_name p) BSCL_GETOPT_PATERN_STR_MAX) (paterns ctx))"
    and "find_patern_with_sname ctx c = Some (spec_find (\<lambda>p. c = pat_sname p) (paterns ctx))"
  by (simp_all add: find_patern_with_name_def find_patern_with_sname_def spec_find_def
      find_patern_loop_spec [OF assms])

lemma getopt_classify_spec:
  assumes "length (paterns ctx) = unat (patern_num ctx)" and "length w < 2 ^ 31"
    and "cur = (if current_option ctx = 0 then None
                else bscl_getopt_option_patern h (current_option ctx))"
    and "current_option ctx = 0 \<or> cur \<noteq> None"
  shows "getopt_classify h ctx w = Some (spec_word (paterns ctx) cur w)"
  using assms(3,4)
  unfolding getopt_classify_def spec_word_def Let_def strlen_int_small [OF assms(2)]
    find_patern_spec [OF assms(1)]
  by (auto split: list.splits simp: of_nat_less_iff numeral_2_eq_2)

section \<open>The lists of options and arguments\<close>

text \<open>
  An option in the heap: its address, its pattern and its arguments with their addresses; then
  all the options of a context with the list head at \<open>l\<close>.
\<close>

type_synonym opt_nodes = "addr \<times> nat \<times> (addr \<times> string) list"

definition opt_rep :: "getopt_heap \<Rightarrow> opt_nodes \<Rightarrow> bool" where
  "opt_rep h = (\<lambda>(p, q, as). data_at h p = Some (Opt q 0) \<and> data_at h (p + 1) = Some Bare
     \<and> circle h (p + 1) (map fst as) \<and> (\<forall>(a, s) \<in> set as. data_at h a = Some (Arg s)))"

definition opt_cells :: "opt_nodes \<Rightarrow> addr list" where
  "opt_cells = (\<lambda>(p, q, as). p # (p + 1) # map fst as)"

definition opts_rep :: "getopt_heap \<Rightarrow> addr \<Rightarrow> opt_nodes list \<Rightarrow> bool" where
  "opts_rep h l os \<longleftrightarrow> circle h l (map fst os) \<and> data_at h l = Some Bare
     \<and> (\<forall>x \<in> set os. opt_rep h x) \<and> distinct (l # concat (map opt_cells os))"

definition groups_of :: "opt_nodes list \<Rightarrow> arg_groups" where
  "groups_of = map (\<lambda>(p, q, as). (q, map snd as))"

definition getopt_fresh :: "getopt_malloc \<Rightarrow> bool" where
  "getopt_fresh malloc \<longleftrightarrow> (\<forall>n h p ls. malloc n h = Some (p, ls)
     \<longrightarrow> p \<noteq> 0 \<and> length ls = n \<and> (\<forall>i < n. h (p + i) = None))"

definition getopt_ample :: "getopt_malloc \<Rightarrow> bool" where
  "getopt_ample malloc \<longleftrightarrow> (\<forall>n h. finite (dom h) \<longrightarrow> malloc n h \<noteq> None)"

lemma cell_data_more:
  fixes x y :: getopt_cell
  shows "link.more x = link.more y \<Longrightarrow> cell_data x = cell_data y"
  by (cases x; cases y) simp

lemma data_at_rest: "rest h' p = rest h p \<Longrightarrow> data_at h' p = data_at h p"
  by (cases "h p"; cases "h' p") (auto simp: rest_def data_at_def intro: cell_data_more)

lemma data_at_same: "h' p = h p \<Longrightarrow> data_at h' p = data_at h p"
  by (simp add: data_at_def)

lemma data_at_place [simp]: "data_at (getopt_place h p l d) x = (if x = p then Some d else data_at h x)"
  by (simp add: data_at_def getopt_place_def)

lemma place_other [simp]: "x \<noteq> p \<Longrightarrow> getopt_place h p l d x = h x"
  by (simp add: getopt_place_def)

lemma place_dom [simp]: "getopt_place h p l d x = None \<longleftrightarrow> x \<noteq> p \<and> h x = None"
  by (simp add: getopt_place_def)

lemma opt_rep_frame:
  assumes "opt_rep h x" and "\<And>c. c \<in> set (opt_cells x) \<Longrightarrow> data_at h' c = data_at h c"
    and "\<And>c. c \<in> set (tl (opt_cells x)) \<Longrightarrow> h' c = h c"
  shows "opt_rep h' x"
proof -
  obtain p q as where x: "x = (p, q, as)"
    by (cases x)
  have d: "data_at h' p = data_at h p" "data_at h' (p + 1) = data_at h (p + 1)"
      "(a, s) \<in> set as \<Longrightarrow> data_at h' a = data_at h a" for a s
    by (rule assms(2); force simp: x opt_cells_def)+
  have "circle h' (p + 1) (map fst as)"
    using assms(1,3) by (auto simp: x opt_cells_def opt_rep_def intro: circle_same)
  then show ?thesis
    using assms(1) d by (auto simp: x opt_rep_def)
qed

lemma opt_rep_dom: "opt_rep h x \<Longrightarrow> c \<in> set (opt_cells x) \<Longrightarrow> h c \<noteq> None"
  by (cases x) (auto simp: opt_rep_def opt_cells_def data_at_def dest: circle_dom)

lemma opts_rep_dom: "opts_rep h l os \<Longrightarrow> c \<in> set (l # concat (map opt_cells os)) \<Longrightarrow> h c \<noteq> None"
  by (auto simp: opts_rep_def data_at_def dest: opt_rep_dom)

lemma fst_cells: "fst ` set os \<subseteq> set (concat (map opt_cells os))"
  by (force simp: opt_cells_def)

lemma opts_rep_same:
  assumes "opts_rep h l os" and "\<And>c. c \<in> set (l # concat (map opt_cells os)) \<Longrightarrow> h' c = h c"
  shows "opts_rep h' l os"
proof -
  have "circle h' l (map fst os)"
  proof (rule circle_same)
    show "circle h l (map fst os)"
      using assms(1) by (simp add: opts_rep_def)
    fix c assume "c \<in> set (l # map fst os)"
    then have "c \<in> set (l # concat (map opt_cells os))"
      using fst_cells [of os] by auto
    then show "h' c = h c"
      by (rule assms(2))
  qed
  moreover have "opt_rep h' x" if "x \<in> set os" for x
  proof (rule opt_rep_frame)
    show "opt_rep h x"
      using that assms(1) by (simp add: opts_rep_def)
    fix c
    have sub: "c \<in> set (opt_cells x) \<Longrightarrow> h' c = h c"
      using that by (auto intro!: assms(2))
    show "c \<in> set (opt_cells x) \<Longrightarrow> data_at h' c = data_at h c"
      by (rule data_at_same, erule sub)
    show "c \<in> set (tl (opt_cells x)) \<Longrightarrow> h' c = h c"
      by (rule sub, erule list.set_sel(2) [rotated]) (simp add: opt_cells_def split: prod.splits)
  qed
  ultimately show ?thesis
    using assms data_at_same [of h' l h] by (simp add: opts_rep_def)
qed

lemma cells_disjoint:
  assumes "distinct (concat (map opt_cells os))" and "x \<in> set os" and "c \<in> set (tl (opt_cells x))"
  shows "c \<notin> fst ` set os"
  using assms
proof (induction os)
  case (Cons y os)
  have sub: "fst ` set os \<subseteq> set (concat (map opt_cells os))"
    by (rule fst_cells)
  have y: "fst y \<in> set (opt_cells y)" "y = x \<Longrightarrow> c \<noteq> fst y"
    using Cons.prems by (auto simp: opt_cells_def split: prod.splits)
  have c: "c \<in> set (opt_cells x)"
    using Cons.prems(3) by (metis list.set_sel(2) tl_Nil)
  have dis: "set (opt_cells y) \<inter> set (concat (map opt_cells os)) = {}"
    and d: "distinct (concat (map opt_cells os))"
    using Cons.prems(1) by simp_all
  show ?case
  proof (cases "x = y")
    case True
    then have "c \<notin> set (concat (map opt_cells os))"
      using c dis by blast
    then show ?thesis
      using sub y(2) True by auto
  next
    case False
    then have x: "x \<in> set os"
      using Cons.prems(2) by simp
    then have "c \<in> set (concat (map opt_cells os))"
      using c by auto
    then have "c \<noteq> fst y"
      using y(1) dis by blast
    then show ?thesis
      using Cons.IH [OF d x Cons.prems(3)] by simp
  qed
qed simp

lemma find_option_loop_rep:
  assumes "opts_rep h (options_head ctx) (pre @ os)"
  shows "find_option_loop h ctx q (hd (map fst os @ [options_head ctx]))
    = Some (case find (\<lambda>x. fst (snd x) = q) os of None \<Rightarrow> 0 | Some x \<Rightarrow> fst x)"
  using assms
proof (induction os arbitrary: pre)
  case Nil
  show ?case
    by (subst find_option_loop.simps) simp
next
  case (Cons x os)
  let ?l = "options_head ctx"
  obtain p r as where x: "x = (p, r, as)"
    by (cases x)
  have c: "circle h ?l (map fst pre @ p # map fst os)"
    using Cons.prems by (simp add: opts_rep_def x)
  have "data_at h p = Some (Opt r 0)"
    using Cons.prems by (simp add: opts_rep_def x opt_rep_def)
  then have "bscl_getopt_option_patern h p = Some r" and "p \<noteq> ?l"
    using c by (auto simp: bscl_getopt_option_patern_def circle_def)
  then show ?case
    using Cons.IH [of "pre @ [x]"] Cons.prems circle_step [OF c]
    by (subst find_option_loop.simps) (simp add: x)
qed

lemma find_option_rep:
  assumes "opts_rep h (options_head ctx) os"
  shows "find_option h ctx q = Some (case find (\<lambda>x. fst (snd x) = q) os of None \<Rightarrow> 0 | Some x \<Rightarrow> fst x)"
  using find_option_loop_rep [of h ctx "[]" os q] circle_start [of h "options_head ctx" "map fst os"] assms
  by (simp add: find_option_def opts_rep_def)

lemma getopt_freshD:
  assumes "getopt_fresh malloc" and "malloc n h = Some (p, ls)"
  shows "p \<noteq> 0" and "length ls = n" and "i < n \<Longrightarrow> h (p + i) = None"
  using assms unfolding getopt_fresh_def by blast+

text \<open>
  Linking a cell into the list of the options leaves the options as they are, and linking one
  into the arguments of one option leaves the list of the options and all others as they are.
\<close>

lemma opt_cells_tl: "c \<in> set (tl (opt_cells x)) \<Longrightarrow> c \<in> set (opt_cells x)"
  by (metis list.set_sel(2) tl_Nil)

lemma cells_in_concat: "x \<in> set os \<Longrightarrow> c \<in> set (opt_cells x) \<Longrightarrow> c \<in> set (concat (map opt_cells os))"
  by auto

lemma options_linked:
  assumes rep: "opts_rep h l os" and d: "\<And>c. data_at h' c = data_at h c"
    and same: "\<And>c. c \<notin> set (p # l # map fst os) \<Longrightarrow> h' c = h c" and p: "p \<notin> set (concat (map opt_cells os))"
    and x: "x \<in> set os"
  shows "opt_rep h' x"
proof (rule opt_rep_frame)
  show "opt_rep h x"
    using x rep by (simp add: opts_rep_def)
  show "data_at h' c = data_at h c" for c
    by (rule d)
  fix c assume c: "c \<in> set (tl (opt_cells x))"
  have "c \<in> set (concat (map opt_cells os))"
    by (rule cells_in_concat [OF x opt_cells_tl [OF c]])
  moreover have "c \<notin> fst ` set os"
    using rep by (intro cells_disjoint [OF _ x c]) (simp add: opts_rep_def)
  moreover have "l \<notin> set (concat (map opt_cells os))"
    using rep by (simp add: opts_rep_def)
  ultimately show "h' c = h c"
    using p by (intro same) auto
qed

lemma option_arguments_linked:
  assumes rep: "opts_rep h l (os1 @ (p, q, as) # os2)" and d: "\<And>c. data_at h' c = data_at h c"
    and same: "\<And>c. c \<notin> set (a # (p + 1) # map fst as) \<Longrightarrow> h' c = h c"
    and a: "a \<notin> set (l # concat (map opt_cells (os1 @ (p, q, as) # os2)))"
  shows "circle h' l (map fst (os1 @ (p, q, as) # os2))" and "y \<in> set (os1 @ os2) \<Longrightarrow> opt_rep h' y"
proof -
  let ?os = "os1 @ (p, q, as) # os2"
  have cells: "opt_cells (p, q, as) = p # (p + 1) # map fst as"
    by (simp add: opt_cells_def)
  have dis: "distinct (l # concat (map opt_cells ?os))"
    using rep by (simp add: opts_rep_def)
  have apart: "set (opt_cells (p, q, as)) \<inter> set (concat (map opt_cells (os1 @ os2))) = {}"
    using dis by (simp del: set_concat) blast
  show "circle h' l (map fst ?os)"
  proof (rule circle_same)
    show "circle h l (map fst ?os)"
      using rep by (simp add: opts_rep_def)
    fix c assume c: "c \<in> set (l # map fst ?os)"
    have "c \<notin> set (tl (opt_cells (p, q, as)))"
      using c dis cells_disjoint [of ?os "(p, q, as)" c] cells by auto
    moreover have "c \<noteq> a"
      using c a fst_cells [of ?os] by auto
    ultimately show "h' c = h c"
      using cells by (intro same) simp
  qed
  show "opt_rep h' y" if y: "y \<in> set (os1 @ os2)"
  proof (rule opt_rep_frame)
    show "opt_rep h y"
      using y rep by (auto simp: opts_rep_def)
    show "data_at h' c = data_at h c" for c
      by (rule d)
    fix c assume "c \<in> set (tl (opt_cells y))"
    then have "c \<in> set (concat (map opt_cells (os1 @ os2)))"
      by (intro cells_in_concat [OF y] opt_cells_tl)
    then have "c \<in> set (concat (map opt_cells ?os))" and "c \<notin> set (opt_cells (p, q, as))"
      using apart by (simp_all del: set_concat) blast+
    then show "h' c = h c"
      using a cells by (intro same) auto
  qed
qed

lemma option_new_rep:
  assumes rep: "opts_rep h (options_head ctx) os" and fresh: "getopt_fresh malloc"
    and m: "malloc 2 h = Some (p, ls)" and fin: "finite (dom h)"
  shows "\<exists>h'. option_new malloc h ctx q = Some (p, h') \<and> opts_rep h' (options_head ctx) (os @ [(p, q, [])])
    \<and> p \<noteq> 0 \<and> finite (dom h')"
proof -
  let ?l = "options_head ctx"
  let ?h1 = "getopt_place (getopt_place h p (ls ! 0) (Opt q 0)) (p + 1) (ls ! 1) Bare"
  have new: "p \<noteq> 0" "h p = None" "h (p + 1) = None"
    using getopt_freshD(1) [OF fresh m] getopt_freshD(3) [OF fresh m, of 0]
      getopt_freshD(3) [OF fresh m, of 1] by simp_all
  have out: "c \<in> set (?l # concat (map opt_cells os)) \<Longrightarrow> c \<noteq> p \<and> c \<noteq> p + 1" for c
    using opts_rep_dom [OF rep] new by blast
  obtain h2 where h2: "bscl_list_init ?h1 (p + 1) = Some h2" "circle h2 (p + 1) []"
      "rest h2 (p + 1) = rest ?h1 (p + 1)" "\<forall>x. x \<noteq> p + 1 \<longrightarrow> h2 x = ?h1 x"
      "\<forall>x. h2 x = None \<longleftrightarrow> ?h1 x = None"
    using list_init_circle [of "p + 1" ?h1] by auto
  have rep2: "opts_rep h2 ?l os"
    by (rule opts_rep_same [OF rep]) (use out h2(4) in simp)
  have d2: "data_at h2 p = Some (Opt q 0)" "data_at h2 (p + 1) = Some Bare"
    using data_at_same [of h2 p ?h1] data_at_rest [OF h2(3)] h2(4) by simp_all
  have notin: "p \<notin> set (?l # map fst os)" "p + 1 \<notin> set (?l # map fst os)"
    using out fst_cells [of os] by fastforce+
  obtain h3 where h3: "bscl_list_insert_tail h2 ?l p = Some h3" "circle h3 ?l (map fst os @ [p])"
      "\<forall>x. rest h3 x = rest h2 x" "\<forall>x. x \<notin> set (p # ?l # map fst os) \<longrightarrow> h3 x = h2 x"
      "\<forall>x. h3 x = None \<longleftrightarrow> h2 x = None"
    using insert_tail_circle [of h2 ?l "map fst os" p] rep2 new(1) notin(1) h2(5)
    by (auto simp: opts_rep_def)
  have d3: "data_at h3 x = data_at h2 x" for x
    using h3(3) by (intro data_at_rest) simp
  have "opt_rep h3 x" if x: "x \<in> set os" for x
  proof (rule options_linked [OF rep2 d3 _ _ x])
    show "h3 c = h2 c" if "c \<notin> set (p # ?l # map fst os)" for c
      using h3(4) that by blast
    show "p \<notin> set (concat (map opt_cells os))"
      using out [of p] by (meson list.set_intros(2))
  qed
  moreover have "opt_rep h3 (p, q, [])"
    using circle_same [OF h2(2), of h3] h3(4) notin d2 d3 by (simp add: opt_rep_def)
  moreover have "distinct (?l # concat (map opt_cells (os @ [(p, q, [])])))"
  proof -
    have "opt_cells (p, q, []) = [p, p + 1]"
      by (simp add: opt_cells_def)
    moreover have "p \<notin> set (?l # concat (map opt_cells os))" "p + 1 \<notin> set (?l # concat (map opt_cells os))"
      using out by blast+
    ultimately show ?thesis
      using rep by (simp add: opts_rep_def)
  qed
  ultimately have "opts_rep h3 ?l (os @ [(p, q, [])])"
    using h3(2) d3 [of ?l] rep2 by (auto simp: opts_rep_def)
  moreover have "finite (dom h3)"
  proof (rule finite_subset)
    show "dom h3 \<subseteq> insert p (insert (p + 1) (dom h))"
      using h2(5) h3(5) by (auto simp: dom_def)
  qed (simp add: fin)
  ultimately show ?thesis
    using h2(1) h3(1) m new(1) by (simp add: option_new_def)
qed

lemma append_arg_rep:
  assumes rep: "opts_rep h l (os1 @ (p, q, as) # os2)" and fresh: "getopt_fresh malloc"
    and m: "malloc 1 h = Some (a, ls)" and fin: "finite (dom h)"
  shows "\<exists>h'. bscl_list_insert_tail (getopt_place h a d (Arg s)) (p + 1) a = Some h'
    \<and> opts_rep h' l (os1 @ (p, q, as @ [(a, s)]) # os2) \<and> finite (dom h')"
proof -
  let ?os = "os1 @ (p, q, as) # os2"
  let ?h1 = "getopt_place h a d (Arg s)"
  have new: "a \<noteq> 0" "h a = None"
    using getopt_freshD(1) [OF fresh m] getopt_freshD(3) [OF fresh m, of 0] by simp_all
  then have out: "a \<notin> set (l # concat (map opt_cells ?os))"
    using opts_rep_dom [OF rep, of a] by blast
  have rep1: "opts_rep ?h1 l ?os"
    by (rule opts_rep_same [OF rep], rule place_other) (use out in metis)
  then have c1: "circle ?h1 (p + 1) (map fst as)"
    by (simp add: opts_rep_def opt_rep_def)
  have cells: "opt_cells (p, q, as) = p # (p + 1) # map fst as"
    by (simp add: opt_cells_def)
  have "a \<notin> set ((p + 1) # map fst as)"
    using out cells by simp
  then obtain h2 where h2: "bscl_list_insert_tail ?h1 (p + 1) a = Some h2" "circle h2 (p + 1) (map fst as @ [a])"
      "\<forall>x. rest h2 x = rest ?h1 x" "\<forall>x. x \<notin> set (a # (p + 1) # map fst as) \<longrightarrow> h2 x = ?h1 x"
      "\<forall>x. h2 x = None \<longleftrightarrow> ?h1 x = None"
    using insert_tail_circle [OF c1 new(1)] by auto
  have d2: "data_at h2 x = data_at ?h1 x" for x
    using h2(3) by (intro data_at_rest) simp
  have dis: "distinct (l # concat (map opt_cells ?os))"
    using rep by (simp add: opts_rep_def)
  have same: "h2 c = ?h1 c" if "c \<notin> set (a # (p + 1) # map fst as)" for c
    using h2(4) that by blast
  note linked = option_arguments_linked [OF rep1 d2 same out]
  have "opt_rep h2 (p, q, as @ [(a, s)])"
    using rep1 h2(2) d2 out by (auto simp: opts_rep_def opt_rep_def)
  moreover have "distinct (l # concat (map opt_cells (os1 @ (p, q, as @ [(a, s)]) # os2)))"
  proof -
    have "opt_cells (p, q, as @ [(a, s)]) = opt_cells (p, q, as) @ [a]"
      by (simp add: opt_cells_def)
    then show ?thesis
      using dis out by auto
  qed
  ultimately have "opts_rep h2 l (os1 @ (p, q, as @ [(a, s)]) # os2)"
    using linked rep1 d2 [of l] by (auto simp: opts_rep_def)
  moreover have "finite (dom h2)"
  proof (rule finite_subset)
    show "dom h2 \<subseteq> insert a (dom h)"
      using h2(5) by (auto simp: dom_def)
  qed (simp add: fin)
  ultimately show ?thesis
    using h2(1) by blast
qed

section \<open>Parsing refines the specification\<close>

definition getopt_state ::
    "bscl_getopt_contex_t \<Rightarrow> getopt_heap \<Rightarrow> arg_groups \<Rightarrow> nat option \<Rightarrow> bool" where
  "getopt_state ctx h gs cur \<longleftrightarrow> finite (dom h) \<and> length (paterns ctx) = unat (patern_num ctx)
     \<and> (\<exists>os. opts_rep h (options_head ctx) os \<and> groups_of os = gs
         \<and> (case cur of None \<Rightarrow> current_option ctx = 0
            | Some q \<Rightarrow> \<exists>as. (current_option ctx, q, as) \<in> set os))"

lemma spec_add_there:
  "\<forall>g \<in> set gs1. fst g \<noteq> q \<Longrightarrow> spec_add q a (gs1 @ (q, ss) # gs2)
     = gs1 @ (q, ss @ (case a of None \<Rightarrow> [] | Some s \<Rightarrow> [s])) # gs2"
  by (induction gs1) auto

lemma spec_add_new:
  "\<forall>g \<in> set gs. fst g \<noteq> q \<Longrightarrow> spec_add q a gs = gs @ [(q, case a of None \<Rightarrow> [] | Some s \<Rightarrow> [s])]"
  by (induction gs) auto

lemma find_first: "\<forall>y \<in> set ys. \<not> P y \<Longrightarrow> P x \<Longrightarrow> find P (ys @ x # zs) = Some x"
  by (induction ys) auto

text \<open>The option of a pattern is found, or a new one is put at the end.\<close>

lemma getopt_open_option:
  assumes rep: "opts_rep h (options_head ctx) os" and fin: "finite (dom h)"
    and malloc: "getopt_fresh malloc" "getopt_ample malloc"
  shows "\<exists>found opt h1 os1 as os2. find_option h ctx q = Some found
    \<and> (if found = 0 then option_new malloc h ctx q else Some (found, h)) = Some (opt, h1) \<and> opt \<noteq> 0
    \<and> finite (dom h1) \<and> opts_rep h1 (options_head ctx) (os1 @ (opt, q, as) # os2)
    \<and> (\<forall>a. spec_add q a (groups_of os) = groups_of os1
        @ (q, map snd as @ (case a of None \<Rightarrow> [] | Some s \<Rightarrow> [s])) # groups_of os2)"
proof (cases "\<exists>x \<in> set os. fst (snd x) = q")
  case True
  obtain os1 x os2 where os: "os = os1 @ x # os2" and x: "fst (snd x) = q"
    and first: "\<forall>y \<in> set os1. fst (snd y) \<noteq> q"
    using split_list_first_prop [OF True] by blast
  obtain p as where xp: "x = (p, q, as)"
    using x by (cases x) simp
  have "find_option h ctx q = Some p"
    using find_option_rep [OF rep, of q] find_first [of os1 "\<lambda>x. fst (snd x) = q" x os2] first x
    by (simp add: os xp)
  moreover have "p \<noteq> 0"
    using rep by (auto simp: opts_rep_def os xp circle_def)
  moreover have "spec_add q a (groups_of os) = groups_of os1
      @ (q, map snd as @ (case a of None \<Rightarrow> [] | Some s \<Rightarrow> [s])) # groups_of os2" for a
    using spec_add_there [of "groups_of os1" q a "map snd as" "groups_of os2"] first
    by (force simp: os xp groups_of_def)
  ultimately show ?thesis
    using rep fin unfolding os xp by (intro exI [of _ p] exI [of _ h] exI [of _ os1] exI [of _ as] exI [of _ os2]) simp
next
  case False
  obtain p ls where m: "malloc 2 h = Some (p, ls)"
    using malloc(2) fin unfolding getopt_ample_def by (metis not_None_eq surj_pair)
  obtain h1 where h1: "option_new malloc h ctx q = Some (p, h1)"
      "opts_rep h1 (options_head ctx) (os @ [(p, q, [])])" "p \<noteq> 0" "finite (dom h1)"
    using option_new_rep [OF rep malloc(1) m fin] by blast
  have "find (\<lambda>x. fst (snd x) = q) os = None"
    using False unfolding find_None_iff by blast
  then have "find_option h ctx q = Some 0"
    using find_option_rep [OF rep] by simp
  moreover have "spec_add q a (groups_of os) = groups_of os
      @ (q, map snd [] @ (case a of None \<Rightarrow> [] | Some s \<Rightarrow> [s])) # groups_of []" for a
    using spec_add_new [of "groups_of os" q a] False by (force simp: groups_of_def)
  ultimately show ?thesis
    using h1 by (intro exI [of _ 0] exI [of _ p] exI [of _ h1] exI [of _ os] exI [of _ "[]"]) simp
qed

lemma groups_of_append [simp]:
  "groups_of (os1 @ os2) = groups_of os1 @ groups_of os2"
  "groups_of ((p, q, as) # os2) = (q, map snd as) # groups_of os2" "groups_of [] = []"
  by (simp_all add: groups_of_def)

lemma getopt_state_classify:
  assumes "getopt_state ctx h gs cur" and "length w < 2 ^ 31"
  shows "getopt_classify h ctx w = Some (spec_word (paterns ctx) cur w)"
proof -
  obtain os where os: "opts_rep h (options_head ctx) os"
    and cur: "case cur of None \<Rightarrow> current_option ctx = 0 | Some q \<Rightarrow> \<exists>as. (current_option ctx, q, as) \<in> set os"
    using assms(1) by (auto simp: getopt_state_def)
  have "current_option ctx \<noteq> 0 \<and> bscl_getopt_option_patern h (current_option ctx) = cur" if c: "cur = Some q" for q
  proof -
    obtain as where m: "(current_option ctx, q, as) \<in> set os"
      using cur c by auto
    then have "current_option ctx \<in> set (map fst os)"
      by (force intro: rev_image_eqI)
    moreover have "0 \<notin> set (map fst os)"
      using os by (simp add: opts_rep_def circle_def)
    ultimately have "current_option ctx \<noteq> 0"
      by metis
    moreover have "opt_rep h (current_option ctx, q, as)"
      using os m by (simp add: opts_rep_def)
    ultimately show ?thesis
      using c by (simp add: opt_rep_def bscl_getopt_option_patern_def)
  qed
  then show ?thesis
    using assms cur by (intro getopt_classify_spec) (auto simp: getopt_state_def split: option.splits)
qed

lemma getopt_parse_next_spec:
  assumes st: "getopt_state ctx h gs cur" and malloc: "getopt_fresh malloc" "getopt_ample malloc"
    and len: "length w < 2 ^ 31"
  shows "case spec_word (paterns ctx) cur w of
      None \<Rightarrow> bscl_getopt_parse_next malloc h ctx w = Some (-1, ctx, h)
    | Some (q, a) \<Rightarrow> \<exists>ctx' h'. bscl_getopt_parse_next malloc h ctx w = Some (0, ctx', h')
        \<and> getopt_state ctx' h' (spec_add q a gs) (Some q) \<and> paterns ctx' = paterns ctx"
proof (cases "spec_word (paterns ctx) cur w")
  case None
  then show ?thesis
    using getopt_state_classify [OF st len] by (simp add: bscl_getopt_parse_next_def)
next
  case (Some qa)
  obtain q a where qa: "qa = (q, a)"
    by (cases qa)
  have cl: "getopt_classify h ctx w = Some (Some (q, a))"
    using getopt_state_classify [OF st len] Some qa by simp
  obtain os where os: "opts_rep h (options_head ctx) os" and gs: "groups_of os = gs"
    and fin: "finite (dom h)" and num: "length (paterns ctx) = unat (patern_num ctx)"
    using st by (auto simp: getopt_state_def)
  obtain found opt h1 os1 as os2 where opt: "find_option h ctx q = Some found"
      "(if found = 0 then option_new malloc h ctx q else Some (found, h)) = Some (opt, h1)" "opt \<noteq> 0"
      "finite (dom h1)"
    and rep1: "opts_rep h1 (options_head ctx) (os1 @ (opt, q, as) # os2)"
    and gs1: "\<forall>a. spec_add q a gs = groups_of os1
        @ (q, map snd as @ (case a of None \<Rightarrow> [] | Some s \<Rightarrow> [s])) # groups_of os2"
    using getopt_open_option [OF os fin malloc, of q] unfolding gs by blast
  show ?thesis
  proof (cases a)
    case None
    have "bscl_getopt_parse_next malloc h ctx w = Some (0, ctx\<lparr>current_option := opt\<rparr>, h1)"
      using opt cl None by (simp add: bscl_getopt_parse_next_def)
    moreover have "getopt_state (ctx\<lparr>current_option := opt\<rparr>) h1 (spec_add q a gs) (Some q)"
      using rep1 gs1 opt(4) num None unfolding getopt_state_def
      by (auto intro!: exI [of _ "os1 @ (opt, q, as) # os2"])
    ultimately show ?thesis
      using Some qa by simp
  next
    case (Some s)
    obtain b ls where m: "malloc 1 h1 = Some (b, ls)"
      using malloc(2) opt(4) unfolding getopt_ample_def by (metis not_None_eq surj_pair)
    obtain h2 where h2: "bscl_list_insert_tail (getopt_place h1 b (ls ! 0) (Arg s)) (opt + 1) b = Some h2"
        "opts_rep h2 (options_head ctx) (os1 @ (opt, q, as @ [(b, s)]) # os2)" "finite (dom h2)"
      using append_arg_rep [OF rep1 malloc(1) m opt(4)] by blast
    have "bscl_getopt_parse_next malloc h ctx w = Some (0, ctx\<lparr>current_option := opt\<rparr>, h2)"
      using opt cl Some m h2(1) by (simp add: bscl_getopt_parse_next_def)
    moreover have "getopt_state (ctx\<lparr>current_option := opt\<rparr>) h2 (spec_add q a gs) (Some q)"
      using h2 gs1 num Some unfolding getopt_state_def
      by (auto intro!: exI [of _ "os1 @ (opt, q, as @ [(b, s)]) # os2"])
    ultimately show ?thesis
      using \<open>spec_word (paterns ctx) cur w = Some qa\<close> qa by simp
  qed
qed

lemma getopt_parse_loop_spec:
  assumes "getopt_state ctx h gs cur" and "getopt_fresh malloc" "getopt_ample malloc"
    and "\<forall>w \<in> set argv. length w < 2 ^ 31" and "i \<le> length argv" and "0 < i"
  shows "case spec_words (paterns ctx) gs cur (drop i argv) of
      None \<Rightarrow> \<exists>ctx' h'. getopt_parse_loop malloc argv (int (length argv)) i h ctx = Some (-1, ctx', h')
    | Some gs' \<Rightarrow> \<exists>ctx' h'. getopt_parse_loop malloc argv (int (length argv)) i h ctx = Some (0, ctx', h')
        \<and> getopt_state ctx' h' gs' None"
  using assms
proof (induction "length argv - i" arbitrary: i h ctx gs cur)
  case 0
  then have "getopt_parse_loop malloc argv (int (length argv)) i h ctx = Some (0, ctx\<lparr>current_option := 0\<rparr>, h)"
    by (simp add: getopt_parse_loop.simps bscl_getopt_parse_end_def)
  moreover have "getopt_state (ctx\<lparr>current_option := 0\<rparr>) h gs None"
    using 0(2) by (auto simp: getopt_state_def)
  ultimately show ?case
    using 0 by simp
next
  case (Suc n)
  then have i: "i < length argv"
    by simp
  then have d: "drop i argv = argv ! i # drop (Suc i) argv"
    by (simp add: Cons_nth_drop_Suc)
  have w: "length (argv ! i) < 2 ^ 31"
    using Suc.prems(4) i by simp
  have unf: "getopt_parse_loop malloc argv (int (length argv)) i h ctx = (do {
      (r, ctx, h) \<leftarrow> bscl_getopt_parse_next malloc h ctx (argv ! i);
      if r < 0 then Some (-1, ctx, h)
      else getopt_parse_loop malloc argv (int (length argv)) (i + 1) h ctx })"
    using i by (subst getopt_parse_loop.simps) simp
  note step = getopt_parse_next_spec [OF Suc.prems(1-3) w]
  show ?case
  proof (cases "spec_word (paterns ctx) cur (argv ! i)")
    case None
    then show ?thesis
      using step by (simp add: d unf)
  next
    case (Some qa)
    obtain q a where qa: "qa = (q, a)"
      by (cases qa)
    obtain ctx1 h1 where p: "bscl_getopt_parse_next malloc h ctx (argv ! i) = Some (0, ctx1, h1)"
      and st: "getopt_state ctx1 h1 (spec_add q a gs) (Some q)" and pats: "paterns ctx1 = paterns ctx"
      using step Some qa by auto
    have "case spec_words (paterns ctx1) (spec_add q a gs) (Some q) (drop (Suc i) argv) of
      None \<Rightarrow> \<exists>ctx' h'. getopt_parse_loop malloc argv (int (length argv)) (Suc i) h1 ctx1 = Some (-1, ctx', h')
    | Some gs' \<Rightarrow> \<exists>ctx' h'. getopt_parse_loop malloc argv (int (length argv)) (Suc i) h1 ctx1 = Some (0, ctx', h')
        \<and> getopt_state ctx' h' gs' None"
      using Suc i st by (intro Suc.hyps(1)) auto
    moreover have "getopt_parse_loop malloc argv (int (length argv)) i h ctx
        = getopt_parse_loop malloc argv (int (length argv)) (Suc i) h1 ctx1"
      by (simp add: unf p)
    ultimately show ?thesis
      by (auto simp: d Some qa pats split: option.splits)
  qed
qed

lemma getopt_new_state:
  assumes "getopt_fresh malloc" and "getopt_ample malloc" and "finite (dom h)"
    and "length pats = unat num"
  shows "\<exists>ctx h1. bscl_getopt_new malloc h pats num = Some (Some ctx, h1)
    \<and> getopt_state ctx h1 [] None \<and> paterns ctx = pats"
proof -
  obtain p ls where m: "malloc 1 h = Some (p, ls)"
    using assms(2,3) unfolding getopt_ample_def by (metis not_None_eq surj_pair)
  let ?h = "getopt_place h p (ls ! 0) Bare"
  have "p \<noteq> 0"
    using getopt_freshD(1) [OF assms(1) m] .
  then obtain h1 where h1: "bscl_list_init ?h p = Some h1" "circle h1 p []" "rest h1 p = rest ?h p"
      "\<forall>x. h1 x = None \<longleftrightarrow> ?h x = None"
    using list_init_circle [of p ?h] by auto
  have "dom h1 \<subseteq> insert p (dom h)"
    using h1(4) by (auto simp: dom_def)
  then have "finite (dom h1)"
    using assms(3) by (meson finite_insert finite_subset)
  moreover have "opts_rep h1 p []"
    using h1(2) data_at_rest [OF h1(3)] by (simp add: opts_rep_def)
  ultimately show ?thesis
    using m h1(1) assms(4) by (auto simp: bscl_getopt_new_def bscl_getopt_init_def getopt_state_def
        intro!: exI [of _ "[]"])
qed

section \<open>Reading refines the list of groups\<close>

definition opt_read :: "getopt_heap \<Rightarrow> opt_nodes \<Rightarrow> addr \<Rightarrow> bool" where
  "opt_read h = (\<lambda>(p, q, as) c. data_at h p = Some (Opt q c) \<and> data_at h (p + 1) = Some Bare
     \<and> circle h (p + 1) (map fst as) \<and> (\<forall>(a, s) \<in> set as. data_at h a = Some (Arg s))
     \<and> p \<notin> set (map fst as) \<and> p \<noteq> 0)"

definition same_links :: "getopt_heap \<Rightarrow> getopt_heap \<Rightarrow> addr \<Rightarrow> bool" where
  "same_links h h' p \<longleftrightarrow> (\<forall>x. x \<noteq> p \<longrightarrow> h' x = h x) \<and> nxt h' p = nxt h p \<and> prv h' p = prv h p"

lemma same_links_trans: "same_links h h' p \<Longrightarrow> same_links h' h'' p \<Longrightarrow> same_links h h'' p"
  by (simp add: same_links_def)

lemma same_links_eq:
  assumes "same_links h h' p" and "data_at h' p = data_at h p"
  shows "h' = h"
proof
  fix x
  show "h' x = h x"
    using assms by (cases "x = p"; cases "h x"; cases "h' x")
      (auto simp: same_links_def nxt_def prv_def data_at_def intro: getopt_cell.equality)
qed

lemma set_current_read:
  assumes "opt_read h (p, q, as) c"
  shows "\<exists>h'. set_current_arg h p c' = Some h' \<and> opt_read h' (p, q, as) c' \<and> same_links h h' p"
proof -
  obtain x where x: "h p = Some x" "cell_data x = Opt q c" and p: "p \<noteq> 0" "p \<notin> set (map fst as)"
    using assms by (auto simp: opt_read_def data_at_def)
  let ?h = "h(p \<mapsto> x\<lparr>cell_data := Opt q c'\<rparr>)"
  have run: "set_current_arg h p c' = Some ?h"
    using x p by (simp add: set_current_arg_def bscl_getopt_option_patern_def data_at_def assign_def deref_def)
  have s: "same_links h ?h p"
    using x by (simp add: same_links_def nxt_def prv_def)
  have "circle ?h (p + 1) (map fst as)"
  proof (rule circle_same)
    show "circle h (p + 1) (map fst as)"
      using assms by (simp add: opt_read_def)
    show "?h y = h y" if "y \<in> set ((p + 1) # map fst as)" for y
      using that p by auto
  qed
  moreover have "data_at ?h p = Some (Opt q c')" and dn: "data_at ?h y = data_at h y" if "y \<noteq> p" for y
    using that by (simp_all add: data_at_def)
  moreover have "\<forall>(a, s) \<in> set as. data_at ?h a = Some (Arg s)"
  proof clarify
    fix a s assume as: "(a, s) \<in> set as"
    then have "a \<noteq> p"
      using p(2) by force
    then show "data_at ?h a = Some (Arg s)"
      using as assms dn by (auto simp: opt_read_def)
  qed
  ultimately have "opt_read ?h (p, q, as) c'"
    using assms by (simp add: opt_read_def data_at_def)
  then show ?thesis
    using run s by blast
qed

lemma read_args_rest:
  assumes "opt_read h (p, q, pre @ y # suf) (fst y)"
  shows "\<exists>h'. read_args h p = Some (map snd suf, h') \<and> opt_read h' (p, q, pre @ y # suf) 0 \<and> same_links h h' p"
  using assms
proof (induction suf arbitrary: h pre y)
  case Nil
  have c: "circle h (p + 1) (map fst pre @ fst y # [])" and d: "data_at h p = Some (Opt q (fst y))"
    and nz: "fst y \<noteq> 0" "p \<noteq> 0"
    using Nil by (auto simp: opt_read_def circle_def)
  have "bscl_list_is_last h (p + 1) (fst y) = Some True"
    using is_last_circle [OF c, of "length pre"] by (simp add: nth_append)
  moreover obtain h' where "set_current_arg h p 0 = Some h'" "opt_read h' (p, q, pre @ [y]) 0" "same_links h h' p"
    using set_current_read [OF Nil] by blast
  ultimately show ?case
    using d nz by (subst read_args.simps)
      (simp add: bscl_getopt_option_next_arg_def option_current_arg_def)
next
  case (Cons z suf)
  have c: "circle h (p + 1) (map fst pre @ fst y # map fst (z # suf))" and d: "data_at h p = Some (Opt q (fst y))"
    and nz: "fst y \<noteq> 0" "p \<noteq> 0" "fst z \<noteq> 0"
    using Cons.prems by (auto simp: opt_read_def circle_def)
  have l: "bscl_list_is_last h (p + 1) (fst y) = Some False"
    using is_last_circle [OF c, of "length pre"] by (simp add: nth_append)
  have n: "get_next h (fst y) = Some (fst z)"
    using circle_step [OF c] by simp
  obtain h1 where h1: "set_current_arg h p (fst z) = Some h1" "opt_read h1 (p, q, (pre @ [y]) @ z # suf) (fst z)"
      "same_links h h1 p"
    using set_current_read [OF Cons.prems] by fastforce
  have "arg_text h1 (fst z) = Some (snd z)"
    using h1(2) nz by (cases z) (simp add: opt_read_def arg_text_def)
  then have "bscl_getopt_option_next_arg h p = Some (Some (snd z), h1)"
    using d l n nz h1(1) by (simp add: bscl_getopt_option_next_arg_def option_current_arg_def)
  moreover obtain h' where "read_args h1 p = Some (map snd suf, h')"
      "opt_read h' (p, q, (pre @ [y]) @ z # suf) 0" "same_links h1 h' p"
    using Cons.IH [OF h1(2)] by blast
  ultimately show ?case
    using h1(3) by (subst read_args.simps) (auto intro: same_links_trans)
qed

lemma read_args_eq:
  assumes "opt_rep h (p, q, as)" and "p \<notin> set (map fst as)" and "p \<noteq> 0"
  shows "read_args h p = (if as = [] then None else Some (map snd as, h))"
proof -
  have r: "opt_read h (p, q, as) 0"
    using assms by (simp add: opt_read_def opt_rep_def)
  then have c: "circle h (p + 1) (map fst as)" and d: "data_at h p = Some (Opt q 0)"
    by (simp_all add: opt_read_def)
  show ?thesis
  proof (cases as)
    case Nil
    obtain h1 where "set_current_arg h p (p + 1) = Some h1" "opt_read h1 (p, q, as) (p + 1)"
      using set_current_read [OF r] by blast
    then show ?thesis
      using circle_start [OF c] d assms(3) Nil by (subst read_args.simps)
        (simp add: bscl_getopt_option_next_arg_def option_current_arg_def arg_text_def opt_read_def)
  next
    case (Cons y suf)
    obtain h1 where h1: "set_current_arg h p (fst y) = Some h1" "opt_read h1 (p, q, [] @ y # suf) (fst y)"
        "same_links h h1 p"
      using set_current_read [OF r] Cons by auto
    have nz: "fst y \<noteq> 0"
      using c Cons by (simp add: circle_def)
    have "arg_text h1 (fst y) = Some (snd y)"
      using h1(2) nz by (cases y) (simp add: opt_read_def arg_text_def)
    then have "bscl_getopt_option_next_arg h p = Some (Some (snd y), h1)"
      using d nz assms(3) h1(1) circle_start [OF c] Cons
      by (simp add: bscl_getopt_option_next_arg_def option_current_arg_def)
    moreover obtain h2 where h2: "read_args h1 p = Some (map snd suf, h2)" "opt_read h2 (p, q, as) 0" "same_links h1 h2 p"
      using read_args_rest [OF h1(2)] Cons by auto
    moreover have "h2 = h"
      using same_links_trans [OF h1(3) h2(3)] h2(2) r by (intro same_links_eq) (auto simp: opt_read_def)
    ultimately show ?thesis
      using Cons by (subst read_args.simps) simp
  qed
qed

lemma opts_rep_option:
  assumes "opts_rep h l os" and "(p, q, as) \<in> set os"
  shows "bscl_getopt_option_patern h p = Some q"
    and "read_args h p = (if as = [] then None else Some (map snd as, h))" and "p \<noteq> 0"
proof -
  have rep: "opt_rep h (p, q, as)"
    using assms by (simp add: opts_rep_def)
  have "p \<in> set (map fst os)"
    using assms(2) by (force intro: rev_image_eqI)
  then show nz: "p \<noteq> 0"
    using assms(1) unfolding opts_rep_def circle_def by (metis list.set_intros(2))
  then show "bscl_getopt_option_patern h p = Some q"
    using rep by (simp add: bscl_getopt_option_patern_def opt_rep_def)
  have "distinct (opt_cells (p, q, as))"
    using assms by (auto simp: opts_rep_def distinct_concat_iff)
  then show "read_args h p = (if as = [] then None else Some (map snd as, h))"
    using rep nz by (intro read_args_eq) (simp_all add: opt_cells_def)
qed

lemma read_options_rest:
  assumes "opts_rep h (options_head ctx) (pre @ y # suf)" and "current_option ctx = fst y"
  shows "read_options h ctx
    = (if \<exists>g \<in> set (groups_of suf). snd g = [] then None else Some (groups_of suf))"
  using assms
proof (induction suf arbitrary: ctx pre y)
  case Nil
  have c: "circle h (options_head ctx) (map fst pre @ [fst y])"
    using Nil(1) by (simp add: opts_rep_def)
  have "fst y \<noteq> 0"
    using c by (simp add: circle_def)
  then show ?case
    using is_last_circle [OF c, of "length pre"] Nil(2)
    by (subst read_options.simps) (simp add: bscl_getopt_next_option_def nth_append)
next
  case (Cons z suf)
  obtain p q as where z: "z = (p, q, as)"
    by (cases z)
  have c: "circle h (options_head ctx) (map fst pre @ fst y # map fst (z # suf))"
    using Cons.prems(1) by (simp add: opts_rep_def)
  have nz: "fst y \<noteq> 0"
    using c by (simp add: circle_def)
  note z_opt = opts_rep_option [OF Cons.prems(1), of p q as, simplified z, simplified]
  have "bscl_getopt_next_option h ctx = Some (p, ctx\<lparr>current_option := p\<rparr>)"
    using is_last_circle [OF c, of "length pre"] circle_step [OF c] nz Cons.prems(2)
    by (simp add: bscl_getopt_next_option_def nth_append z)
  moreover have "read_options h (ctx\<lparr>current_option := p\<rparr>)
      = (if \<exists>g \<in> set (groups_of suf). snd g = [] then None else Some (groups_of suf))"
    using Cons.prems(1) by (intro Cons.IH [where pre = "pre @ [y]" and y = z]) (simp_all add: z)
  ultimately show ?case
    using z_opt by (subst read_options.simps) (simp add: z)
qed

lemma read_options_state:
  assumes "getopt_state ctx h gs None"
  shows "read_options h ctx = (if gs = [] \<or> (\<exists>g \<in> set gs. snd g = []) then None else Some gs)"
proof -
  obtain os where os: "opts_rep h (options_head ctx) os" and gs: "groups_of os = gs"
    and cur: "current_option ctx = 0"
    using assms by (auto simp: getopt_state_def)
  have c: "circle h (options_head ctx) (map fst os)" and bare: "data_at h (options_head ctx) = Some Bare"
    using os by (simp_all add: opts_rep_def)
  show ?thesis
  proof (cases os)
    case Nil
    have "options_head ctx \<noteq> 0"
      using c by (simp add: circle_def)
    then show ?thesis
      using circle_start [OF c] bare cur gs Nil
      by (subst read_options.simps) (simp add: bscl_getopt_next_option_def bscl_getopt_option_patern_def)
  next
    case (Cons z suf)
    obtain p q as where z: "z = (p, q, as)"
      by (cases z)
    note z_opt = opts_rep_option [OF os, of p q as, simplified Cons z, simplified]
    have "bscl_getopt_next_option h ctx = Some (p, ctx\<lparr>current_option := p\<rparr>)"
      using circle_start [OF c] cur by (simp add: bscl_getopt_next_option_def Cons z)
    moreover have "read_options h (ctx\<lparr>current_option := p\<rparr>)
        = (if \<exists>g \<in> set (groups_of suf). snd g = [] then None else Some (groups_of suf))"
      using os by (intro read_options_rest [where pre = "[]" and y = z]) (simp_all add: z Cons)
    ultimately show ?thesis
      using z_opt gs by (subst read_options.simps) (auto simp: z Cons)
  qed
qed

lemma getopt_parse_spec:
  assumes "getopt_fresh malloc" and "getopt_ample malloc" and "finite (dom h)"
    and "length pats = unat num" and "argv \<noteq> []" and "\<forall>w \<in> set argv. length w < 2 ^ 31"
  shows "\<exists>ctx h1 r ctx' h'. bscl_getopt_new malloc h pats num = Some (Some ctx, h1)
    \<and> bscl_getopt_parse malloc h1 ctx (int (length argv)) argv = Some (r, ctx', h')
    \<and> (case spec_words pats [] None (tl argv) of
         None \<Rightarrow> r = -1
       | Some gs \<Rightarrow> r = 0 \<and> getopt_state ctx' h' gs None)"
proof -
  obtain ctx h1 where new: "bscl_getopt_new malloc h pats num = Some (Some ctx, h1)"
      "getopt_state ctx h1 [] None" "paterns ctx = pats"
    using getopt_new_state [OF assms(1-4)] by blast
  have d: "drop 1 argv = tl argv"
    by (simp add: drop_Suc)
  have "1 \<le> length argv"
    using assms(5) by (cases argv) simp_all
  note run = getopt_parse_loop_spec [OF new(2) assms(1,2,6) this zero_less_one, unfolded d new(3)]
  show ?thesis
  proof (cases "spec_words pats [] None (tl argv)")
    case None
    then obtain ctx' h' where "bscl_getopt_parse malloc h1 ctx (int (length argv)) argv = Some (-1, ctx', h')"
      using run unfolding bscl_getopt_parse_def by auto
    then show ?thesis
      using None new(1) by auto
  next
    case (Some gs)
    then obtain ctx' h' where "bscl_getopt_parse malloc h1 ctx (int (length argv)) argv = Some (0, ctx', h')"
        "getopt_state ctx' h' gs None"
      using run unfolding bscl_getopt_parse_def by auto
    then show ?thesis
      using Some new(1) by auto
  qed
qed

text \<open>An allocator that never runs out, and the patterns of the examples.\<close>

definition roomy_malloc :: getopt_malloc where
  "roomy_malloc n h = (if finite (dom h)
     then Some (Suc (Max (insert 0 (dom h))), replicate n \<lparr>l_next = 0, l_prev = 0\<rparr>) else None)"

lemma roomy_malloc: "getopt_fresh roomy_malloc" "getopt_ample roomy_malloc"
proof -
  have "h (Suc (Max (insert 0 (dom h)) + i)) = None" if "finite (dom h)" for h :: getopt_heap and i
  proof (rule ccontr)
    assume "h (Suc (Max (insert 0 (dom h)) + i)) \<noteq> None"
    then have "Suc (Max (insert 0 (dom h)) + i) \<le> Max (insert 0 (dom h))"
      using that by (intro Max_ge) auto
    then show False
      by simp
  qed
  then show "getopt_fresh roomy_malloc"
    by (auto simp: getopt_fresh_def roomy_malloc_def split: if_splits)
  show "getopt_ample roomy_malloc"
    by (simp add: getopt_ample_def roomy_malloc_def)
qed

definition two_paterns :: "bscl_getopt_patern_t list" where
  "two_paterns = [\<lparr>pat_name = ''verbose'', pat_sname = CHR ''v''\<rparr>,
     \<lparr>pat_name = ''input'', pat_sname = CHR ''i''\<rparr>]"

definition six_words :: "string list" where
  "six_words = [''prog'', ''-i'', ''a'', ''--verbose'', ''on'', ''-ib'']"

lemma six_words_spec: "spec_words two_paterns [] None (tl six_words) = Some [(1, [''a'', ''b'']), (0, [''on''])]"
  by (simp add: six_words_def two_paterns_def spec_word_def spec_find_def strncmp_equal_def
      BSCL_GETOPT_PATERN_STR_MAX_def upt_rec)

section \<open>Properties\<close>

text \<open>
  C18: The parser groups the command line: starting from a new context, with memory at hand, it
  returns 0 exactly when every word belongs to a pattern, and then the lists in the heap hold, in
  the order in which the patterns first occur, each pattern with the arguments that follow or are
  attached to its occurrences; otherwise it returns -1. A word that is no option goes to the
  option before it, or to the pattern without a short name. Words are shorter than
  \<open>2 ^ 31\<close>, where \<open>int len = strlen(str)\<close> is exact.
\<close>

theorem bscl_getopt_parse_groups:
  assumes "getopt_fresh malloc" and "getopt_ample malloc" and "finite (dom h)"
    and "length pats = unat num" and "argv \<noteq> []" and "\<forall>w \<in> set argv. length w < 2 ^ 31"
  shows "\<exists>ctx h1 r ctx' h'. bscl_getopt_new malloc h pats num = Some (Some ctx, h1)
    \<and> bscl_getopt_parse malloc h1 ctx (int (length argv)) argv = Some (r, ctx', h')
    \<and> (case spec_words pats [] None (tl argv) of
         None \<Rightarrow> r = -1
       | Some gs \<Rightarrow> r = 0 \<and> getopt_state ctx' h' gs None)"
  by (rule getopt_parse_spec [OF assms])

lemma bscl_getopt_parse_groups_witness:
  "\<exists>ctx h1 ctx' h'. bscl_getopt_new roomy_malloc Map.empty two_paterns 2 = Some (Some ctx, h1)
    \<and> bscl_getopt_parse roomy_malloc h1 ctx 6 six_words = Some (0, ctx', h')
    \<and> getopt_state ctx' h' [(1, [''a'', ''b'']), (0, [''on''])] None"
proof -
  have "\<forall>w \<in> set six_words. length w < 2 ^ 31" and "length six_words = 6" and "six_words \<noteq> []"
    by (simp_all add: six_words_def)
  then show ?thesis
    using bscl_getopt_parse_groups [OF roomy_malloc, of Map.empty two_paterns 2 six_words] six_words_spec
    by (auto simp: two_paterns_def)
qed

text \<open>
  What a client reads after parsing: the loops over \<open>bscl_getopt_next_option\<close> and
  \<open>bscl_getopt_option_next_arg\<close> give back exactly the groups, in order, and end with the null
  pointer. But without any option, or at an option without arguments, the first call hands out
  the list head itself as if it were an entry, and the client reads outside the struct.
\<close>

lemma bscl_getopt_read_groups:
  assumes "getopt_state ctx h gs None"
  shows "read_options h ctx = (if gs = [] \<or> (\<exists>g \<in> set gs. snd g = []) then None else Some gs)"
  by (rule read_options_state [OF assms])

lemma bscl_getopt_read_groups_witness:
  "(\<exists>ctx h. getopt_state ctx h [(1, [''a'', ''b'']), (0, [''on''])] None
      \<and> read_options h ctx = Some [(1, [''a'', ''b'']), (0, [''on''])])
   \<and> (\<exists>ctx h. getopt_state ctx h [] None \<and> read_options h ctx = None)"
proof
  have "\<forall>w \<in> set six_words. length w < 2 ^ 31" and "six_words \<noteq> []"
    by (simp_all add: six_words_def)
  then obtain ctx h where "getopt_state ctx h [(1, [''a'', ''b'']), (0, [''on''])] None"
    using getopt_parse_spec [OF roomy_malloc, of Map.empty two_paterns 2 six_words] six_words_spec
    by (auto simp: two_paterns_def)
  then show "\<exists>ctx h. getopt_state ctx h [(1, [''a'', ''b'']), (0, [''on''])] None
      \<and> read_options h ctx = Some [(1, [''a'', ''b'']), (0, [''on''])]"
    using bscl_getopt_read_groups [of ctx h "[(1, [''a'', ''b'']), (0, [''on''])]"] by auto
  obtain ctx' h' where "getopt_state ctx' h' [] None"
    using getopt_new_state [OF roomy_malloc, of Map.empty two_paterns 2] by (auto simp: two_paterns_def)
  then show "\<exists>ctx h. getopt_state ctx h [] None \<and> read_options h ctx = None"
    using bscl_getopt_read_groups [of ctx' h' "[]"] by auto
qed

end
