(* ===== verification/Tasklet.thy ===== *)
theory Tasklet
  imports Circular
begin

text \<open>
  The tasklets of \<open>src/bscl_tasklet.c\<close>: callbacks that wait in a circular list until they are
  marked as pending, and a dispatcher that runs the pending ones.

  Tasklets and their heads are cells of one heap; the address of a struct stands for the address
  of its list head too. The semaphores and mutexes are those of \<open>include/linux\<close>: a semaphore is
  its count, a mutex is held or not, and locking a mutex that is held does not return. What a
  callback does is a parameter.
\<close>

section \<open>Data\<close>

record bscl_tasklet =
  tsl_run :: nat
  tsl_arg :: addr
  tsl_head_data :: addr
  tsl_head :: addr
  tsl_pend :: u32
  tsl_deal :: u32

record bscl_tasklet_head =
  th_arg :: addr
  th_sem :: addr
  th_mutex :: addr

datatype task_body = Task bscl_tasklet | Task_head bscl_tasklet_head

record task_cell = link +
  task_body :: task_body

record tasklet_sys =
  cells :: "task_cell heap"
  posts :: "addr \<Rightarrow> nat"
  held :: "addr set"

definition task_at :: "tasklet_sys \<Rightarrow> addr \<Rightarrow> bscl_tasklet option" where
  "task_at st p = do {
     c \<leftarrow> deref (cells st) p;
     (case task_body c of Task t \<Rightarrow> Some t | Task_head _ \<Rightarrow> None)
   }"

definition task_head_at :: "tasklet_sys \<Rightarrow> addr \<Rightarrow> bscl_tasklet_head option" where
  "task_head_at st p = do {
     c \<leftarrow> deref (cells st) p;
     (case task_body c of Task _ \<Rightarrow> None | Task_head h \<Rightarrow> Some h)
   }"

definition set_task :: "tasklet_sys \<Rightarrow> addr \<Rightarrow> (bscl_tasklet \<Rightarrow> bscl_tasklet) \<Rightarrow> tasklet_sys option" where
  "set_task st p f = do {
     t \<leftarrow> task_at st p;
     h \<leftarrow> assign (cells st) p (\<lambda>c. c\<lparr>task_body := Task (f t)\<rparr>);
     Some (st\<lparr>cells := h\<rparr>)
   }"

definition set_cells :: "tasklet_sys \<Rightarrow> task_cell heap option \<Rightarrow> tasklet_sys option" where
  "set_cells st m = map_option (\<lambda>h. st\<lparr>cells := h\<rparr>) m"

section \<open>Semaphores and mutexes\<close>

definition bscl_sem_post :: "tasklet_sys \<Rightarrow> addr \<Rightarrow> tasklet_sys" where
  "bscl_sem_post st s = st\<lparr>posts := (posts st)(s := posts st s + 1)\<rparr>"

definition bscl_sem_timedwait :: "tasklet_sys \<Rightarrow> addr \<Rightarrow> u32 \<Rightarrow> int \<times> tasklet_sys" where
  "bscl_sem_timedwait st s timeout_ms = (-1, st)"

definition lock_mutex :: "tasklet_sys \<Rightarrow> addr \<Rightarrow> tasklet_sys option" where
  "lock_mutex st m =
     (if m = 0 then Some st
      else if m \<in> held st then None else Some (st\<lparr>held := insert m (held st)\<rparr>))"

definition unlock_mutex :: "tasklet_sys \<Rightarrow> addr \<Rightarrow> tasklet_sys" where
  "unlock_mutex st m = (if m = 0 then st else st\<lparr>held := held st - {m}\<rparr>)"

section \<open>Operations\<close>

definition bscl_tasklet_init :: "tasklet_sys \<Rightarrow> addr \<Rightarrow> tasklet_sys option" where
  "bscl_tasklet_init st tsl = do {
     h \<leftarrow> assign (cells st) tsl (\<lambda>c. \<lparr>l_next = 0, l_prev = 0, task_body = Task \<lparr>tsl_run = 0,
       tsl_arg = 0, tsl_head_data = 0, tsl_head = 0, tsl_pend = 0, tsl_deal = 0\<rparr>\<rparr>);
     set_cells st (bscl_list_init h tsl)
   }"

definition bscl_tasklet_init2 :: "tasklet_sys \<Rightarrow> addr \<Rightarrow> nat \<Rightarrow> addr \<Rightarrow> tasklet_sys option" where
  "bscl_tasklet_init2 st tsl routine arg = do {
     st \<leftarrow> bscl_tasklet_init st tsl;
     set_task st tsl (\<lambda>t. t\<lparr>tsl_run := routine, tsl_arg := arg\<rparr>)
   }"

definition bscl_tasklet_head_init :: "tasklet_sys \<Rightarrow> addr \<Rightarrow> addr \<Rightarrow> addr \<Rightarrow> tasklet_sys option" where
  "bscl_tasklet_head_init st th sem mutex = do {
     h \<leftarrow> assign (cells st) th (\<lambda>c. \<lparr>l_next = 0, l_prev = 0,
       task_body = Task_head \<lparr>th_arg = 0, th_sem = sem, th_mutex = mutex\<rparr>\<rparr>);
     set_cells st (bscl_list_init h th)
   }"

definition bscl_tasklet_link :: "tasklet_sys \<Rightarrow> addr \<Rightarrow> addr \<Rightarrow> (int \<times> tasklet_sys) option" where
  "bscl_tasklet_link st tsl th = do {
     e \<leftarrow> bscl_list_is_empty (cells st) tsl;
     if \<not> e then Some (-1, st)
     else do {
       hd \<leftarrow> task_head_at st th;
       st \<leftarrow> lock_mutex st (th_mutex hd);
       st \<leftarrow> set_cells st (bscl_list_insert_tail (cells st) tsl th);
       let st = unlock_mutex st (th_mutex hd);
       st \<leftarrow> set_task st tsl (\<lambda>t. t\<lparr>tsl_head := th\<rparr>);
       Some (0, st)
     }
   }"

definition bscl_tasklet_is_linked :: "tasklet_sys \<Rightarrow> addr \<Rightarrow> int option" where
  "bscl_tasklet_is_linked st tsl = do {
     e \<leftarrow> bscl_list_is_empty (cells st) tsl;
     Some (if e then 0 else 1)
   }"

definition bscl_tasklet_unlink :: "tasklet_sys \<Rightarrow> addr \<Rightarrow> tasklet_sys option" where
  "bscl_tasklet_unlink st tsl = do {
     t \<leftarrow> task_at st tsl;
     e \<leftarrow> bscl_list_is_empty (cells st) tsl;
     if e then Some st
     else do {
       hd \<leftarrow> task_head_at st (tsl_head t);
       st \<leftarrow> lock_mutex st (th_mutex hd);
       st \<leftarrow> set_cells st (bscl_list_head_remove (cells st) tsl);
       Some (unlock_mutex st (th_mutex hd))
     }
   }"

definition bscl_tasklet_pend :: "tasklet_sys \<Rightarrow> addr \<Rightarrow> tasklet_sys option" where
  "bscl_tasklet_pend st tsl = do {
     t \<leftarrow> task_at st tsl;
     if tsl_pend t = tsl_deal t then do {
       st \<leftarrow> set_task st tsl (\<lambda>t. t\<lparr>tsl_pend := tsl_pend t + 1\<rparr>);
       hd \<leftarrow> task_head_at st (tsl_head t);
       Some (if th_sem hd \<noteq> 0 then bscl_sem_post st (th_sem hd) else st)
     }
     else set_task st tsl (\<lambda>t. t\<lparr>tsl_pend := tsl_pend t + 1\<rparr>)
   }"

definition bscl_tasklet_pend_isr :: "tasklet_sys \<Rightarrow> addr \<Rightarrow> tasklet_sys option" where
  "bscl_tasklet_pend_isr st tsl = bscl_tasklet_pend st tsl"

definition bscl_tasklet_is_pended :: "tasklet_sys \<Rightarrow> addr \<Rightarrow> int option" where
  "bscl_tasklet_is_pended st tsl = do {
     t \<leftarrow> task_at st tsl;
     Some (if tsl_pend t \<noteq> tsl_deal t then 1 else 0)
   }"

definition bscl_tasklet_clean_pend :: "tasklet_sys \<Rightarrow> addr \<Rightarrow> tasklet_sys option" where
  "bscl_tasklet_clean_pend st tsl = set_task st tsl (\<lambda>t. t\<lparr>tsl_deal := tsl_pend t\<rparr>)"

text \<open>The body of the loop of the dispatcher, and the loop; \<open>run\<close> is the code of the callbacks.\<close>

type_synonym routines = "nat \<Rightarrow> addr \<Rightarrow> tasklet_sys \<Rightarrow> tasklet_sys option"

definition dispatch_one :: "routines \<Rightarrow> tasklet_sys \<Rightarrow> addr \<Rightarrow> int \<Rightarrow> (int \<times> tasklet_sys) option" where
  "dispatch_one run st tsl count = do {
     p \<leftarrow> bscl_tasklet_is_pended st tsl;
     if p \<noteq> 0 then do {
       st \<leftarrow> bscl_tasklet_clean_pend st tsl;
       t \<leftarrow> task_at st tsl;
       st \<leftarrow> (if tsl_run t \<noteq> 0 then run (tsl_run t) tsl st else Some st);
       Some (count + 1, st)
     } else Some (count, st)
   }"

partial_function (option) dispatch_loop ::
    "routines \<Rightarrow> addr \<Rightarrow> addr \<Rightarrow> addr \<Rightarrow> int \<Rightarrow> tasklet_sys \<Rightarrow> (int \<times> tasklet_sys) option" where
  [code]: "dispatch_loop run th tsl temp count st =
     (if tsl = th then Some (count, st)
      else do {
        (count, st) \<leftarrow> dispatch_one run st tsl count;
        n \<leftarrow> get_next (cells st) temp;
        dispatch_loop run th temp n count st
      })"

definition bscl_tasklet_dispatch ::
    "routines \<Rightarrow> tasklet_sys \<Rightarrow> addr \<Rightarrow> int \<Rightarrow> (int \<times> tasklet_sys) option" where
  "bscl_tasklet_dispatch run st th timeout_ms = do {
     hd \<leftarrow> task_head_at st th;
     let st = (if timeout_ms > 0 \<and> th_sem hd \<noteq> 0
               then snd (bscl_sem_timedwait st (th_sem hd) (word_of_int timeout_ms)) else st);
     st \<leftarrow> lock_mutex st (th_mutex hd);
     tsl \<leftarrow> get_next (cells st) th;
     temp \<leftarrow> get_next (cells st) tsl;
     (count, st) \<leftarrow> dispatch_loop run th tsl temp 0 st;
     hd \<leftarrow> task_head_at st th;
     Some (count, unlock_mutex st (th_mutex hd))
   }"

section \<open>Writing a tasklet\<close>

lemma task_at_Some:
  "task_at st p = Some t \<longleftrightarrow> p \<noteq> 0 \<and> (\<exists>c. cells st p = Some c \<and> task_body c = Task t)"
  by (cases "cells st p") (auto simp: task_at_def deref_def split: task_body.splits)

lemma task_head_at_Some:
  "task_head_at st p = Some t \<longleftrightarrow> p \<noteq> 0 \<and> (\<exists>c. cells st p = Some c \<and> task_body c = Task_head t)"
  by (cases "cells st p") (auto simp: task_head_at_def deref_def split: task_body.splits)

lemma task_body_more:
  fixes x y :: task_cell
  shows "link.more x = link.more y \<Longrightarrow> task_body x = task_body y"
  by (cases x; cases y) simp

text \<open>Both readers look at the contents of a cell only, not at its links.\<close>

lemma task_at_body: "task_at st p = (if p = 0 then None else
    case map_option task_body (cells st p) of Some (Task t) \<Rightarrow> Some t | _ \<Rightarrow> None)"
  by (cases "cells st p") (auto simp: task_at_def deref_def split: task_body.splits)

lemma task_head_at_body: "task_head_at st p = (if p = 0 then None else
    case map_option task_body (cells st p) of Some (Task_head h) \<Rightarrow> Some h | _ \<Rightarrow> None)"
  by (cases "cells st p") (auto simp: task_head_at_def deref_def split: task_body.splits)

lemma task_at_cong: "cells st' p = cells st p \<Longrightarrow> task_at st' p = task_at st p"
  by (simp add: task_at_def deref_def)

lemma task_head_at_cong: "cells st' p = cells st p \<Longrightarrow> task_head_at st' p = task_head_at st p"
  by (simp add: task_head_at_def deref_def)

lemma set_task_runs:
  assumes "task_at st p = Some t"
  shows "\<exists>st'. set_task st p f = Some st' \<and> task_at st' p = Some (f t) \<and> posts st' = posts st
    \<and> held st' = held st \<and> (\<forall>x. x \<noteq> p \<longrightarrow> cells st' x = cells st x)
    \<and> (\<forall>x. nxt (cells st') x = nxt (cells st) x) \<and> (\<forall>x. prv (cells st') x = prv (cells st) x)"
proof -
  obtain c where c: "p \<noteq> 0" "cells st p = Some c" "task_body c = Task t"
    using assms by (auto simp: task_at_Some)
  let ?st = "st\<lparr>cells := (cells st)(p \<mapsto> c\<lparr>task_body := Task (f t)\<rparr>)\<rparr>"
  have "set_task st p f = Some ?st"
    using assms c by (simp add: set_task_def assign_def deref_def)
  moreover have "task_at ?st p = Some (f t)"
    using c by (simp add: task_at_Some)
  ultimately show ?thesis
    using c by (intro exI [of _ ?st]) (simp add: nxt_def prv_def)
qed

section \<open>Dispatching\<close>

definition pended :: "tasklet_sys \<Rightarrow> addr \<Rightarrow> bool" where
  "pended st x = (case task_at st x of Some t \<Rightarrow> tsl_pend t \<noteq> tsl_deal t | None \<Rightarrow> False)"

text \<open>What a callback does to the semaphores, for callbacks that leave the tasklets alone.\<close>

type_synonym post_effect = "nat \<Rightarrow> addr \<Rightarrow> (addr \<Rightarrow> nat) \<Rightarrow> addr \<Rightarrow> nat"

definition posting :: "post_effect \<Rightarrow> routines" where
  "posting eff r x st = Some (st\<lparr>posts := eff r x (posts st)\<rparr>)"

definition callback_effect :: "post_effect \<Rightarrow> tasklet_sys \<Rightarrow> addr \<Rightarrow> (addr \<Rightarrow> nat) \<Rightarrow> addr \<Rightarrow> nat" where
  "callback_effect eff st x =
     (case task_at st x of Some t \<Rightarrow> if tsl_run t \<noteq> 0 then eff (tsl_run t) x else id | None \<Rightarrow> id)"

definition dispatched :: "tasklet_sys \<Rightarrow> tasklet_sys \<Rightarrow> addr list \<Rightarrow> bool" where
  "dispatched st st' xs \<longleftrightarrow>
     (\<forall>x \<in> set xs. task_at st' x = map_option (\<lambda>t. t\<lparr>tsl_deal := tsl_pend t\<rparr>) (task_at st x))
     \<and> (\<forall>p. p \<notin> set xs \<longrightarrow> cells st' p = cells st p) \<and> held st' = held st
     \<and> (\<forall>x. nxt (cells st') x = nxt (cells st) x) \<and> (\<forall>x. prv (cells st') x = prv (cells st) x)"

lemma dispatch_one_runs:
  assumes t: "task_at st x = Some t"
  shows "\<exists>st'. dispatch_one (posting eff) st x count = Some (count + (if pended st x then 1 else 0), st')
    \<and> dispatched st st' [x] \<and> posts st' = (if pended st x then callback_effect eff st x (posts st) else posts st)"
proof (cases "pended st x")
  case True
  obtain st1 where st1: "bscl_tasklet_clean_pend st x = Some st1" "task_at st1 x = Some (t\<lparr>tsl_deal := tsl_pend t\<rparr>)"
      "posts st1 = posts st" "held st1 = held st" "\<forall>p. p \<noteq> x \<longrightarrow> cells st1 p = cells st p"
      "\<forall>p. nxt (cells st1) p = nxt (cells st) p" "\<forall>p. prv (cells st1) p = prv (cells st) p"
    using set_task_runs [OF t] unfolding bscl_tasklet_clean_pend_def by blast
  let ?st' = "if tsl_run t \<noteq> 0 then st1\<lparr>posts := eff (tsl_run t) x (posts st1)\<rparr> else st1"
  have "dispatch_one (posting eff) st x count = Some (count + 1, ?st')"
    using True t st1(1,2) by (simp add: dispatch_one_def bscl_tasklet_is_pended_def pended_def posting_def)
  moreover have "task_at ?st' x = task_at st1 x"
    by (rule task_at_cong) simp
  ultimately show ?thesis
    using True t st1 by (intro exI [of _ ?st']) (simp add: dispatched_def callback_effect_def)
next
  case False
  then have "dispatch_one (posting eff) st x count = Some (count, st)" and "t\<lparr>tsl_deal := tsl_pend t\<rparr> = t"
    using t by (simp_all add: dispatch_one_def bscl_tasklet_is_pended_def pended_def)
  then show ?thesis
    using False t by (simp add: dispatched_def)
qed

lemma dispatch_loop_runs:
  assumes "circle (cells st) th (pre @ xs)" and "\<forall>x \<in> set xs. task_at st x \<noteq> None"
    and "xs \<noteq> [] \<Longrightarrow> temp = hd (tl xs @ [th])"
  shows "\<exists>st'. dispatch_loop (posting eff) th (hd (xs @ [th])) temp count st
      = Some (count + int (length (filter (pended st) xs)), st')
    \<and> dispatched st st' xs \<and> posts st' = fold (callback_effect eff st) (filter (pended st) xs) (posts st)"
  using assms
proof (induction xs arbitrary: st pre temp count)
  case Nil
  then show ?case
    by (subst dispatch_loop.simps) (simp add: dispatched_def)
next
  case (Cons x xs)
  obtain t where t: "task_at st x = Some t"
    using Cons.prems(2) by auto
  obtain st1 where st1: "dispatch_one (posting eff) st x count = Some (count + (if pended st x then 1 else 0), st1)"
      "dispatched st st1 [x]" "posts st1 = (if pended st x then callback_effect eff st x (posts st) else posts st)"
    using dispatch_one_runs [OF t] by blast
  have c1: "circle (cells st1) th (pre @ x # xs)"
    using st1(2) Cons.prems(1) by (elim circle_frame) (simp_all add: dispatched_def)
  have d: "x \<notin> set xs" "x \<noteq> th"
    using Cons.prems(1) by (auto simp: circle_def)
  have same: "task_at st1 y = task_at st y" if "y \<in> set xs" for y
    using that d st1(2) by (intro task_at_cong) (auto simp: dispatched_def)
  have pend: "filter (pended st1) xs = filter (pended st) xs"
    by (rule filter_cong) (simp_all add: pended_def same)
  have eff: "fold (callback_effect eff st1) ys z = fold (callback_effect eff st) ys z" if "set ys \<subseteq> set xs" for ys z
    using that by (intro fold_cong) (auto simp: callback_effect_def same)
  have temp: "temp = hd (xs @ [th])"
    using Cons.prems(3) by simp
  obtain n where n: "get_next (cells st1) temp = Some n" "xs \<noteq> [] \<Longrightarrow> n = hd (tl xs @ [th])"
  proof (cases xs)
    case Nil
    then show ?thesis
      using that circle_start [OF c1] temp by simp
  next
    case (Cons y ys)
    then show ?thesis
      using that circle_step [of "cells st1" th "pre @ [x]" y ys] c1 temp by simp
  qed
  let ?count = "count + (if pended st x then 1 else 0)"
  have "\<exists>st'. dispatch_loop (posting eff) th (hd (xs @ [th])) n ?count st1
      = Some (?count + int (length (filter (pended st1) xs)), st')
    \<and> dispatched st1 st' xs \<and> posts st' = fold (callback_effect eff st1) (filter (pended st1) xs) (posts st1)"
    by (rule Cons.IH [where pre = "pre @ [x]"]) (use c1 n(2) Cons.prems(2) same in simp_all)
  then obtain st' where st': "dispatch_loop (posting eff) th (hd (xs @ [th])) n ?count st1
      = Some (?count + int (length (filter (pended st1) xs)), st')"
      "dispatched st1 st' xs" "posts st' = fold (callback_effect eff st1) (filter (pended st1) xs) (posts st1)"
    by blast
  have "dispatch_loop (posting eff) th x temp count st
      = Some (count + int (length (filter (pended st) (x # xs))), st')"
    using st1(1) st'(1) n(1) d(2) temp pend by (subst dispatch_loop.simps) simp
  moreover have "dispatched st st' (x # xs)"
    using st'(2) st1(2) d same task_at_cong [of st' x st1] by (auto simp: dispatched_def)
  moreover have "posts st' = fold (callback_effect eff st) (filter (pended st) (x # xs)) (posts st)"
    using st'(3) st1(3) eff [of "filter (pended st) xs"] by (auto simp: pend)
  ultimately show ?case
    by auto
qed

definition head_ready :: "tasklet_sys \<Rightarrow> addr \<Rightarrow> addr list \<Rightarrow> bool" where
  "head_ready st th xs \<longleftrightarrow> circle (cells st) th xs \<and> (\<forall>x \<in> set xs. task_at st x \<noteq> None)
     \<and> (\<exists>hd. task_head_at st th = Some hd \<and> (th_mutex hd = 0 \<or> th_mutex hd \<notin> held st))"

lemma lock_unlock:
  assumes "m = 0 \<or> m \<notin> held st"
  shows "\<exists>st1. lock_mutex st m = Some st1 \<and> cells st1 = cells st \<and> posts st1 = posts st
    \<and> (\<forall>st2. held st2 = held st1 \<longrightarrow> held (unlock_mutex st2 m) = held st)
    \<and> (\<forall>st2. cells (unlock_mutex st2 m) = cells st2 \<and> posts (unlock_mutex st2 m) = posts st2)"
  using assms by (auto simp: lock_mutex_def unlock_mutex_def)

lemma tasklet_dispatch_runs:
  assumes "head_ready st th xs"
  shows "\<exists>st'. bscl_tasklet_dispatch (posting eff) st th timeout_ms
      = Some (int (length (filter (pended st) xs)), st')
    \<and> dispatched st st' xs \<and> posts st' = fold (callback_effect eff st) (filter (pended st) xs) (posts st)"
proof -
  obtain h where c: "circle (cells st) th xs" and t: "\<forall>x \<in> set xs. task_at st x \<noteq> None"
    and h: "task_head_at st th = Some h" and m: "th_mutex h = 0 \<or> th_mutex h \<notin> held st"
    using assms by (auto simp: head_ready_def)
  obtain st1 where st1: "lock_mutex st (th_mutex h) = Some st1" "cells st1 = cells st" "posts st1 = posts st"
    and un: "\<forall>st2. held st2 = held st1 \<longrightarrow> held (unlock_mutex st2 (th_mutex h)) = held st"
      "\<forall>st2. cells (unlock_mutex st2 (th_mutex h)) = cells st2 \<and> posts (unlock_mutex st2 (th_mutex h)) = posts st2"
    using lock_unlock [OF m] by blast
  have same: "task_at st1 = task_at st"
    by (intro ext task_at_cong) (simp add: st1(2))
  then have pend: "pended st1 = pended st" and eff: "callback_effect eff st1 = callback_effect eff st"
    by (auto simp: pended_def callback_effect_def fun_eq_iff)
  obtain temp where temp: "get_next (cells st) (hd (xs @ [th])) = Some temp" "xs \<noteq> [] \<Longrightarrow> temp = hd (tl xs @ [th])"
  proof (cases xs)
    case Nil
    then show ?thesis
      using that circle_start [OF c] by simp
  next
    case (Cons y ys)
    then show ?thesis
      using that circle_step [of "cells st" th "[]" y ys] c by simp
  qed
  have "\<exists>st'. dispatch_loop (posting eff) th (hd (xs @ [th])) temp 0 st1
      = Some (0 + int (length (filter (pended st1) xs)), st')
    \<and> dispatched st1 st' xs \<and> posts st' = fold (callback_effect eff st1) (filter (pended st1) xs) (posts st1)"
    by (rule dispatch_loop_runs [where pre = "[]"]) (use c t temp(2) same st1(2) in simp_all)
  then obtain st2 where st2: "dispatch_loop (posting eff) th (hd (xs @ [th])) temp 0 st1
      = Some (int (length (filter (pended st) xs)), st2)"
      "dispatched st1 st2 xs" "posts st2 = fold (callback_effect eff st) (filter (pended st) xs) (posts st)"
    unfolding pend eff st1(3) by auto
  have "cells st2 th = cells st th"
    using st2(2) st1(2) c by (auto simp: dispatched_def circle_def)
  then have "task_head_at st2 th = Some h"
    using h task_head_at_cong by metis
  then have "bscl_tasklet_dispatch (posting eff) st th timeout_ms
      = Some (int (length (filter (pended st) xs)), unlock_mutex st2 (th_mutex h))"
    using h st1(1,2) circle_start [OF c] temp(1) st2(1)
    by (simp add: bscl_tasklet_dispatch_def bscl_sem_timedwait_def)
  moreover have "dispatched st (unlock_mutex st2 (th_mutex h)) xs"
    using st2(2) un st1(2) same by (simp add: dispatched_def task_at_def)
  ultimately show ?thesis
    using st2(3) un(2) by simp
qed

section \<open>Linking and unlinking\<close>

lemma tasklet_link_runs:
  assumes ready: "head_ready st th xs" and own: "circle (cells st) tsl []"
    and t: "task_at st tsl = Some t" and out: "tsl \<notin> set xs"
  shows "\<exists>st'. bscl_tasklet_link st tsl th = Some (0, st') \<and> head_ready st' th [tsl]
    \<and> task_at st' tsl = Some (t\<lparr>tsl_head := th\<rparr>) \<and> posts st' = posts st \<and> held st' = held st
    \<and> (\<forall>x. x \<noteq> tsl \<longrightarrow> x \<noteq> th \<longrightarrow> cells st' x = cells st x)"
proof -
  obtain h where c: "circle (cells st) th xs"
    and h: "task_head_at st th = Some h" and m: "th_mutex h = 0 \<or> th_mutex h \<notin> held st"
    using ready by (auto simp: head_ready_def)
  have ne: "tsl \<noteq> th" "tsl \<noteq> 0" "th \<noteq> 0"
    using t h c own by (auto simp: task_at_Some task_head_at_Some)
  obtain st1 where st1: "lock_mutex st (th_mutex h) = Some st1" "cells st1 = cells st" "posts st1 = posts st"
    and un: "\<forall>st2. held st2 = held st1 \<longrightarrow> held (unlock_mutex st2 (th_mutex h)) = held st"
      "\<forall>st2. cells (unlock_mutex st2 (th_mutex h)) = cells st2 \<and> posts (unlock_mutex st2 (th_mutex h)) = posts st2"
    using lock_unlock [OF m] by blast
  have p: "prv (cells st) tsl = Some tsl" "cells st tsl \<noteq> None" "cells st th \<noteq> None"
    using circle_last [OF own] circle_dom [OF own] circle_dom [OF c] by simp_all
  obtain cs where cs: "bscl_list_head_insert_prev (cells st) tsl th = Some cs" "nxt cs th = Some tsl"
      "prv cs th = Some tsl" "prv cs tsl = Some th" "nxt cs tsl = Some th"
      "\<forall>x. rest cs x = rest (cells st) x"
    and old: "\<forall>x. x \<noteq> tsl \<longrightarrow> x \<noteq> th \<longrightarrow> nxt cs x = nxt (cells st) x"
      "\<forall>x. x \<noteq> tsl \<longrightarrow> x \<noteq> th \<longrightarrow> prv cs x = prv (cells st) x"
    using list_head_insert_prev_runs [OF ne(2,3) ne(1) p(3) p(1) p(2) ne(1)] ne(2) by blast
  let ?st2 = "unlock_mutex (st1\<lparr>cells := cs\<rparr>) (th_mutex h)"
  have cells2: "cells ?st2 = cs" and held2: "held ?st2 = held st" and posts2: "posts ?st2 = posts st"
    using un st1(3) by simp_all
  have body: "map_option task_body (cs x) = map_option task_body (cells st x)" for x
    using spec [OF cs(6), of x] by (cases "cs x"; cases "cells st x")
      (auto simp: rest_def intro: task_body_more)
  then have t2: "task_at ?st2 x = task_at st x" and h2: "task_head_at ?st2 x = task_head_at st x" for x
    unfolding task_at_body task_head_at_body cells2 by simp_all
  obtain st3 where st3: "set_task ?st2 tsl (\<lambda>t. t\<lparr>tsl_head := th\<rparr>) = Some st3"
      "task_at st3 tsl = Some (t\<lparr>tsl_head := th\<rparr>)" "posts st3 = posts ?st2" "held st3 = held ?st2"
      "\<forall>x. x \<noteq> tsl \<longrightarrow> cells st3 x = cells ?st2 x"
      "\<forall>x. nxt (cells st3) x = nxt (cells ?st2) x" "\<forall>x. prv (cells st3) x = prv (cells ?st2) x"
    using set_task_runs [of ?st2 tsl t] t t2 by metis
  have "bscl_list_is_empty (cells st) tsl = Some True"
    using is_empty_circle [OF own] by simp
  then have "bscl_tasklet_link st tsl th = Some (0, st3)"
    using h st1(1,2) cs(1) st3(1)
    by (simp add: bscl_tasklet_link_def bscl_list_insert_tail_def set_cells_def)
  moreover have "circle (cells st3) th [tsl]"
    using cs(2-5) st3(6,7) ne by (simp add: circle_def links_def cells2)
  moreover have "task_head_at st3 th = Some h"
    using task_head_at_cong [of st3 th ?st2] st3(5) ne h2 h by simp
  moreover have "cells st3 x = cells st x" if "x \<noteq> tsl" "x \<noteq> th" for x
    using that st3(5) cells2 old cs(6) by (auto intro: heap_eqI)
  ultimately show ?thesis
    using st3 held2 posts2 m by (auto simp: head_ready_def)
qed

lemma tasklet_unlink_runs:
  assumes ready: "head_ready st th (pre @ tsl # post)" and t: "task_at st tsl = Some t" "tsl_head t = th"
  shows "\<exists>st'. bscl_tasklet_unlink st tsl = Some st' \<and> head_ready st' th (pre @ post)
    \<and> cells st' tsl = cells st tsl \<and> posts st' = posts st \<and> held st' = held st
    \<and> (\<forall>x. task_at st' x = task_at st x)"
proof -
  obtain h where c: "circle (cells st) th (pre @ tsl # post)" and tasks: "\<forall>x \<in> set (pre @ tsl # post). task_at st x \<noteq> None"
    and h: "task_head_at st th = Some h" and m: "th_mutex h = 0 \<or> th_mutex h \<notin> held st"
    using ready by (auto simp: head_ready_def)
  obtain st1 where st1: "lock_mutex st (th_mutex h) = Some st1" "cells st1 = cells st" "posts st1 = posts st"
    and un: "\<forall>st2. held st2 = held st1 \<longrightarrow> held (unlock_mutex st2 (th_mutex h)) = held st"
      "\<forall>st2. cells (unlock_mutex st2 (th_mutex h)) = cells st2 \<and> posts (unlock_mutex st2 (th_mutex h)) = posts st2"
    using lock_unlock [OF m] by blast
  obtain cs where cs: "bscl_list_head_remove (cells st) tsl = Some cs" "circle cs th (pre @ post)"
      "\<forall>x. rest cs x = rest (cells st) x" "\<forall>x. x \<notin> set (th # pre @ post) \<longrightarrow> cs x = cells st x"
    using remove_circle [OF c] by blast
  let ?st2 = "unlock_mutex (st1\<lparr>cells := cs\<rparr>) (th_mutex h)"
  have cells2: "cells ?st2 = cs" and held2: "held ?st2 = held st" and posts2: "posts ?st2 = posts st"
    using un st1(3) by simp_all
  have body: "map_option task_body (cs x) = map_option task_body (cells st x)" for x
    using spec [OF cs(3), of x] by (cases "cs x"; cases "cells st x")
      (auto simp: rest_def intro: task_body_more)
  then have t2: "task_at ?st2 x = task_at st x" and h2: "task_head_at ?st2 x = task_head_at st x" for x
    unfolding task_at_body task_head_at_body cells2 by simp_all
  have "tsl \<noteq> th" and "tsl \<notin> set (th # pre @ post)" and "tsl \<noteq> 0"
    using c by (auto simp: circle_def)
  moreover have "nxt (cells st) tsl = Some (hd (post @ [th]))" and "hd (post @ [th]) \<noteq> tsl"
    using circle_step [OF c] c \<open>tsl \<noteq> 0\<close> by (cases post; auto simp: link_simps circle_def)+
  then have "bscl_list_is_empty (cells st) tsl = Some False"
    using \<open>tsl \<noteq> 0\<close> by (simp add: bscl_list_is_empty_def link_simps)
  then have "bscl_tasklet_unlink st tsl = Some ?st2"
    using t h st1(1,2) cs(1) by (simp add: bscl_tasklet_unlink_def set_cells_def)
  ultimately show ?thesis
    using cs(2,4) t2 h2 h m tasks held2 posts2 by (intro exI [of _ ?st2]) (simp add: head_ready_def cells2)
qed

section \<open>Pending\<close>

fun pend_times :: "nat \<Rightarrow> tasklet_sys \<Rightarrow> addr \<Rightarrow> tasklet_sys option" where
  "pend_times 0 st tsl = Some st"
| "pend_times (Suc n) st tsl = do { st \<leftarrow> pend_times n st tsl; bscl_tasklet_pend st tsl }"

lemma of_nat_u32_0: "(of_nat n :: u32) = 0 \<longleftrightarrow> n mod 2 ^ 32 = 0"
  by (simp add: word_of_nat_eq_0_iff mod_eq_0_iff_dvd)

lemma ceil_div_step:
  fixes n d :: nat
  assumes "0 < d"
  shows "(Suc n + (d - 1)) div d = (n + (d - 1)) div d + (if n mod d = 0 then 1 else 0)"
proof -
  have "Suc n + (d - 1) = n + 1 * d"
    using assms by simp
  then have l: "(Suc n + (d - 1)) div d = n div d + 1"
    using div_mult_self1 [of d n 1] assms by (simp add: add.commute)
  have n: "n + (d - 1) = (n mod d + (d - 1)) + n div d * d"
    by (simp add: ac_simps)
  have "(n + (d - 1)) div d = (n mod d + (d - 1)) div d + n div d"
  proof -
    have "(n + (d - 1)) div d = ((n mod d + (d - 1)) + n div d * d) div d"
      by (rule arg_cong [OF n])
    also have "\<dots> = n div d + (n mod d + (d - 1)) div d"
      by (rule div_mult_self1) (use assms in simp)
    finally show ?thesis
      by (simp only: add.commute)
  qed
  moreover have "(n mod d + (d - 1)) div d = (if n mod d = 0 then 0 else 1)"
  proof (cases "n mod d = 0")
    case False
    then have "n mod d + (d - 1) = (n mod d - 1) + d"
      using assms by simp
    moreover have "(n mod d - 1 + d) div d = (n mod d - 1) div d + 1"
      by (rule div_add_self2) (use assms in simp)
    ultimately show ?thesis
      using False mod_less_divisor [OF assms, of n] by simp
  qed (use assms in simp)
  ultimately show ?thesis
    using l by simp
qed

lemma pend_times_runs:
  assumes t: "task_at st tsl = Some t" "tsl_pend t = tsl_deal t"
    and h: "task_head_at st (tsl_head t) = Some h" "th_sem h \<noteq> 0"
  shows "\<exists>st'. pend_times n st tsl = Some st' \<and> task_at st' tsl = Some (t\<lparr>tsl_pend := tsl_pend t + of_nat n\<rparr>)
    \<and> task_head_at st' (tsl_head t) = Some h
    \<and> posts st' = (posts st)(th_sem h := posts st (th_sem h) + (n + (2 ^ 32 - 1)) div 2 ^ 32)"
proof (induction n)
  case 0
  then show ?case
    using t h by simp
next
  case (Suc n)
  then obtain st1 where st1: "pend_times n st tsl = Some st1"
      "task_at st1 tsl = Some (t\<lparr>tsl_pend := tsl_pend t + of_nat n\<rparr>)" "task_head_at st1 (tsl_head t) = Some h"
      "posts st1 = (posts st)(th_sem h := posts st (th_sem h) + (n + (2 ^ 32 - 1)) div 2 ^ 32)"
    by blast
  obtain st2 where st2: "set_task st1 tsl (\<lambda>t. t\<lparr>tsl_pend := tsl_pend t + 1\<rparr>) = Some st2"
      "task_at st2 tsl = Some (t\<lparr>tsl_pend := tsl_pend t + of_nat (Suc n)\<rparr>)" "posts st2 = posts st1"
      "\<forall>x. x \<noteq> tsl \<longrightarrow> cells st2 x = cells st1 x"
    using set_task_runs [OF st1(2), of "\<lambda>t. t\<lparr>tsl_pend := tsl_pend t + 1\<rparr>"] by (auto simp: ac_simps)
  have "tsl_head t \<noteq> tsl"
    using st1(2,3) by (auto simp: task_at_Some task_head_at_Some)
  then have h2: "task_head_at st2 (tsl_head t) = Some h"
    using st2(4) task_head_at_cong st1(3) by metis
  have eq: "tsl_pend t + of_nat n = tsl_deal t \<longleftrightarrow> n mod 4294967296 = 0"
    using t(2) of_nat_u32_0 [of n] by simp
  show ?case
  proof (cases "n mod 4294967296 = 0")
    case True
    have "task_at (bscl_sem_post st2 (th_sem h)) x = task_at st2 x"
      and "task_head_at (bscl_sem_post st2 (th_sem h)) x = task_head_at st2 x" for x
      by (simp_all add: bscl_sem_post_def task_at_def task_head_at_def)
    then show ?thesis
      using st1 st2(1-3) h(2) h2 eq True ceil_div_step [of 4294967296 n]
      by (simp add: bscl_tasklet_pend_def) (auto simp: bscl_sem_post_def fun_eq_iff)
  next
    case False
    then show ?thesis
      using st1 st2(1-3) h2 eq ceil_div_step [of 4294967296 n]
      by (simp add: bscl_tasklet_pend_def) (auto simp: fun_eq_iff)
  qed
qed

section \<open>An example\<close>

definition task_of :: "nat \<Rightarrow> u32 \<Rightarrow> bscl_tasklet" where
  "task_of run pend = \<lparr>tsl_run = run, tsl_arg = 0, tsl_head_data = 0, tsl_head = 1,
     tsl_pend = pend, tsl_deal = 0\<rparr>"

definition task_cell_of :: "addr \<Rightarrow> addr \<Rightarrow> nat \<Rightarrow> u32 \<Rightarrow> task_cell" where
  "task_cell_of n p run pend = \<lparr>l_next = n, l_prev = p, task_body = Task (task_of run pend)\<rparr>"

definition two_tasks :: tasklet_sys where
  "two_tasks = \<lparr>cells = [1 \<mapsto> \<lparr>l_next = 2, l_prev = 3,
       task_body = Task_head \<lparr>th_arg = 0, th_sem = 9, th_mutex = 8\<rparr>\<rparr>,
     2 \<mapsto> task_cell_of 3 1 7 1, 3 \<mapsto> task_cell_of 1 2 7 0, 4 \<mapsto> task_cell_of 4 4 7 1],
     posts = (\<lambda>_. 0), held = {}\<rparr>"

lemma two_tasks_circle: "circle (cells two_tasks) 1 [2, 3]" "circle (cells two_tasks) 4 []"
  by (simp_all add: circle_def links_def nxt_def prv_def two_tasks_def task_cell_of_def)

lemma two_tasks_at:
  "task_at two_tasks 2 = Some (task_of 7 1)" "task_at two_tasks 3 = Some (task_of 7 0)"
  "task_at two_tasks 4 = Some (task_of 7 1)"
  "task_head_at two_tasks 1 = Some \<lparr>th_arg = 0, th_sem = 9, th_mutex = 8\<rparr>"
  by (simp_all add: two_tasks_def task_at_def task_head_at_def deref_def task_cell_of_def)

lemma two_tasks_pended: "pended two_tasks 2" "\<not> pended two_tasks 3" "pended two_tasks 4"
  by (simp_all add: pended_def two_tasks_at task_of_def)

lemma two_tasks_ready: "head_ready two_tasks 1 [2, 3]"
proof -
  have "held two_tasks = {}"
    by (simp add: two_tasks_def)
  then show ?thesis
    using two_tasks_circle(1) two_tasks_at by (simp add: head_ready_def)
qed

section \<open>Properties\<close>

text \<open>
  C19: The dispatcher runs every pending tasklet of its list once, in the order of the list, and
  counts them; afterwards none is pending, and the list and the mutex are as before. The
  callbacks are any that leave the tasklets alone and act on the semaphores.
\<close>

theorem bscl_tasklet_dispatch_runs_pended:
  assumes "head_ready st th xs"
  shows "\<exists>st'. bscl_tasklet_dispatch (posting eff) st th timeout_ms
      = Some (int (length (filter (pended st) xs)), st')
    \<and> head_ready st' th xs \<and> filter (pended st') xs = [] \<and> held st' = held st
    \<and> posts st' = fold (callback_effect eff st) (filter (pended st) xs) (posts st)"
proof -
  obtain st' where st': "bscl_tasklet_dispatch (posting eff) st th timeout_ms
      = Some (int (length (filter (pended st) xs)), st')" "dispatched st st' xs"
      "posts st' = fold (callback_effect eff st) (filter (pended st) xs) (posts st)"
    using tasklet_dispatch_runs [OF assms] by blast
  have "circle (cells st') th xs"
    using assms st'(2) by (auto simp: head_ready_def dispatched_def elim: circle_frame)
  moreover have "cells st' th = cells st th"
    using assms st'(2) by (simp add: head_ready_def dispatched_def circle_def)
  moreover have "filter (pended st') xs = []"
    using assms st'(2) by (auto simp: filter_empty_conv pended_def dispatched_def head_ready_def)
  ultimately show ?thesis
    using st' assms task_head_at_cong [of st' th st] by (auto simp: head_ready_def dispatched_def)
qed

lemma bscl_tasklet_dispatch_runs_pended_witness:
  "\<exists>st'. bscl_tasklet_dispatch (posting (\<lambda>r x p. p(r := p r + x))) two_tasks 1 0 = Some (1, st')
    \<and> filter (pended st') [2, 3] = [] \<and> posts st' 7 = 2"
proof -
  let ?eff = "\<lambda>r x p. p(r := p r + x)"
  obtain st' where st': "bscl_tasklet_dispatch (posting ?eff) two_tasks 1 0
      = Some (int (length (filter (pended two_tasks) [2, 3])), st')" "filter (pended st') [2, 3] = []"
      "posts st' = fold (callback_effect ?eff two_tasks) (filter (pended two_tasks) [2, 3]) (posts two_tasks)"
    using bscl_tasklet_dispatch_runs_pended [OF two_tasks_ready, of ?eff 0] by blast
  have "posts two_tasks 7 = 0"
    by (simp add: two_tasks_def)
  then have "posts st' 7 = 2"
    using st'(3) by (simp add: two_tasks_pended callback_effect_def two_tasks_at task_of_def)
  then show ?thesis
    using st'(1,2) by (intro exI [of _ st']) (simp add: two_tasks_pended)
qed

text \<open>
  Linking a tasklet inserts the head into the list of the tasklet and not the tasklet into
  the list of the head: whatever the head had linked before is lost. After the call its list
  holds the new tasklet alone, and the dispatcher never again reaches the others.
\<close>

lemma bscl_tasklet_link_forgets:
  assumes "head_ready st th xs" and "circle (cells st) tsl []" and "task_at st tsl = Some t"
    and "tsl \<notin> set xs"
  shows "\<exists>st'. bscl_tasklet_link st tsl th = Some (0, st') \<and> head_ready st' th [tsl]
    \<and> (\<exists>c st''. bscl_tasklet_dispatch (posting eff) st' th timeout_ms = Some (c, st'')
        \<and> c = (if pended st tsl then 1 else 0) \<and> filter (pended st'') xs = filter (pended st) xs)"
proof -
  obtain st' where st': "bscl_tasklet_link st tsl th = Some (0, st')" "head_ready st' th [tsl]"
      "task_at st' tsl = Some (t\<lparr>tsl_head := th\<rparr>)" "\<forall>x. x \<noteq> tsl \<longrightarrow> x \<noteq> th \<longrightarrow> cells st' x = cells st x"
    using tasklet_link_runs [OF assms] by blast
  obtain st'' where st'': "bscl_tasklet_dispatch (posting eff) st' th timeout_ms
      = Some (int (length (filter (pended st') [tsl])), st'')" "dispatched st' st'' [tsl]"
    using tasklet_dispatch_runs [OF st'(2)] by blast
  have "pended st' tsl = pended st tsl"
    using st'(3) assms(3) by (simp add: pended_def)
  moreover have "pended st'' x = pended st x" if "x \<in> set xs" for x
  proof -
    have "x \<noteq> tsl" and "x \<noteq> th"
      using that assms(1,4) by (auto simp: head_ready_def circle_def)
    then have "cells st'' x = cells st x"
      using st'(4) st''(2) by (simp add: dispatched_def)
    then show ?thesis
      by (simp add: pended_def task_at_cong [of st'' x st])
  qed
  then have "filter (pended st'') xs = filter (pended st) xs"
    by (intro filter_cong) simp_all
  ultimately show ?thesis
    using st'(1,2) st''(1) by auto
qed

lemma bscl_tasklet_link_forgets_witness:
  "\<exists>st' st''. bscl_tasklet_link two_tasks 4 1 = Some (0, st') \<and> head_ready st' 1 [4]
    \<and> bscl_tasklet_dispatch (posting (\<lambda>_ _ p. p)) st' 1 0 = Some (1, st'') \<and> filter (pended st'') [2, 3] = [2]"
  using bscl_tasklet_link_forgets [OF two_tasks_ready two_tasks_circle(2) two_tasks_at(3),
      of "\<lambda>_ _ p. p" 0]
  by (auto simp: two_tasks_pended)

text \<open>
  Unlinking takes the tasklet out of the list of its head but leaves its own links in place:
  the tasklet still counts as linked, and a later call of \<open>bscl_tasklet_link\<close> refuses it.
\<close>

lemma bscl_tasklet_unlink_stays_linked:
  assumes "head_ready st th (pre @ tsl # post)" and "task_at st tsl = Some t" and "tsl_head t = th"
  shows "\<exists>st'. bscl_tasklet_unlink st tsl = Some st' \<and> head_ready st' th (pre @ post)
    \<and> bscl_tasklet_is_linked st' tsl = Some 1 \<and> bscl_tasklet_link st' tsl th' = Some (-1, st')"
proof -
  obtain st' where st': "bscl_tasklet_unlink st tsl = Some st'" "head_ready st' th (pre @ post)"
      "cells st' tsl = cells st tsl"
    using tasklet_unlink_runs [OF assms] by blast
  have c: "circle (cells st) th (pre @ tsl # post)"
    using assms(1) by (simp add: head_ready_def)
  have "hd (post @ [th]) \<noteq> tsl"
    using c by (cases post) (auto simp: circle_def)
  moreover have "get_next (cells st') tsl = get_next (cells st) tsl"
    by (simp add: get_next_def deref_def st'(3))
  ultimately have "bscl_list_is_empty (cells st') tsl = Some False"
    using circle_step [OF c] by (simp add: bscl_list_is_empty_def)
  then show ?thesis
    using st'(1,2) by (simp add: bscl_tasklet_is_linked_def bscl_tasklet_link_def)
qed

lemma bscl_tasklet_unlink_stays_linked_witness:
  "\<exists>st'. bscl_tasklet_unlink two_tasks 2 = Some st' \<and> head_ready st' 1 [3]
    \<and> bscl_tasklet_is_linked st' 2 = Some 1 \<and> bscl_tasklet_link st' 2 1 = Some (-1, st')"
  using bscl_tasklet_unlink_stays_linked [of two_tasks 1 "[]" 2 "[3]" "task_of 7 1" 1]
    two_tasks_ready two_tasks_at(1) by (simp add: task_of_def)

text \<open>
  The 32-bit counters: after \<open>n\<close> calls of \<open>bscl_tasklet_pend\<close> without a dispatch the
  tasklet counts as pending exactly if \<open>n\<close> is no multiple of \<open>2 ^ 32\<close>, and the semaphore was
  posted once for every started round of \<open>2 ^ 32\<close> calls, so once in any realistic run.
\<close>

lemma bscl_tasklet_pend_wraps:
  assumes "task_at st tsl = Some t" and "tsl_pend t = tsl_deal t"
    and "task_head_at st (tsl_head t) = Some h" and "th_sem h \<noteq> 0"
  shows "\<exists>st'. pend_times n st tsl = Some st'
    \<and> bscl_tasklet_is_pended st' tsl = Some (if n mod 2 ^ 32 = 0 then 0 else 1)
    \<and> posts st' (th_sem h) = posts st (th_sem h) + (n + (2 ^ 32 - 1)) div 2 ^ 32"
  using pend_times_runs [OF assms, of n] of_nat_u32_0 [of n] assms(2)
  by (auto simp: bscl_tasklet_is_pended_def)

lemma bscl_tasklet_pend_wraps_witness:
  "\<exists>st'. pend_times 4294967296 two_tasks 3 = Some st' \<and> bscl_tasklet_is_pended st' 3 = Some 0
    \<and> posts st' 9 = 1"
  using bscl_tasklet_pend_wraps [OF two_tasks_at(2), of "\<lparr>th_arg = 0, th_sem = 9, th_mutex = 8\<rparr>" 4294967296]
    two_tasks_at(4) by (auto simp: task_of_def) (simp add: two_tasks_def)

end
