(* ===== verification/Url.thy ===== *)
theory Url
  imports Cstring
begin

text \<open>
  The parser of request paths of \<open>src/bscl_url.c\<close>: a path, a question mark and queries
  \<open>key=value\<close> with \<open>&\<close> between them.

  A pointer into the text is an offset, null is \<open>None\<close>. An array of characters is the string that
  was stored in it; a copy that does not fit, with its terminating zero, is undefined, and so is
  one of negative length, which \<open>memcpy\<close> takes for a huge one. \<open>alloc n\<close> tells whether the
  \<open>n\<close>-th call of \<open>malloc\<close> succeeds.
\<close>

section \<open>Data\<close>

definition QUERY_NUM_MAX :: nat where
  "QUERY_NUM_MAX = 16"

definition PATH_MAX :: nat where
  "PATH_MAX = 128"

record bscl_url_query_t =
  query_key :: string
  query_value :: string

record bscl_url_t =
  url_path :: string
  query_num :: u32
  query :: "nat \<Rightarrow> bscl_url_query_t option"

section \<open>Parsing\<close>

text \<open>\<open>memcpy(a, text + pos, n); a[n] = 0\<close> for an array \<open>a\<close> of \<open>PATH_MAX\<close> characters.\<close>

definition copy_part :: "string \<Rightarrow> int \<Rightarrow> int \<Rightarrow> string option" where
  "copy_part text pos n =
     (if 0 \<le> n \<and> n < int PATH_MAX \<and> 0 \<le> pos \<and> pos + n \<le> int (length text)
      then Some (take (nat n) (drop (nat pos) text)) else None)"

text \<open>The search for the one question mark; \<open>None\<close> stands for the null result.\<close>

function url_find_mark :: "string \<Rightarrow> int \<Rightarrow> int \<Rightarrow> int \<Rightarrow> int option" where
  "url_find_mark text text_len i path_len =
     (if i < text_len then
        if text ! nat i = CHR ''?'' then
          if path_len < 0 then url_find_mark text text_len (i + 1) i else None
        else url_find_mark text text_len (i + 1) path_len
      else Some path_len)"
  by pat_completeness auto

termination
  by (relation "measure (\<lambda>(text, text_len, i, path_len). nat (text_len - i))") auto

declare url_find_mark.simps [simp del]

text \<open>
  Storing one query: key and value are offsets, \<open>i\<close> is the end of the value. \<open>Some None\<close> is the
  null result of a failed allocation.
\<close>

definition url_add_query ::
    "(nat \<Rightarrow> bool) \<Rightarrow> string \<Rightarrow> int \<Rightarrow> int \<Rightarrow> int \<Rightarrow> bscl_url_t \<Rightarrow> bscl_url_t option option" where
  "url_add_query alloc text key val i url =
     (let n = unat (query_num url) in
      if n < QUERY_NUM_MAX then
        if alloc (n + 1) then do {
          k \<leftarrow> copy_part text key (val - key - 1);
          v \<leftarrow> copy_part text val (i - val);
          Some (Some (url\<lparr>query := (query url)(n \<mapsto> \<lparr>query_key = k, query_value = v\<rparr>),
            query_num := query_num url + 1\<rparr>))
        } else Some None
      else None)"

function url_loop ::
    "(nat \<Rightarrow> bool) \<Rightarrow> string \<Rightarrow> int \<Rightarrow> int \<Rightarrow> int option \<Rightarrow> int option \<Rightarrow> bscl_url_t
      \<Rightarrow> (int option \<times> int option \<times> int \<times> bscl_url_t) option option" where
  "url_loop alloc text text_len i key val url =
     (if i < text_len then
        if text ! nat i = CHR ''='' then
          url_loop alloc text text_len (i + 1) key (if key \<noteq> None then Some (i + 1) else val) url
        else if text ! nat i = CHR ''&'' then
          (case (key, val) of
             (Some k, Some v) \<Rightarrow> do {
               r \<leftarrow> url_add_query alloc text k v i url;
               (case r of
                  None \<Rightarrow> Some None
                | Some url \<Rightarrow> url_loop alloc text text_len (i + 1) (Some (i + 1)) val url)
             }
           | _ \<Rightarrow> Some None)
        else url_loop alloc text text_len (i + 1) key val url
      else Some (Some (key, val, i, url)))"
  by pat_completeness auto

termination
  by (relation "measure (\<lambda>(alloc, text, text_len, i, key, val, url). nat (text_len - i))") auto

declare url_loop.simps [simp del]

text \<open>The loop over the queries and what follows it.\<close>

definition url_parse_queries ::
    "(nat \<Rightarrow> bool) \<Rightarrow> string \<Rightarrow> int \<Rightarrow> int \<Rightarrow> int option \<Rightarrow> int option \<Rightarrow> bscl_url_t
      \<Rightarrow> bscl_url_t option option" where
  "url_parse_queries alloc text text_len i key val url = do {
     r \<leftarrow> url_loop alloc text text_len i key val url;
     (case r of
        None \<Rightarrow> Some None
      | Some (key, val, i, url) \<Rightarrow>
          (case (key, val) of
             (Some k, Some v) \<Rightarrow> url_add_query alloc text k v i url
           | _ \<Rightarrow> Some (Some url)))
   }"

definition bscl_url_new_from_text :: "(nat \<Rightarrow> bool) \<Rightarrow> string \<Rightarrow> bscl_url_t option option" where
  "bscl_url_new_from_text alloc text =
     (let text_len = strlen_int text in
      case url_find_mark text text_len 0 (-1) of
        None \<Rightarrow> Some None
      | Some path_len \<Rightarrow>
          if path_len \<le> 0 then Some None
          else if \<not> alloc 0 then Some None
          else do {
            path \<leftarrow> copy_part text 0 path_len;
            url_parse_queries alloc text text_len (path_len + 1) (Some (path_len + 1)) None
              \<lparr>url_path = path, query_num = 0, query = (\<lambda>_. None)\<rparr>
          })"

section \<open>The text of a request\<close>

definition query_text :: "string \<times> string \<Rightarrow> string" where
  "query_text = (\<lambda>(k, v). k @ ''='' @ v)"

fun join_queries :: "(string \<times> string) list \<Rightarrow> string" where
  "join_queries [] = []"
| "join_queries [q] = query_text q"
| "join_queries (q # qs) = query_text q @ ''&'' @ join_queries qs"

definition url_text :: "string \<Rightarrow> (string \<times> string) list \<Rightarrow> string" where
  "url_text path qs = path @ ''?'' @ join_queries qs"

definition plain :: "string \<Rightarrow> bool" where
  "plain s \<longleftrightarrow> CHR ''='' \<notin> set s \<and> CHR ''&'' \<notin> set s \<and> CHR ''?'' \<notin> set s \<and> length s < PATH_MAX"

definition plain_query :: "string \<times> string \<Rightarrow> bool" where
  "plain_query q \<longleftrightarrow> plain (fst q) \<and> plain (snd q)"

definition url_push :: "bscl_url_t \<Rightarrow> string \<times> string \<Rightarrow> bscl_url_t" where
  "url_push url q = url\<lparr>query := (query url)(unat (query_num url) \<mapsto>
     \<lparr>query_key = fst q, query_value = snd q\<rparr>), query_num := query_num url + 1\<rparr>"

definition url_queries :: "bscl_url_t \<Rightarrow> (string \<times> string) list" where
  "url_queries url = map (\<lambda>i. case query url i of
       Some q \<Rightarrow> (query_key q, query_value q) | None \<Rightarrow> ([], [])) [0..<unat (query_num url)]"

lemma unat_query_num_push:
  "unat (query_num url) < QUERY_NUM_MAX \<Longrightarrow> unat (query_num (url_push url q)) = unat (query_num url) + 1"
  by (simp add: url_push_def QUERY_NUM_MAX_def unat_plus_small)

lemma url_queries_push:
  assumes "unat (query_num url) < QUERY_NUM_MAX"
  shows "url_queries (url_push url q) = url_queries url @ [q]"
  using unat_query_num_push [OF assms, of q]
  by (simp add: url_queries_def) (simp add: url_push_def)

lemma copy_part_mid:
  assumes "text = pre @ xs @ post" and "length xs < PATH_MAX" and "p = int (length pre)" and "n = int (length xs)"
  shows "copy_part text p n = Some xs"
  using assms by (simp add: copy_part_def)

section \<open>The loops\<close>

lemma url_find_mark_none:
  assumes "text = pre @ xs @ post" and "CHR ''?'' \<notin> set xs"
    and "int (length (pre @ xs)) \<le> len"
  shows "url_find_mark text len (int (length pre)) p = url_find_mark text len (int (length (pre @ xs))) p"
  using assms
proof (induction xs arbitrary: pre)
  case (Cons x xs)
  have "url_find_mark text len (int (length pre)) p = url_find_mark text len (int (length (pre @ [x]))) p"
  proof -
    have "text ! length pre = x" and "x \<noteq> CHR ''?''" and "int (length pre) < len"
      using Cons.prems by auto
    then show ?thesis
      by (subst url_find_mark.simps) (simp add: add.commute)
  qed
  then show ?case
    using Cons.IH [of "pre @ [x]"] Cons.prems by simp
qed simp

lemma url_loop_plain:
  assumes "text = pre @ xs @ post" and "CHR ''='' \<notin> set xs" "CHR ''&'' \<notin> set xs"
    and "int (length (pre @ xs)) \<le> len"
  shows "url_loop alloc text len (int (length pre)) key val url
    = url_loop alloc text len (int (length (pre @ xs))) key val url"
  using assms
proof (induction xs arbitrary: pre)
  case (Cons x xs)
  have "url_loop alloc text len (int (length pre)) key val url
      = url_loop alloc text len (int (length (pre @ [x]))) key val url"
  proof -
    have "text ! length pre = x" and "x \<noteq> CHR ''=''" and "x \<noteq> CHR ''&''" and "int (length pre) < len"
      using Cons.prems by auto
    then show ?thesis
      by (subst url_loop.simps) (simp add: add.commute)
  qed
  then show ?case
    using Cons.IH [of "pre @ [x]"] Cons.prems by simp
qed simp

lemma url_loop_equals:
  assumes "text = pre @ CHR ''='' # post" and "int (length pre) < len"
  shows "url_loop alloc text len (int (length pre)) (Some key) val url
    = url_loop alloc text len (int (length pre) + 1) (Some key) (Some (int (length pre) + 1)) url"
proof -
  have "text ! length pre = CHR ''=''"
    using assms(1) by simp
  then show ?thesis
    using assms(2) by (subst url_loop.simps) simp
qed

lemma url_loop_amp:
  assumes "text = pre @ CHR ''&'' # post" and "int (length pre) < len"
    and "url_add_query alloc text key v (int (length pre)) url = Some (Some url')"
  shows "url_loop alloc text len (int (length pre)) (Some key) (Some v) url
    = url_loop alloc text len (int (length pre) + 1) (Some (int (length pre) + 1)) (Some v) url'"
proof -
  have "text ! length pre = CHR ''&''"
    using assms(1) by simp
  then show ?thesis
    using assms(2,3) by (subst url_loop.simps) simp
qed

text \<open>The loop over one \<open>key=value\<close>.\<close>

lemma url_loop_query:
  assumes eq: "text = pre @ query_text (k, v) @ post" and k: "plain k" and v: "plain v"
    and len: "int (length (pre @ query_text (k, v))) \<le> len"
  shows "url_loop alloc text len (int (length pre)) (Some key) val url
    = url_loop alloc text len (int (length (pre @ query_text (k, v)))) (Some key)
        (Some (int (length pre + length k + 1))) url"
proof -
  have "url_loop alloc text len (int (length pre)) (Some key) val url
      = url_loop alloc text len (int (length (pre @ k))) (Some key) val url"
    using eq k len by (intro url_loop_plain [where post = "''='' @ v @ post"])
      (simp_all add: query_text_def plain_def)
  also have "\<dots> = url_loop alloc text len (int (length (pre @ k @ ''=''))) (Some key)
      (Some (int (length pre + length k + 1))) url"
    using url_loop_equals [of "text" "pre @ k" "v @ post" len alloc key val url] eq len
    by (simp add: query_text_def add_ac)
  also have "\<dots> = url_loop alloc text len (int (length ((pre @ k @ ''='') @ v))) (Some key)
      (Some (int (length pre + length k + 1))) url"
    using eq v len by (intro url_loop_plain [where post = post])
      (simp_all add: query_text_def plain_def)
  finally show ?thesis
    by (simp add: query_text_def)
qed

lemma url_add_query_stores:
  assumes eq: "text = pre @ query_text (k, v) @ post" and "plain k" and "plain v"
    and num: "unat (query_num url) < QUERY_NUM_MAX" and "alloc (unat (query_num url) + 1)"
  shows "url_add_query alloc text (int (length pre)) (int (length pre + length k + 1))
    (int (length (pre @ query_text (k, v)))) url = Some (Some (url_push url (k, v)))"
proof -
  have "copy_part text (int (length pre)) (int (length pre + length k + 1) - int (length pre) - 1) = Some k"
    using assms(1,2) by (intro copy_part_mid [where post = "''='' @ v @ post"]) (simp_all add: query_text_def plain_def)
  moreover have "copy_part text (int (length pre + length k + 1))
      (int (length (pre @ query_text (k, v))) - int (length pre + length k + 1)) = Some v"
    using assms(1,3) by (intro copy_part_mid [where pre = "pre @ k @ ''=''" and post = post])
      (simp_all add: query_text_def plain_def)
  ultimately show ?thesis
    using assms(4,5) by (simp add: url_add_query_def url_push_def)
qed

text \<open>
  The queries that are followed by \<open>&\<close>: each is stored, and the loop stands at what follows with
  the key there and, once there was a query, a value that lies before it.
\<close>

definition terminated :: "(string \<times> string) list \<Rightarrow> string" where
  "terminated qs = concat (map (\<lambda>q. query_text q @ ''&'') qs)"

lemma url_parse_terminated:
  assumes "text = pre @ terminated qs @ post" and "\<forall>q \<in> set qs. plain_query q"
    and "int (length text) = len" and "unat (query_num url) + length qs \<le> QUERY_NUM_MAX"
    and "\<forall>n. alloc n"
  shows "\<exists>val'. url_parse_queries alloc text len (int (length pre)) (Some (int (length pre))) val url
      = url_parse_queries alloc text len (int (length (pre @ terminated qs)))
          (Some (int (length (pre @ terminated qs)))) val' (fold (\<lambda>q u. url_push u q) qs url)
    \<and> (if qs = [] then val' = val
       else \<exists>v. val' = Some v \<and> v < int (length (pre @ terminated qs)))"
  using assms
proof (induction qs arbitrary: pre val url)
  case Nil
  then show ?case
    by (simp add: terminated_def)
next
  case (Cons q qs)
  obtain k v where q: "q = (k, v)"
    by (cases q)
  have pl: "plain k" "plain v"
    using Cons.prems(2) by (auto simp: q plain_query_def)
  have eq: "text = pre @ query_text (k, v) @ (''&'' @ terminated qs @ post)"
    using Cons.prems(1) by (simp add: q terminated_def)
  have num: "unat (query_num url) < QUERY_NUM_MAX"
    using Cons.prems(4) by simp
  have len: "int (length (pre @ query_text (k, v))) \<le> len"
    using Cons.prems(3) eq by simp
  let ?pre = "pre @ query_text (k, v) @ ''&''"
  let ?v = "int (length pre + length k + 1)"
  have "text = (pre @ query_text (k, v)) @ CHR ''&'' # (terminated qs @ post)"
    and "int (length (pre @ query_text (k, v))) < len"
    using eq Cons.prems(3) by simp_all
  note amp = url_loop_amp [OF this url_add_query_stores [where alloc = alloc, OF eq pl num]]
  have "url_loop alloc text len (int (length pre)) (Some (int (length pre))) val url
      = url_loop alloc text len (int (length ?pre)) (Some (int (length ?pre))) (Some ?v) (url_push url q)"
    unfolding url_loop_query [OF eq pl len] using amp Cons.prems(5) q by (simp add: add_ac)
  then have step: "url_parse_queries alloc text len (int (length pre)) (Some (int (length pre))) val url
      = url_parse_queries alloc text len (int (length ?pre)) (Some (int (length ?pre))) (Some ?v) (url_push url q)"
    by (simp add: url_parse_queries_def)
  have "text = ?pre @ terminated qs @ post" and "\<forall>q \<in> set qs. plain_query q"
    and "unat (query_num (url_push url q)) + length qs \<le> QUERY_NUM_MAX"
    using eq Cons.prems(2,4) unat_query_num_push [OF num, of q] by simp_all
  note Cons.IH [OF this(1,2) Cons.prems(3) this(3) Cons.prems(5), of "Some ?v"]
  then obtain val' where ih: "url_parse_queries alloc text len (int (length ?pre)) (Some (int (length ?pre))) (Some ?v) (url_push url q)
      = url_parse_queries alloc text len (int (length (?pre @ terminated qs)))
          (Some (int (length (?pre @ terminated qs)))) val' (fold (\<lambda>q u. url_push u q) qs (url_push url q))"
      "if qs = [] then val' = Some ?v else \<exists>v. val' = Some v \<and> v < int (length (?pre @ terminated qs))"
    by blast
  have "?pre @ terminated qs = pre @ terminated (q # qs)"
    by (simp add: q terminated_def)
  moreover have "?v < int (length (?pre @ terminated qs))"
    by (simp add: query_text_def)
  ultimately show ?case
    using step ih by (intro exI [of _ val']) (auto split: if_splits)
qed

lemma fold_push:
  assumes "unat (query_num url) + length qs \<le> QUERY_NUM_MAX"
  shows "unat (query_num (fold (\<lambda>q u. url_push u q) qs url)) = unat (query_num url) + length qs
    \<and> url_queries (fold (\<lambda>q u. url_push u q) qs url) = url_queries url @ qs
    \<and> url_path (fold (\<lambda>q u. url_push u q) qs url) = url_path url"
  using assms
proof (induction qs arbitrary: url)
  case (Cons q qs)
  have num: "unat (query_num url) < QUERY_NUM_MAX"
    using Cons.prems by simp
  have "url_path (url_push url q) = url_path url"
    by (simp add: url_push_def)
  then show ?case
    using Cons.IH [of "url_push url q"] Cons.prems unat_query_num_push [OF num, of q]
      url_queries_push [OF num, of q] by simp
qed simp

text \<open>The last query has no \<open>&\<close> behind it.\<close>

lemma url_parse_last:
  assumes eq: "text = pre @ query_text (k, v)" and pl: "plain k" "plain v" and len: "int (length text) = len"
    and num: "unat (query_num url) < QUERY_NUM_MAX" and alloc: "\<forall>n. alloc n"
  shows "url_parse_queries alloc text len (int (length pre)) (Some (int (length pre))) val url
    = Some (Some (url_push url (k, v)))"
proof -
  have eq': "text = pre @ query_text (k, v) @ []" and le: "int (length (pre @ query_text (k, v))) \<le> len"
    using eq len by simp_all
  have "url_loop alloc text len (int (length pre)) (Some (int (length pre))) val url
      = Some (Some (Some (int (length pre)), Some (int (length pre + length k + 1)),
          int (length (pre @ query_text (k, v))), url))"
    unfolding url_loop_query [OF eq' pl le] using eq len by (subst url_loop.simps) simp
  then show ?thesis
    using url_add_query_stores [OF eq' pl num] alloc by (simp add: url_parse_queries_def)
qed

lemma join_queries_split: "qs \<noteq> [] \<Longrightarrow> join_queries qs = terminated (butlast qs) @ query_text (last qs)"
  by (induction qs rule: join_queries.induct) (simp_all add: terminated_def)

text \<open>Everything up to the queries.\<close>

lemma url_parse_path:
  assumes path: "path \<noteq> []" "CHR ''?'' \<notin> set path" "length path < PATH_MAX"
    and post: "CHR ''?'' \<notin> set post" and len: "length (path @ ''?'' @ post) < 2 ^ 31" and alloc: "\<forall>n. alloc n"
  shows "bscl_url_new_from_text alloc (path @ ''?'' @ post)
    = url_parse_queries alloc (path @ ''?'' @ post) (int (length (path @ ''?'' @ post)))
        (int (length (path @ ''?''))) (Some (int (length (path @ ''?'')))) None
        \<lparr>url_path = path, query_num = 0, query = (\<lambda>_. None)\<rparr>"
proof -
  let ?t = "path @ ''?'' @ post"
  let ?len = "int (length ?t)"
  have "url_find_mark ?t ?len 0 (-1) = url_find_mark ?t ?len (int (length path)) (-1)"
    using url_find_mark_none [of ?t "[]" path "''?'' @ post" ?len "-1"] path by simp
  also have "\<dots> = url_find_mark ?t ?len (int (length (path @ ''?''))) (int (length path))"
    by (subst url_find_mark.simps) (simp add: add.commute)
  also have "\<dots> = url_find_mark ?t ?len ?len (int (length path))"
    using url_find_mark_none [of ?t "path @ ''?''" post "[]" ?len "int (length path)"] post by (simp add: add_ac)
  also have "\<dots> = Some (int (length path))"
    by (subst url_find_mark.simps) simp
  finally have mark: "url_find_mark ?t ?len 0 (-1) = Some (int (length path))" .
  have "copy_part ?t 0 (int (length path)) = Some path"
    using copy_part_mid [of ?t "[]" path "''?'' @ post"] path(3) by simp
  then show ?thesis
    using mark path alloc strlen_int_small [OF len]
    by (simp add: bscl_url_new_from_text_def add.commute)
qed

lemma query_text_plain:
  "plain_query q \<Longrightarrow> CHR ''?'' \<notin> set (query_text q) \<and> length (query_text q) \<le> 255"
  by (cases q) (auto simp: plain_query_def plain_def query_text_def PATH_MAX_def)

lemma terminated_plain:
  assumes "\<forall>q \<in> set qs. plain_query q"
  shows "CHR ''?'' \<notin> set (terminated qs) \<and> length (terminated qs) \<le> 256 * length qs"
  using assms
proof (induction qs)
  case (Cons q qs)
  have "terminated (q # qs) = query_text q @ ''&'' @ terminated qs"
    by (simp add: terminated_def)
  then show ?case
    using Cons query_text_plain [of q] by auto
qed (simp add: terminated_def)

text \<open>All queries but the last.\<close>

lemma url_parse_front:
  assumes path: "path \<noteq> []" "CHR ''?'' \<notin> set path" "length path < PATH_MAX"
    and qs: "\<forall>q \<in> set qs. plain_query q" "length qs \<le> QUERY_NUM_MAX"
    and w: "CHR ''?'' \<notin> set w" "length w \<le> 255" and alloc: "\<forall>n. alloc n"
  shows "\<exists>val' url. bscl_url_new_from_text alloc (path @ ''?'' @ terminated qs @ w)
      = url_parse_queries alloc (path @ ''?'' @ terminated qs @ w)
          (int (length (path @ ''?'' @ terminated qs @ w))) (int (length (path @ ''?'' @ terminated qs)))
          (Some (int (length (path @ ''?'' @ terminated qs)))) val' url
    \<and> url_path url = path \<and> unat (query_num url) = length qs \<and> url_queries url = qs
    \<and> (qs \<noteq> [] \<longrightarrow> (\<exists>v. val' = Some v \<and> v < int (length (path @ ''?'' @ terminated qs))))"
proof -
  let ?t = "path @ ''?'' @ terminated qs @ w"
  let ?url = "\<lparr>url_path = path, query_num = 0, query = (\<lambda>_. None)\<rparr>"
  note tp = terminated_plain [OF qs(1)]
  have "length ?t < 2 ^ 31"
    using tp path(3) qs(2) w(2) by (simp add: PATH_MAX_def QUERY_NUM_MAX_def)
  moreover have "CHR ''?'' \<notin> set (terminated qs @ w)"
    using tp w(1) by simp
  ultimately have start: "bscl_url_new_from_text alloc ?t
    = url_parse_queries alloc ?t (int (length ?t))
        (int (length (path @ ''?''))) (Some (int (length (path @ ''?'')))) None ?url"
    using url_parse_path [OF path _ _ alloc, of "terminated qs @ w"] by blast
  have t: "?t = (path @ ''?'') @ terminated qs @ w"
    by simp
  have num: "unat (query_num ?url) + length qs \<le> QUERY_NUM_MAX"
    using qs(2) by simp
  obtain val' where step: "url_parse_queries alloc ?t (int (length ?t))
        (int (length (path @ ''?''))) (Some (int (length (path @ ''?'')))) None ?url
      = url_parse_queries alloc ?t (int (length ?t)) (int (length ((path @ ''?'') @ terminated qs)))
          (Some (int (length ((path @ ''?'') @ terminated qs)))) val' (fold (\<lambda>q u. url_push u q) qs ?url)"
      "if qs = [] then val' = None
       else \<exists>v. val' = Some v \<and> v < int (length ((path @ ''?'') @ terminated qs))"
    using url_parse_terminated [where val = None, OF t qs(1) refl num alloc] by blast
  have "url_queries ?url = []"
    by (simp add: url_queries_def)
  moreover have "qs \<noteq> [] \<longrightarrow> (\<exists>v. val' = Some v \<and> v < int (length (path @ ''?'' @ terminated qs)))"
    using step(2) by (cases qs) simp_all
  ultimately show ?thesis
    using start step(1) fold_push [OF num]
    by (intro exI [of _ val'] exI [of _ "fold (\<lambda>q u. url_push u q) qs ?url"]) simp
qed

section \<open>Properties\<close>

text \<open>
  C20: Round trip: a path of 1 to 127 characters and up to 16 queries with keys and values of
  at most 127 characters, written as \<open>path?k1=v1&k2=v2\<close>, are parsed to exactly this path and
  these queries in order, as long as memory lasts.
\<close>

theorem bscl_url_roundtrip:
  assumes "path \<noteq> []" "CHR ''?'' \<notin> set path" "length path < PATH_MAX"
    and "\<forall>q \<in> set qs. plain_query q" "length qs \<le> QUERY_NUM_MAX" and "\<forall>n. alloc n"
  shows "\<exists>url. bscl_url_new_from_text alloc (url_text path qs) = Some (Some url)
    \<and> url_path url = path \<and> unat (query_num url) = length qs \<and> url_queries url = qs"
proof (cases "qs = []")
  case True
  then have t: "url_text path qs = path @ ''?'' @ terminated qs @ []"
    by (simp add: url_text_def terminated_def)
  let ?url = "\<lparr>url_path = path, query_num = 0, query = (\<lambda>_. None)\<rparr>"
  have "bscl_url_new_from_text alloc (url_text path qs) = Some (Some ?url)"
    using url_parse_path [OF assms(1-3) _ _ assms(6), of "[]"] assms(3) True
    by (simp add: url_text_def PATH_MAX_def url_parse_queries_def url_loop.simps)
  then show ?thesis
    using True by (simp add: url_queries_def)
next
  case False
  obtain k v where q: "last qs = (k, v)"
    by (cases "last qs")
  have t: "url_text path qs = path @ ''?'' @ terminated (butlast qs) @ query_text (k, v)"
    using join_queries_split [OF False] q by (simp add: url_text_def)
  have pl: "plain_query (k, v)"
    using assms(4) False q by (metis last_in_set)
  have front: "\<forall>q \<in> set (butlast qs). plain_query q" "length (butlast qs) \<le> QUERY_NUM_MAX"
    using assms(4,5) by (auto dest: in_set_butlastD)
  obtain val' url where start: "bscl_url_new_from_text alloc (url_text path qs)
      = url_parse_queries alloc (url_text path qs) (int (length (url_text path qs)))
          (int (length (path @ ''?'' @ terminated (butlast qs))))
          (Some (int (length (path @ ''?'' @ terminated (butlast qs))))) val' url"
    and url: "url_path url = path" "unat (query_num url) = length (butlast qs)" "url_queries url = butlast qs"
    using url_parse_front [OF assms(1-3) front _ _ assms(6), of "query_text (k, v)"]
      query_text_plain [OF pl] unfolding t by blast
  have num: "unat (query_num url) < QUERY_NUM_MAX"
    using url(2) assms(5) False by (cases qs) simp_all
  have "url_text path qs = (path @ ''?'' @ terminated (butlast qs)) @ query_text (k, v)"
    using t by simp
  note url_parse_last [OF this _ _ refl num assms(6), of val']
  then have "bscl_url_new_from_text alloc (url_text path qs) = Some (Some (url_push url (k, v)))"
    using start pl by (simp add: plain_query_def)
  moreover have "url_queries (url_push url (k, v)) = qs"
    using url_queries_push [OF num] url(3) q False by (metis append_butlast_last_id)
  moreover have "unat (query_num (url_push url (k, v))) = length qs"
    using unat_query_num_push [OF num] url(2) False by (cases qs) simp_all
  ultimately show ?thesis
    using url(1) by (simp add: url_push_def)
qed

lemma bscl_url_roundtrip_witness:
  "\<exists>url. bscl_url_new_from_text (\<lambda>_. True) ''/a?x=1&y='' = Some (Some url)
    \<and> url_path url = ''/a'' \<and> url_queries url = [(''x'', ''1''), (''y'', [])]"
  using bscl_url_roundtrip [of "''/a''" "[(''x'', ''1''), (''y'', [])]" "\<lambda>_. True"]
  by (auto simp: url_text_def query_text_def plain_query_def plain_def PATH_MAX_def QUERY_NUM_MAX_def)

text \<open>
  What the parser does not survive: after a complete query, a last part without an equals
  sign is cut with the value of the query before it, and the length of its key becomes negative;
  and a seventeenth query is written behind the array of queries.
\<close>

lemma bscl_url_bad_queries:
  assumes "path \<noteq> []" "CHR ''?'' \<notin> set path" "length path < PATH_MAX"
    and "\<forall>q \<in> set qs. plain_query q" "qs \<noteq> []" "length qs \<le> QUERY_NUM_MAX" and "\<forall>n. alloc n"
    and "plain w" "plain_query q"
  shows "bscl_url_new_from_text alloc (path @ ''?'' @ terminated qs @ w) = None
    \<and> (length qs = QUERY_NUM_MAX \<longrightarrow> bscl_url_new_from_text alloc (url_text path (qs @ [q])) = None)"
proof
  let ?pre = "path @ ''?'' @ terminated qs"
  have w: "CHR ''?'' \<notin> set w" "length w \<le> 255"
    using assms(8) by (simp_all add: plain_def PATH_MAX_def)
  obtain val' url v where start: "bscl_url_new_from_text alloc (path @ ''?'' @ terminated qs @ w)
      = url_parse_queries alloc (path @ ''?'' @ terminated qs @ w)
          (int (length (path @ ''?'' @ terminated qs @ w))) (int (length ?pre)) (Some (int (length ?pre))) val' url"
      "val' = Some v" "v < int (length ?pre)"
    using url_parse_front [OF assms(1-4,6) w assms(7)] assms(5) by blast
  have "url_loop alloc (?pre @ w) (int (length (?pre @ w))) (int (length ?pre)) (Some (int (length ?pre))) val' url
      = Some (Some (Some (int (length ?pre)), val', int (length (?pre @ w)), url))"
    using assms(8) by (subst url_loop_plain [where pre = ?pre and xs = w and post = "[]"])
      (simp_all add: plain_def url_loop.simps)
  then show "bscl_url_new_from_text alloc (path @ ''?'' @ terminated qs @ w) = None"
    using start assms(7) by (simp add: url_parse_queries_def url_add_query_def copy_part_def Let_def)
next
  show "length qs = QUERY_NUM_MAX \<longrightarrow> bscl_url_new_from_text alloc (url_text path (qs @ [q])) = None"
  proof
    assume len: "length qs = QUERY_NUM_MAX"
    obtain k v where q: "q = (k, v)"
      by (cases q)
    have pl: "plain k" "plain v"
      using assms(9) by (simp_all add: q plain_query_def)
    let ?pre = "path @ ''?'' @ terminated qs"
    have t: "url_text path (qs @ [q]) = path @ ''?'' @ terminated qs @ query_text q"
      using join_queries_split [of "qs @ [q]"] by (simp add: url_text_def)
    then have t': "url_text path (qs @ [q]) = ?pre @ query_text (k, v) @ []"
      by (simp add: q)
    obtain val' url where start: "bscl_url_new_from_text alloc (url_text path (qs @ [q]))
        = url_parse_queries alloc (url_text path (qs @ [q])) (int (length (url_text path (qs @ [q]))))
            (int (length ?pre)) (Some (int (length ?pre))) val' url" "unat (query_num url) = length qs"
      using url_parse_front [OF assms(1-4,6) _ _ assms(7), of "query_text q"] query_text_plain [OF assms(9)]
      unfolding t by blast
    have "url_loop alloc (url_text path (qs @ [q])) (int (length (url_text path (qs @ [q])))) (int (length ?pre))
          (Some (int (length ?pre))) val' url
        = Some (Some (Some (int (length ?pre)), Some (int (length ?pre + length k + 1)),
            int (length (url_text path (qs @ [q]))), url))"
      by (subst url_loop_query [OF t' pl]) (simp_all add: t' url_loop.simps)
    then show "bscl_url_new_from_text alloc (url_text path (qs @ [q])) = None"
      using start len by (simp add: url_parse_queries_def url_add_query_def)
  qed
qed

lemma bscl_url_bad_queries_witness:
  "bscl_url_new_from_text (\<lambda>_. True) ''/a?x=1&y'' = None
   \<and> bscl_url_new_from_text (\<lambda>_. True) (url_text ''/a'' (replicate 16 (''x'', ''1'') @ [(''y'', ''2'')])) = None"
proof
  show "bscl_url_new_from_text (\<lambda>_. True) ''/a?x=1&y'' = None"
    using bscl_url_bad_queries [of "''/a''" "[(''x'', ''1'')]" "\<lambda>_. True" "''y''" "(''y'', ''2'')"]
    by (simp add: terminated_def query_text_def plain_query_def plain_def PATH_MAX_def QUERY_NUM_MAX_def)
  show "bscl_url_new_from_text (\<lambda>_. True) (url_text ''/a'' (replicate 16 (''x'', ''1'') @ [(''y'', ''2'')])) = None"
    using bscl_url_bad_queries [of "''/a''" "replicate 16 (''x'', ''1'')" "\<lambda>_. True" "''y''" "(''y'', ''2'')"]
    by (simp add: plain_query_def plain_def PATH_MAX_def QUERY_NUM_MAX_def)
qed

end
