(* ===== verification/Ftpd_Line.thy ===== *)
theory Ftpd_Line
  imports Cstring
begin

text \<open>
  The command lines of the FTP server \<open>src/bscl_ftpd.c\<close>: splitting a line, in place, into the
  command, its options and its arguments.
\<close>

section \<open>Characters\<close>

definition toupper :: "char \<Rightarrow> char" where
  "toupper c = (if 97 \<le> (of_char c :: nat) \<and> (of_char c :: nat) \<le> 122 then char_of (of_char c - (32 :: nat)) else c)"

section \<open>Splitting\<close>

text \<open>The loop of \<open>skip_options\<close>: where the arguments begin and where the options end.\<close>

partial_function (option) skip_options_loop :: "string \<Rightarrow> nat \<Rightarrow> nat option \<Rightarrow> (nat \<times> nat option) option" where
  [code]: "skip_options_loop mem buf lst = do {
     buf \<leftarrow> skip_while isspace mem buf;
     c \<leftarrow> char_at mem buf;
     if c = CHR ''-'' then do {
       let buf = buf + 1;
       c \<leftarrow> char_at mem buf;
       (stop, buf) \<leftarrow> (if c = CHR ''-'' then do {
           let buf = buf + 1;
           c \<leftarrow> char_at mem buf;
           Some (isspace c, buf)
         } else Some (False, buf));
       if stop then do {
         let lst = Some buf;
         buf \<leftarrow> skip_while isspace mem (buf + 1);
         Some (buf, lst)
       }
       else do {
         buf \<leftarrow> skip_while (\<lambda>c. c \<noteq> NUL \<and> \<not> isspace c) mem buf;
         skip_options_loop mem buf (Some buf)
       }
     }
     else Some (buf, lst)
   }"

definition skip_options :: "string \<Rightarrow> nat \<Rightarrow> (string \<times> nat) option" where
  "skip_options mem p = do {
     (buf, lst) \<leftarrow> skip_options_loop mem p None;
     mem \<leftarrow> (case lst of None \<Rightarrow> Some mem | Some l \<Rightarrow> set_char mem l NUL);
     Some (mem, buf)
   }"

text \<open>The command in upper case, up to the first space or the end.\<close>

function upcase_word :: "string \<Rightarrow> nat \<Rightarrow> (string \<times> nat) option" where
  "upcase_word mem p =
     (if p < length mem then
        if mem ! p \<noteq> NUL \<and> \<not> isspace (mem ! p)
        then upcase_word (mem[p := toupper (mem ! p)]) (p + 1) else Some (mem, p)
      else None)"
  by pat_completeness auto

termination
  by (relation "measure (\<lambda>(mem, p). length mem - p)") auto

declare upcase_word.simps [simp del]

text \<open>\<open>if (*p) *p++ = 0;\<close>\<close>

definition cut_at :: "string \<Rightarrow> nat \<Rightarrow> (string \<times> nat) option" where
  "cut_at mem p = do {
     c \<leftarrow> char_at mem p;
     if c \<noteq> NUL then do { mem \<leftarrow> set_char mem p NUL; Some (mem, p + 1) } else Some (mem, p)
   }"

text \<open>The buffer after the call and the three pointers \<open>cmd\<close>, \<open>opts\<close> and \<open>args\<close>.\<close>

definition split_command :: "string \<Rightarrow> nat \<Rightarrow> (string \<times> nat \<times> nat \<times> nat) option" where
  "split_command mem buf = do {
     p \<leftarrow> skip_while isspace mem buf;
     let cmd = p;
     (mem, p) \<leftarrow> upcase_word mem p;
     let eoc = p;
     (mem, p) \<leftarrow> cut_at mem p;
     p \<leftarrow> skip_while isspace mem p;
     let opts = p;
     (mem, p) \<leftarrow> skip_options mem p;
     let args = p;
     let opts = (if opts = p then eoc else opts);
     p \<leftarrow> skip_while (\<lambda>c. c \<noteq> NUL \<and> c \<noteq> CHR 0x0D \<and> c \<noteq> CHR 0x0A) mem p;
     (mem, p) \<leftarrow> cut_at mem p;
     Some (mem, cmd, opts, args)
   }"

section \<open>The loops\<close>

lemma upcase_word_runs:
  assumes "list_all (\<lambda>c. c \<noteq> NUL \<and> \<not> isspace c) xs" and "c = NUL \<or> isspace c"
  shows "upcase_word (pre @ xs @ c # post) (length pre)
    = Some (pre @ map toupper xs @ c # post, length (pre @ xs))"
  using assms
proof (induction xs arbitrary: pre)
  case Nil
  then show ?case by (subst upcase_word.simps) auto
next
  case (Cons x xs)
  have "(pre @ (x # xs) @ c # post) ! length pre = x"
    by simp
  then have "upcase_word (pre @ (x # xs) @ c # post) (length pre)
      = upcase_word ((pre @ [toupper x]) @ xs @ c # post) (length (pre @ [toupper x]))"
    using Cons.prems by (subst upcase_word.simps) simp
  then show ?case
    using Cons.IH [of "pre @ [toupper x]"] Cons.prems by simp
qed

text \<open>A list of options: each a dash, a word and the spaces behind it.\<close>

definition option_text :: "(string \<times> string) list \<Rightarrow> string" where
  "option_text os = concat (map (\<lambda>(w, sp). CHR ''-'' # w @ sp) os)"

definition plain_option :: "string \<times> string \<Rightarrow> bool" where
  "plain_option = (\<lambda>(w, sp). list_all (\<lambda>c. c \<noteq> NUL \<and> \<not> isspace c) w \<and> (w = [] \<or> hd w \<noteq> CHR ''-'')
     \<and> sp \<noteq> [] \<and> list_all isspace sp)"

definition ends_options :: "char \<Rightarrow> bool" where
  "ends_options c \<longleftrightarrow> \<not> isspace c \<and> c \<noteq> CHR ''-''"

lemma skip_options_loop_runs:
  assumes "list_all plain_option os" and "ends_options c" and "list_all isspace sp0"
  shows "skip_options_loop (pre @ sp0 @ option_text os @ c # post) (length pre) lst
    = Some (length (pre @ sp0 @ option_text os),
        if os = [] then lst else Some (length (pre @ sp0 @ option_text os) - length (snd (last os))))"
  using assms
proof (induction os arbitrary: pre sp0 lst)
  case Nil
  have "skip_while isspace (pre @ sp0 @ c # post) (length pre) = Some (length (pre @ sp0))"
    by (rule skip_while_stops [OF refl Nil(3)]) (use Nil(2) in \<open>simp add: ends_options_def\<close>)
  moreover have "char_at (pre @ sp0 @ c # post) (length (pre @ sp0)) = Some c"
    by (simp add: char_at_def nth_append)
  ultimately show ?case
    using Nil(2) by (subst skip_options_loop.simps) (simp add: option_text_def ends_options_def)
next
  case (Cons y os)
  obtain w sp where y: "y = (w, sp)"
    by (cases y)
  obtain b sp' where sp: "sp = b # sp'" "isspace b" "list_all isspace sp'" and w: "list_all (\<lambda>c. c \<noteq> NUL \<and> \<not> isspace c) w"
      "w = [] \<or> hd w \<noteq> CHR ''-''"
    using Cons.prems(1) by (cases sp) (auto simp: y plain_option_def)
  let ?mem = "pre @ sp0 @ option_text (y # os) @ c # post"
  let ?rest = "option_text os @ c # post"
  have mem: "?mem = pre @ sp0 @ CHR ''-'' # (w @ sp @ ?rest)"
    by (simp add: y option_text_def)
  have mem': "?mem = (pre @ sp0 @ ''-'') @ w @ b # (sp' @ ?rest)"
    by (simp add: y sp option_text_def)
  have mem'': "?mem = (pre @ sp0 @ ''-'' @ w) @ sp @ option_text os @ c # post"
    by (simp add: y option_text_def)
  have s1: "skip_while isspace ?mem (length pre) = Some (length (pre @ sp0))"
    by (rule skip_while_stops [OF mem Cons.prems(3)]) (simp add: isspace_def)
  have c1: "char_at ?mem (length (pre @ sp0)) = Some (CHR ''-'')"
    by (simp add: mem char_at_def nth_append)
  obtain d where c2: "char_at ?mem (length (pre @ sp0) + 1) = Some d" "d \<noteq> CHR ''-''"
  proof (cases w)
    case Nil
    then show ?thesis
      using that [of b] sp(2) by (auto simp: mem' char_at_def nth_append isspace_def)
  next
    case (Cons x xs)
    then show ?thesis
      using that [of x] w(2) by (simp add: mem' char_at_def nth_append)
  qed
  have s2: "skip_while (\<lambda>c. c \<noteq> NUL \<and> \<not> isspace c) ?mem (length (pre @ sp0 @ ''-''))
      = Some (length ((pre @ sp0 @ ''-'') @ w))"
    by (rule skip_while_stops [OF mem' w(1)]) (simp add: sp(2))
  have "skip_options_loop ?mem (length pre) lst
      = skip_options_loop ?mem (length (pre @ sp0 @ ''-'' @ w)) (Some (length (pre @ sp0 @ ''-'' @ w)))"
    using s1 c1 c2 s2 by (subst skip_options_loop.simps) (simp add: add.commute)
  also have "\<dots> = Some (length ((pre @ sp0 @ ''-'' @ w) @ sp @ option_text os),
      if os = [] then Some (length (pre @ sp0 @ ''-'' @ w))
      else Some (length ((pre @ sp0 @ ''-'' @ w) @ sp @ option_text os) - length (snd (last os))))"
    unfolding mem'' using Cons.IH [of sp "pre @ sp0 @ ''-'' @ w"] Cons.prems(1,2) sp by (simp add: y)
  finally show ?case
    by (auto simp: y option_text_def)
qed

text \<open>What remains of the options after the last one was cut off from the arguments.\<close>

definition option_string :: "(string \<times> string) list \<Rightarrow> string" where
  "option_string os = (if os = [] then [] else option_text (butlast os) @ CHR ''-'' # fst (last os))"

definition option_rest :: "(string \<times> string) list \<Rightarrow> string" where
  "option_rest os = (if os = [] then [] else NUL # tl (snd (last os)))"

lemma no_NUL: "list_all (\<lambda>c. c \<noteq> NUL \<and> \<not> isspace c) w \<Longrightarrow> NUL \<notin> set w" "list_all isspace sp \<Longrightarrow> NUL \<notin> set sp"
  unfolding list_all_iff using isspace_NUL by blast+

lemma option_text_no_NUL: "list_all plain_option os \<Longrightarrow> NUL \<notin> set (option_text os)"
proof (induction os)
  case (Cons y os)
  obtain w sp where y: "y = (w, sp)"
    by (cases y)
  then have "NUL \<notin> set w" and "NUL \<notin> set sp"
    using Cons.prems no_NUL by (simp_all add: plain_option_def)
  then show ?case
    using Cons by (simp add: y option_text_def)
qed (simp add: option_text_def)

lemma option_text_split:
  assumes "list_all plain_option os" and "os \<noteq> []"
  shows "\<exists>b. option_text os = option_string os @ b # tl (option_rest os)"
    and "length (option_text os) = length (option_string os) + length (snd (last os))"
proof -
  obtain os1 w sp where os: "os = os1 @ [(w, sp)]"
    using assms(2) by (metis append_butlast_last_id surj_pair)
  have "sp \<noteq> []"
    using assms(1) by (simp add: os plain_option_def)
  then show "\<exists>b. option_text os = option_string os @ b # tl (option_rest os)"
    and "length (option_text os) = length (option_string os) + length (snd (last os))"
    by (cases sp; simp add: os option_text_def option_string_def option_rest_def)+
qed

lemma skip_options_runs:
  assumes "list_all plain_option os" and "ends_options c"
  shows "skip_options (pre @ option_text os @ c # post) (length pre)
    = Some (pre @ (option_string os @ option_rest os) @ c # post, length (pre @ option_text os))"
proof -
  note loop = skip_options_loop_runs [OF assms, of "[]" pre post None, simplified]
  show ?thesis
  proof (cases "os = []")
    case True
    then show ?thesis
      using loop by (simp add: skip_options_def option_string_def option_rest_def option_text_def)
  next
    case False
    obtain b where b: "option_text os = option_string os @ b # tl (option_rest os)"
      using option_text_split(1) [OF assms(1) False] by blast
    have l: "length pre + length (option_text os) - length (snd (last os)) = length (pre @ option_string os)"
      using option_text_split(2) [OF assms(1) False] by simp
    have "set_char (pre @ option_text os @ c # post) (length (pre @ option_string os)) NUL
        = Some (pre @ (option_string os @ option_rest os) @ c # post)"
      using False unfolding b set_char_def by (simp add: list_update_append option_rest_def)
    then show ?thesis
      using loop False l by (simp add: skip_options_def)
  qed
qed

lemma cut_at_runs:
  "cut_at (pre @ c # post) (length pre)
    = Some (pre @ NUL # post, if c = NUL then length pre else length pre + 1)"
  by (simp add: cut_at_def char_at_def set_char_def)

lemma toupper_NUL: "c \<noteq> NUL \<Longrightarrow> toupper c \<noteq> NUL"
proof -
  assume c: "c \<noteq> NUL"
  have "char_of (of_char c - (32 :: nat)) \<noteq> NUL" if "97 \<le> (of_char c :: nat)" "(of_char c :: nat) \<le> 122"
  proof
    assume "char_of (of_char c - (32 :: nat)) = NUL"
    then have "of_char (char_of (of_char c - (32 :: nat))) = (0 :: nat)"
      by simp
    then show False
      using that by (simp add: take_bit_eq_mod)
  qed
  then show ?thesis
    using c by (auto simp: toupper_def)
qed

text \<open>A line in its parts: the line ends after the arguments, or at the end of the buffer.\<close>

definition plain_args :: "string \<Rightarrow> string \<Rightarrow> bool" where
  "plain_args a eol \<longleftrightarrow> list_all (\<lambda>c. c \<noteq> NUL \<and> c \<noteq> CHR 0x0D \<and> c \<noteq> CHR 0x0A) a
     \<and> (a \<noteq> [] \<longrightarrow> ends_options (hd a)) \<and> (a = [] \<longrightarrow> eol = [])
     \<and> (eol \<noteq> [] \<longrightarrow> hd eol = CHR 0x0D \<or> hd eol = CHR 0x0A)"

lemma upcased_no_NUL:
  assumes "list_all (\<lambda>c. c \<noteq> NUL \<and> \<not> isspace c) w"
  shows "NUL \<notin> set (map toupper w)"
proof
  assume "NUL \<in> set (map toupper w)"
  then obtain x where "x \<in> set w" "toupper x = NUL"
    by (metis imageE list.set_map)
  then show False
    using assms toupper_NUL unfolding list_all_iff by blast
qed

lemma option_string_read:
  assumes os: "list_all plain_option os" "os \<noteq> []"
  shows "cstr_at (A @ option_string os @ option_rest os @ post) (length A) = Some (option_string os)"
proof -
  have "NUL \<notin> set (option_string os)"
    using option_text_no_NUL [OF os(1)] option_text_split(1) [OF os] by auto
  then show ?thesis
    using cstr_at_runs [of "option_string os" A "tl (snd (last os)) @ post"] os(2)
    by (simp add: option_rest_def)
qed

lemma split_arguments:
  assumes "plain_args a eol"
  obtains c post e post' where "a @ eol @ NUL # junk = c # post" "ends_options c"
    "eol @ NUL # junk = e # post'" "e = NUL \<or> e = CHR 0x0D \<or> e = CHR 0x0A"
proof -
  obtain c post where cp: "a @ eol @ NUL # junk = c # post" "ends_options c"
    using assms by (cases a) (auto simp: plain_args_def ends_options_def)
  obtain e post' where ep: "eol @ NUL # junk = e # post'" "e = NUL \<or> e = CHR 0x0D \<or> e = CHR 0x0A"
    using assms by (cases eol) (auto simp: plain_args_def)
  show thesis
    by (rule that [OF cp ep])
qed

lemma split_command_runs:
  assumes w: "w \<noteq> []" "list_all (\<lambda>c. c \<noteq> NUL \<and> \<not> isspace c) w"
    and sp: "list_all isspace sp1" "isspace d" "list_all isspace sp2"
    and os: "list_all plain_option os" and a: "plain_args a eol"
  shows "\<exists>mem' cmd opts args.
    split_command (pre @ sp1 @ w @ d # sp2 @ option_text os @ a @ eol @ NUL # junk) (length pre)
      = Some (mem', cmd, opts, args)
    \<and> cstr_at mem' cmd = Some (map toupper w) \<and> cstr_at mem' opts = Some (option_string os)
    \<and> cstr_at mem' args = Some a"
proof -
  obtain c post e post' where cp: "a @ eol @ NUL # junk = c # post" "ends_options c"
    and ep: "eol @ NUL # junk = e # post'" "e = NUL \<or> e = CHR 0x0D \<or> e = CHR 0x0A"
    by (rule split_arguments [OF a])
  let ?W = "map toupper w"
  let ?mem = "pre @ sp1 @ w @ d # sp2 @ option_text os @ a @ eol @ NUL # junk"
  obtain w1 ws where w1: "w = w1 # ws" "\<not> isspace w1"
    using w by (cases w) auto
  have s1: "skip_while isspace ?mem (length pre) = Some (length (pre @ sp1))"
    by (rule skip_while_stops [where c = w1]) (use w1 sp(1) in simp_all)
  have s2: "upcase_word ?mem (length (pre @ sp1))
      = Some (pre @ sp1 @ ?W @ d # sp2 @ option_text os @ c # post, length (pre @ sp1 @ ?W))"
    using upcase_word_runs [OF w(2), of d "pre @ sp1" "sp2 @ option_text os @ c # post"] sp(2) cp(1) by simp
  have d: "d \<noteq> NUL"
    using sp(2) by auto
  have s3: "cut_at (pre @ sp1 @ ?W @ d # sp2 @ option_text os @ c # post) (length (pre @ sp1 @ ?W))
      = Some ((pre @ sp1 @ ?W @ NUL # sp2) @ option_text os @ c # post, length (pre @ sp1 @ ?W @ [NUL]))"
    using cut_at_runs [of "pre @ sp1 @ ?W" d "sp2 @ option_text os @ c # post"] d by simp
  let ?A = "pre @ sp1 @ ?W @ NUL # sp2"
  obtain f rest where f: "option_text os @ c # post = f # rest" "\<not> isspace f"
    using cp(2) by (cases os) (auto simp: option_text_def ends_options_def isspace_def split: prod.splits)
  have s4: "skip_while isspace (?A @ option_text os @ c # post) (length (pre @ sp1 @ ?W @ [NUL])) = Some (length ?A)"
    using skip_while_stops [of "?A @ option_text os @ c # post" "pre @ sp1 @ ?W @ [NUL]" sp2 f rest isspace] sp(3) f
    by simp
  have len: "length (option_string os @ option_rest os) = length (option_text os)"
    using option_text_split(1) [OF os]
    by (cases "os = []") (auto simp: option_string_def option_rest_def option_text_def)
  let ?B = "?A @ option_string os @ option_rest os"
  have B: "length ?B = length (?A @ option_text os)"
    using len by simp
  have s5: "skip_options (?A @ option_text os @ c # post) (length ?A) = Some (?B @ c # post, length ?B)"
    unfolding B using skip_options_runs [OF os cp(2), of ?A post] by (simp only: append_assoc)
  have s6: "skip_while (\<lambda>c. c \<noteq> NUL \<and> c \<noteq> CHR 0x0D \<and> c \<noteq> CHR 0x0A) (?B @ c # post) (length ?B)
      = Some (length (?B @ a))"
    by (rule skip_while_stops [where c = e and post = post'])
      (use a ep cp(1) in \<open>auto simp: plain_args_def simp flip: cp(1)\<close>)
  have s7: "cut_at (?B @ c # post) (length (?B @ a)) = Some ((?B @ a) @ NUL # post',
      if e = NUL then length (?B @ a) else length (?B @ a) + 1)"
    using cut_at_runs [of "?B @ a" e post'] cp(1) ep(1) by simp
  let ?opts = "if length ?A = length ?B then length (pre @ sp1 @ ?W) else length ?A"
  have "split_command ?mem (length pre) = Some ((?B @ a) @ NUL # post', length (pre @ sp1), ?opts, length ?B)"
    unfolding split_command_def Let_def s1 bind.bind_lunit s2 prod.case s3 s4 s5 s6 s7
    by (rule refl)
  moreover have "cstr_at ((?B @ a) @ NUL # post') (length (pre @ sp1)) = Some ?W"
    using cstr_at_runs [of ?W "pre @ sp1" "sp2 @ (option_string os @ option_rest os) @ a @ NUL # post'"]
      upcased_no_NUL [OF w(2)] by simp
  moreover have "cstr_at ((?B @ a) @ NUL # post') (length ?B) = Some a"
    using cstr_at_runs [of a ?B post'] a by (auto simp: plain_args_def list_all_iff)
  moreover have "cstr_at ((?B @ a) @ NUL # post') ?opts = Some (option_string os)"
  proof (cases "os = []")
    case True
    then show ?thesis
      using cstr_at_runs [of "[]" "pre @ sp1 @ ?W" "sp2 @ a @ NUL # post'"]
      by (simp add: option_string_def option_rest_def)
  next
    case False
    then show ?thesis
      using option_string_read [OF os, of ?A "a @ NUL # post'"] by (simp add: option_rest_def)
  qed
  ultimately show ?thesis
    by blast
qed

end
