(* ===== verification/Fs.thy ===== *)
theory Fs
  imports Cstring
begin

text \<open>The types and constants of the file system interface \<open>include/bscl_fs.h\<close>.\<close>

definition BSCL_FS_PATH_MAX :: nat where "BSCL_FS_PATH_MAX = 128"

definition BSCL_FS_TYPE_DIR :: u8 where "BSCL_FS_TYPE_DIR = 0"
definition BSCL_FS_TYPE_REG :: u8 where "BSCL_FS_TYPE_REG = 1"

definition BSCL_FS_MODE_WRITE :: u8 where "BSCL_FS_MODE_WRITE = 2"
definition BSCL_FS_MODE_READ :: u8 where "BSCL_FS_MODE_READ = 1"
definition BSCL_FS_MODE_CREATE :: u8 where "BSCL_FS_MODE_CREATE = 4"
definition BSCL_FS_MODE_TRUNC :: u8 where "BSCL_FS_MODE_TRUNC = 8"

definition BSCL_FS_SEEK_SET :: u8 where "BSCL_FS_SEEK_SET = 0"
definition BSCL_FS_SEEK_CUR :: u8 where "BSCL_FS_SEEK_CUR = 1"
definition BSCL_FS_SEEK_END :: u8 where "BSCL_FS_SEEK_END = 2"

record bscl_fs_stat_buf =
  st_type :: u8
  st_size :: u32
  st_time :: int

record bscl_fs_dirent =
  d_type :: u8
  d_name :: string

end
