(* ===== verification/Ftpd.thy ===== *)
theory Ftpd
  imports Ftpd_Line Bytes Fs
begin

text \<open>
  The sessions of the FTP server \<open>src/bscl_ftpd.c\<close>: the handlers of the commands, the data
  connection and the loop of a session.

  The sockets, the clock and the callbacks for the file system, none of which is in the source,
  are a record of functions on a state of their own, the parameter \<open>E\<close>. What a session sends and
  which sockets it closes is logged in order, whatever the functions return. Addresses and ports
  are what lies in memory, so in network order.
\<close>

section \<open>Data\<close>

definition FTPD_MODE_BINARY :: int where "FTPD_MODE_BINARY = 0"
definition FTPD_MODE_ASCII :: int where "FTPD_MODE_ASCII = 1"
definition FTPD_CMD_BUF_SIZE :: nat where "FTPD_CMD_BUF_SIZE = 256"
definition FTPD_DATA_BUF_SIZE :: nat where "FTPD_DATA_BUF_SIZE = 4 * 1024"
definition FTPD_SYSTYPE :: string where "FTPD_SYSTYPE = ''windows''"
definition FTPD_SERVER_MESSAGE :: string where "FTPD_SERVER_MESSAGE = ''ftpd ready.''"

record sockaddr_in =
  sin_addr :: u32
  sin_port :: u16

record ftpd_session_t =
  ctrl_addr :: sockaddr_in
  data_addr :: sockaddr_in
  ctrl_socket :: int
  data_sock :: int
  xfer_mode :: int
  pasive :: bool
  self_control_port :: u16

record 'e ftpd_env =
  e_send :: "int \<Rightarrow> string \<Rightarrow> 'e \<Rightarrow> int \<times> 'e"
  e_recv :: "int \<Rightarrow> 'e \<Rightarrow> (int \<times> char) \<times> 'e"
  e_delete :: "int \<Rightarrow> 'e \<Rightarrow> int \<times> 'e"
  e_socket :: "'e \<Rightarrow> int \<times> 'e"
  e_setsockopt :: "int \<Rightarrow> 'e \<Rightarrow> int \<times> 'e"
  e_bind :: "int \<Rightarrow> sockaddr_in \<Rightarrow> 'e \<Rightarrow> (int \<times> bool) \<times> 'e"
  e_connect :: "int \<Rightarrow> sockaddr_in \<Rightarrow> 'e \<Rightarrow> int \<times> 'e"
  e_listen :: "int \<Rightarrow> 'e \<Rightarrow> int \<times> 'e"
  e_accept :: "int \<Rightarrow> 'e \<Rightarrow> (int \<times> sockaddr_in) \<times> 'e"
  e_getsockname :: "int \<Rightarrow> 'e \<Rightarrow> (int \<times> sockaddr_in) \<times> 'e"
  e_time :: "'e \<Rightarrow> int \<times> 'e"
  e_strftime :: "bool \<Rightarrow> int \<Rightarrow> string"
  e_strerror :: "'e \<Rightarrow> string \<times> 'e"
  e_stack :: "'e \<Rightarrow> string \<times> 'e"
  cb_open :: "string \<Rightarrow> u8 \<Rightarrow> 'e \<Rightarrow> int \<times> 'e"
  cb_read :: "int \<Rightarrow> nat \<Rightarrow> 'e \<Rightarrow> (int \<times> string) \<times> 'e"
  cb_close :: "int \<Rightarrow> 'e \<Rightarrow> int \<times> 'e"
  cb_stat :: "string \<Rightarrow> 'e \<Rightarrow> (int \<times> bscl_fs_stat_buf) \<times> 'e"
  cb_opendir :: "string \<Rightarrow> 'e \<Rightarrow> int \<times> 'e"
  cb_readdir :: "int \<Rightarrow> 'e \<Rightarrow> (int \<times> string) \<times> 'e"
  cb_closedir :: "int \<Rightarrow> 'e \<Rightarrow> int \<times> 'e"
  cb_remove :: "string \<Rightarrow> 'e \<Rightarrow> int \<times> 'e"
  cb_chdir :: "string \<Rightarrow> 'e \<Rightarrow> int \<times> 'e"
  cb_getcwd :: "nat \<Rightarrow> 'e \<Rightarrow> string option \<times> 'e"

record 'e ftpd =
  session :: ftpd_session_t
  sent :: "(int \<times> string) list"
  closed :: "int list"
  env :: 'e

definition htons :: "u16 \<Rightarrow> u16" where
  "htons p = of_le16 (rev (le16 p))"

abbreviation ntohs :: "u16 \<Rightarrow> u16" where
  "ntohs \<equiv> htons"

definition env_call :: "('e \<Rightarrow> 'r \<times> 'e) \<Rightarrow> 'e ftpd \<Rightarrow> 'r \<times> 'e ftpd" where
  "env_call f st = (let (r, e) = f (env st) in (r, st\<lparr>env := e\<rparr>))"

definition ftpd_send :: "'e ftpd_env \<Rightarrow> 'e ftpd \<Rightarrow> int \<Rightarrow> string \<Rightarrow> int \<times> 'e ftpd" where
  "ftpd_send E st fd bytes =
     (let (r, st) = env_call (e_send E fd bytes) st in (r, st\<lparr>sent := sent st @ [(fd, bytes)]\<rparr>))"

definition ftpd_tcp_delete :: "'e ftpd_env \<Rightarrow> 'e ftpd \<Rightarrow> int \<Rightarrow> int \<times> 'e ftpd" where
  "ftpd_tcp_delete E st fd =
     (let (r, st) = env_call (e_delete E fd) st in (r, st\<lparr>closed := closed st @ [fd]\<rparr>))"

abbreviation set_session :: "(ftpd_session_t \<Rightarrow> ftpd_session_t) \<Rightarrow> 'e ftpd \<Rightarrow> 'e ftpd" where
  "set_session f st \<equiv> st\<lparr>session := f (session st)\<rparr>"

abbreviation CRLF :: string where
  "CRLF \<equiv> [CHR 0x0D, CHR 0x0A]"

text \<open>
  \<open>len = snprintf(buf, size, ...); send(fd, buf, len, 0)\<close>: the length is that of the whole text,
  so a text that was cut to fit is sent with what lies behind the buffer.
\<close>

definition send_printed :: "'e ftpd_env \<Rightarrow> 'e ftpd \<Rightarrow> int \<Rightarrow> nat \<Rightarrow> string \<Rightarrow> (int \<times> 'e ftpd) option" where
  "send_printed E st fd buf_len printed =
     (if length printed < buf_len then Some (ftpd_send E st fd printed)
      else if length printed = buf_len then Some (ftpd_send E st fd (butlast printed @ [NUL]))
      else None)"

section \<open>Replies and lines\<close>

definition set_socket_timeout :: "'e ftpd_env \<Rightarrow> 'e ftpd \<Rightarrow> int \<Rightarrow> int \<times> 'e ftpd" where
  "set_socket_timeout E st s =
     (let (r, st) = env_call (e_setsockopt E s) st in
      if r \<noteq> 0 then (0, st)
      else let (r, st) = env_call (e_setsockopt E s) st in
      if r \<noteq> 0 then (0, st) else (1, st))"

definition close_stream :: "'e ftpd_env \<Rightarrow> 'e ftpd \<Rightarrow> 'e ftpd" where
  "close_stream E st =
     (if ctrl_socket (session st) < 0 then st
      else let (_, st) = ftpd_tcp_delete E st (ctrl_socket (session st)) in
        set_session (\<lambda>s. s\<lparr>ctrl_socket := -1\<rparr>) st)"

definition can_write :: int where
  "can_write = -1"

definition reply_text :: "nat \<Rightarrow> string \<Rightarrow> string" where
  "reply_text code txt = dec code @ '' '' @ txt @ CRLF"

definition send_ctrl_reply :: "'e ftpd_env \<Rightarrow> 'e ftpd \<Rightarrow> nat \<Rightarrow> string \<Rightarrow> 'e ftpd option" where
  "send_ctrl_reply E st code txt = do {
     (_, st) \<leftarrow> send_printed E st (ctrl_socket (session st)) FTPD_CMD_BUF_SIZE (reply_text code txt);
     Some st
   }"

text \<open>
  One byte at a time up to a line feed; \<open>recv\<close> leaves the buffer alone when it returns 0, at the
  end of the connection. The zero goes behind the last byte, also when the buffer is full.
\<close>

function recv_line_loop ::
    "'e ftpd_env \<Rightarrow> int \<Rightarrow> nat \<Rightarrow> nat \<Rightarrow> string \<Rightarrow> 'e ftpd \<Rightarrow> (int \<times> string \<times> 'e ftpd) option" where
  "recv_line_loop E s len i buf st =
     (if i < len then do {
        let ((res, c), st) = env_call (e_recv E s) st;
        if res < 0 then Some (res, buf, st)
        else do {
          buf \<leftarrow> (if res = 0 then Some buf else set_char buf i c);
          c \<leftarrow> char_at buf i;
          if c = CHR 0x0A then do {
            buf \<leftarrow> set_char buf (i + 1) NUL;
            Some (int (i + 1), buf, st)
          }
          else recv_line_loop E s len (i + 1) buf st
        }
      }
      else do { buf \<leftarrow> set_char buf i NUL; Some (int i, buf, st) })"
  by pat_completeness auto

termination
  by (relation "measure (\<lambda>(E, s, len, i, buf, st). len - i)") auto

declare recv_line_loop.simps [simp del]

definition recv_line ::
    "'e ftpd_env \<Rightarrow> 'e ftpd \<Rightarrow> int \<Rightarrow> string \<Rightarrow> nat \<Rightarrow> (int \<times> string \<times> 'e ftpd) option" where
  "recv_line E st s buf len = recv_line_loop E s len 0 buf st"

section \<open>The data connection\<close>

text \<open>At most nine attempts to bind, as long as the address is in use.\<close>

function bind_tries :: "'e ftpd_env \<Rightarrow> int \<Rightarrow> sockaddr_in \<Rightarrow> nat \<Rightarrow> 'e ftpd \<Rightarrow> bool \<times> 'e ftpd" where
  "bind_tries E s addr tries st =
     (if tries < 10 then
        let ((r, in_use), st) = env_call (e_bind E s addr) st in
        if r \<ge> 0 then (True, st)
        else if \<not> in_use then (False, st)
        else bind_tries E s addr (tries + 1) st
      else (False, st))"
  by pat_completeness auto

termination
  by (relation "measure (\<lambda>(E, s, addr, tries, st). 10 - tries)") auto

declare bind_tries.simps [simp del]

definition data_socket :: "'e ftpd_env \<Rightarrow> 'e ftpd \<Rightarrow> (int \<times> 'e ftpd) option" where
  "data_socket E st =
     (if data_sock (session st) \<ge> 0 then Some (data_sock (session st), st)
      else do {
        let (s, st) = env_call (e_socket E) st;
        if s < 0 then do {
          st \<leftarrow> send_ctrl_reply E st 425 ''Can't create data socket.'';
          Some (s, st)
        }
        else do {
          let (r, st) = env_call (e_setsockopt E s) st;
          if r < 0 then do {
            let (_, st) = ftpd_tcp_delete E st s;
            Some (-1, st)
          }
          else do {
            let source = (ctrl_addr (session st))\<lparr>sin_port := htons (self_control_port (session st) - 1)\<rparr>;
            let (bound, st) = bind_tries E s source 1 st;
            if \<not> bound then do {
              st \<leftarrow> send_ctrl_reply E st 425 ''Can't bind data socket.'';
              let (_, st) = ftpd_tcp_delete E st s;
              Some (-1, st)
            }
            else do {
              let (r, st) = env_call (e_connect E s (data_addr (session st))) st;
              if r < 0 then do {
                st \<leftarrow> send_ctrl_reply E st 425 ''Can't connect data socket.'';
                let (_, st) = ftpd_tcp_delete E st s;
                Some (-1, st)
              }
              else Some (s, set_session (\<lambda>x. x\<lparr>data_sock := s\<rparr>) st)
            }
          }
        }
      })"

definition close_data_socket :: "'e ftpd_env \<Rightarrow> 'e ftpd \<Rightarrow> 'e ftpd" where
  "close_data_socket E st =
     (if data_sock (session st) < 0 then st
      else let (_, st) = ftpd_tcp_delete E st (data_sock (session st)) in
        set_session (\<lambda>s. s\<lparr>data_sock := -1\<rparr>) st)"

section \<open>Commands on files\<close>

definition send_mode_reply :: "'e ftpd_env \<Rightarrow> 'e ftpd \<Rightarrow> 'e ftpd option" where
  "send_mode_reply E st =
     (if xfer_mode (session st) = FTPD_MODE_BINARY
      then send_ctrl_reply E st 150 ''Opening BINARY mode data connection.''
      else send_ctrl_reply E st 150 ''Opening ASCII mode data connection.'')"

text \<open>The loop that sends the file: the last count that was read is what the caller looks at.\<close>

partial_function (option) send_file_loop ::
    "'e ftpd_env \<Rightarrow> int \<Rightarrow> int \<Rightarrow> 'e ftpd \<Rightarrow> (int \<times> 'e ftpd) option" where
  "send_file_loop E fd s st = (let ((n, bytes), st) = env_call (cb_read E fd FTPD_DATA_BUF_SIZE) st in
     if n > 0 then
       let (r, st) = ftpd_send E st s (take (nat n) bytes) in
       if r \<noteq> n then Some (n, st) else send_file_loop E fd s st
     else Some (n, st))"

definition command_retrieve :: "'e ftpd_env \<Rightarrow> 'e ftpd \<Rightarrow> string \<Rightarrow> 'e ftpd option" where
  "command_retrieve E st filename =
     (if xfer_mode (session st) \<noteq> FTPD_MODE_BINARY then Some st
      else do {
        let (fd, st) = env_call (cb_open E filename 1) st;
        if fd < 0 then send_ctrl_reply E st 550 ''Error opening file.''
        else do {
          st \<leftarrow> send_mode_reply E st;
          (s, st) \<leftarrow> data_socket E st;
          (n, st) \<leftarrow> (if 0 \<le> s then send_file_loop E fd s st else Some (-1, st));
          let (_, st) = env_call (cb_close E fd) st;
          st \<leftarrow> (if n \<noteq> 0 then send_ctrl_reply E st 451 ''File read error.''
                else send_ctrl_reply E st 226 ''Transfer complete.'');
          Some (close_data_socket E st)
        }
      })"

definition command_store :: "'e ftpd_env \<Rightarrow> 'e ftpd \<Rightarrow> string \<Rightarrow> 'e ftpd option" where
  "command_store E st filename = send_ctrl_reply E st 550 ''Access denied.''"

text \<open>The path of a directory entry: \<open>None\<close> within is the return of 0 when it is too long.\<close>

definition dirline_path :: "string \<Rightarrow> string \<Rightarrow> string option option" where
  "dirline_path path add = do {
     dir \<leftarrow> (if path = [] then Some (Some ''/'')
            else if length path \<ge> FTPD_CMD_BUF_SIZE then None
            else if add \<noteq> [] \<and> last path \<noteq> CHR ''/''
              then Some (if length path + 1 \<ge> FTPD_CMD_BUF_SIZE then None else Some (path @ ''/''))
            else Some (Some path));
     Some (case dir of
         None \<Rightarrow> None
       | Some dir \<Rightarrow> if length dir + length add \<ge> FTPD_CMD_BUF_SIZE then None else Some (dir @ add))
   }"

definition SIX_MONTHS :: int where
  "SIX_MONTHS = (365 * 24 * 60 * 60) div 2"

definition dirline_text :: "bscl_fs_stat_buf \<Rightarrow> string \<Rightarrow> string \<Rightarrow> string" where
  "dirline_text sb time_buf fname =
     (if st_type sb = 0 then ''d'' else ''-'') @ ''rwxrwxrwx  1 0 0 '' @ pad_left 11 (dec (unat (st_size sb)))
       @ '' '' @ time_buf @ '' '' @ fname @ CRLF"

definition send_dirline ::
    "'e ftpd_env \<Rightarrow> 'e ftpd \<Rightarrow> int \<Rightarrow> bool \<Rightarrow> int \<Rightarrow> string \<Rightarrow> string \<Rightarrow> string \<Rightarrow> (int \<times> 'e ftpd) option" where
  "send_dirline E st s wide cur_time path add fname =
     (if wide then do {
        full \<leftarrow> dirline_path path add;
        (case full of
           None \<Rightarrow> Some (0, st)
         | Some full \<Rightarrow> do {
             let ((r, sb), st) = env_call (cb_stat E full) st;
             if r = 0 then do {
               let time_buf = e_strftime E (cur_time > st_time sb + SIX_MONTHS
                 \<or> st_time sb > cur_time + SIX_MONTHS) (st_time sb);
               let line = dirline_text sb time_buf fname;
               (r, st) \<leftarrow> send_printed E st s FTPD_CMD_BUF_SIZE line;
               Some (if r \<noteq> int (length line) then 0 else 1, st)
             }
             else Some (1, st)
           })
      }
      else do {
        let line = fname @ CRLF;
        (r, st) \<leftarrow> send_printed E st s FTPD_CMD_BUF_SIZE line;
        Some (if r \<noteq> int (length line) then 0 else 1, st)
      })"

partial_function (option) list_dir_loop ::
    "'e ftpd_env \<Rightarrow> int \<Rightarrow> int \<Rightarrow> bool \<Rightarrow> int \<Rightarrow> string \<Rightarrow> int \<Rightarrow> 'e ftpd \<Rightarrow> (int \<times> 'e ftpd) option" where
  "list_dir_loop E fd s wide cur_time fname sc st =
     (let ((r, name), st) = env_call (cb_readdir E fd) st in
      if r \<ge> 0 then do {
        (sc, st) \<leftarrow> (if sc \<noteq> 0 then send_dirline E st s wide cur_time fname name name else Some (0, st));
        list_dir_loop E fd s wide cur_time fname sc st
      }
      else Some (sc, st))"

definition command_list :: "'e ftpd_env \<Rightarrow> 'e ftpd \<Rightarrow> string \<Rightarrow> bool \<Rightarrow> 'e ftpd option" where
  "command_list E st fname wide = do {
     st \<leftarrow> send_ctrl_reply E st 150 ''Opening ASCII mode data connection for LIST.'';
     (s, st) \<leftarrow> data_socket E st;
     if s < 0 then Some st
     else do {
       let fname = (if fname = [] then ''.'' else fname);
       let ((r, sb), st) = env_call (cb_stat E fname) st;
       listed \<leftarrow> (if r < 0 then do {
           let (_, st) = ftpd_send E st s
             (take (FTPD_CMD_BUF_SIZE - 1) (''can not stat '' @ fname @ ''.'' @ CRLF));
           Some (Inr (1, st))
         }
         else do {
           let (cur_time, st) = env_call (e_time E) st;
           if st_type sb = 0 then do {
             let (fd, st) = env_call (cb_opendir E fname) st;
             if fd < 0 then Some (Inl st)
             else do {
               (sc, st) \<leftarrow> list_dir_loop E fd s wide cur_time fname 1 st;
               let (_, st) = env_call (cb_closedir E fd) st;
               Some (Inr (sc, st))
             }
           }
           else do {
             (sc, st) \<leftarrow> send_dirline E st s wide cur_time fname [] fname;
             Some (Inr (sc, st))
           }
         });
       (case listed of
          Inl st \<Rightarrow> Some st
        | Inr (sc, st) \<Rightarrow> do {
            let st = close_data_socket E st;
            if sc \<noteq> 0 then send_ctrl_reply E st 226 ''Transfer complete.''
            else send_ctrl_reply E st 426 ''Connection aborted.''
          })
     }
   }"

section \<open>Commands on directories and sizes\<close>

definition command_cwd :: "'e ftpd_env \<Rightarrow> 'e ftpd \<Rightarrow> string \<Rightarrow> 'e ftpd option" where
  "command_cwd E st dir =
     (let (r, st) = env_call (cb_chdir E dir) st in
      if r = 0 then send_ctrl_reply E st 250 ''CWD command successful.''
      else send_ctrl_reply E st 550 ''CWD command failed.'')"

text \<open>\<open>getcwd\<close> fills the given part of the buffer, as the POSIX function does.\<close>

definition command_pwd :: "'e ftpd_env \<Rightarrow> 'e ftpd \<Rightarrow> 'e ftpd option" where
  "command_pwd E st =
     (let (cwd, st) = env_call (cb_getcwd E (FTPD_CMD_BUF_SIZE - 4)) st in
      case cwd of
        Some cwd \<Rightarrow> do {
          let len = int (length cwd);
          let txt = ''\" is the current directory.'';
          let n = int (length txt + 1);
          let n = (if len + n + 1 \<ge> int FTPD_CMD_BUF_SIZE then int FTPD_CMD_BUF_SIZE - len - 2 else n);
          if n < 0 then None
          else send_ctrl_reply E st 250 (''\"'' @ cwd @ take (nat n) txt)
        }
      | None \<Rightarrow>
          let (err, st) = env_call (e_strerror E) st in
          send_ctrl_reply E st 452 (take (FTPD_CMD_BUF_SIZE - 1) (''Error: '' @ err @ ''.'')))"

definition command_mdtm :: "'e ftpd_env \<Rightarrow> 'e ftpd \<Rightarrow> string \<Rightarrow> 'e ftpd option" where
  "command_mdtm E st fname = send_ctrl_reply E st 550 ''Access denied.''"

definition command_size :: "'e ftpd_env \<Rightarrow> 'e ftpd \<Rightarrow> string \<Rightarrow> 'e ftpd option" where
  "command_size E st fname =
     (if xfer_mode (session st) \<noteq> FTPD_MODE_BINARY then send_ctrl_reply E st 550 ''Could not get file size.''
      else let ((r, sb), st) = env_call (cb_stat E fname) st in
        if r < 0 then send_ctrl_reply E st 550 ''Could not get file size.''
        else send_ctrl_reply E st 213 (dec (unat (st_size sb))))"

section \<open>Passive and active mode\<close>

definition byte_text :: "u8 \<Rightarrow> string" where
  "byte_text b = dec (unat b)"

definition pasv_text :: "sockaddr_in \<Rightarrow> string" where
  "pasv_text a =
     (let ip = le32 (sin_addr a); p = le16 (sin_port a) in
      ''Entering passive mode ('' @ byte_text (ip ! 0) @ '','' @ byte_text (ip ! 1) @ '',''
        @ byte_text (ip ! 2) @ '','' @ byte_text (ip ! 3) @ '','' @ byte_text (p ! 0) @ '',''
        @ byte_text (p ! 1) @ '').'')"

definition command_pasv :: "'e ftpd_env \<Rightarrow> 'e ftpd \<Rightarrow> 'e ftpd option" where
  "command_pasv E st = do {
     let st = close_data_socket E st;
     let (s, st) = env_call (e_socket E) st;
     (err, s, st) \<leftarrow> (if s < 0 then Some (True, s, st)
       else do {
         let (r, st) = env_call (e_bind E s ((ctrl_addr (session st))\<lparr>sin_port := htons 0\<rparr>)) st;
         if fst r < 0 then Some (True, s, st)
         else do {
           let (r, st) = env_call (e_listen E s) st;
           if r < 0 then Some (True, s, st)
           else do {
             let (r, st) = set_socket_timeout E st s;
             if r = 0 then Some (True, s, st)
             else do {
               let ((_, addr), st) = env_call (e_getsockname E s) st;
               st \<leftarrow> send_ctrl_reply E st 227 (pasv_text addr);
               let ((d, _), st) = env_call (e_accept E s) st;
               let st = set_session (\<lambda>x. x\<lparr>data_sock := d\<rparr>) st;
               if d < 0 then Some (True, s, set_session (\<lambda>x. x\<lparr>pasive := True\<rparr>) st)
               else do {
                 let (_, st) = ftpd_tcp_delete E st s;
                 Some (False, -1, st)
               }
             }
           }
         }
       });
     if err then do {
       st \<leftarrow> send_ctrl_reply E st 425 ''Can't open passive connection.'';
       let (_, st) = ftpd_tcp_delete E st s;
       Some st
     } else Some st
   }"

text \<open>
  \<open>%u\<close> of \<open>sscanf\<close>: spaces, a sign and digits, read with the width of \<open>unsigned long\<close> and cut
  to 32 bits.
\<close>

definition scan_u :: "string \<Rightarrow> (u32 \<times> string) option" where
  "scan_u s =
     (let s = dropWhile isspace s;
          neg = (s \<noteq> [] \<and> hd s = CHR ''-'');
          s = (if s \<noteq> [] \<and> (hd s = CHR ''-'' \<or> hd s = CHR ''+'') then tl s else s);
          ds = takeWhile isdigit s;
          n = digits_value ds;
          w = (if n < 2 ^ 64 then if neg then - word_of_nat n else word_of_nat n else -1 :: u64)
      in if ds = [] then None else Some (ucast w, dropWhile isdigit s))"

text \<open>The numbers that \<open>sscanf\<close> stores for \<open>n\<close> fields with commas between them.\<close>

fun scan_fields :: "nat \<Rightarrow> string \<Rightarrow> u32 list" where
  "scan_fields 0 s = []"
| "scan_fields (Suc n) s =
     (case scan_u s of
        None \<Rightarrow> []
      | Some (a, rest) \<Rightarrow>
          a # (if rest \<noteq> [] \<and> hd rest = CHR '','' then scan_fields n (tl rest) else []))"

definition command_port :: "'e ftpd_env \<Rightarrow> 'e ftpd \<Rightarrow> string \<Rightarrow> 'e ftpd option" where
  "command_port E st args =
     (let st = close_data_socket E st; a = scan_fields 6 args in
      if length a = 6 \<and> (\<forall>x \<in> set a. x \<le> 255) then
        let b = map ucast a; ip = of_le32 (take 4 b); port = of_le16 (drop 4 b) in
        if ip = sin_addr (data_addr (session st)) then do {
          let st = set_session (\<lambda>s. s\<lparr>data_addr := \<lparr>sin_addr = ip, sin_port = port\<rparr>\<rparr>) st;
          st \<leftarrow> send_ctrl_reply E st 200 ''PORT command successful.'';
          Some (set_session (\<lambda>s. s\<lparr>pasive := False\<rparr>) st)
        }
        else send_ctrl_reply E st 425 ''Address doesn't match peer's IP.''
      else send_ctrl_reply E st 501 ''Syntax error.'')"

section \<open>Executing commands\<close>

text \<open>
  \<open>strncpy(fname, args, 254)\<close>: a longer name leaves the last two bytes of the buffer as they
  were, without a terminating zero.
\<close>

definition copy_name :: "string \<Rightarrow> nat \<Rightarrow> string option" where
  "copy_name buf args = do {
     a \<leftarrow> cstr_at buf args;
     if length a < 254 then Some a else None
   }"

definition exec_command :: "'e ftpd_env \<Rightarrow> 'e ftpd \<Rightarrow> string \<Rightarrow> string \<Rightarrow> nat \<Rightarrow> 'e ftpd option" where
  "exec_command E st buf cmd args =
     (if cmd = ''PORT'' then do { a \<leftarrow> cstr_at buf args; command_port E st a }
      else if cmd = ''PASV'' then command_pasv E st
      else if cmd = ''RETR'' then do { f \<leftarrow> copy_name buf args; command_retrieve E st f }
      else if cmd = ''STOR'' then do { f \<leftarrow> copy_name buf args; command_store E st f }
      else if cmd = ''LIST'' then do { f \<leftarrow> copy_name buf args; command_list E st f True }
      else if cmd = ''NLST'' then do { f \<leftarrow> copy_name buf args; command_list E st f False }
      else if cmd = ''MDTM'' then do { f \<leftarrow> copy_name buf args; command_mdtm E st f }
      else if cmd = ''SIZE'' then do { f \<leftarrow> copy_name buf args; command_size E st f }
      else if cmd = ''SYST'' then send_ctrl_reply E st 215 FTPD_SYSTYPE
      else if cmd = ''TYPE'' then do {
        c \<leftarrow> char_at buf args;
        if c = CHR ''I'' then
          send_ctrl_reply E (set_session (\<lambda>s. s\<lparr>xfer_mode := FTPD_MODE_BINARY\<rparr>) st) 200 ''Type set to I.''
        else if c = CHR ''A'' then
          send_ctrl_reply E (set_session (\<lambda>s. s\<lparr>xfer_mode := FTPD_MODE_ASCII\<rparr>) st) 200 ''Type set to A.''
        else
          send_ctrl_reply E (set_session (\<lambda>s. s\<lparr>xfer_mode := FTPD_MODE_BINARY\<rparr>) st) 504
            ''Type not implemented.  Set to I.''
      }
      else if cmd = ''USER'' then send_ctrl_reply E st 230 ''User logged in.''
      else if cmd = ''PASS'' then send_ctrl_reply E st 230 ''User logged in.''
      else if cmd = ''DELE'' then do {
        f \<leftarrow> copy_name buf args;
        let (r, st) = env_call (cb_remove E f) st;
        if r = 0 then send_ctrl_reply E st 257 ''DELE successful.''
        else send_ctrl_reply E st 550 ''DELE failed.''
      }
      else if cmd = ''SITE'' then do {
        (mem, c, _, _) \<leftarrow> split_command buf args;
        sub \<leftarrow> cstr_at mem c;
        if sub = ''CHMOD'' then send_ctrl_reply E st 550 ''Access denied.''
        else send_ctrl_reply E st 500 ''Command not understood.''
      }
      else if cmd = ''RMD'' then
        if can_write = 0 then send_ctrl_reply E st 550 ''Access denied.''
        else do {
          f \<leftarrow> copy_name buf args;
          let (r, st) = env_call (cb_remove E f) st;
          if r = 0 then send_ctrl_reply E st 257 ''RMD successful.''
          else send_ctrl_reply E st 550 ''RMD failed.''
        }
      else if cmd = ''MKD'' then
        if can_write = 0 then send_ctrl_reply E st 550 ''Access denied.''
        else send_ctrl_reply E st 550 ''MKD failed.''
      else if cmd = ''CWD'' then do { f \<leftarrow> copy_name buf args; command_cwd E st f }
      else if cmd = ''CDUP'' then command_cwd E st ''..''
      else if cmd = ''PWD'' then command_pwd E st
      else send_ctrl_reply E st 500 ''Command not understood.'')"

section \<open>A session\<close>

partial_function (option) session_loop :: "'e ftpd_env \<Rightarrow> 'e ftpd \<Rightarrow> 'e ftpd option" where
  "session_loop E st = (let (junk, st) = env_call (e_stack E) st in do {
     (n, buf, st) \<leftarrow> recv_line E st (ctrl_socket (session st)) junk FTPD_CMD_BUF_SIZE;
     if n \<le> 0 then Some st
     else do {
       (buf, cmd, opts, args) \<leftarrow> split_command buf 0;
       c \<leftarrow> cstr_at buf cmd;
       if c = ''QUIT'' then send_ctrl_reply E st 221 ''Goodbye.''
       else do {
         st \<leftarrow> exec_command E st buf c args;
         session_loop E st
       }
     }
   })"

definition session_task :: "'e ftpd_env \<Rightarrow> 'e ftpd \<Rightarrow> 'e ftpd option" where
  "session_task E st = do {
     st \<leftarrow> send_ctrl_reply E st 220 FTPD_SERVER_MESSAGE;
     st \<leftarrow> session_loop E st;
     Some (close_stream E (close_data_socket E st))
   }"

text \<open>
  One round of the loop of \<open>ftpd_run\<close>: the session that is started for a new connection, or
  none. \<open>memory\<close> is what the allocated struct holds, of which the transfer mode stays as it is.
\<close>

definition ftpd_accept ::
    "'e ftpd_env \<Rightarrow> 'e ftpd \<Rightarrow> int \<Rightarrow> u16 \<Rightarrow> ftpd_session_t option \<Rightarrow> ftpd_session_t option \<times> 'e ftpd" where
  "ftpd_accept E st s port memory =
     (let ((ss, addr), st) = env_call (e_accept E s) st in
      if ss < 0 then (None, st)
      else case memory of
          None \<Rightarrow> (None, snd (ftpd_tcp_delete E st ss))
        | Some mem \<Rightarrow>
            let ((r, addr), st) = env_call (e_getsockname E ss) st in
            if r < 0 then (None, st)
            else (Some (mem\<lparr>ctrl_socket := ss, self_control_port := port, pasive := False,
              ctrl_addr := addr, data_sock := -1,
              data_addr := addr\<lparr>sin_port := htons (ntohs (sin_port addr) - 1)\<rparr>\<rparr>), st))"

text \<open>
  \<open>ftpd_run\<close>: the socket that listens, and then one session after the other. Its loop never ends:
  \<open>mems\<close> is the memory that \<open>malloc\<close> gives in its first rounds, and the result is the session that
  each of them starts in a thread of its own.
\<close>

definition ftpd_listen :: "'e ftpd_env \<Rightarrow> 'e ftpd \<Rightarrow> u16 \<Rightarrow> int option \<times> 'e ftpd" where
  "ftpd_listen E st port =
     (let (s, st) = env_call (e_socket E) st;
          ((r, _), st) = env_call (e_bind E s \<lparr>sin_addr = 0, sin_port = htons port\<rparr>) st in
      if r < 0 then (None, st)
      else let (r, st) = env_call (e_listen E s) st in
        if r < 0 then (None, st) else (Some s, st))"

fun ftpd_rounds ::
    "'e ftpd_env \<Rightarrow> 'e ftpd \<Rightarrow> int \<Rightarrow> u16 \<Rightarrow> ftpd_session_t option list \<Rightarrow> ftpd_session_t option list \<times> 'e ftpd" where
  "ftpd_rounds E st s port [] = ([], st)"
| "ftpd_rounds E st s port (mem # mems) =
     (let (x, st) = ftpd_accept E st s port mem; (xs, st) = ftpd_rounds E st s port mems in (x # xs, st))"

definition ftpd_run ::
    "'e ftpd_env \<Rightarrow> 'e ftpd \<Rightarrow> u16 \<Rightarrow> ftpd_session_t option list \<Rightarrow> ftpd_session_t option list \<times> 'e ftpd" where
  "ftpd_run E st port mems =
     (let (s, st) = ftpd_listen E st port in
      case s of None \<Rightarrow> ([], st) | Some s \<Rightarrow> ftpd_rounds E st s port mems)"

section \<open>Sending\<close>

lemma ftpd_send_sent [simp]:
  "sent (snd (ftpd_send E st fd bytes)) = sent st @ [(fd, bytes)]"
  "session (snd (ftpd_send E st fd bytes)) = session st"
  "closed (snd (ftpd_send E st fd bytes)) = closed st"
  "env (snd (ftpd_send E st fd bytes)) = snd (e_send E fd bytes (env st))"
  "fst (ftpd_send E st fd bytes) = fst (e_send E fd bytes (env st))"
  by (simp_all add: ftpd_send_def env_call_def split: prod.splits)

lemma env_call_simps [simp]:
  "sent (snd (env_call f st)) = sent st" "session (snd (env_call f st)) = session st"
  "closed (snd (env_call f st)) = closed st" "env (snd (env_call f st)) = snd (f (env st))"
  "fst (env_call f st) = fst (f (env st))"
  by (simp_all add: env_call_def split: prod.splits)

lemma tcp_delete_simps [simp]:
  "sent (snd (ftpd_tcp_delete E st fd)) = sent st" "session (snd (ftpd_tcp_delete E st fd)) = session st"
  "closed (snd (ftpd_tcp_delete E st fd)) = closed st @ [fd]"
  "env (snd (ftpd_tcp_delete E st fd)) = snd (e_delete E fd (env st))"
  by (simp_all add: ftpd_tcp_delete_def env_call_def split: prod.splits)

text \<open>A reply that is sent whole.\<close>

definition replied :: "'e ftpd_env \<Rightarrow> 'e ftpd \<Rightarrow> nat \<Rightarrow> string \<Rightarrow> 'e ftpd" where
  "replied E st code txt = snd (ftpd_send E st (ctrl_socket (session st)) (reply_text code txt))"

lemma replied_simps [simp]:
  "sent (replied E st code txt) = sent st @ [(ctrl_socket (session st), reply_text code txt)]"
  "session (replied E st code txt) = session st" "closed (replied E st code txt) = closed st"
  "env (replied E st code txt) = snd (e_send E (ctrl_socket (session st)) (reply_text code txt) (env st))"
  by (simp_all add: replied_def)

lemma send_ctrl_reply_short:
  assumes "code < 1000" and "length txt \<le> 249"
  shows "send_ctrl_reply E st code txt = Some (replied E st code txt)"
proof -
  have "length (dec code) \<le> 3"
    using assms(1) by (intro length_dec) simp_all
  then have "length (reply_text code txt) < FTPD_CMD_BUF_SIZE"
    using assms(2) by (simp add: reply_text_def FTPD_CMD_BUF_SIZE_def)
  then show ?thesis
    by (simp add: send_ctrl_reply_def send_printed_def replied_def split: prod.splits)
qed

end
