(* ===== verification/Ftpd_Session.thy ===== *)
theory Ftpd_Session
  imports Ftpd
begin

text \<open>
  What the sessions of the FTP server promise: the replies to the commands of a whole session,
  the transfer of a file, the bounds of the line buffer and of the reply with the directory, and
  the address check of the active mode.
\<close>

section \<open>One reply for a command\<close>

text \<open>The codes that a command is answered with, for the commands that send one reply.\<close>

definition reply_codes :: "string \<Rightarrow> nat set" where
  "reply_codes cmd =
     (if cmd = ''PORT'' then {200, 425, 501}
      else if cmd \<in> {''STOR'', ''MDTM'', ''MKD''} then {550}
      else if cmd = ''SIZE'' then {213, 550}
      else if cmd = ''SYST'' then {215}
      else if cmd = ''TYPE'' then {200, 504}
      else if cmd \<in> {''USER'', ''PASS''} then {230}
      else if cmd \<in> {''DELE'', ''RMD''} then {257, 550}
      else if cmd \<in> {''CWD'', ''CDUP''} then {250, 550}
      else {500})"

text \<open>A call that leaves alone what the client still has to say.\<close>

definition keeps :: "('e \<Rightarrow> string) \<Rightarrow> ('e \<Rightarrow> 'r \<times> 'e) \<Rightarrow> bool" where
  "keeps inp f \<longleftrightarrow> (\<forall>e. inp (snd (f e)) = inp e)"

text \<open>
  The sockets that are closed, with the data socket that the session still has: closing the data socket
  moves it, so a session that loses a socket without closing it changes this list.
\<close>

definition data_sockets :: "'e ftpd \<Rightarrow> int list" where
  "data_sockets st = closed st @ (if data_sock (session st) < 0 then [] else [data_sock (session st)])"

definition same_client :: "('e \<Rightarrow> string) \<Rightarrow> 'e ftpd \<Rightarrow> 'e ftpd \<Rightarrow> bool" where
  "same_client inp st st1 \<longleftrightarrow> ctrl_socket (session st1) = ctrl_socket (session st)
     \<and> inp (env st1) = inp (env st) \<and> data_sockets st1 = data_sockets st"

text \<open>The outcome of a handler that sends one reply with a code of \<open>C\<close>, and nothing else.\<close>

definition answered :: "('e \<Rightarrow> string) \<Rightarrow> nat set \<Rightarrow> 'e ftpd \<Rightarrow> 'e ftpd option \<Rightarrow> bool" where
  "answered inp C st r \<longleftrightarrow> (\<exists>st' code txt. r = Some st' \<and> code \<in> C \<and> same_client inp st st'
     \<and> sent st' = sent st @ [(ctrl_socket (session st), reply_text code txt)])"

text \<open>The client sends the input and reads the replies; only \<open>recv\<close> takes from the input.\<close>

definition scripted :: "'e ftpd_env \<Rightarrow> int \<Rightarrow> ('e \<Rightarrow> string) \<Rightarrow> bool" where
  "scripted E s inp \<longleftrightarrow>
     (\<forall>e c cs. inp e = c # cs \<longrightarrow> (\<exists>e'. e_recv E s e = ((1, c), e') \<and> inp e' = cs))
   \<and> (\<forall>e. length (fst (e_stack E e)) = FTPD_CMD_BUF_SIZE) \<and> keeps inp (e_stack E)
   \<and> (\<forall>fd b. keeps inp (e_send E fd b)) \<and> (\<forall>fd. keeps inp (e_delete E fd))
   \<and> (\<forall>f. keeps inp (cb_stat E f)) \<and> (\<forall>f. keeps inp (cb_remove E f)) \<and> (\<forall>f. keeps inp (cb_chdir E f))"

lemma same_client_refl [simp]: "same_client inp st st"
  by (simp add: same_client_def)

lemma same_client_call: "keeps inp f \<Longrightarrow> same_client inp st (snd (env_call f st))"
  by (simp add: same_client_def keeps_def data_sockets_def)

lemma same_client_mode [simp]: "same_client inp st (set_session (\<lambda>s. s\<lparr>xfer_mode := m\<rparr>) st)"
  by (simp add: same_client_def data_sockets_def)

lemma answered_reply:
  assumes "\<forall>fd b. keeps inp (e_send E fd b)" and "same_client inp st st1" and "sent st1 = sent st"
    and "code \<in> C" and "code < 1000" and "length txt \<le> 249"
  shows "answered inp C st (send_ctrl_reply E st1 code txt)"
  using assms by (auto simp: answered_def same_client_def keeps_def send_ctrl_reply_short data_sockets_def)

lemma answered_if:
  "(b \<Longrightarrow> answered inp C st x) \<Longrightarrow> (\<not> b \<Longrightarrow> answered inp C st y) \<Longrightarrow> answered inp C st (if b then x else y)"
  by simp

lemma close_data_socket_simps [simp]:
  "sent (close_data_socket E st) = sent st"
  "ctrl_socket (session (close_data_socket E st)) = ctrl_socket (session st)"
  "data_addr (session (close_data_socket E st)) = data_addr (session st)"
  "data_sock (session (close_data_socket E st)) = (if data_sock (session st) < 0 then data_sock (session st) else -1)"
  "data_sockets (close_data_socket E st) = data_sockets st"
  "closed (close_data_socket E st) = data_sockets st"
  by (simp_all add: close_data_socket_def data_sockets_def case_prod_unfold)

lemma close_data_socket_same:
  "\<forall>fd. keeps inp (e_delete E fd) \<Longrightarrow> same_client inp st (close_data_socket E st)"
  by (simp add: close_data_socket_def same_client_def keeps_def data_sockets_def case_prod_unfold)

lemma answered_port:
  assumes "scripted E s inp" and "{200, 425, 501} \<subseteq> C"
  shows "answered inp C st (command_port E st a)"
proof -
  let ?st = "close_data_socket E st"
  have same: "same_client inp st ?st" and k: "\<forall>fd b. keeps inp (e_send E fd b)"
    using assms(1) by (simp_all add: scripted_def close_data_socket_same)
  have "answered inp C st (do { st \<leftarrow> send_ctrl_reply E (set_session (\<lambda>s. s\<lparr>data_addr := d\<rparr>) ?st) 200
      ''PORT command successful.''; Some (set_session (\<lambda>s. s\<lparr>pasive := False\<rparr>) st) })" for d
    using same k assms(2)
    by (auto simp: send_ctrl_reply_short answered_def same_client_def keeps_def data_sockets_def)
  then show ?thesis
    unfolding command_port_def Let_def
    by (intro answered_if answered_reply) (use same k assms(2) in simp_all)
qed

lemma length_dec_u32: "length (dec (unat (x :: u32))) \<le> 249"
proof -
  have "length (dec (unat x)) \<le> 10"
    using less_trans [OF u32_less_pow [of x], of "10 ^ 10"] by (intro length_dec) simp_all
  then show ?thesis
    by simp
qed

lemma answered_size:
  assumes "scripted E s inp" and "{213, 550} \<subseteq> C"
  shows "answered inp C st (command_size E st f)"
  unfolding command_size_def Let_def case_prod_unfold
  by (intro answered_if answered_reply length_dec_u32)
    (use assms in \<open>simp_all add: scripted_def same_client_call\<close>)

lemma answered_call:
  assumes "scripted E s inp" and "f \<in> range (cb_remove E) \<union> range (cb_chdir E)"
    and "c1 < 1000" "c2 < 1000" "{c1, c2} \<subseteq> C" "length t1 \<le> 249" "length t2 \<le> 249"
  shows "answered inp C st (let (r, st) = env_call f st in
    if r = 0 then send_ctrl_reply E st c1 t1 else send_ctrl_reply E st c2 t2)"
proof -
  have f: "keeps inp f" and k: "\<forall>fd b. keeps inp (e_send E fd b)"
    using assms(1,2) by (auto simp: scripted_def)
  have "same_client inp st (snd (env_call f st))"
    by (rule same_client_call [OF f])
  then show ?thesis
    unfolding Let_def case_prod_unfold
    by (intro answered_if answered_reply) (use k assms in simp_all)
qed

text \<open>The commands that need neither a data connection nor a second look at the line.\<close>

definition plain_command :: "string \<Rightarrow> bool" where
  "plain_command cmd \<longleftrightarrow> cmd \<notin> {''RETR'', ''LIST'', ''NLST'', ''PASV'', ''SITE'', ''PWD'', ''QUIT''}"

lemma answered_plain:
  assumes cmd: "plain_command cmd" and E: "scripted E s inp" and a: "cstr_at buf args = Some a" "length a < 254"
  shows "answered inp (reply_codes cmd) st (exec_command E st buf cmd args)"
proof -
  have n: "copy_name buf args = Some a"
    using a by (simp add: copy_name_def)
  have "args < length buf"
    using a(1) by (cases "args < length buf") (simp_all add: cstr_at_def)
  then have c: "char_at buf args = Some (buf ! args)"
    by (simp add: char_at_def)
  have k: "\<forall>fd b. keeps inp (e_send E fd b)"
    using E by (simp add: scripted_def)
  show ?thesis
    unfolding exec_command_def n c a(1) bind.bind_lunit command_store_def command_mdtm_def
      command_cwd_def FTPD_SYSTYPE_def
    by (intro answered_if answered_reply answered_port [OF E] answered_size [OF E] answered_call [OF E])
      (use cmd k in \<open>simp_all add: plain_command_def reply_codes_def\<close>)
qed

section \<open>Sending a file\<close>

text \<open>
  The callbacks deliver a file: each read gives a chunk that is sent whole, until a read gives
  nothing.
\<close>

inductive transfers :: "'e ftpd_env \<Rightarrow> int \<Rightarrow> int \<Rightarrow> 'e \<Rightarrow> string list \<Rightarrow> 'e \<Rightarrow> bool"
  for E :: "'e ftpd_env" and fd s :: int where
  file_end: "cb_read E fd FTPD_DATA_BUF_SIZE e = ((0, x), e') \<Longrightarrow> transfers E fd s e [] e'"
| file_chunk: "cb_read E fd FTPD_DATA_BUF_SIZE e = ((int (length c), c), e1) \<Longrightarrow> c \<noteq> []
    \<Longrightarrow> e_send E s c e1 = (int (length c), e2) \<Longrightarrow> transfers E fd s e2 cs e'
    \<Longrightarrow> transfers E fd s e (c # cs) e'"

lemma send_file_loop_transfers:
  "transfers E fd s e cs e' \<Longrightarrow> env st = e
    \<Longrightarrow> send_file_loop E fd s st = Some (0, st\<lparr>sent := sent st @ map (Pair s) cs, env := e'\<rparr>)"
proof (induction arbitrary: st rule: transfers.induct)
  case (file_end e x e')
  then show ?case
    by (subst send_file_loop.simps) (simp add: env_call_def)
next
  case (file_chunk e c e1 e2 cs e')
  let ?st = "st\<lparr>sent := sent st @ [(s, c)], env := e2\<rparr>"
  have "send_file_loop E fd s st = send_file_loop E fd s ?st"
    using file_chunk by (subst send_file_loop.simps) (simp add: env_call_def ftpd_send_def)
  then show ?case
    using file_chunk.IH [of ?st] by simp
qed

section \<open>Receiving a line\<close>

text \<open>The connection delivers these bytes, one for each call of \<open>recv\<close>.\<close>

inductive delivers :: "'e ftpd_env \<Rightarrow> int \<Rightarrow> 'e \<Rightarrow> string \<Rightarrow> 'e \<Rightarrow> bool"
  for E :: "'e ftpd_env" and s :: int where
  no_bytes: "delivers E s e [] e"
| one_byte: "e_recv E s e = ((1, c), e1) \<Longrightarrow> delivers E s e1 cs e' \<Longrightarrow> delivers E s e (c # cs) e'"

inductive_cases delivers_ConsE: "delivers E s e (c # cs) e'"
inductive_cases delivers_NilE: "delivers E s e [] e'"

lemma recv_byte:
  assumes "e_recv E s (env st) = ((1, c), e1)" and "i < len" and "length buf = len" and "c \<noteq> CHR 0x0A"
  shows "recv_line_loop E s len i buf st = recv_line_loop E s len (i + 1) (buf[i := c]) (st\<lparr>env := e1\<rparr>)"
  using assms by (subst recv_line_loop.simps) (simp add: env_call_def set_char_def char_at_def)

lemma recv_bytes:
  assumes "delivers E s (env st) xs e" and "CHR 0x0A \<notin> set xs" and "i + length xs \<le> len" and "length buf = len"
  shows "recv_line_loop E s len i buf st = recv_line_loop E s len (i + length xs)
    (take i buf @ xs @ drop (i + length xs) buf) (st\<lparr>env := e\<rparr>)"
  using assms
proof (induction xs arbitrary: i buf st)
  case Nil
  then show ?case by (auto elim: delivers_NilE)
next
  case (Cons x xs)
  obtain e1 where e1: "e_recv E s (env st) = ((1, x), e1)" "delivers E s e1 xs e"
    using Cons.prems(1) by (auto elim: delivers_ConsE)
  have i: "i < len" "x \<noteq> CHR 0x0A"
    using Cons.prems by auto
  have "recv_line_loop E s len i buf st = recv_line_loop E s len (i + 1) (buf[i := x]) (st\<lparr>env := e1\<rparr>)"
    by (rule recv_byte [OF e1(1) i(1) Cons.prems(4) i(2)])
  also have "\<dots> = recv_line_loop E s len (i + 1 + length xs)
      (take (i + 1) (buf[i := x]) @ xs @ drop (i + 1 + length xs) (buf[i := x])) (st\<lparr>env := e1, env := e\<rparr>)"
    using Cons.IH [of "st\<lparr>env := e1\<rparr>" "i + 1" "buf[i := x]"] e1(2) Cons.prems by simp
  also have "take (i + 1) (buf[i := x]) = take i buf @ [x]"
    using i(1) Cons.prems(4) by (simp add: take_Suc_conv_app_nth)
  finally show ?case
    using i(1) by simp
qed

text \<open>What a call makes of a line, of a line that fills the buffer, and of the end of the connection.\<close>

lemma recv_line_runs:
  assumes "delivers E s (env st) xs e" and "CHR 0x0A \<notin> set xs" and "length xs \<le> len" and "length buf = len"
  shows "recv_line E st s buf len = recv_line_loop E s len (length xs) (xs @ drop (length xs) buf) (st\<lparr>env := e\<rparr>)"
  using recv_bytes [OF assms(1,2), of 0] assms(3,4) by (simp add: recv_line_def)

lemma recv_line_complete:
  assumes "delivers E s (env st) (xs @ [CHR 0x0A]) e" and "CHR 0x0A \<notin> set xs" and "length buf = len"
    and "length xs + 1 < len"
  shows "recv_line E st s buf len = Some (int (length xs + 1),
    xs @ CHR 0x0A # NUL # drop (length xs + 2) buf, st\<lparr>env := e\<rparr>)"
proof -
  have "\<exists>e1. delivers E s e0 ys e1 \<and> e_recv E s e1 = ((1, c), e)" if "delivers E s e0 (ys @ [c]) e" for e0 ys c
    using that
  proof (induction ys arbitrary: e0)
    case Nil
    then show ?case by (auto elim!: delivers_ConsE delivers_NilE intro: no_bytes)
  next
    case (Cons y ys)
    then show ?case by (auto elim!: delivers_ConsE intro: one_byte) (metis one_byte)
  qed
  then obtain e1 where e1: "delivers E s (env st) xs e1" "e_recv E s e1 = ((1, CHR 0x0A), e)"
    using assms(1) by blast
  have d: "drop (length xs) buf = buf ! length xs # buf ! (length xs + 1) # drop (length xs + 2) buf"
    using assms(3,4) by (simp add: Cons_nth_drop_Suc)
  have "recv_line E st s buf len
      = recv_line_loop E s len (length xs) (xs @ drop (length xs) buf) (st\<lparr>env := e1\<rparr>)"
    by (rule recv_line_runs [OF e1(1) assms(2) _ assms(3)]) (use assms(4) in simp)
  then show ?thesis
    unfolding d using e1(2) assms(3,4)
    by (subst (asm) recv_line_loop.simps)
      (simp add: env_call_def set_char_def char_at_def list_update_append nth_append)
qed

lemma recv_line_full:
  assumes "delivers E s (env st) xs e" and "CHR 0x0A \<notin> set xs" and "length buf = len" and "length xs = len"
  shows "recv_line E st s buf len = None"
proof -
  have "recv_line E st s buf len
      = recv_line_loop E s len (length xs) (xs @ drop (length xs) buf) (st\<lparr>env := e\<rparr>)"
    by (rule recv_line_runs [OF assms(1,2) _ assms(3)]) (use assms(4) in simp)
  then show ?thesis
    using assms(3,4) by (subst (asm) recv_line_loop.simps) (simp add: set_char_def)
qed

text \<open>After the last byte of the client \<open>recv\<close> returns 0, at once and for ever.\<close>

definition ended :: "'e ftpd_env \<Rightarrow> int \<Rightarrow> ('e \<Rightarrow> string) \<Rightarrow> bool" where
  "ended E s inp \<longleftrightarrow> (\<forall>e. inp e = [] \<longrightarrow> (\<exists>c e'. e_recv E s e = ((0, c), e') \<and> inp e' = []))"

lemma recv_line_loop_eof:
  assumes "ended E s inp" and "length buf = len"
  shows "inp (env st) = [] \<Longrightarrow> CHR 0x0A \<notin> set (drop i buf) \<Longrightarrow> i \<le> len
    \<Longrightarrow> recv_line_loop E s len i buf st = None"
proof (induction "len - i" arbitrary: i st)
  case 0
  then show ?case
    using assms(2) by (subst recv_line_loop.simps) (simp add: set_char_def)
next
  case (Suc n)
  obtain c e where "e_recv E s (env st) = ((0, c), e)" "inp e = []"
    using assms(1) Suc.prems(1) by (auto simp: ended_def)
  moreover have i: "i < len"
    using Suc(2) by simp
  moreover have "buf ! i \<noteq> CHR 0x0A" "CHR 0x0A \<notin> set (drop (i + 1) buf)"
    using Suc.prems(2) i assms(2) by (auto simp flip: Cons_nth_drop_Suc)
  ultimately show ?case
    using Suc assms(2) by (subst recv_line_loop.simps) (simp add: env_call_def char_at_def)
qed

section \<open>A whole session\<close>

text \<open>A line of the client in its parts, of which the last one ends with the line feed.\<close>

record ftp_request =
  q_indent :: string
  q_word :: string
  q_sep :: char
  q_spaces :: string
  q_options :: "(string \<times> string) list"
  q_args :: string
  q_end :: string

definition request_text :: "ftp_request \<Rightarrow> string" where
  "request_text q = q_indent q @ q_word q @ q_sep q # q_spaces q @ option_text (q_options q) @ q_args q @ q_end q"

definition request_command :: "ftp_request \<Rightarrow> string" where
  "request_command q = map toupper (q_word q)"

definition well_formed_request :: "ftp_request \<Rightarrow> bool" where
  "well_formed_request q \<longleftrightarrow> q_word q \<noteq> [] \<and> list_all (\<lambda>c. c \<noteq> NUL \<and> \<not> isspace c) (q_word q)
     \<and> list_all isspace (q_indent q) \<and> isspace (q_sep q) \<and> list_all isspace (q_spaces q)
     \<and> list_all plain_option (q_options q) \<and> plain_args (q_args q) (q_end q)
     \<and> CHR 0x0A \<notin> set (butlast (request_text q)) \<and> last (request_text q) = CHR 0x0A
     \<and> length (request_text q) < FTPD_CMD_BUF_SIZE"

lemma scripted_delivers:
  "scripted E s inp \<Longrightarrow> inp e = xs @ rest \<Longrightarrow> \<exists>e'. delivers E s e xs e' \<and> inp e' = rest"
proof (induction xs arbitrary: e)
  case Nil
  then show ?case by (auto intro: no_bytes)
next
  case (Cons x xs)
  have "\<exists>e'. e_recv E s e = ((1, x), e') \<and> inp e' = xs @ rest"
    using Cons.prems by (simp add: scripted_def)
  then obtain e1 where "e_recv E s e = ((1, x), e1)" "inp e1 = xs @ rest"
    by blast
  with Cons show ?case
    by (meson one_byte)
qed

text \<open>What a round of the loop makes of a line: the command is run with its arguments in the buffer.\<close>

lemma session_loop_request:
  assumes E: "scripted E (ctrl_socket (session st)) inp" and q: "well_formed_request q"
    and i: "inp (env st) = request_text q @ rest"
  shows "\<exists>st1 buf args. inp (env st1) = rest \<and> sent st1 = sent st \<and> session st1 = session st
    \<and> closed st1 = closed st \<and> cstr_at buf args = Some (q_args q)
    \<and> session_loop E st = (if request_command q = ''QUIT'' then send_ctrl_reply E st1 221 ''Goodbye.''
        else do { st \<leftarrow> exec_command E st1 buf (request_command q) args; session_loop E st })"
proof -
  obtain junk mem where m: "env_call (e_stack E) st = (junk, mem)"
    by (cases "env_call (e_stack E) st")
  then have mem: "sent mem = sent st" "session mem = session st" "closed mem = closed st"
      "inp (env mem) = inp (env st)" and junk: "length junk = FTPD_CMD_BUF_SIZE"
    using E env_call_simps [of "e_stack E" st] by (simp_all add: scripted_def keeps_def)
  let ?l = "request_text q"
  obtain xs where l: "?l = xs @ [CHR 0x0A]" "CHR 0x0A \<notin> set xs"
    using q append_butlast_last_id [of ?l] that [of "butlast ?l"]
    by (simp add: well_formed_request_def request_text_def)
  have len: "length xs + 1 < FTPD_CMD_BUF_SIZE"
    using q by (simp add: well_formed_request_def l(1))
  obtain e where e: "delivers E (ctrl_socket (session st)) (env mem) ?l e" "inp e = rest"
    using scripted_delivers [OF E, of "env mem" ?l rest] i mem by auto
  define line where "line = ?l @ NUL # drop (length xs + 2) junk"
  have r: "recv_line E mem (ctrl_socket (session mem)) junk FTPD_CMD_BUF_SIZE
      = Some (int (length xs + 1), line, mem\<lparr>env := e\<rparr>)"
    using recv_line_complete [OF e(1) [unfolded l(1)] l(2) junk len] by (simp add: mem l(1) line_def)
  obtain buf cmd opts args where s: "split_command line 0 = Some (buf, cmd, opts, args)"
      "cstr_at buf cmd = Some (request_command q)" "cstr_at buf args = Some (q_args q)"
    using split_command_runs [of "q_word q" "q_indent q" "q_sep q" "q_spaces q" "q_options q" "q_args q" "q_end q"
        "[]" "drop (length xs + 2) junk"] q
    by (auto simp: line_def request_text_def request_command_def well_formed_request_def)
  have "session_loop E st = (if request_command q = ''QUIT'' then send_ctrl_reply E (mem\<lparr>env := e\<rparr>) 221 ''Goodbye.''
        else do { st \<leftarrow> exec_command E (mem\<lparr>env := e\<rparr>) buf (request_command q) args; session_loop E st })"
    by (subst session_loop.simps) (simp add: m r s)
  then show ?thesis
    using mem e(2) s(3) by (intro exI [where x = "mem\<lparr>env := e\<rparr>"] exI [where x = buf] exI [where x = args]) simp
qed

lemma length_request_args: "well_formed_request q \<Longrightarrow> length (q_args q) < 254"
  by (cases "q_word q")
    (auto simp: well_formed_request_def request_text_def FTPD_CMD_BUF_SIZE_def plain_args_def)

text \<open>The replies to a list of commands.\<close>

definition replies_to :: "string list \<Rightarrow> string list \<Rightarrow> bool" where
  "replies_to cmds rs \<longleftrightarrow> list_all2 (\<lambda>cmd r. \<exists>code\<in>reply_codes cmd. \<exists>txt. r = reply_text code txt) cmds rs"

lemma session_loop_replies:
  assumes "scripted E c inp" and "list_all (\<lambda>q. well_formed_request q \<and> plain_command (request_command q)) qs"
    and "well_formed_request quit" and "request_command quit = ''QUIT''"
    and "inp (env st) = concat (map request_text qs) @ request_text quit @ rest"
    and "ctrl_socket (session st) = c"
  shows "\<exists>st' rs. session_loop E st = Some st' \<and> replies_to (map request_command qs) rs
    \<and> sent st' = sent st @ map (Pair c) (rs @ [reply_text 221 ''Goodbye.'']) \<and> ctrl_socket (session st') = c
    \<and> data_sockets st' = data_sockets st"
  using assms
proof (induction qs arbitrary: st)
  case Nil
  then obtain st1 where "session_loop E st = send_ctrl_reply E st1 221 ''Goodbye.''"
      "sent st1 = sent st" "session st1 = session st" "closed st1 = closed st"
    using session_loop_request [of E st inp quit rest] by auto
  then show ?case
    using Nil by (simp add: send_ctrl_reply_short replies_to_def data_sockets_def)
next
  case (Cons q qs)
  let ?rest = "concat (map request_text qs) @ request_text quit @ rest"
  have q: "well_formed_request q" "plain_command (request_command q)"
    using Cons.prems(2) by simp_all
  then have "request_command q \<noteq> ''QUIT''"
    by (simp add: plain_command_def)
  then obtain st1 buf args where st1: "inp (env st1) = ?rest" "sent st1 = sent st" "session st1 = session st"
      "closed st1 = closed st" "cstr_at buf args = Some (q_args q)"
      "session_loop E st = do { st \<leftarrow> exec_command E st1 buf (request_command q) args; session_loop E st }"
    using session_loop_request [of E st inp q ?rest] q Cons.prems by auto
  have "answered inp (reply_codes (request_command q)) st1 (exec_command E st1 buf (request_command q) args)"
    by (rule answered_plain [OF q(2) Cons.prems(1) st1(5) length_request_args [OF q(1)]])
  then obtain st2 code msg where st2: "exec_command E st1 buf (request_command q) args = Some st2"
      "code \<in> reply_codes (request_command q)" "same_client inp st1 st2"
      "sent st2 = sent st1 @ [(ctrl_socket (session st1), reply_text code msg)]"
    unfolding answered_def by blast
  then obtain st' rs where st': "session_loop E st2 = Some st'" "replies_to (map request_command qs) rs"
      "sent st' = sent st2 @ map (Pair c) (rs @ [reply_text 221 ''Goodbye.''])" "ctrl_socket (session st') = c"
      "data_sockets st' = data_sockets st2"
    using Cons.IH [of st2] Cons.prems st1 by (auto simp: same_client_def)
  have "data_sockets st2 = data_sockets st"
    using st2(3) st1(3,4) by (simp add: same_client_def data_sockets_def)
  moreover have "replies_to (map request_command (q # qs)) (reply_text code msg # rs)"
    using st'(2) st2(2) by (auto simp: replies_to_def)
  ultimately show ?case
    using st' st2 st1 Cons.prems(6)
    by (intro exI [where x = st'] exI [where x = "reply_text code msg # rs"]) simp
qed

text \<open>
  C22: A client that sends any number of well-formed lines with commands other than the ones with
  a data connection and the working directory, and then QUIT, gets the greeting, exactly one
  reply for each command, with a code of that command and in order, and the goodbye; then the
  session returns, and the sockets it has closed are its data socket, if it has one, and its control
  connection, each of them once and no other.
\<close>

theorem bscl_ftpd_session_answers:
  assumes "scripted E c inp" and "ctrl_socket (session st) = c" and "0 \<le> c"
    and "list_all (\<lambda>q. well_formed_request q \<and> plain_command (request_command q)) qs"
    and "well_formed_request quit" and "request_command quit = ''QUIT''"
    and "inp (env st) = concat (map request_text qs) @ request_text quit @ rest"
  shows "\<exists>st' rs. session_task E st = Some st' \<and> replies_to (map request_command qs) rs
    \<and> sent st' = sent st
        @ map (Pair c) (reply_text 220 ''ftpd ready.'' # rs @ [reply_text 221 ''Goodbye.''])
    \<and> closed st' = closed st @ (if data_sock (session st) < 0 then [] else [data_sock (session st)]) @ [c]
    \<and> ctrl_socket (session st') = -1 \<and> data_sock (session st') < 0"
proof -
  let ?st = "replied E st 220 ''ftpd ready.''"
  have "inp (env ?st) = inp (env st)"
    using assms(1) by (simp add: scripted_def keeps_def)
  then obtain st1 rs where st1: "session_loop E ?st = Some st1" "replies_to (map request_command qs) rs"
      "sent st1 = sent ?st @ map (Pair c) (rs @ [reply_text 221 ''Goodbye.''])" "ctrl_socket (session st1) = c"
      "data_sockets st1 = data_sockets ?st"
    using session_loop_replies [of E c inp qs quit ?st rest] assms by auto
  have "session_task E st = Some (close_stream E (close_data_socket E st1))"
    by (simp add: session_task_def FTPD_SERVER_MESSAGE_def send_ctrl_reply_short st1(1))
  then show ?thesis
    using st1 assms(2,3) by (auto simp: close_stream_def case_prod_unfold data_sockets_def [of st]
      data_sockets_def [of ?st])
qed

section \<open>The bounds of the line buffer\<close>

text \<open>
  C24: When the first 256 bytes that the client sends hold no line feed, and neither does what
  the line buffer holds behind them, \<open>recv_line\<close> writes its terminating zero behind the end of
  the buffer: on an overlong line, and at the end of the connection, which \<open>recv\<close> reports with
  0 and the loop takes for one more byte.
\<close>

theorem bscl_ftpd_recv_line_overruns:
  assumes "scripted E s inp" and "ended E s inp" and "length buf = FTPD_CMD_BUF_SIZE"
    and "CHR 0x0A \<notin> set (take FTPD_CMD_BUF_SIZE (inp (env st) @ drop (length (inp (env st))) buf))"
  shows "recv_line E st s buf FTPD_CMD_BUF_SIZE = None"
proof (cases "length (inp (env st)) < FTPD_CMD_BUF_SIZE")
  case True
  let ?xs = "inp (env st)"
  have xs: "CHR 0x0A \<notin> set ?xs" "CHR 0x0A \<notin> set (drop (length ?xs) buf)"
    using assms(3,4) True by simp_all
  obtain e where e: "delivers E s (env st) ?xs e" "inp e = []"
    using scripted_delivers [OF assms(1), of "env st" ?xs "[]"] by auto
  have "recv_line E st s buf FTPD_CMD_BUF_SIZE = recv_line_loop E s FTPD_CMD_BUF_SIZE (length ?xs)
      (?xs @ drop (length ?xs) buf) (st\<lparr>env := e\<rparr>)"
    by (rule recv_line_runs [OF e(1) xs(1) _ assms(3)]) (use True in simp)
  also have "\<dots> = None"
    by (rule recv_line_loop_eof [OF assms(2)]) (use True assms(3) xs(2) e(2) in simp_all)
  finally show ?thesis .
next
  case False
  let ?xs = "take FTPD_CMD_BUF_SIZE (inp (env st))"
  have xs: "CHR 0x0A \<notin> set ?xs" "length ?xs = FTPD_CMD_BUF_SIZE"
    using assms(4) False by simp_all
  obtain e where "delivers E s (env st) ?xs e"
    using scripted_delivers [OF assms(1), of "env st" ?xs "drop FTPD_CMD_BUF_SIZE (inp (env st))"] by auto
  then show ?thesis
    by (rule recv_line_full [OF _ xs(1) assms(3) xs(2)])
qed

section \<open>The working directory\<close>

text \<open>
  The reply to PWD quotes the working directory when that has at most 221 characters; with
  222 the last byte of the reply is a zero, and from 223 to the 251 that \<open>getcwd\<close> can deliver
  the reply is sent from behind the end of its buffer.
\<close>

lemma bscl_ftpd_pwd_bound:
  assumes "cb_getcwd E 252 (env st) = (Some cwd, e)" and "length cwd \<le> 251"
  defines "msg \<equiv> ''\"'' @ cwd @ ''\" is the current directory.''"
  shows "command_pwd E st =
    (if length cwd \<le> 221 then Some (replied E (st\<lparr>env := e\<rparr>) 250 msg)
     else if length cwd = 222 then Some (snd (ftpd_send E (st\<lparr>env := e\<rparr>) (ctrl_socket (session st))
       (butlast (reply_text 250 msg) @ [NUL])))
     else None)"
proof -
  have d: "length (dec 250) = 3"
    by (simp add: dec.simps)
  have r: "send_ctrl_reply E st' 250 t = (if length t \<le> 249 then Some (replied E st' 250 t)
      else if length t = 250 then Some (snd (ftpd_send E st' (ctrl_socket (session st'))
        (butlast (reply_text 250 t) @ [NUL]))) else None)" for st' t
    using d by (simp add: send_ctrl_reply_def send_printed_def reply_text_def FTPD_CMD_BUF_SIZE_def replied_def
      case_prod_unfold)
  show ?thesis
    using assms(1,2)
    by (simp add: command_pwd_def env_call_def FTPD_CMD_BUF_SIZE_def r msg_def Let_def) arith
qed

section \<open>Files\<close>

text \<open>
  C23: RETR in binary mode over a data connection that is open announces the transfer, sends the
  chunks that the file delivers, in order, confirms, and closes the file and the data connection.
\<close>

theorem bscl_ftpd_retrieve_sends_file:
  assumes "xfer_mode (session st) = FTPD_MODE_BINARY" and "data_sock (session st) = d" and "0 \<le> d"
    and "cb_open E f 1 (env st) = (fd, e1)" and "0 \<le> fd" and "ctrl_socket (session st) = c"
    and "opening = reply_text 150 ''Opening BINARY mode data connection.''"
    and "transfers E fd d (snd (e_send E c opening e1)) chunks e2"
  shows "\<exists>st'. command_retrieve E st f = Some st'
    \<and> sent st' = sent st @ [(c, opening)] @ map (Pair d) chunks @ [(c, reply_text 226 ''Transfer complete.'')]
    \<and> closed st' = closed st @ [d] \<and> data_sock (session st') = -1 \<and> ctrl_socket (session st') = c"
proof -
  let ?st = "replied E (st\<lparr>env := e1\<rparr>) 150 ''Opening BINARY mode data connection.''"
  have l: "send_file_loop E fd d ?st = Some (0, ?st\<lparr>sent := sent ?st @ map (Pair d) chunks, env := e2\<rparr>)"
    by (rule send_file_loop_transfers [OF assms(8)]) (simp add: assms)
  show ?thesis
    using assms(1-6)
    by (simp add: command_retrieve_def env_call_def [of "cb_open E f 1"] send_mode_reply_def data_socket_def
      send_ctrl_reply_short l case_prod_unfold close_data_socket_def assms(7))
qed

text \<open>
  When the data socket cannot be made, RETR sends two final replies, that the connection
  failed and that the file could not be read; in ASCII mode it sends no reply at all.
\<close>

lemma bscl_ftpd_retrieve_failures:
  assumes "xfer_mode (session st) = FTPD_MODE_BINARY" and "data_sock (session st) < 0"
    and "cb_open E f 1 (env st) = (fd, e1)" and "0 \<le> fd" and "\<forall>e. fst (e_socket E e) < 0"
  shows "(\<exists>st'. command_retrieve E st f = Some st' \<and> sent st' = sent st @ map (Pair (ctrl_socket (session st)))
      [reply_text 150 ''Opening BINARY mode data connection.'',
       reply_text 425 ''Can't create data socket.'', reply_text 451 ''File read error.''])
    \<and> command_retrieve E (set_session (\<lambda>s. s\<lparr>xfer_mode := FTPD_MODE_ASCII\<rparr>) st) f
      = Some (set_session (\<lambda>s. s\<lparr>xfer_mode := FTPD_MODE_ASCII\<rparr>) st)"
proof -
  have "\<not> 0 \<le> fst (e_socket E e)" for e
    using assms(5) by (simp add: not_le)
  then show ?thesis
    using assms
    by (simp add: command_retrieve_def env_call_def [of "cb_open E f 1"] send_mode_reply_def data_socket_def
      send_ctrl_reply_short case_prod_unfold close_data_socket_def FTPD_MODE_BINARY_def FTPD_MODE_ASCII_def)
qed

section \<open>Active mode\<close>

lemma scan_u_dec:
  assumes "n < 2 ^ 32" and "rest = [] \<or> \<not> isdigit (hd rest)"
  shows "scan_u (dec n @ rest) = Some (word_of_nat n, rest)"
proof -
  have ne: "dec n \<noteq> []"
    by (subst dec.simps) simp
  then obtain x xs where d: "dec n = x # xs" "isdigit x"
    using dec_isdigit [of n] by (cases "dec n") auto
  have t: "takeWhile isdigit (x # xs @ rest) = dec n" "dropWhile isdigit (x # xs @ rest) = rest"
    using dec_isdigit [of n] assms(2)
    by (cases rest; simp add: d(1) takeWhile_append2 dropWhile_append2 list_all_iff)+
  have u: "ucast (word_of_nat n :: u64) = (word_of_nat n :: u32)"
    by (rule bit_word_eqI) (simp add: bit_simps)
  have "n < 2 ^ 64"
    using assms(1) by simp
  then show ?thesis
    using ne u foldl_digits [of n] isdigit_props [OF d(2)] t
    by (simp add: scan_u_def d digits_value_def)
qed

text \<open>An address as the PORT command has it and as the reply to PASV quotes it.\<close>

definition address_text :: "sockaddr_in \<Rightarrow> string" where
  "address_text a = concat (map (\<lambda>b. byte_text b @ '','') (le32 (sin_addr a) @ [le16 (sin_port a) ! 0]))
     @ byte_text (le16 (sin_port a) ! 1)"

lemma pasv_text_address: "pasv_text a = ''Entering passive mode ('' @ address_text a @ '').''"
  by (simp add: pasv_text_def address_text_def le32_def le16_def)

lemma scan_byte:
  "rest = [] \<or> \<not> isdigit (hd rest) \<Longrightarrow> scan_u (byte_text b @ rest) = Some (ucast b, rest)"
proof -
  have b: "word_of_nat (unat b) = (ucast b :: u32)"
    by (rule bit_word_eqI) (simp add: bit_simps)
  have "unat b < 2 ^ 32"
    by (rule order_less_le_trans [OF unsigned_less]) simp
  then show "rest = [] \<or> \<not> isdigit (hd rest) \<Longrightarrow> scan_u (byte_text b @ rest) = Some (ucast b, rest)"
    unfolding byte_text_def by (simp only: scan_u_dec b)
qed

lemma scan_address:
  assumes "rest = [] \<or> \<not> isdigit (hd rest)"
  shows "scan_fields 6 (address_text a @ rest) = map ucast (le32 (sin_addr a) @ le16 (sin_port a))"
  using assms by (simp add: address_text_def le32_def le16_def numeral_eq_Suc scan_byte isdigit_def)

text \<open>
  A session that was just accepted takes a PORT command exactly if its address is the one
  that \<open>getsockname\<close> gives, the server's own; the address of the client that \<open>accept\<close> gave is
  never looked at, and a client that asks for a connection to itself is refused.
\<close>

lemma bscl_ftpd_port_own_address:
  assumes "e_accept E s (env st0) = ((ss, peer), e1)" and "0 \<le> ss"
    and "e_getsockname E ss e1 = ((r, own), e2)" and "0 \<le> r"
    and "ftpd_accept E st0 s port (Some mem) = (Some ses, st1)" and "session st = ses"
  shows "command_port E st (address_text a) = Some
    (if sin_addr a = sin_addr own
     then set_session (\<lambda>s. s\<lparr>pasive := False\<rparr>)
       (replied E (set_session (\<lambda>s. s\<lparr>data_addr := a\<rparr>) st) 200 ''PORT command successful.'')
     else replied E st 425 ''Address doesn't match peer's IP.'')"
proof -
  have ses: "ctrl_socket ses = ss" "data_sock ses = -1" "sin_addr (data_addr ses) = sin_addr own"
    using assms(1-5) by (auto simp: ftpd_accept_def env_call_def)
  have f: "scan_fields 6 (address_text a) = map ucast (le32 (sin_addr a) @ le16 (sin_port a))"
    using scan_address [of "[]" a] by simp
  have b: "map ucast (map ucast bs :: u32 list) = (bs :: u8 list)" for bs
    by (induction bs) (simp_all add: ucast_up_ucast_id is_up)
  have le: "(ucast (x :: u8) :: u32) \<le> 255" for x
  proof -
    have "unat x < 256"
      by (rule order_less_le_trans [OF unsigned_less]) simp
    then have "unat x mod 2 ^ 32 \<le> 255"
      using mod_less_eq_dividend [of "unat x" "2 ^ 32"] by linarith
    then show ?thesis
      by (simp add: word_le_nat_alt unsigned_ucast_eq take_bit_eq_mod)
  qed
  have "close_data_socket E st = st"
    by (simp add: close_data_socket_def assms(6) ses)
  moreover have "\<lparr>sin_addr = sin_addr a, sin_port = sin_port a\<rparr> = a"
    by simp
  ultimately show ?thesis
    by (simp add: command_port_def f b le send_ctrl_reply_short assms(6) ses Let_def del: map_map map_append)
qed

section \<open>A concrete environment\<close>

text \<open>
  A client whose input is the state, sockets that can be had for the asking except for new
  ones, and a file system with one file, which holds the rest of the state.
\<close>

definition demo_peer :: sockaddr_in where
  "demo_peer = \<lparr>sin_addr = 0x0200000A, sin_port = 0x1234\<rparr>"

definition demo_own :: sockaddr_in where
  "demo_own = \<lparr>sin_addr = 0x0100000A, sin_port = 0x1500\<rparr>"

definition demo_env :: "string ftpd_env" where
  "demo_env = \<lparr>e_send = \<lambda>fd b e. (int (length b), e),
     e_recv = \<lambda>s e. (case e of [] \<Rightarrow> ((0, NUL), []) | c # cs \<Rightarrow> ((1, c), cs)),
     e_delete = \<lambda>fd e. (0, e), e_socket = \<lambda>e. (-1, e), e_setsockopt = \<lambda>s e. (0, e),
     e_bind = \<lambda>s a e. ((0, False), e), e_connect = \<lambda>s a e. (0, e), e_listen = \<lambda>s e. (0, e),
     e_accept = \<lambda>s e. ((4, demo_peer), e), e_getsockname = \<lambda>s e. ((0, demo_own), e),
     e_time = \<lambda>e. (0, e), e_strftime = \<lambda>b t. [], e_strerror = \<lambda>e. ([], e),
     e_stack = \<lambda>e. (replicate 256 NUL, e),
     cb_open = \<lambda>f m e. (3, e), cb_read = \<lambda>fd n e. ((int (length (take n e)), take n e), drop n e),
     cb_close = \<lambda>fd e. (0, e), cb_stat = \<lambda>f e. ((0, \<lparr>st_type = 1, st_size = word_of_nat (length e), st_time = 0\<rparr>), e),
     cb_opendir = \<lambda>f e. (-1, e), cb_readdir = \<lambda>d e. ((-1, []), e), cb_closedir = \<lambda>d e. (0, e),
     cb_remove = \<lambda>f e. (-1, e), cb_chdir = \<lambda>f e. (0, e), cb_getcwd = \<lambda>n e. (Some e, e)\<rparr>"

definition demo_session :: "string \<Rightarrow> string ftpd" where
  "demo_session e = \<lparr>session = \<lparr>ctrl_addr = demo_own, data_addr = demo_own, ctrl_socket = 4, data_sock = 5,
     xfer_mode = 0, pasive = False, self_control_port = 21\<rparr>, sent = [], closed = [], env = e\<rparr>"

definition demo_request :: "string \<Rightarrow> string \<Rightarrow> ftp_request" where
  "demo_request w a = \<lparr>q_indent = [], q_word = w, q_sep = (if a = [] then CHR 0x0D else CHR '' ''),
     q_spaces = (if a = [] then [CHR 0x0A] else []), q_options = [], q_args = a,
     q_end = (if a = [] then [] else CRLF)\<rparr>"

lemma demo_scripted: "scripted demo_env 4 (\<lambda>e. e)"
  by (simp add: scripted_def demo_env_def keeps_def FTPD_CMD_BUF_SIZE_def)

lemma bscl_ftpd_session_answers_witness:
  "\<exists>st' rs. session_task demo_env (demo_session (''CWD a'' @ CRLF @ ''quit'' @ CRLF)) = Some st'
    \<and> replies_to [''CWD''] rs
    \<and> sent st' = map (Pair 4) (reply_text 220 ''ftpd ready.'' # rs @ [reply_text 221 ''Goodbye.''])
    \<and> closed st' = [5, 4] \<and> ctrl_socket (session st') = -1 \<and> data_sock (session st') < 0"
proof -
  have u: "map toupper ''CWD'' = ''CWD''" "map toupper ''quit'' = ''QUIT''"
    by code_simp+
  show ?thesis
    using bscl_ftpd_session_answers [OF demo_scripted, of "demo_session (''CWD a'' @ CRLF @ ''quit'' @ CRLF)"
      "[demo_request ''CWD'' ''a'']" "demo_request ''quit'' []" "[]"]
    by (simp add: demo_session_def demo_request_def well_formed_request_def request_text_def request_command_def
      u [simplified] isspace_def plain_args_def ends_options_def plain_command_def option_text_def FTPD_CMD_BUF_SIZE_def)
qed

lemma bscl_ftpd_recv_line_overruns_witness:
  "recv_line demo_env (demo_session (replicate 300 (CHR ''x''))) 4 (replicate 256 NUL) FTPD_CMD_BUF_SIZE = None
    \<and> recv_line demo_env (demo_session []) 4 (replicate 256 NUL) FTPD_CMD_BUF_SIZE = None"
proof -
  have e: "ended demo_env 4 (\<lambda>e. e)"
    by (simp add: ended_def demo_env_def)
  show ?thesis
    using bscl_ftpd_recv_line_overruns [OF demo_scripted e, of "replicate 256 NUL" "demo_session (replicate 300 (CHR ''x''))"]
      bscl_ftpd_recv_line_overruns [OF demo_scripted e, of "replicate 256 NUL" "demo_session []"]
    by (simp add: demo_session_def FTPD_CMD_BUF_SIZE_def)
qed

lemma bscl_ftpd_pwd_bound_witness:
  "command_pwd demo_env (demo_session (replicate 230 (CHR ''d''))) = None"
  using bscl_ftpd_pwd_bound [of demo_env "demo_session (replicate 230 (CHR ''d''))" "replicate 230 (CHR ''d'')"]
  by (simp add: demo_session_def demo_env_def)

lemma bscl_ftpd_retrieve_sends_file_witness:
  "\<exists>st'. command_retrieve demo_env (demo_session ''data'') ''f'' = Some st'
    \<and> sent st' = [(4, reply_text 150 ''Opening BINARY mode data connection.''), (5, ''data''),
        (4, reply_text 226 ''Transfer complete.'')]
    \<and> closed st' = [5] \<and> data_sock (session st') = -1 \<and> ctrl_socket (session st') = 4"
proof -
  have "transfers demo_env 3 5 ''data'' [''data''] []"
    by (rule file_chunk [where ?e1.0 = "[]" and ?e2.0 = "[]"], simp_all add: demo_env_def FTPD_DATA_BUF_SIZE_def)
      (rule file_end, simp)
  then show ?thesis
    using bscl_ftpd_retrieve_sends_file [of "demo_session ''data''" 5 demo_env "''f''" 3 "''data''" 4 _ "[''data'']" "[]"]
    by (simp add: demo_session_def demo_env_def FTPD_MODE_BINARY_def)
qed

lemma bscl_ftpd_retrieve_failures_witness:
  "\<exists>st'. command_retrieve demo_env (set_session (\<lambda>s. s\<lparr>data_sock := -1\<rparr>) (demo_session [])) ''f'' = Some st'
    \<and> map fst (sent st') = [4, 4, 4]"
  using bscl_ftpd_retrieve_failures [of "set_session (\<lambda>s. s\<lparr>data_sock := -1\<rparr>) (demo_session [])" demo_env "''f''" 3 "[]"]
  by (auto simp: demo_session_def demo_env_def FTPD_MODE_BINARY_def)

lemma bscl_ftpd_port_own_address_witness:
  "let accepted = ftpd_accept demo_env (demo_session []) 9 21 (Some (session (demo_session [])));
       st = (demo_session [])\<lparr>session := the (fst accepted)\<rparr>
   in command_port demo_env st (address_text demo_peer)
      = Some (replied demo_env st 425 ''Address doesn't match peer's IP.'')"
proof -
  obtain ses st1 where "ftpd_accept demo_env (demo_session []) 9 21 (Some (session (demo_session []))) = (Some ses, st1)"
    by (simp add: ftpd_accept_def env_call_def demo_env_def)
  then show ?thesis
    using bscl_ftpd_port_own_address [of demo_env 9 "demo_session []" 4 demo_peer "[]" 0 demo_own "[]" 21
        "session (demo_session [])" ses st1 "(demo_session [])\<lparr>session := ses\<rparr>" demo_peer]
    by (simp add: demo_session_def demo_env_def) (simp add: demo_peer_def demo_own_def)
qed

end
