(* ===== verification/Http_Types.thy ===== *)
theory Http_Types
  imports Prelude
begin

text \<open>
  The types of the HTTP client, \<open>include/bscl_http.h\<close>. The enumerations are datatypes; what C numbers
  implicitly is computed by \<open>enum_from\<close>, and the status codes are ordered by their numbers.
\<close>

definition BSCL_HTTP_BUF_SIZE :: nat where "BSCL_HTTP_BUF_SIZE = 1024"

datatype http_method = METHOD_GET | METHOD_HEAD | METHOD_POST | METHOD_PUT | METHOD_DELETE | METHOD_CONNECT
  | METHOD_OPTIONS | METHOD_TRACE

datatype http_status =
  Status_Continue | Status_SwitchingProtocols | Status_OK | Status_Created | Status_Accepted
  | Status_NonAuthoritativeInformation | Status_NoContent | Status_ResetContent
  | Status_PartialContent | Status_MultipleChoices | Status_MovedPermanently | Status_Found
  | Status_SeeOther | Status_NotModified | Status_UseProxy | Status_Unused | Status_TemporaryRedirect
  | Status_BadRequest | Status_Unauthorized | Status_PaymentRequired | Status_Forbidden
  | Status_NotFound | Status_MethodNotAllowed | Status_NotAcceptable
  | Status_ProxyAuthenticationRequired | Status_RequestTimeout | Status_Conflict | Status_Gone
  | Status_LengthRequired | Status_PreconditionFailed | Status_RequestEntityTooLarge
  | Status_RequestURITooLarge | Status_UnsupportedMediaType | Status_Requestedrangenotsatisfiable
  | Status_ExpectationFailed | Status_InternalServerError | Status_NotImplemented | Status_BadGateway
  | Status_ServiceUnavailable | Status_GatewayTimeout | Status_HTTPVersionnotsupported

datatype http_content_type = OctetStream | TextHtml | TextXml | TextPlain | Others

datatype http_head =
  Head_Allow | Head_ContentEncoding | Head_ContentLength | Head_ContentType | Head_Date
  | Head_Expires | Head_LastModified | Head_Location | Head_Refresh | Head_Server | Head_SetCookie
  | Head_WWWAuthenticate

record bscl_http_request_t =
  request_method :: http_method
  request_head :: http_head

record bscl_http_response_t =
  resp_status :: http_status
  content_type :: http_content_type
  content_length :: int
  completed_head :: bool
  contents :: "string option"

section \<open>The numbers of the status codes\<close>

text \<open>An enumerator with a value, and those without one that follow it.\<close>

fun enum_from :: "int \<Rightarrow> 'a list \<Rightarrow> ('a \<times> int) list" where
  "enum_from n [] = []"
| "enum_from n (x # xs) = (x, n) # enum_from (n + 1) xs"

definition http_status_enum :: "(http_status \<times> int) list" where
  "http_status_enum =
     enum_from 100
        [Status_Continue, Status_SwitchingProtocols]
     @ enum_from 200
        [Status_OK, Status_Created, Status_Accepted, Status_NonAuthoritativeInformation, Status_NoContent,
         Status_ResetContent, Status_PartialContent]
     @ enum_from 300
        [Status_MultipleChoices, Status_MovedPermanently, Status_Found, Status_SeeOther,
         Status_NotModified, Status_UseProxy, Status_Unused, Status_TemporaryRedirect]
     @ enum_from 400
        [Status_BadRequest, Status_Unauthorized, Status_PaymentRequired, Status_Forbidden, Status_NotFound,
         Status_MethodNotAllowed, Status_NotAcceptable, Status_ProxyAuthenticationRequired,
         Status_RequestTimeout, Status_Conflict, Status_Gone, Status_LengthRequired,
         Status_PreconditionFailed, Status_RequestEntityTooLarge, Status_RequestURITooLarge,
         Status_UnsupportedMediaType, Status_Requestedrangenotsatisfiable, Status_ExpectationFailed]
     @ enum_from 500
        [Status_InternalServerError, Status_NotImplemented, Status_BadGateway, Status_ServiceUnavailable,
         Status_GatewayTimeout, Status_HTTPVersionnotsupported]"

definition http_status_value :: "http_status \<Rightarrow> int" where
  "http_status_value s = (case map_of http_status_enum s of Some n \<Rightarrow> n | None \<Rightarrow> 0)"

definition http_status_of :: "int \<Rightarrow> http_status option" where
  "http_status_of n = map_of (map (\<lambda>(s, n). (n, s)) http_status_enum) n"

lemma http_status_values [simp]:
  "http_status_value Status_Continue = 100"
  "http_status_value Status_SwitchingProtocols = 101"
  "http_status_value Status_OK = 200"
  "http_status_value Status_Created = 201"
  "http_status_value Status_Accepted = 202"
  "http_status_value Status_NonAuthoritativeInformation = 203"
  "http_status_value Status_NoContent = 204"
  "http_status_value Status_ResetContent = 205"
  "http_status_value Status_PartialContent = 206"
  "http_status_value Status_MultipleChoices = 300"
  "http_status_value Status_MovedPermanently = 301"
  "http_status_value Status_Found = 302"
  "http_status_value Status_SeeOther = 303"
  "http_status_value Status_NotModified = 304"
  "http_status_value Status_UseProxy = 305"
  "http_status_value Status_Unused = 306"
  "http_status_value Status_TemporaryRedirect = 307"
  "http_status_value Status_BadRequest = 400"
  "http_status_value Status_Unauthorized = 401"
  "http_status_value Status_PaymentRequired = 402"
  "http_status_value Status_Forbidden = 403"
  "http_status_value Status_NotFound = 404"
  "http_status_value Status_MethodNotAllowed = 405"
  "http_status_value Status_NotAcceptable = 406"
  "http_status_value Status_ProxyAuthenticationRequired = 407"
  "http_status_value Status_RequestTimeout = 408"
  "http_status_value Status_Conflict = 409"
  "http_status_value Status_Gone = 410"
  "http_status_value Status_LengthRequired = 411"
  "http_status_value Status_PreconditionFailed = 412"
  "http_status_value Status_RequestEntityTooLarge = 413"
  "http_status_value Status_RequestURITooLarge = 414"
  "http_status_value Status_UnsupportedMediaType = 415"
  "http_status_value Status_Requestedrangenotsatisfiable = 416"
  "http_status_value Status_ExpectationFailed = 417"
  "http_status_value Status_InternalServerError = 500"
  "http_status_value Status_NotImplemented = 501"
  "http_status_value Status_BadGateway = 502"
  "http_status_value Status_ServiceUnavailable = 503"
  "http_status_value Status_GatewayTimeout = 504"
  "http_status_value Status_HTTPVersionnotsupported = 505"
  by (simp_all add: http_status_value_def http_status_enum_def)

text \<open>Every code has a number of its own, and the numbers are those of the codes.\<close>

lemma http_status_of_value: "http_status_of (http_status_value s) = Some s"
  by (cases s) (simp_all add: http_status_of_def http_status_enum_def)

lemma http_status_value_inject: "http_status_value s = http_status_value t \<longleftrightarrow> s = t"
  by (metis http_status_of_value option.inject)

instantiation http_status :: linorder
begin

definition less_eq_http_status :: "http_status \<Rightarrow> http_status \<Rightarrow> bool" where
  "less_eq_http_status s t \<longleftrightarrow> http_status_value s \<le> http_status_value t"

definition less_http_status :: "http_status \<Rightarrow> http_status \<Rightarrow> bool" where
  "less_http_status s t \<longleftrightarrow> http_status_value s < http_status_value t"

instance
  by standard (auto simp: less_eq_http_status_def less_http_status_def http_status_value_inject)

end

text \<open>The codes of a class are an interval.\<close>

lemma http_status_class:
  "http_status_value s div 100 = 2 \<longleftrightarrow> Status_OK \<le> s \<and> s \<le> Status_PartialContent"
  "http_status_value s div 100 = 4 \<longleftrightarrow> Status_BadRequest \<le> s \<and> s \<le> Status_ExpectationFailed"
  by (cases s; simp add: less_eq_http_status_def)+

end
