(* ===== verification/Http.thy ===== *)
theory Http
  imports Cstring Http_Types
begin

text \<open>
  The HTTP client \<open>src/bscl_http.c\<close>: the parser for the head of a response, which may be called
  again as more of it arrives, and the request, which sends a head and receives the response.

  The socket is a parameter \<open>E\<close>: a function for \<open>recv\<close> and one for \<open>send\<close> on a state of their
  own. What is sent is logged in order. The copy of the response that goes to a file for tests
  and the messages on the terminal are left out; \<open>malloc\<close> succeeds.
\<close>

section \<open>Data\<close>

definition bscl_http_method_str :: "http_method \<Rightarrow> string option" where
  "bscl_http_method_str m =
     (if m = METHOD_GET then Some ''GET'' else if m = METHOD_HEAD then Some ''HEAD'' else None)"

definition bscl_http_version_str :: string where
  "bscl_http_version_str = ''HTTP/1.1'' @ [CHR 0x0D, CHR 0x0A]"

abbreviation CR :: char where "CR \<equiv> CHR 0x0D"
abbreviation LF :: char where "LF \<equiv> CHR 0x0A"

section \<open>Functions of the C library\<close>

text \<open>
  \<open>strstr\<close> on what lies in memory: \<open>None\<close> when neither the needle nor a zero comes before the
  end, \<open>Some None\<close> for the null pointer.
\<close>

fun strstr :: "string \<Rightarrow> string \<Rightarrow> nat option option" where
  "strstr [] needle = None"
| "strstr (c # cs) needle =
     (if take (length needle) (c # cs) = needle then Some (Some 0)
      else if c = NUL then Some None else map_option (map_option Suc) (strstr cs needle))"

text \<open>
  \<open>%d\<close> of \<open>sscanf\<close>, which reads a \<open>long\<close> and keeps its low 32 bits. \<open>None\<close> when the number does
  not end within the memory, \<open>Some None\<close> when there is no number.
\<close>

definition scan_d :: "string \<Rightarrow> int option option" where
  "scan_d mem =
     (let s = dropWhile isspace mem;
          t = (if s \<noteq> [] \<and> (hd s = CHR ''-'' \<or> hd s = CHR ''+'') then tl s else s);
          v = int (digits_value (takeWhile isdigit t));
          v = (if hd s = CHR ''-'' then max (- (2 ^ 63)) (- v) else min (2 ^ 63 - 1) v)
      in if dropWhile isdigit t = [] then None
         else if takeWhile isdigit t = [] then Some None
         else Some (Some (signed_take_bit 31 v)))"

section \<open>The head of a response\<close>

text \<open>The end of the line that starts at \<open>line\<close>, or of the data.\<close>

function http_line_end :: "string \<Rightarrow> nat \<Rightarrow> nat \<Rightarrow> nat \<Rightarrow> nat option" where
  "http_line_end mem line remain i =
     (if i + 1 < remain then do {
        c \<leftarrow> char_at mem (line + i);
        stop \<leftarrow> (if c = CR then do { c \<leftarrow> char_at mem (line + (i + 1)); Some (c = LF) } else Some False);
        if stop then Some i else http_line_end mem line remain (i + 1)
      }
      else Some i)"
  by pat_completeness auto

termination
  by (relation "measure (\<lambda>(mem, line, remain, i). remain - i)") auto

declare http_line_end.simps [simp del]

text \<open>The type is collected in an array of 20 characters, without its blanks.\<close>

function http_type_loop :: "string \<Rightarrow> nat \<Rightarrow> nat \<Rightarrow> nat \<Rightarrow> string \<Rightarrow> string option" where
  "http_type_loop mem temp len i type =
     (case char_at mem (temp + i) of
        None \<Rightarrow> None
      | Some c \<Rightarrow>
          if c = CHR '' '' then
            if i + 1 < len then http_type_loop mem temp len (i + 1) type else Some type
          else if c = CR \<or> c = LF then Some type
          else if length type < 20 then
            if i + 1 < len then http_type_loop mem temp len (i + 1) (type @ [c]) else Some (type @ [c])
          else None)"
  by pat_completeness auto

termination
  by (relation "measure (\<lambda>(mem, temp, len, i, type). len - i)") auto

declare http_type_loop.simps [simp del]

definition http_type_of :: "string \<Rightarrow> http_content_type" where
  "http_type_of type =
     (if type = ''text/plain'' then TextPlain
      else if type = ''text/xml'' then TextXml
      else if type = ''text/html'' then TextHtml
      else if type = ''octet-stream'' then OctetStream
      else Others)"

definition http_line_type :: "string \<Rightarrow> nat \<Rightarrow> nat \<Rightarrow> http_content_type option" where
  "http_line_type mem temp len = do {
     type \<leftarrow> http_type_loop mem temp len 0 [];
     if length type < 20 then Some (http_type_of (takeWhile (\<lambda>c. c \<noteq> NUL) type)) else None
   }"

text \<open>One line after the other; the count of what is left wraps when it goes below zero.\<close>

function http_header_loop ::
    "string \<Rightarrow> nat \<Rightarrow> nat \<Rightarrow> nat \<Rightarrow> bscl_http_response_t \<Rightarrow> (int \<times> bscl_http_response_t) option" where
  "http_header_loop mem len line remain resp =
     (case http_line_end mem line remain 0 of
        None \<Rightarrow> None
      | Some i \<Rightarrow>
          if i = 0 then Some (int len - (int remain - 2), resp\<lparr>completed_head := True\<rparr>)
          else if i + 1 < remain then do {
            p \<leftarrow> strstr (drop line mem) ''Content-Length:'';
            if p = Some 0 then do {
              n \<leftarrow> scan_d (drop (line + length ''Content-Length:'') mem);
              http_header_loop mem len (line + i + 2) (remain - i - 2)
                (case n of None \<Rightarrow> resp | Some n \<Rightarrow> resp\<lparr>content_length := n\<rparr>)
            }
            else do {
              p \<leftarrow> strstr (drop line mem) ''Content-Type:'';
              if p = Some 0 then do {
                t \<leftarrow> http_line_type mem (line + length ''Content-Type:'') (i + 2);
                http_header_loop mem len (line + i + 2) (remain - i - 2) (resp\<lparr>content_type := t\<rparr>)
              }
              else http_header_loop mem len (line + i + 2) (remain - i - 2) resp
            }
          }
          else Some (int len - int remain, resp))"
  by pat_completeness auto

termination
  by (relation "measure (\<lambda>(mem, len, line, remain, resp). remain)") auto

declare http_header_loop.simps [simp del]

text \<open>\<open>buf\<close> is the index of the data in memory.\<close>

definition bscl_http_parser_header ::
    "string \<Rightarrow> int \<Rightarrow> nat \<Rightarrow> bscl_http_response_t \<Rightarrow> (int \<times> bscl_http_response_t) option" where
  "bscl_http_parser_header mem buf len resp =
     (if buf < 0 then None
      else do {
        let resp = resp\<lparr>content_length := -1\<rparr>;
        p \<leftarrow> strstr (drop (nat buf) mem) ''HTTP/'';
        if p \<noteq> Some 0 then Some (-1, resp) else http_header_loop mem len (nat buf) len resp
      })"

section \<open>The request\<close>

record 'e http_env =
  h_send :: "string \<Rightarrow> 'e \<Rightarrow> int \<times> 'e"
  h_recv :: "nat \<Rightarrow> 'e \<Rightarrow> (int \<times> string) \<times> 'e"

record 'e http =
  h_buf :: string
  h_sent :: "string list"
  h_env :: 'e

definition bscl_tcp_write :: "'e http_env \<Rightarrow> 'e http \<Rightarrow> string \<Rightarrow> 'e http" where
  "bscl_tcp_write E st bytes = st\<lparr>h_sent := h_sent st @ [bytes], h_env := snd (h_send E bytes (h_env st))\<rparr>"

text \<open>\<open>recv\<close> into the buffer of the client at an offset.\<close>

definition bscl_tcp_read :: "'e http_env \<Rightarrow> 'e http \<Rightarrow> nat \<Rightarrow> nat \<Rightarrow> (int \<times> 'e http) option" where
  "bscl_tcp_read E st off len = (let ((res, bytes), e) = h_recv E len (h_env st) in do {
     buf \<leftarrow> mem_write (h_buf st) off (take (nat res) bytes);
     Some (res, st\<lparr>h_buf := buf, h_env := e\<rparr>)
   })"

text \<open>
  Until the head is complete: \<open>recv_buf\<close> and \<open>parse_buf\<close> as offsets. The outcome is \<open>None\<close> within
  when the function returns.
\<close>

partial_function (option) http_head_loop ::
    "'e http_env \<Rightarrow> 'e http \<Rightarrow> nat \<Rightarrow> int \<Rightarrow> bscl_http_response_t
      \<Rightarrow> ((nat \<times> int) option \<times> bscl_http_response_t \<times> 'e http) option" where
  "http_head_loop E st recv_buf parse_buf resp =
     (if recv_buf = BSCL_HTTP_BUF_SIZE then Some (None, resp, st)
      else do {
        (res, st) \<leftarrow> bscl_tcp_read E st recv_buf (BSCL_HTTP_BUF_SIZE - recv_buf);
        if res \<le> 0 then Some (None, resp, st)
        else do {
          let recv_buf = recv_buf + nat res;
          (n, resp) \<leftarrow> bscl_http_parser_header (h_buf st) parse_buf (nat (int recv_buf - parse_buf)) resp;
          let parse_buf = parse_buf + n;
          if completed_head resp then Some (Some (recv_buf, parse_buf), resp, st)
          else http_head_loop E st recv_buf parse_buf resp
        }
      })"

partial_function (option) http_body_loop ::
    "'e http_env \<Rightarrow> 'e http \<Rightarrow> nat \<Rightarrow> nat \<Rightarrow> string \<Rightarrow> (string \<times> 'e http) option" where
  "http_body_loop E st want len body =
     (if len < want then do {
        (res, st) \<leftarrow> bscl_tcp_read E st 0 BSCL_HTTP_BUF_SIZE;
        if res > 0 then do {
          body \<leftarrow> mem_write body len (take (nat res) (h_buf st));
          http_body_loop E st want (len + nat res) body
        }
        else Some (body, st)
      }
      else Some (body, st))"

text \<open>\<open>fresh\<close> is what the memory for the contents holds when it is allocated.\<close>

definition bscl_http_client_request ::
    "'e http_env \<Rightarrow> (nat \<Rightarrow> string) \<Rightarrow> 'e http \<Rightarrow> string \<Rightarrow> http_method \<Rightarrow> string \<Rightarrow> bscl_http_response_t
      \<Rightarrow> (bscl_http_response_t \<times> 'e http) option" where
  "bscl_http_client_request E fresh st url method heads resp = do {
     m \<leftarrow> bscl_http_method_str method;
     let st = bscl_tcp_write E st m;
     let st = bscl_tcp_write E st '' '';
     let st = bscl_tcp_write E st url;
     let st = bscl_tcp_write E st '' '';
     let st = bscl_tcp_write E st bscl_http_version_str;
     let st = bscl_tcp_write E st heads;
     (out, resp, st) \<leftarrow> http_head_loop E st 0 0 resp;
     (case out of
        None \<Rightarrow> Some (resp, st)
      | Some (recv_buf, parse_buf) \<Rightarrow>
          if content_length resp > 0 then do {
            let want = nat (content_length resp);
            let body = fresh want;
            let len = int recv_buf - parse_buf;
            if len < 0 then None
            else do {
              bytes \<leftarrow> mem_read (h_buf st) (nat parse_buf) (nat len);
              body \<leftarrow> mem_write body 0 bytes;
              (body, st) \<leftarrow> http_body_loop E st want (nat len) body;
              Some (resp\<lparr>contents := Some body\<rparr>, st)
            }
          }
          else Some (resp, st))
   }"

section \<open>Lines\<close>

lemma strstr_here: "take (length needle) xs = needle \<Longrightarrow> xs \<noteq> [] \<Longrightarrow> strstr xs needle = Some (Some 0)"
  by (cases xs) simp_all

lemma strstr_found: "strstr xs needle = Some (Some 0) \<Longrightarrow> take (length needle) xs = needle"
  by (cases xs) (auto split: if_splits)

lemma strstr_ends:
  "NUL \<in> set xs \<Longrightarrow> \<exists>p. strstr xs needle = Some p"
  by (induction xs) auto

text \<open>\<open>strstr\<close> as a test for a prefix.\<close>

lemma strstr_not_here:
  assumes "NUL \<in> set xs" and "take (length needle) xs \<noteq> needle"
  shows "\<exists>p. strstr xs needle = Some p \<and> p \<noteq> Some 0"
  using strstr_ends [OF assms(1), of needle] strstr_found [of xs needle] assms(2) by auto

lemma http_line_end_runs:
  assumes "mem = pre @ l @ CR # LF # post" and "CR \<notin> set l" and "i \<le> length l" and "length l + 2 \<le> remain"
  shows "http_line_end mem (length pre) remain i = Some (length l)"
  using assms(3)
proof (induction "length l - i" arbitrary: i)
  case 0
  then show ?case
    using assms by (subst http_line_end.simps) (simp add: char_at_def nth_append)
next
  case (Suc n)
  then have i: "i < length l"
    by simp
  then have "l ! i \<noteq> CR"
    using assms(2) nth_mem by metis
  then have "char_at mem (length pre + i) = Some (l ! i)" "l ! i \<noteq> CR" "i + 1 < remain"
    using assms i by (simp_all add: char_at_def nth_append)
  then show ?case
    using Suc by (subst http_line_end.simps) simp
qed

text \<open>What is left holds no line.\<close>

lemma http_line_end_short:
  assumes "mem = pre @ l @ post" and "CR \<notin> set l" and "i < length l"
  shows "http_line_end mem (length pre) (length l) i = Some (length l - 1)"
  using assms(3)
proof (induction "length l - i" arbitrary: i)
  case (Suc n)
  show ?case
  proof (cases "i + 1 < length l")
    case True
    then have "l ! i \<noteq> CR"
      using assms(2) by (metis Suc.prems nth_mem)
    then have "char_at mem (length pre + i) = Some (l ! i)" "l ! i \<noteq> CR"
      using assms Suc.prems by (simp_all add: char_at_def nth_append)
    then show ?thesis
      using Suc True by (subst http_line_end.simps) simp
  next
    case False
    then have "i = length l - 1"
      using Suc.prems by simp
    then show ?thesis
      using False by (subst http_line_end.simps) simp
  qed
qed simp

section \<open>Fields\<close>

datatype http_field = Content_Length nat | Content_Type string | Other_Field string

fun field_text :: "http_field \<Rightarrow> string" where
  "field_text (Content_Length n) = ''Content-Length: '' @ dec n"
| "field_text (Content_Type t) = ''Content-Type: '' @ t"
| "field_text (Other_Field l) = l"

fun well_formed_field :: "http_field \<Rightarrow> bool" where
  "well_formed_field (Content_Length n) \<longleftrightarrow> n < 2 ^ 31"
| "well_formed_field (Content_Type t) \<longleftrightarrow> list_all (\<lambda>c. c \<notin> {NUL, CR, LF, CHR '' ''}) t \<and> length t < 20"
| "well_formed_field (Other_Field l) \<longleftrightarrow> l \<noteq> [] \<and> CR \<notin> set l \<and> NUL \<notin> set l
     \<and> take 15 l \<noteq> ''Content-Length:'' \<and> take 13 l \<noteq> ''Content-Type:''"

fun apply_field :: "http_field \<Rightarrow> bscl_http_response_t \<Rightarrow> bscl_http_response_t" where
  "apply_field (Content_Length n) resp = resp\<lparr>content_length := int n\<rparr>"
| "apply_field (Content_Type t) resp = resp\<lparr>content_type := http_type_of t\<rparr>"
| "apply_field (Other_Field l) resp = resp"

definition line_text :: "string \<Rightarrow> string" where
  "line_text l = l @ [CR, LF]"

lemma scan_d_dec:
  assumes "n < 2 ^ 31"
  shows "scan_d (CHR '' '' # dec n @ CR # xs) = Some (Some (int n))"
proof -
  have ne: "dec n \<noteq> []"
    by (subst dec.simps) simp
  then obtain y ys where d: "dec n = y # ys" "isdigit y"
    using dec_isdigit [of n] by (cases "dec n") auto
  have cr: "\<not> isdigit CR"
    by (simp add: isdigit_def)
  have t: "takeWhile isdigit (y # ys @ CR # xs) = dec n" "dropWhile isdigit (y # ys @ CR # xs) = CR # xs"
    using dec_isdigit [of n] cr by (simp_all add: d(1) takeWhile_append2 dropWhile_append2 list_all_iff)
  have "digits_value (dec n) = n"
    by (simp add: digits_value_def foldl_digits)
  moreover have "signed_take_bit 31 (int n) = int n"
    using assms by (intro signed_take_bit_int_eq_self) auto
  moreover have "min (2 ^ 63 - 1) (int n) = int n"
    using assms by simp
  ultimately show ?thesis
    using isdigit_props [OF d(2)] t ne unfolding scan_d_def
    by (simp add: d isspace_def Let_def cr)
qed

abbreviation type_char :: "char \<Rightarrow> bool" where
  "type_char c \<equiv> c \<notin> {NUL, CR, LF, CHR '' ''}"

lemma http_type_loop_runs:
  assumes "mem = pre @ t @ CR # post" and "length t < len"
  shows "list_all type_char (drop i t) \<Longrightarrow> i \<le> length t \<Longrightarrow> length type + (length t - i) \<le> 20
    \<Longrightarrow> http_type_loop mem (length pre) len i type = Some (type @ drop i t)"
proof (induction "length t - i" arbitrary: i type)
  case 0
  then show ?case
    using assms(1) by (subst http_type_loop.simps) (simp add: char_at_def nth_append)
next
  case (Suc n)
  then have i: "i < length t"
    by simp
  then have d: "drop i t = t ! i # drop (i + 1) t"
    by (simp add: Cons_nth_drop_Suc)
  moreover have "char_at mem (length pre + i) = Some (t ! i)"
    using assms(1) i by (simp add: char_at_def nth_append)
  ultimately show ?case
    using Suc(1) [of "i + 1" "type @ [t ! i]"] Suc(2-5) i assms(2)
    by (subst http_type_loop.simps) simp
qed

text \<open>A type that does not fit into its array.\<close>

lemma http_type_loop_overruns:
  assumes "mem = pre @ t @ CR # post" and "length t < len"
  shows "list_all type_char (drop i t) \<Longrightarrow> i \<le> length t \<Longrightarrow> length type + (length t - i) > 20
    \<Longrightarrow> length type \<le> 20 \<Longrightarrow> http_type_loop mem (length pre) len i type = None"
proof (induction "length t - i" arbitrary: i type)
  case 0
  then show ?case by simp
next
  case (Suc n)
  then have i: "i < length t"
    by simp
  then have d: "drop i t = t ! i # drop (i + 1) t"
    by (simp add: Cons_nth_drop_Suc)
  moreover have "char_at mem (length pre + i) = Some (t ! i)"
    using assms(1) i by (simp add: char_at_def nth_append)
  ultimately show ?case
    using Suc(1) [of "i + 1" "type @ [t ! i]"] Suc(2-6) i assms(2)
    by (subst http_type_loop.simps) simp
qed

lemma http_type_blank:
  assumes "mem = pre @ (CHR '' '' # t) @ CR # post" and "t \<noteq> [] \<or> 1 < len"
  shows "http_type_loop mem (length pre) len 0 [] = (if 1 < len then http_type_loop mem (length pre) len 1 [] else Some [])"
  using assms by (subst http_type_loop.simps) (simp add: char_at_def nth_append)

text \<open>The type of a line with one blank before it, which has to have fewer than 20 characters.\<close>

lemma http_line_type_line:
  assumes "mem = pre @ (CHR '' '' # t) @ CR # post" and "list_all type_char t" and "length t + 1 < len"
  shows "http_line_type mem (length pre) len = (if length t < 20 then Some (http_type_of t) else None)"
proof -
  have b: "http_type_loop mem (length pre) len 0 [] = http_type_loop mem (length pre) len 1 []"
    using http_type_blank [OF assms(1)] assms(3) by simp
  have t: "takeWhile (\<lambda>c. c \<noteq> NUL) t = t"
    using assms(2) by (auto simp: takeWhile_eq_all_conv list_all_iff)
  show ?thesis
  proof (cases "length t \<le> 20")
    case True
    then show ?thesis
      using http_type_loop_runs [OF assms(1), of len 1 "[]"] assms b by (simp add: http_line_type_def t)
  next
    case False
    then show ?thesis
      using http_type_loop_overruns [OF assms(1), of len 1 "[]"] assms b by (simp add: http_line_type_def)
  qed
qed

section \<open>The loop over the lines\<close>

lemma http_header_loop_line:
  fixes len :: nat
  assumes mem: "mem = pre @ line_text l @ post" and l: "l \<noteq> []" "CR \<notin> set l" and post: "NUL \<in> set post"
    and r: "remain = length (line_text l) + r"
  defines "go \<equiv> http_header_loop mem len (length (pre @ line_text l)) r"
  shows "http_header_loop mem len (length pre) remain resp =
    (if take 15 (l @ [CR]) = ''Content-Length:'' then do {
       n \<leftarrow> scan_d (drop 15 (line_text l @ post));
       go (case n of None \<Rightarrow> resp | Some n \<Rightarrow> resp\<lparr>content_length := n\<rparr>)
     }
     else if take 13 (l @ [CR]) = ''Content-Type:'' then do {
       t \<leftarrow> http_line_type mem (length pre + 13) (length (line_text l));
       go (resp\<lparr>content_type := t\<rparr>)
     }
     else go resp)"
proof -
  have e: "http_line_end mem (length pre) remain 0 = Some (length l)"
    by (rule http_line_end_runs [where post = post]) (use mem l(2) r in \<open>simp_all add: line_text_def\<close>)
  have d: "drop (length pre) mem = line_text l @ post"
    by (simp add: mem)
  have nul: "NUL \<in> set (line_text l @ post)" and ne: "line_text l @ post \<noteq> []"
    using post by (simp_all add: line_text_def)
  have t: "take (length needle) (line_text l @ post) = needle \<longleftrightarrow> take (length needle) (l @ [CR]) = needle"
    if "CR \<notin> set needle" for needle
  proof (cases "length needle \<le> length l")
    case True
    then show ?thesis by (simp add: line_text_def)
  next
    case False
    have "CR \<in> set (take (length needle) (line_text l @ post))" "CR \<in> set (take (length needle) (l @ [CR]))"
      using False by (auto simp: line_text_def take_Cons' split: if_splits)
    then show ?thesis
      using that by metis
  qed
  have n: "length ''Content-Length:'' = 15" "length ''Content-Type:'' = 13"
    by simp_all
  have t15: "take 15 (line_text l @ post) = ''Content-Length:'' \<longleftrightarrow> take 15 (l @ [CR]) = ''Content-Length:''"
    and t13: "take 13 (line_text l @ post) = ''Content-Type:'' \<longleftrightarrow> take 13 (l @ [CR]) = ''Content-Type:''"
    using t [of "''Content-Length:''", unfolded n] t [of "''Content-Type:''", unfolded n] by simp_all
  have s15: "strstr (line_text l @ post) ''Content-Length:'' = Some (Some 0)"
    if "take 15 (l @ [CR]) = ''Content-Length:''"
    by (rule strstr_here [OF _ ne]) (simp only: n t15 that)
  have s13: "strstr (line_text l @ post) ''Content-Type:'' = Some (Some 0)"
    if "take 13 (l @ [CR]) = ''Content-Type:''"
    by (rule strstr_here [OF _ ne]) (simp only: n t13 that)
  have n15: "\<exists>p. strstr (line_text l @ post) ''Content-Length:'' = Some p \<and> p \<noteq> Some 0"
    if "take 15 (l @ [CR]) \<noteq> ''Content-Length:''"
    by (rule strstr_not_here [OF nul]) (simp only: n t15 that not_False_eq_True)
  have n13: "\<exists>p. strstr (line_text l @ post) ''Content-Type:'' = Some p \<and> p \<noteq> Some 0"
    if "take 13 (l @ [CR]) \<noteq> ''Content-Type:''"
    by (rule strstr_not_here [OF nul]) (simp only: n t13 that not_False_eq_True)
  let ?body = "do {
      p \<leftarrow> strstr (line_text l @ post) ''Content-Length:'';
      if p = Some 0 then do {
        n \<leftarrow> scan_d (drop 15 (line_text l @ post));
        go (case n of None \<Rightarrow> resp | Some n \<Rightarrow> resp\<lparr>content_length := n\<rparr>)
      }
      else do {
        p \<leftarrow> strstr (line_text l @ post) ''Content-Type:'';
        if p = Some 0 then do {
          t \<leftarrow> http_line_type mem (length pre + 13) (length (line_text l));
          go (resp\<lparr>content_type := t\<rparr>)
        }
        else go resp
      }
    }"
  have d15: "drop (length pre + 15) mem = drop 15 (line_text l @ post)"
    by (simp add: mem)
  have ll: "length (line_text l) = length l + 2"
    by (simp add: line_text_def)
  have i: "length l \<noteq> 0" "length l + 1 < remain" "remain - length l - 2 = r"
    using l(1) r ll by simp_all
  have "http_header_loop mem len (length pre) remain resp = ?body"
    unfolding go_def
    by (subst http_header_loop.simps)
      (simp only: e option.case i if_False if_True d d15 n ll length_append add.assoc)
  then show ?thesis
    using s15 s13 n15 n13 by (auto split: if_splits)
qed

lemma take_CR: "CR \<notin> set needle \<Longrightarrow> length needle = n \<Longrightarrow> take n (l @ [CR]) = needle \<longleftrightarrow> take n l = needle"
  by (cases "n \<le> length l") (auto simp: take_Cons' split: if_splits)

lemma CR_dec: "CR \<notin> set (dec n)"
  using dec_isdigit [of n] by (auto simp: list_all_iff isdigit_def)

lemma type_chars: "list_all type_char t \<Longrightarrow> CR \<notin> set t"
  by (auto simp: list_all_iff)

lemma http_header_loop_field:
  assumes f: "well_formed_field f" and mem: "mem = pre @ line_text (field_text f) @ post"
    and post: "NUL \<in> set post" and r: "remain = length (line_text (field_text f)) + r"
  shows "http_header_loop mem len (length pre) remain resp
    = http_header_loop mem len (length (pre @ line_text (field_text f))) r (apply_field f resp)"
proof (cases f)
  case (Content_Length n)
  have "scan_d (drop 15 (line_text (field_text f) @ post)) = Some (Some (int n))"
    using scan_d_dec [of n "LF # post"] f by (simp add: Content_Length line_text_def)
  moreover have "CR \<notin> set (field_text f)" "field_text f \<noteq> []"
    by (simp_all add: Content_Length CR_dec)
  ultimately show ?thesis
    by (subst http_header_loop_line [OF mem _ _ post r]) (simp_all add: Content_Length)
next
  case (Content_Type t)
  have t: "list_all type_char t" "length t < 20"
    using f by (simp_all add: Content_Type)
  have n: "length (pre @ ''Content-Type:'') = length pre + 13"
    by simp
  have "http_line_type mem (length pre + 13) (length (line_text (field_text f))) = Some (http_type_of t)"
    unfolding n [symmetric] by (subst http_line_type_line [where t = t and post = "LF # post"])
      (use t mem in \<open>simp_all add: Content_Type line_text_def\<close>)
  moreover have "CR \<notin> set (field_text f)" "field_text f \<noteq> []"
    using type_chars [OF t(1)] by (simp_all add: Content_Type)
  ultimately show ?thesis
    by (subst http_header_loop_line [OF mem _ _ post r]) (simp_all add: Content_Type)
next
  case (Other_Field l)
  have "take 15 (l @ [CR]) \<noteq> ''Content-Length:''" "take 13 (l @ [CR]) \<noteq> ''Content-Type:''"
    using f take_CR [of "''Content-Length:''" 15 l] take_CR [of "''Content-Type:''" 13 l]
    by (simp_all add: Other_Field)
  moreover have "CR \<notin> set (field_text f)" "field_text f \<noteq> []"
    using f by (simp_all add: Other_Field)
  ultimately show ?thesis
    by (subst http_header_loop_line [OF mem _ _ post r]) (simp_all add: Other_Field)
qed

definition lines_text :: "http_field list \<Rightarrow> string" where
  "lines_text fs = concat (map (\<lambda>f. line_text (field_text f)) fs)"

definition apply_fields :: "http_field list \<Rightarrow> bscl_http_response_t \<Rightarrow> bscl_http_response_t" where
  "apply_fields fs resp = foldl (\<lambda>r f. apply_field f r) resp fs"

lemma http_header_loop_fields:
  assumes "list_all well_formed_field fs" and "mem = pre @ lines_text fs @ post" and "NUL \<in> set post"
    and "remain = length (lines_text fs) + r"
  shows "http_header_loop mem len (length pre) remain resp
    = http_header_loop mem len (length (pre @ lines_text fs)) r (apply_fields fs resp)"
  using assms
proof (induction fs arbitrary: pre remain resp)
  case Nil
  then show ?case
    by (simp add: lines_text_def apply_fields_def)
next
  case (Cons f fs)
  have "http_header_loop mem len (length pre) remain resp = http_header_loop mem len
      (length (pre @ line_text (field_text f))) (length (lines_text fs) + r) (apply_field f resp)"
    by (rule http_header_loop_field [where post = "lines_text fs @ post"])
      (use Cons.prems in \<open>simp_all add: lines_text_def\<close>)
  also have "\<dots> = http_header_loop mem len (length ((pre @ line_text (field_text f)) @ lines_text fs)) r
      (apply_fields fs (apply_field f resp))"
    by (rule Cons.IH) (use Cons.prems in \<open>simp_all add: lines_text_def\<close>)
  finally show ?case
    by (simp add: lines_text_def apply_fields_def)
qed

section \<open>Heads\<close>

definition status_line :: "string \<Rightarrow> bool" where
  "status_line l \<longleftrightarrow> take 5 l = ''HTTP/'' \<and> CR \<notin> set l \<and> NUL \<notin> set l"

definition lines_of :: "string \<Rightarrow> http_field list \<Rightarrow> string" where
  "lines_of status fs = lines_text (Other_Field status # fs)"

text \<open>The parser on the complete lines that the data begins with.\<close>

lemma http_parser_header_lines:
  assumes st: "status_line status" and fs: "list_all well_formed_field fs"
    and mem: "mem = pre @ lines_of status fs @ post" and post: "NUL \<in> set post"
    and len: "len = length (lines_of status fs) + r"
  shows "bscl_http_parser_header mem (int (length pre)) len resp
    = http_header_loop mem len (length (pre @ lines_of status fs)) r (apply_fields fs (resp\<lparr>content_length := -1\<rparr>))"
proof -
  obtain rest where rest: "status = ''HTTP/'' @ rest"
    using st append_take_drop_id [of 5 status] unfolding status_line_def by metis
  then have wf: "well_formed_field (Other_Field status)"
    using st by (simp add: status_line_def)
  have "strstr (drop (length pre) mem) ''HTTP/'' = Some (Some 0)"
    by (rule strstr_here) (simp_all add: mem rest lines_of_def lines_text_def line_text_def)
  then show ?thesis
    using http_header_loop_fields [of "Other_Field status # fs" mem pre post len r len] wf fs mem post len
    by (simp add: bscl_http_parser_header_def lines_of_def apply_fields_def)
qed

lemma http_header_whole:
  assumes "status_line status" and "list_all well_formed_field fs"
    and "head = lines_of status fs @ [CR, LF]" and "mem = pre @ head @ post" and "NUL \<in> set post"
    and "length head \<le> len"
  shows "bscl_http_parser_header mem (int (length pre)) len resp
    = Some (int (length head), (apply_fields fs (resp\<lparr>content_length := -1\<rparr>))\<lparr>completed_head := True\<rparr>)"
proof -
  let ?r = "len - length (lines_of status fs)"
  have "bscl_http_parser_header mem (int (length pre)) len resp
      = http_header_loop mem len (length (pre @ lines_of status fs)) ?r (apply_fields fs (resp\<lparr>content_length := -1\<rparr>))"
    by (rule http_parser_header_lines [where post = "[CR, LF] @ post"]) (use assms in simp_all)
  moreover have "http_line_end mem (length (pre @ lines_of status fs)) ?r 0 = Some 0"
    using http_line_end_runs [of mem "pre @ lines_of status fs" "[]" post 0 ?r] assms by simp
  ultimately show ?thesis
    using assms(3,6) by (subst (asm) http_header_loop.simps) simp
qed

text \<open>
  C25: A complete head, which may be followed by the beginning of the contents, is consumed
  exactly up to the empty line; of its fields the last content length and the last content type
  are stored. The fields are well-formed, which includes that a content type has no blanks and is shorter than
  the 20 characters that are stored of it.
\<close>

theorem bscl_http_header_parsed:
  assumes "status_line status" and "list_all well_formed_field fs"
    and "head = lines_of status fs @ [CR, LF]" and "mem = pre @ head @ post" and "NUL \<in> set post"
    and "length head \<le> len"
  shows "bscl_http_parser_header mem (int (length pre)) len resp
    = Some (int (length head), (apply_fields fs (resp\<lparr>content_length := -1\<rparr>))\<lparr>completed_head := True\<rparr>)"
  by (rule http_header_whole [OF assms])

text \<open>
  When the head arrives in pieces, it is only parsed right if the first piece ends within the
  first line. At the end of a later line, or one byte behind it, the head is taken for complete,
  with more bytes consumed than there are; within a later line the complete lines are consumed, and the next
  call refuses the rest, whose first line is no status line, and forgets the content length.
\<close>

lemma bscl_http_header_pieces:
  assumes "status_line status" and "list_all well_formed_field fs"
    and "mem = pre @ lines_of status fs @ part @ post" and "NUL \<in> set post" and "CR \<notin> set part"
    and "NUL \<notin> set part" and "take 5 (part @ post) \<noteq> ''HTTP/''"
    and "len = length (lines_of status fs @ part)"
    and "resp' = apply_fields fs (resp\<lparr>content_length := -1\<rparr>)"
  shows "bscl_http_parser_header mem (int (length pre)) len resp =
      Some (if length part \<le> 1 then (int len - int (length part) + 2, resp'\<lparr>completed_head := True\<rparr>)
        else (int (length (lines_of status fs)), resp'))
    \<and> bscl_http_parser_header mem (int (length (pre @ lines_of status fs))) len' resp'
      = Some (-1, resp'\<lparr>content_length := -1\<rparr>)"
proof -
  let ?at = "length (pre @ lines_of status fs)"
  have "bscl_http_parser_header mem (int (length pre)) len resp = http_header_loop mem len ?at (length part) resp'"
    unfolding assms(9)
    by (rule http_parser_header_lines [where post = "part @ post"]) (use assms in simp_all)
  also have "\<dots> = Some (if length part \<le> 1 then (int len - int (length part) + 2, resp'\<lparr>completed_head := True\<rparr>)
        else (int (length (lines_of status fs)), resp'))"
  proof (cases "length part \<le> 1")
    case True
    then show ?thesis
      by (subst http_header_loop.simps, subst http_line_end.simps) simp
  next
    case False
    have "http_line_end mem ?at (length part) 0 = Some (length part - 1)"
      by (rule http_line_end_short [where post = post]) (use assms(3,5) False in auto)
    then show ?thesis
      using False assms(8) by (subst http_header_loop.simps) simp
  qed
  finally have first: "bscl_http_parser_header mem (int (length pre)) len resp
      = Some (if length part \<le> 1 then (int len - int (length part) + 2, resp'\<lparr>completed_head := True\<rparr>)
        else (int (length (lines_of status fs)), resp'))" .
  have "drop ?at mem = part @ post"
    using assms(3) by simp
  moreover have "\<exists>p. strstr (part @ post) ''HTTP/'' = Some p \<and> p \<noteq> Some 0"
    by (rule strstr_not_here) (use assms(4,7) in \<open>simp_all add: eval_nat_numeral\<close>)
  ultimately show ?thesis
    using first by (auto simp: bscl_http_parser_header_def simp del: length_append)
qed

text \<open>
  A content type of 20 characters or more is written behind the end of the array that
  collects it.
\<close>

lemma bscl_http_type_overruns:
  assumes "status_line status" and "list_all well_formed_field fs"
    and "list_all type_char t" and "20 \<le> length t"
    and "mem = pre @ lines_of status fs @ line_text (''Content-Type: '' @ t) @ post" and "NUL \<in> set post"
    and "length (lines_of status fs @ line_text (''Content-Type: '' @ t)) \<le> len"
  shows "bscl_http_parser_header mem (int (length pre)) len resp = None"
proof -
  let ?l = "''Content-Type: '' @ t" and ?pre = "pre @ lines_of status fs"
  obtain r where r: "len = length (lines_of status fs) + (length (line_text ?l) + r)"
    using assms(7) that [of "len - length (lines_of status fs) - length (line_text ?l)"] by simp
  have mem: "mem = ?pre @ line_text ?l @ post"
    using assms(5) by simp
  have "bscl_http_parser_header mem (int (length pre)) len resp = http_header_loop mem len (length ?pre)
      (length (line_text ?l) + r) (apply_fields fs (resp\<lparr>content_length := -1\<rparr>))"
    by (rule http_parser_header_lines [where post = "line_text ?l @ post"]) (use assms r in simp_all)
  also have "\<dots> = None"
  proof -
    have n: "length (?pre @ ''Content-Type:'') = length ?pre + 13"
      by simp
    have "http_line_type mem (length ?pre + 13) (length (line_text ?l)) = None"
      unfolding n [symmetric] by (subst http_line_type_line [where t = t and post = "LF # post"])
        (use assms in \<open>simp_all add: line_text_def\<close>)
    then show ?thesis
      using type_chars [OF assms(3)]
      by (subst http_header_loop_line [OF mem _ _ assms(6) refl]) simp_all
  qed
  finally show ?thesis .
qed

section \<open>The client\<close>

text \<open>The server sends these pieces, each of which fits into the buffer of the client.\<close>

inductive serves :: "'e http_env \<Rightarrow> 'e \<Rightarrow> string list \<Rightarrow> bool" for E :: "'e http_env" where
  serves_nothing: "serves E e []"
| serves_piece: "c \<noteq> [] \<Longrightarrow> length c \<le> BSCL_HTTP_BUF_SIZE
    \<Longrightarrow> h_recv E BSCL_HTTP_BUF_SIZE e = ((int (length c), c), e1) \<Longrightarrow> serves E e1 cs \<Longrightarrow> serves E e (c # cs)"

inductive_cases serves_ConsE: "serves E e (c # cs)"

lemma bscl_tcp_read_piece:
  assumes "h_recv E n (h_env st) = ((int (length c), c), e1)" and "off + length c \<le> length (h_buf st)"
  shows "bscl_tcp_read E st off n = Some (int (length c),
    st\<lparr>h_buf := take off (h_buf st) @ c @ drop (off + length c) (h_buf st), h_env := e1\<rparr>)"
  using assms by (simp add: bscl_tcp_read_def mem_write_def)

text \<open>
  The pieces of the contents, of which only the last one reaches the announced length: they are
  stored one behind the other, and what comes beyond the length is written behind the memory.
\<close>

lemma http_body_loop_runs:
  assumes "serves E (h_env st) cs" and "length (h_buf st) = BSCL_HTTP_BUF_SIZE + 1" and "length body = want"
    and "len \<le> want" and "cs \<noteq> [] \<Longrightarrow> len + length (concat (butlast cs)) < want"
    and "want \<le> len + length (concat cs)"
  shows "map_option (\<lambda>(b, st'). (b, h_sent st')) (http_body_loop E st want len body)
    = (if len + length (concat cs) = want then Some (take len body @ concat cs, h_sent st) else None)"
  using assms
proof (induction cs arbitrary: st len body rule: list.induct)
  case Nil
  then show ?case
    by (subst http_body_loop.simps) simp
next
  case (Cons c cs)
  from Cons.prems(1) obtain e1 where c: "c \<noteq> []" "length c \<le> BSCL_HTTP_BUF_SIZE"
      "h_recv E BSCL_HTTP_BUF_SIZE (h_env st) = ((int (length c), c), e1)" "serves E e1 cs"
    by (elim serves_ConsE) blast
  let ?st = "st\<lparr>h_buf := c @ drop (length c) (h_buf st), h_env := e1\<rparr>"
  have r: "bscl_tcp_read E st 0 BSCL_HTTP_BUF_SIZE = Some (int (length c), ?st)"
    using bscl_tcp_read_piece [OF c(3), of 0] c(2) Cons.prems(2) by simp
  have len: "len < want"
    using Cons.prems(5) by simp
  show ?case
  proof (cases "len + length c \<le> want")
    case True
    let ?body = "take len body @ c @ drop (len + length c) body"
    have "http_body_loop E st want len body = http_body_loop E ?st want (len + length c) ?body"
      using r c(1) True len Cons.prems(3) by (subst http_body_loop.simps) (simp add: mem_write_def)
    moreover have "cs \<noteq> [] \<Longrightarrow> len + length c + length (concat (butlast cs)) < want"
      using Cons.prems(5) by simp
    moreover have "take (len + length c) ?body = take len body @ c"
      using Cons.prems(3) len by simp
    ultimately show ?thesis
      using Cons.IH [of ?st ?body "len + length c"] c Cons.prems(2,3,6) True by (simp add: add.assoc)
  next
    case False
    then show ?thesis
      using r c(1) len Cons.prems(3) by (subst http_body_loop.simps) (simp add: mem_write_def)
  qed
qed

text \<open>The first piece of the answer, which holds the whole head.\<close>

lemma http_head_received:
  assumes "status_line status" and "list_all well_formed_field fs" and "head = lines_of status fs @ [CR, LF]"
    and "serves E (h_env st) ((head @ part) # cs)"
    and "length (h_buf st) = BSCL_HTTP_BUF_SIZE + 1" and "NUL \<in> set (drop (length (head @ part)) (h_buf st))"
  shows "\<exists>st1. http_head_loop E st 0 0 resp = Some (Some (length (head @ part), int (length head)),
      (apply_fields fs (resp\<lparr>content_length := -1\<rparr>))\<lparr>completed_head := True\<rparr>, st1)
    \<and> mem_read (h_buf st1) (length head) (length part) = Some part \<and> serves E (h_env st1) cs
    \<and> length (h_buf st1) = BSCL_HTTP_BUF_SIZE + 1 \<and> h_sent st1 = h_sent st"
proof -
  let ?c = "head @ part" and ?resp = "(apply_fields fs (resp\<lparr>content_length := -1\<rparr>))\<lparr>completed_head := True\<rparr>"
  obtain e1 where c: "?c \<noteq> []" "length ?c \<le> BSCL_HTTP_BUF_SIZE"
      "h_recv E BSCL_HTTP_BUF_SIZE (h_env st) = ((int (length ?c), ?c), e1)" "serves E e1 cs"
    using assms(4) by (elim serves_ConsE) blast
  define st1 where "st1 = st\<lparr>h_buf := ?c @ drop (length ?c) (h_buf st), h_env := e1\<rparr>"
  have r: "bscl_tcp_read E st 0 BSCL_HTTP_BUF_SIZE = Some (int (length ?c), st1)"
    using bscl_tcp_read_piece [of E BSCL_HTTP_BUF_SIZE st ?c e1 0] c assms(5) by (simp add: st1_def)
  have "bscl_http_parser_header (h_buf st1) (int (length ([] :: string))) (length ?c) resp = Some (int (length head), ?resp)"
    by (rule http_header_whole [OF assms(1-3), where post = "part @ drop (length ?c) (h_buf st)"])
      (use assms(6) in \<open>simp_all add: st1_def\<close>)
  moreover have h: "0 < length head" and b: "0 < BSCL_HTTP_BUF_SIZE"
    by (simp_all add: assms(3) BSCL_HTTP_BUF_SIZE_def)
  moreover have p: "\<not> int (length head) + int (length part) \<le> 0"
    using h by linarith
  ultimately have "http_head_loop E st 0 0 resp = Some (Some (length ?c, int (length head)), ?resp, st1)"
    using r b by (subst http_head_loop.simps) (simp add: nat_int_add Let_def p del: of_nat_add)
  moreover have "mem_read (h_buf st1) (length head) (length part) = Some part" "serves E (h_env st1) cs"
      "length (h_buf st1) = BSCL_HTTP_BUF_SIZE + 1" "h_sent st1 = h_sent st"
    using c assms(5) by (simp_all add: st1_def mem_read_def)
  ultimately show ?thesis
    by blast
qed

text \<open>
  C26: A GET request sends its line and the given heads; when the first piece of the answer holds
  the whole head, and the rest comes in any pieces, the stored contents are exactly those that
  the server sent if they have the announced length, and the memory is overrun if they are longer.
\<close>

theorem bscl_http_client_fetches:
  assumes "status_line status" and "list_all well_formed_field fs" and "head = lines_of status fs @ [CR, LF]"
    and "content_length (apply_fields fs (resp\<lparr>content_length := -1\<rparr>)) = int want" and "0 < want"
    and "\<forall>b e. snd (h_send E b e) = e" and "serves E (h_env st) ((head @ part) # cs)"
    and "length (h_buf st) = BSCL_HTTP_BUF_SIZE + 1" and "NUL \<in> set (drop (length (head @ part)) (h_buf st))"
    and "\<forall>n. length (fresh n) = n" and "cs = [] \<or> length (part @ concat (butlast cs)) < want"
    and "want \<le> length (part @ concat cs)"
  shows "map_option (\<lambda>(r, st'). (contents r, completed_head r, h_sent st'))
      (bscl_http_client_request E fresh st url METHOD_GET heads resp)
    = (if length (part @ concat cs) = want
       then Some (Some (part @ concat cs), True, h_sent st @ [''GET'', '' '', url, '' '', bscl_http_version_str, heads])
       else None)"
proof -
  define resp' where "resp' = (apply_fields fs (resp\<lparr>content_length := -1\<rparr>))\<lparr>completed_head := True\<rparr>"
  define st0 where "st0 = st\<lparr>h_sent := h_sent st @ [''GET'', '' '', url, '' '', bscl_http_version_str, heads]\<rparr>"
  have "serves E (h_env st0) ((head @ part) # cs)" "length (h_buf st0) = BSCL_HTTP_BUF_SIZE + 1"
      "NUL \<in> set (drop (length (head @ part)) (h_buf st0))"
    using assms(7-9) by (simp_all add: st0_def)
  from http_head_received [OF assms(1-3) this, of resp, folded resp'_def] obtain st1 where
      loop: "http_head_loop E st0 0 0 resp = Some (Some (length (head @ part), int (length head)), resp', st1)"
    and st1: "mem_read (h_buf st1) (length head) (length part) = Some part" "serves E (h_env st1) cs"
      "length (h_buf st1) = BSCL_HTTP_BUF_SIZE + 1" "h_sent st1 = h_sent st0"
    by blast
  have sends: "bscl_tcp_write E (bscl_tcp_write E (bscl_tcp_write E (bscl_tcp_write E (bscl_tcp_write E
      (bscl_tcp_write E st ''GET'') '' '') url) '' '') bscl_http_version_str) heads = st0"
    using assms(6) by (simp add: bscl_tcp_write_def st0_def)
  let ?rest = "\<lambda>body. http_body_loop E st1 want (length part) body"
  have go: "map_option (\<lambda>(r, st'). (contents r, completed_head r, h_sent st'))
      (bscl_http_client_request E fresh st url METHOD_GET heads resp)
    = map_option (\<lambda>(b, st'). (Some b, True, h_sent st')) (mem_write (fresh want) 0 part \<bind> ?rest)"
    using loop sends assms(4,5) st1(1)
    by (auto simp: bscl_http_client_request_def bscl_http_method_str_def resp'_def option.map_comp
      comp_def case_prod_unfold split: Option.bind_splits)
  show ?thesis
  proof (cases "length part \<le> want")
    case True
    let ?body = "part @ drop (length part) (fresh want)"
    have "map_option (\<lambda>(b, st'). (b, h_sent st')) (?rest ?body)
        = (if length part + length (concat cs) = want then Some (take (length part) ?body @ concat cs, h_sent st1) else None)"
      by (rule http_body_loop_runs [OF st1(2,3)]) (use True assms(10-12) in auto)
    then show ?thesis
      unfolding go using True assms(10) st1(4) by (auto simp: mem_write_def st0_def split: if_splits)
  next
    case False
    then show ?thesis
      unfolding go using assms(10) by (simp add: mem_write_def)
  qed
qed

section \<open>A concrete response\<close>

definition demo_fields :: "http_field list" where
  "demo_fields = [Other_Field ''Server: x'', Content_Length 3, Content_Type ''text/html'']"

definition demo_lines :: string where
  "demo_lines = lines_of ''HTTP/1.1 200 OK'' demo_fields"

definition demo_response :: bscl_http_response_t where
  "demo_response = \<lparr>resp_status = Status_OK, content_type = Others, content_length = 0, completed_head = False, contents = None\<rparr>"

lemma demo_fields_ok: "status_line ''HTTP/1.1 200 OK''" "list_all well_formed_field demo_fields"
  by (simp_all add: status_line_def demo_fields_def)

lemma bscl_http_header_parsed_witness:
  "bscl_http_parser_header (demo_lines @ [CR, LF] @ ''abc'' @ [NUL]) 0 (length demo_lines + 5) demo_response
    = Some (int (length demo_lines + 2), demo_response\<lparr>content_type := TextHtml, content_length := 3, completed_head := True\<rparr>)"
  using bscl_http_header_parsed [OF demo_fields_ok refl refl, of "''abc'' @ [NUL]" "length demo_lines + 5" "[]" demo_response]
  by (simp add: demo_lines_def demo_response_def apply_fields_def http_type_of_def demo_fields_def)

lemma bscl_http_header_pieces_witness:
  "bscl_http_parser_header (demo_lines @ ''Da'' @ ''te:'' @ [NUL]) 0 (length demo_lines + 2) demo_response
    = Some (int (length demo_lines), demo_response\<lparr>content_type := TextHtml, content_length := 3\<rparr>)"
  using bscl_http_header_pieces [OF demo_fields_ok, of "demo_lines @ ''Da'' @ ''te:'' @ [NUL]" "[]" "''Da''"
      "''te:'' @ [NUL]" "length demo_lines + 2" _ demo_response]
  by (simp add: demo_lines_def demo_response_def apply_fields_def http_type_of_def demo_fields_def)

lemma bscl_http_type_overruns_witness:
  "bscl_http_parser_header (demo_lines @ line_text (''Content-Type: application/octet-stream'') @ [NUL]) 0
    (length demo_lines + 40) demo_response = None"
  using bscl_http_type_overruns [OF demo_fields_ok, of "''application/octet-stream''"
      "demo_lines @ line_text (''Content-Type: application/octet-stream'') @ [NUL]" "[]" "[NUL]" "length demo_lines + 40" demo_response]
  by (simp add: demo_lines_def line_text_def)

text \<open>A server whose pieces are the state.\<close>

definition demo_server :: "string list http_env" where
  "demo_server = \<lparr>h_send = \<lambda>b e. (int (length b), e),
     h_recv = \<lambda>n e. (case e of [] \<Rightarrow> ((0, []), []) | c # cs \<Rightarrow> ((int (length c), c), cs))\<rparr>"

lemma bscl_http_client_fetches_witness:
  "map_option (\<lambda>(r, st'). (contents r, completed_head r, h_sent st')) (bscl_http_client_request demo_server
      (\<lambda>n. replicate n NUL) \<lparr>h_buf = replicate 1025 NUL, h_sent = [], h_env = [demo_lines @ [CR, LF] @ ''a'', ''bc'']\<rparr>
      ''/'' METHOD_GET [CR, LF] demo_response)
    = Some (Some ''abc'', True, [''GET'', '' '', ''/'', '' '', bscl_http_version_str, [CR, LF]])"
proof -
  have l: "length demo_lines = 72"
    by (simp add: demo_lines_def demo_fields_def lines_of_def lines_text_def line_text_def dec.simps)
  have "serves demo_server [demo_lines @ [CR, LF] @ ''a'', ''bc''] [demo_lines @ [CR, LF] @ ''a'', ''bc'']"
    by (rule serves_piece [where ?e1.0 = "[''bc'']"], simp_all add: demo_server_def l BSCL_HTTP_BUF_SIZE_def)
      (rule serves_piece [where ?e1.0 = "[]"], simp_all add: BSCL_HTTP_BUF_SIZE_def serves_nothing)
  then show ?thesis
    using bscl_http_client_fetches [OF demo_fields_ok refl, of demo_response 3 demo_server
        "\<lparr>h_buf = replicate 1025 NUL, h_sent = [], h_env = [demo_lines @ [CR, LF] @ ''a'', ''bc'']\<rparr>" "''a''" "[''bc'']"
        "\<lambda>n. replicate n NUL" "''/''" "[CR, LF]"] l
    by (simp add: demo_lines_def [symmetric] BSCL_HTTP_BUF_SIZE_def)
      (simp add: demo_server_def demo_response_def apply_fields_def demo_fields_def)
qed

end
