(* ===== verification/Json.thy ===== *)
theory Json
  imports Cstring
begin

text \<open>
  The JSON parser \<open>src/bscl_json.c\<close>.

  The text is a list of characters, the pointers of the parser are indices into it, and reading
  outside it is \<open>None\<close>. The three functions that call each other, and their loops, are the one
  function \<open>json_run\<close> with the place where it stands as an argument. Nodes are values: none is
  reachable from two places, except for the one that the caller passes in, which is overwritten.
  The list of the pairs of an object is a HOL list, to which \<open>bscl_list_insert_tail\<close> appends.
  Allocations succeed. Nodes of numbers and strings are allocated but never handed out, so they
  do not occur.
\<close>

section \<open>Data\<close>

datatype json_result = JSON_PARSE_OK | JSON_PARSE_EXPECT_VALUE | JSON_PARSE_INVALID_VALUE

datatype json = Json_Null | Json_Bool bool | Json_Object "(string \<times> json option) list" | Json_Array

text \<open>What \<open>*b\<close> is: not initialized, a null pointer, or a node with the bytes it has.\<close>

datatype slot = Unset | Null | Node nat json

datatype parse_state = PARSE_WAIT_KEY_START | PARSE_WAIT_KEY_END | PARSE_WAIT_VALUE | PARSE_WAIT_END

definition sizeof_base :: nat where "sizeof_base = 4"
definition sizeof_bool :: nat where "sizeof_bool = 8"
definition sizeof_container :: nat where "sizeof_container = 24"

section \<open>Words\<close>

definition json_space :: "char \<Rightarrow> bool" where
  "json_space c \<longleftrightarrow> c \<in> {CHR '' '', CHR 0x09, CHR 0x0A, CHR 0x0D}"

definition bscl_json_parse_ws :: "string \<Rightarrow> nat \<Rightarrow> nat option" where
  "bscl_json_parse_ws str cur = skip_while json_space str cur"

text \<open>\<open>cur[0] == ... && cur[1] == ...\<close>\<close>

fun literal_at :: "string \<Rightarrow> nat \<Rightarrow> string \<Rightarrow> bool option" where
  "literal_at str cur [] = Some True"
| "literal_at str cur (c # cs) = do {
     d \<leftarrow> char_at str cur;
     if d = c then literal_at str (cur + 1) cs else Some False
   }"

text \<open>Setting the node that \<open>*b\<close> points to, or a new one, of which the first \<open>need\<close> bytes are written.\<close>

fun store_node :: "nat \<Rightarrow> nat \<Rightarrow> json \<Rightarrow> slot \<Rightarrow> slot option" where
  "store_node bytes need v Unset = None"
| "store_node bytes need v Null = Some (Node bytes v)"
| "store_node bytes need v (Node n old) = (if need \<le> n then Some (Node n v) else None)"

definition bscl_json_parse_null :: "string \<Rightarrow> nat \<Rightarrow> slot \<Rightarrow> nat \<Rightarrow> (json_result \<times> slot \<times> nat) option" where
  "bscl_json_parse_null str len b cur = do {
     cur \<leftarrow> bscl_json_parse_ws str cur;
     if cur + 4 > len then Some (JSON_PARSE_INVALID_VALUE, b, cur)
     else do {
       found \<leftarrow> literal_at str cur ''null'';
       if found then do {
         b \<leftarrow> store_node sizeof_base 4 Json_Null b;
         Some (JSON_PARSE_OK, b, cur + 4)
       }
       else Some (JSON_PARSE_INVALID_VALUE, b, cur)
     }
   }"

definition bscl_json_parse_bool :: "string \<Rightarrow> nat \<Rightarrow> slot \<Rightarrow> nat \<Rightarrow> (json_result \<times> slot \<times> nat) option" where
  "bscl_json_parse_bool str len b cur = do {
     cur \<leftarrow> bscl_json_parse_ws str cur;
     found \<leftarrow> (if cur + 4 \<le> len then literal_at str cur ''true'' else Some False);
     if found then do {
       b \<leftarrow> store_node sizeof_bool 5 (Json_Bool True) b;
       Some (JSON_PARSE_OK, b, cur + 4)
     }
     else do {
       found \<leftarrow> (if cur + 5 \<le> len then literal_at str cur ''false'' else Some False);
       if found then do {
         b \<leftarrow> store_node sizeof_bool 5 (Json_Bool False) b;
         Some (JSON_PARSE_OK, b, cur + 5)
       }
       else Some (JSON_PARSE_INVALID_VALUE, b, cur)
     }
   }"

section \<open>Numbers\<close>

definition isxdigit :: "char \<Rightarrow> bool" where
  "isxdigit c \<longleftrightarrow> isdigit c \<or> c \<in> set ''abcdefABCDEF''"

definition lower :: "char \<Rightarrow> char" where
  "lower c = (if 65 \<le> (of_char c :: nat) \<and> (of_char c :: nat) \<le> 90 then char_of (of_char c + (32 :: nat)) else c)"

text \<open>
  How much \<open>strtod\<close> reads: digits with a point and an exponent, decimal or hexadecimal, or one of
  the words for infinity and not-a-number; nothing when there is no number.
\<close>

definition mantissa_length :: "(char \<Rightarrow> bool) \<Rightarrow> string \<Rightarrow> nat" where
  "mantissa_length dig s =
     (let i = length (takeWhile dig s); t = drop i s in
      if t \<noteq> [] \<and> hd t = CHR ''.'' then
        let f = length (takeWhile dig (tl t)) in if i + f = 0 then 0 else i + 1 + f
      else i)"

definition exponent_length :: "char \<Rightarrow> string \<Rightarrow> nat" where
  "exponent_length e s =
     (if s = [] \<or> lower (hd s) \<noteq> e then 0
      else let sg = (if tl s \<noteq> [] \<and> hd (tl s) \<in> {CHR ''+'', CHR ''-''} then 1 else 0);
        d = length (takeWhile isdigit (drop (1 + sg) s)) in
        if d = 0 then 0 else 1 + sg + d)"

definition unsigned_length :: "string \<Rightarrow> nat" where
  "unsigned_length s =
     (let w = map lower s; h = mantissa_length isxdigit (drop 2 s); d = mantissa_length isdigit s in
      if take 8 w = ''infinity'' then 8
      else if take 3 w = ''inf'' then 3
      else if take 3 w = ''nan'' then
        let t = drop 3 s;
          n = length (takeWhile (\<lambda>c. isxdigit c \<or> (97 \<le> (of_char (lower c) :: nat) \<and> (of_char (lower c) :: nat) \<le> 122)
            \<or> c = CHR ''_'') (tl t)) in
        if t \<noteq> [] \<and> hd t = CHR ''('' \<and> n < length (tl t) \<and> tl t ! n = CHR '')'' then 3 + n + 2 else 3
      else if take 2 w = ''0x'' \<and> h > 0 then 2 + h + exponent_length (CHR ''p'') (drop (2 + h) s)
      else if d > 0 then d + exponent_length (CHR ''e'') (drop d s)
      else 0)"

definition strtod_length :: "string \<Rightarrow> nat" where
  "strtod_length s =
     (let sp = length (takeWhile isspace s); t = drop sp s;
        sg = (if t \<noteq> [] \<and> hd t \<in> {CHR ''+'', CHR ''-''} then 1 else 0);
        n = unsigned_length (drop sg t) in
      if n = 0 then 0 else sp + sg + n)"

text \<open>
  \<open>out_of_range\<close> tells for which texts \<open>strtod\<close> sets \<open>errno\<close>; \<open>err\<close> is whether \<open>errno\<close> is set, which
  nobody resets.
\<close>

definition bscl_json_parse_num ::
    "(string \<Rightarrow> bool) \<Rightarrow> string \<Rightarrow> slot \<Rightarrow> nat \<Rightarrow> bool \<Rightarrow> (json_result \<times> slot \<times> nat \<times> bool) option" where
  "bscl_json_parse_num out_of_range str b cur err = do {
     cur \<leftarrow> bscl_json_parse_ws str cur;
     let n = strtod_length (drop cur str);
     let err = (err \<or> out_of_range (take n (drop cur str)));
     if \<not> cur + n < length str then None
     else if err then Some (JSON_PARSE_INVALID_VALUE, b, cur, err)
     else Some (JSON_PARSE_OK, b, cur + n, err)
   }"

section \<open>Strings\<close>

function json_string_loop :: "string \<Rightarrow> nat \<Rightarrow> nat \<Rightarrow> nat \<Rightarrow> (json_result \<times> nat) option" where
  "json_string_loop str len str_begin cur =
     (if cur < len then
        case char_at str cur of
          None \<Rightarrow> None
        | Some c \<Rightarrow>
            if c = CHR 0x22 then
              if cur - str_begin < 1 then Some (JSON_PARSE_INVALID_VALUE, cur)
              else Some (JSON_PARSE_OK, cur + 1)
            else json_string_loop str len str_begin (cur + 1)
      else Some (JSON_PARSE_INVALID_VALUE, cur))"
  by pat_completeness auto

termination
  by (relation "measure (\<lambda>(str, len, str_begin, cur). len - cur)") auto

declare json_string_loop.simps [simp del]

definition bscl_json_parse_str :: "string \<Rightarrow> nat \<Rightarrow> slot \<Rightarrow> nat \<Rightarrow> (json_result \<times> slot \<times> nat) option" where
  "bscl_json_parse_str str len b cur = do {
     c \<leftarrow> char_at str cur;
     let cur = cur + 1;
     if c \<noteq> CHR 0x22 then Some (JSON_PARSE_INVALID_VALUE, b, cur)
     else do {
       (res, cur) \<leftarrow> json_string_loop str len cur cur;
       Some (res, b, cur)
     }
   }"

section \<open>Values, objects and arrays\<close>

text \<open>
  Where the parser stands: at a value, in the loop of an object with its state, the begin of the
  key, the key and the pairs, or in the loop of an array with its variable \<open>base\<close>.
\<close>

datatype json_at =
    At_Value
  | In_Object parse_state nat string "(string \<times> json option) list"
  | In_Array slot

definition node_of :: "slot \<Rightarrow> json option" where
  "node_of b = (case b of Node n v \<Rightarrow> Some v | _ \<Rightarrow> None)"

definition keep_err :: "bool \<Rightarrow> (json_result \<times> slot \<times> nat) option \<Rightarrow> (json_result \<times> slot \<times> nat \<times> bool) option" where
  "keep_err err = map_option (\<lambda>(r, b, cur). (r, b, cur, err))"

text \<open>
  What the loop of an object does at a character: it returns, goes on with the next one, takes the
  object for complete, or reads a value behind the colon.
\<close>

datatype object_step = Return json_result | Go parse_state nat string | Complete | Read_Value

definition json_object_step :: "string \<Rightarrow> nat \<Rightarrow> char \<Rightarrow> parse_state \<Rightarrow> nat \<Rightarrow> string \<Rightarrow> object_step" where
  "json_object_step str cur c state key_begin key = (case state of
     PARSE_WAIT_KEY_START \<Rightarrow>
       if c = CHR 0x22 then Go PARSE_WAIT_KEY_END (cur + 1) [] else Return JSON_PARSE_INVALID_VALUE
   | PARSE_WAIT_KEY_END \<Rightarrow>
       if c = CHR 0x22 then
         if cur - key_begin < 1 then Return JSON_PARSE_INVALID_VALUE
         else Go PARSE_WAIT_VALUE key_begin (take (cur - key_begin) (drop key_begin str))
       else Go PARSE_WAIT_KEY_END key_begin key
   | PARSE_WAIT_VALUE \<Rightarrow> if c = CHR '':'' then Read_Value else Return JSON_PARSE_INVALID_VALUE
   | PARSE_WAIT_END \<Rightarrow>
       if c = CHR 0x7D then Complete
       else if c = CHR '','' then Go PARSE_WAIT_KEY_START key_begin key
       else Go PARSE_WAIT_END key_begin key)"

partial_function (option) json_run ::
    "(string \<Rightarrow> bool) \<Rightarrow> string \<Rightarrow> nat \<Rightarrow> json_at \<Rightarrow> slot \<Rightarrow> nat \<Rightarrow> bool \<Rightarrow> (json_result \<times> slot \<times> nat \<times> bool) option" where
  "json_run oor str len at b cur err = (case at of
     At_Value \<Rightarrow> do {
       cur \<leftarrow> bscl_json_parse_ws str cur;
       c \<leftarrow> char_at str cur;
       if c = CHR ''n'' then keep_err err (bscl_json_parse_null str len b cur)
       else if c = CHR ''f'' \<or> c = CHR ''t'' then keep_err err (bscl_json_parse_bool str len b cur)
       else if c = CHR 0x7B then json_run oor str len (In_Object PARSE_WAIT_KEY_START 0 [] []) b (cur + 1) err
       else if c = CHR ''['' then json_run oor str len (In_Array Unset) b (cur + 1) err
       else if c = CHR 0x22 then keep_err err (bscl_json_parse_str str len b cur)
       else if c = NUL then Some (JSON_PARSE_EXPECT_VALUE, b, cur, err)
       else bscl_json_parse_num oor str b cur err
     }
   | In_Object state key_begin key pairs \<Rightarrow>
       if cur < len then do {
         cur \<leftarrow> bscl_json_parse_ws str cur;
         c \<leftarrow> char_at str cur;
         (case json_object_step str cur c state key_begin key of
            Return res \<Rightarrow> Some (res, b, cur, err)
          | Go state key_begin key \<Rightarrow> json_run oor str len (In_Object state key_begin key pairs) b (cur + 1) err
          | Complete \<Rightarrow> Some (JSON_PARSE_OK, Node sizeof_container (Json_Object pairs), cur + 1, err)
          | Read_Value \<Rightarrow> do {
              (res, v, cur, err) \<leftarrow> json_run oor str len At_Value Null (cur + 1) err;
              if res \<noteq> JSON_PARSE_OK then Some (res, b, cur, err)
              else json_run oor str len
                (In_Object PARSE_WAIT_END key_begin key (pairs @ [(key, node_of v)])) b (cur + 1) err
            })
       }
       else Some (JSON_PARSE_OK, b, cur, err)
   | In_Array base \<Rightarrow>
       if cur < len then do {
         (res, base, cur, err) \<leftarrow> json_run oor str len At_Value base cur err;
         if res \<noteq> JSON_PARSE_OK then Some (res, b, cur, err)
         else do {
           cur \<leftarrow> bscl_json_parse_ws str cur;
           c \<leftarrow> char_at str cur;
           if c = CHR '','' then json_run oor str len (In_Array base) b (cur + 1) err
           else if c = CHR '']'' then Some (JSON_PARSE_OK, Node sizeof_container Json_Array, cur, err)
           else Some (JSON_PARSE_INVALID_VALUE, b, cur, err)
         }
       }
       else Some (JSON_PARSE_INVALID_VALUE, b, cur, err))"

text \<open>The functions of the source as entries into it.\<close>

definition bscl_json_parse where
  "bscl_json_parse oor str len b cur err = json_run oor str len At_Value b cur err"

definition bscl_json_parse_object where
  "bscl_json_parse_object oor str len b cur err = do {
     c \<leftarrow> char_at str cur;
     if c \<noteq> CHR 0x7B then Some (JSON_PARSE_INVALID_VALUE, b, cur + 1, err)
     else json_run oor str len (In_Object PARSE_WAIT_KEY_START 0 [] []) b (cur + 1) err
   }"

definition bscl_json_parse_array where
  "bscl_json_parse_array oor str len b cur err = do {
     c \<leftarrow> char_at str cur;
     if c \<noteq> CHR ''['' then Some (JSON_PARSE_INVALID_VALUE, b, cur + 1, err)
     else json_run oor str len (In_Array Unset) b (cur + 1) err
   }"

section \<open>Documents\<close>

text \<open>
  Documents without arrays, and their text with one blank behind each value of a pair. \<open>stored\<close> is
  what the parser keeps of them.
\<close>

datatype doc = Doc_Null | Doc_Bool bool | Doc_String string | Doc_Number nat | Doc_Object "(string \<times> doc) list"

abbreviation QUOTE :: char where "QUOTE \<equiv> CHR 0x22"

text \<open>The text of the pairs, of which the first one has a comma before it or not.\<close>

fun pairs_text :: "bool \<Rightarrow> (string \<times> string) list \<Rightarrow> string" where
  "pairs_text comma [] = []"
| "pairs_text comma ((k, v) # ps) =
     (if comma then '','' else []) @ QUOTE # k @ [QUOTE, CHR '':''] @ v @ '' '' @ pairs_text True ps"

fun doc_text :: "doc \<Rightarrow> string" where
  "doc_text Doc_Null = ''null''"
| "doc_text (Doc_Bool v) = (if v then ''true'' else ''false'')"
| "doc_text (Doc_String s) = QUOTE # s @ [QUOTE]"
| "doc_text (Doc_Number n) = dec n"
| "doc_text (Doc_Object ps) = CHR 0x7B # pairs_text False (map (\<lambda>(k, v). (k, doc_text v)) ps) @ [CHR 0x7D]"

fun stored :: "doc \<Rightarrow> json option" where
  "stored Doc_Null = Some Json_Null"
| "stored (Doc_Bool v) = Some (Json_Bool v)"
| "stored (Doc_String s) = None"
| "stored (Doc_Number n) = None"
| "stored (Doc_Object ps) = Some (Json_Object (map (\<lambda>(k, v). (k, stored v)) ps))"

fun well_formed_doc :: "(string \<Rightarrow> bool) \<Rightarrow> doc \<Rightarrow> bool" where
  "well_formed_doc oor (Doc_String s) \<longleftrightarrow> s \<noteq> [] \<and> QUOTE \<notin> set s"
| "well_formed_doc oor (Doc_Number n) \<longleftrightarrow> \<not> oor (dec n)"
| "well_formed_doc oor (Doc_Object ps) \<longleftrightarrow> ps \<noteq> []
     \<and> list_all (\<lambda>(k, v). k \<noteq> [] \<and> QUOTE \<notin> set k \<and> well_formed_doc oor v) ps"
| "well_formed_doc oor _ \<longleftrightarrow> True"

section \<open>Single steps\<close>

lemma ws_runs:
  assumes "str = pre @ sp @ c # post" and "list_all json_space sp" and "\<not> json_space c"
  shows "bscl_json_parse_ws str (length pre) = Some (length (pre @ sp))"
  unfolding bscl_json_parse_ws_def by (rule skip_while_stops [OF assms])

lemma ws_stays:
  "str = pre @ c # post \<Longrightarrow> \<not> json_space c \<Longrightarrow> bscl_json_parse_ws str (length pre) = Some (length pre)"
  using ws_runs [of str pre "[]" c post] by simp

lemma char_at_here [simp]: "char_at (pre @ c # post) (length pre) = Some c"
  by (simp add: char_at_def)

lemma literal_at_runs: "literal_at (pre @ lit @ post) (length pre) lit = Some True"
proof (induction lit arbitrary: pre)
  case (Cons c cs)
  show ?case
    using Cons.IH [of "pre @ [c]"] by simp
qed simp

lemma object_goes:
  assumes "str = pre @ sp @ c # post" and "list_all json_space sp" and "\<not> json_space c" and "length pre < len"
    and "json_object_step str (length (pre @ sp)) c state kb k = Go state' kb' k'"
  shows "json_run oor str len (In_Object state kb k ps) b (length pre) err
    = json_run oor str len (In_Object state' kb' k' ps) b (length (pre @ sp @ [c])) err"
proof -
  have "char_at str (length (pre @ sp)) = Some c"
    using char_at_here [of "pre @ sp" c post] assms(1) by simp
  then show ?thesis
    using assms(4,5) by (subst json_run.simps) (simp add: ws_runs [OF assms(1-3)])
qed

lemma key_is_read:
  assumes "str = pre @ ks @ QUOTE # post" and "QUOTE \<notin> set ks" and "length (pre @ ks) < len"
    and "kb \<le> length pre" and "kb < length (pre @ ks)"
  shows "json_run oor str len (In_Object PARSE_WAIT_KEY_END kb k ps) b (length pre) err
    = json_run oor str len (In_Object PARSE_WAIT_VALUE kb (take (length (pre @ ks) - kb) (drop kb str)) ps) b
        (length (pre @ ks) + 1) err"
  using assms
proof (induction ks arbitrary: pre rule: length_induct)
  case (1 ks)
  let ?sp = "takeWhile json_space ks" and ?r = "dropWhile json_space ks"
  have sp: "list_all json_space ?sp"
    by (auto simp: list_all_iff dest: set_takeWhileD)
  show ?case
  proof (cases ?r)
    case Nil
    then have ks: "?sp = ks"
      by (metis append_Nil2 takeWhile_dropWhile_id)
    have q: "\<not> json_space QUOTE"
      by (simp add: json_space_def)
    show ?thesis
      using object_goes [of str pre ?sp QUOTE post len PARSE_WAIT_KEY_END kb k PARSE_WAIT_VALUE kb
          "take (length (pre @ ks) - kb) (drop kb str)" oor ps b err] "1.prems" sp q ks
      by (simp add: json_object_step_def)
  next
    case (Cons c cs)
    then have ks: "ks = ?sp @ c # cs"
      using takeWhile_dropWhile_id [of json_space ks] by simp
    have c: "\<not> json_space c" "c \<noteq> QUOTE"
      using hd_dropWhile [of json_space ks] Cons "1.prems"(2) set_dropWhileD [of QUOTE json_space ks] by auto
    have "json_run oor str len (In_Object PARSE_WAIT_KEY_END kb k ps) b (length pre) err
        = json_run oor str len (In_Object PARSE_WAIT_KEY_END kb k ps) b (length (pre @ ?sp @ [c])) err"
      by (rule object_goes [where post = "cs @ QUOTE # post"])
        (use "1.prems" sp c ks in \<open>auto simp: json_object_step_def\<close>)
    also have "\<dots> = json_run oor str len (In_Object PARSE_WAIT_VALUE kb (take (length (pre @ ks) - kb) (drop kb str)) ps) b
        (length (pre @ ks) + 1) err"
    proof -
      let ?pre = "pre @ ?sp @ [c]"
      have e: "pre @ ks = ?pre @ cs"
        by (subst ks) simp
      have l: "length cs < length ks"
        using arg_cong [OF ks, of length] by simp
      have str: "str = ?pre @ cs @ QUOTE # post"
        using "1.prems"(1) arg_cong [OF e, of "\<lambda>x. x @ QUOTE # post"] by simp
      have cs: "QUOTE \<notin> set cs"
        using "1.prems"(2) by (subst (asm) ks) simp
      show ?thesis
        unfolding e by (rule "1.IH" [rule_format, OF l str cs]) (use "1.prems"(3-5) arg_cong [OF ks, of length] in simp_all)
    qed
    finally show ?thesis .
  qed
qed

section \<open>Values\<close>

text \<open>
  Reading a value at the end of \<open>pre\<close> leaves the parser behind it, with what it keeps of the
  document in a slot that was null.
\<close>

definition reads_as :: "(string \<Rightarrow> bool) \<Rightarrow> string \<Rightarrow> nat \<Rightarrow> nat \<Rightarrow> doc \<Rightarrow> bool" where
  "reads_as oor str len cur d \<longleftrightarrow> (\<exists>b. json_run oor str len At_Value Null cur False
     = Some (JSON_PARSE_OK, b, cur + length (doc_text d), False) \<and> node_of b = stored d)"

lemma reads_null:
  assumes "str = pre @ ''null'' @ post" and "length pre + 4 \<le> len"
  shows "reads_as oor str len (length pre) Doc_Null"
proof -
  have "bscl_json_parse_ws str (length pre) = Some (length pre)"
    by (rule ws_stays [of _ _ "CHR ''n''" "''ull'' @ post"]) (use assms(1) in \<open>simp_all add: json_space_def\<close>)
  moreover have "literal_at str (length pre) ''null'' = Some True"
    using literal_at_runs [of pre "''null''" post] assms(1) by simp
  moreover have "char_at str (length pre) = Some (CHR ''n'')"
    using assms(1) by simp
  ultimately show ?thesis
    unfolding reads_as_def using assms(2)
    by (subst json_run.simps) (simp add: bscl_json_parse_null_def keep_err_def node_of_def del: literal_at.simps)
qed

lemma reads_bool:
  assumes "str = pre @ doc_text (Doc_Bool v) @ post" and "length pre + length (doc_text (Doc_Bool v)) \<le> len"
  shows "reads_as oor str len (length pre) (Doc_Bool v)"
proof -
  obtain c cs where c: "doc_text (Doc_Bool v) = c # cs" "c = (if v then CHR ''t'' else CHR ''f'')"
    by (cases v) simp_all
  have ws: "bscl_json_parse_ws str (length pre) = Some (length pre)"
    by (rule ws_stays [of _ _ c "cs @ post"]) (use assms(1) c in \<open>simp_all add: json_space_def\<close>)
  have at: "char_at str (length pre) = Some c"
    using assms(1) c by simp
  have "literal_at str (length pre) (doc_text (Doc_Bool v)) = Some True"
    unfolding assms(1) by (rule literal_at_runs)
  moreover have "\<not> v \<Longrightarrow> literal_at str (length pre) ''true'' = Some False"
    using at c by simp
  ultimately have "bscl_json_parse_bool str len Null (length pre)
      = Some (JSON_PARSE_OK, Node sizeof_bool (Json_Bool v), length pre + length (doc_text (Doc_Bool v)))"
    using ws assms(2) by (cases v) (simp_all add: bscl_json_parse_bool_def del: literal_at.simps)
  then show ?thesis
    unfolding reads_as_def using ws at c(2)
    by (subst json_run.simps) (cases v; simp add: keep_err_def node_of_def)
qed

lemma string_loop_runs:
  assumes "str = pre @ s @ QUOTE # post" and "QUOTE \<notin> set s" and "length (pre @ s) < len"
    and "begin \<le> length pre" and "begin < length (pre @ s)"
  shows "json_string_loop str len begin (length pre) = Some (JSON_PARSE_OK, length (pre @ s) + 1)"
  using assms
proof (induction s arbitrary: pre)
  case Nil
  then show ?case
    by (subst json_string_loop.simps) simp
next
  case (Cons x s)
  then have "json_string_loop str len begin (length pre) = json_string_loop str len begin (length (pre @ [x]))"
    by (subst json_string_loop.simps) auto
  then show ?case
    using Cons.IH [of "pre @ [x]"] Cons.prems by simp
qed

lemma reads_string:
  assumes "str = pre @ QUOTE # s @ QUOTE # post" and "s \<noteq> []" and "QUOTE \<notin> set s" and "length pre + length s + 1 < len"
  shows "reads_as oor str len (length pre) (Doc_String s)"
proof -
  have "bscl_json_parse_ws str (length pre) = Some (length pre)"
    by (rule ws_stays [OF assms(1)]) (simp add: json_space_def)
  moreover have at: "char_at str (length pre) = Some QUOTE"
    using assms(1) by simp
  moreover have "json_string_loop str len (length pre + 1) (length pre + 1) = Some (JSON_PARSE_OK, length pre + length s + 2)"
    using string_loop_runs [of str "pre @ [QUOTE]" s post len "length pre + 1"] assms by simp
  ultimately show ?thesis
    unfolding reads_as_def
    by (subst json_run.simps) (simp add: bscl_json_parse_str_def keep_err_def node_of_def)
qed

lemma lower_digit: "isdigit c \<Longrightarrow> lower c = c"
  by (simp add: isdigit_def lower_def)

lemma isdigit_neq:
  "isdigit c \<Longrightarrow> c \<notin> set ''inxtf[+-'' \<and> c \<noteq> CHR 0x7B \<and> c \<noteq> QUOTE \<and> c \<noteq> NUL \<and> \<not> json_space c"
  by (auto simp: isdigit_def json_space_def)

lemma dec_split: "dec n @ post = d \<Longrightarrow> \<exists>x xs. dec n = x # xs \<and> isdigit x \<and> list_all isdigit xs"
  using dec_isdigit [of n] by (cases "dec n") (subst (asm) dec.simps, auto split: if_splits)

lemma strtod_dec: "strtod_length (dec n @ CHR '' '' # post) = length (dec n)"
proof -
  obtain x xs where d: "dec n = x # xs" "isdigit x" "list_all isdigit xs"
    using dec_split by blast
  define s where "s = dec n @ CHR '' '' # post"
  have sp: "\<not> isdigit (CHR '' '')"
    by (simp add: isdigit_def)
  have t: "takeWhile isdigit s = dec n"
    using dec_isdigit [of n] sp by (simp add: takeWhile_append2 list_all_iff s_def)
  have m: "mantissa_length isdigit s = length (dec n)"
    unfolding mantissa_length_def t Let_def by (simp add: s_def)
  have e: "exponent_length (CHR ''e'') (drop (length (dec n)) s) = 0"
    by (simp add: exponent_length_def lower_def s_def)
  have x: "lower x \<noteq> CHR ''i''" "lower x \<noteq> CHR ''n''" "x \<noteq> CHR ''+''" "x \<noteq> CHR ''-''"
    using isdigit_neq [OF d(2)] lower_digit [OF d(2)] by auto
  have w: "take 8 (map lower s) \<noteq> ''infinity''" "take 3 (map lower s) \<noteq> ''inf''" "take 3 (map lower s) \<noteq> ''nan''"
    using x by (simp_all add: s_def d)
  have h: "take 2 (map lower s) \<noteq> ''0x''"
  proof (cases xs)
    case Nil
    then show ?thesis by (simp add: s_def d lower_def)
  next
    case (Cons y ys)
    then have "lower y = y" "y \<noteq> CHR ''x''"
      using d(3) isdigit_neq [of y] lower_digit [of y] by auto
    then show ?thesis by (simp add: s_def d Cons)
  qed
  have "0 < length (dec n)"
    by (simp add: d)
  then have u: "unsigned_length s = length (dec n)"
    by (simp add: unsigned_length_def Let_def w h m e)
  have "takeWhile isspace s = []" "hd s = x" "s \<noteq> []"
    using isdigit_props [OF d(2)] by (simp_all add: s_def d)
  then have "strtod_length s = length (dec n)"
    using x u \<open>0 < length (dec n)\<close> by (simp add: strtod_length_def Let_def)
  then show ?thesis
    by (simp add: s_def)
qed

lemma reads_number:
  assumes str: "str = pre @ dec n @ CHR '' '' # post" and oor: "\<not> oor (dec n)"
  shows "reads_as oor str len (length pre) (Doc_Number n)"
proof -
  obtain x xs where d: "dec n = x # xs" "isdigit x" "list_all isdigit xs"
    using dec_split by blast
  have x: "\<not> json_space x" "x \<notin> set ''nft[''" "x \<noteq> CHR 0x7B" "x \<noteq> QUOTE" "x \<noteq> NUL"
    using isdigit_neq [OF d(2)] by auto
  have ws: "bscl_json_parse_ws str (length pre) = Some (length pre)"
    by (rule ws_stays [of _ _ x "xs @ CHR '' '' # post"]) (use str d x in simp_all)
  have at: "char_at str (length pre) = Some x"
    using str d by simp
  have n: "strtod_length (drop (length pre) str) = length (dec n)"
    using strtod_dec str by simp
  have "bscl_json_parse_num oor str Null (length pre) False = Some (JSON_PARSE_OK, Null, length pre + length (dec n), False)"
  proof -
    have "take (length (dec n)) (drop (length pre) str) = dec n" "length pre + length (dec n) < length str"
      using str by simp_all
    then show ?thesis
      using oor by (simp add: bscl_json_parse_num_def ws n Let_def)
  qed
  then show ?thesis
    unfolding reads_as_def using ws at x by (subst json_run.simps) (simp add: node_of_def)
qed

text \<open>Every place in the text where the document stands with a blank behind it.\<close>

definition readable :: "(string \<Rightarrow> bool) \<Rightarrow> doc \<Rightarrow> bool" where
  "readable oor d \<longleftrightarrow> (\<forall>str pre post len. str = pre @ doc_text d @ CHR '' '' # post \<longrightarrow> length (pre @ doc_text d) < len
     \<longrightarrow> reads_as oor str len (length pre) d)"

lemma reads_pair:
  assumes v: "reads_as oor str len (length (pre @ QUOTE # k @ [QUOTE, CHR '':''])) v" and k: "k \<noteq> []" "QUOTE \<notin> set k"
    and str: "str = pre @ QUOTE # k @ QUOTE # CHR '':'' # doc_text v @ post"
    and len: "length (pre @ QUOTE # k @ QUOTE # CHR '':'' # doc_text v) \<le> len"
  shows "\<exists>kb'. json_run oor str len (In_Object PARSE_WAIT_KEY_START kb k0 ps) b (length pre) False
    = json_run oor str len (In_Object PARSE_WAIT_END kb' k (ps @ [(k, stored v)])) b
        (length (pre @ QUOTE # k @ QUOTE # CHR '':'' # doc_text v) + 1) False"
proof -
  let ?p1 = "pre @ [QUOTE]" and ?p2 = "pre @ QUOTE # k @ [QUOTE]" and ?p3 = "pre @ QUOTE # k @ [QUOTE, CHR '':'']"
  have "json_run oor str len (In_Object PARSE_WAIT_KEY_START kb k0 ps) b (length pre) False
      = json_run oor str len (In_Object PARSE_WAIT_KEY_END (length pre + 1) [] ps) b (length ?p1) False"
    using object_goes [of str pre "[]" QUOTE "k @ QUOTE # CHR '':'' # doc_text v @ post" len
        PARSE_WAIT_KEY_START kb k0 PARSE_WAIT_KEY_END "length pre + 1" "[]" oor ps b False] str len
    by (simp add: json_object_step_def json_space_def)
  also have "\<dots> = json_run oor str len (In_Object PARSE_WAIT_VALUE (length pre + 1)
      (take (length (?p1 @ k) - (length pre + 1)) (drop (length pre + 1) str)) ps) b (length (?p1 @ k) + 1) False"
    by (rule key_is_read [where post = "CHR '':'' # doc_text v @ post"]) (use str len k in simp_all)
  also have "take (length (?p1 @ k) - (length pre + 1)) (drop (length pre + 1) str) = k"
    using str by simp
  also have "json_run oor str len (In_Object PARSE_WAIT_VALUE (length pre + 1) k ps) b (length (?p1 @ k) + 1) False
      = json_run oor str len (In_Object PARSE_WAIT_END (length pre + 1) k (ps @ [(k, stored v)])) b
          (length (?p3 @ doc_text v) + 1) False"
  proof -
    have "bscl_json_parse_ws str (length ?p2) = Some (length ?p2)"
      by (rule ws_stays [where c = "CHR '':''" and post = "doc_text v @ post"])
        (use str in \<open>simp_all add: json_space_def\<close>)
    moreover have "char_at str (length ?p2) = Some (CHR '':'')"
      using char_at_here [of ?p2 "CHR '':''" "doc_text v @ post"] str by simp
    moreover from v obtain b' where "json_run oor str len At_Value Null (length ?p3) False
        = Some (JSON_PARSE_OK, b', length ?p3 + length (doc_text v), False)" "node_of b' = stored v"
      unfolding reads_as_def by blast
    ultimately show ?thesis
      using len by (subst json_run.simps) (simp add: json_object_step_def add.assoc)
  qed
  finally show ?thesis
    by (intro exI [where x = "length pre + 1"]) simp
qed

lemma reads_pairs:
  assumes "list_all (\<lambda>(k, v). k \<noteq> [] \<and> QUOTE \<notin> set k \<and> readable oor v) ps" and "comma \<or> ps \<noteq> []"
    and "str = pre @ pairs_text comma (map (\<lambda>(k, v). (k, doc_text v)) ps) @ CHR 0x7D # post"
    and "length (pre @ pairs_text comma (map (\<lambda>(k, v). (k, doc_text v)) ps)) < len"
  shows "json_run oor str len (In_Object (if comma then PARSE_WAIT_END else PARSE_WAIT_KEY_START) kb k0 acc) b (length pre) False
    = Some (JSON_PARSE_OK, Node sizeof_container (Json_Object (acc @ map (\<lambda>(k, v). (k, stored v)) ps)),
        length (pre @ pairs_text comma (map (\<lambda>(k, v). (k, doc_text v)) ps)) + 1, False)"
  using assms
proof (induction ps arbitrary: pre comma kb k0 acc)
  case Nil
  have "bscl_json_parse_ws str (length pre) = Some (length pre)"
    by (rule ws_stays [where c = "CHR 0x7D" and post = post]) (use Nil in \<open>simp_all add: json_space_def\<close>)
  then show ?case
    using Nil by (subst json_run.simps) (simp add: json_object_step_def)
next
  case (Cons p ps)
  obtain k v where p: "p = (k, v)"
    by (cases p)
  let ?pre = "pre @ (if comma then '','' else [])"
  let ?rest = "pairs_text True (map (\<lambda>(k, v). (k, doc_text v)) ps)"
  have str: "str = ?pre @ QUOTE # k @ QUOTE # CHR '':'' # doc_text v @ CHR '' '' # ?rest @ CHR 0x7D # post"
    using Cons.prems(3) by (simp add: p)
  have len: "length (?pre @ QUOTE # k @ QUOTE # CHR '':'' # doc_text v @ '' '' @ ?rest) < len"
    using Cons.prems(4) by (simp add: p)
  have "json_run oor str len (In_Object (if comma then PARSE_WAIT_END else PARSE_WAIT_KEY_START) kb k0 acc) b (length pre) False
      = json_run oor str len (In_Object PARSE_WAIT_KEY_START kb k0 acc) b (length ?pre) False"
  proof (cases comma)
    case True
    then show ?thesis
      using object_goes [of str pre "[]" "CHR '',''" "QUOTE # k @ QUOTE # CHR '':'' # doc_text v @ CHR '' '' # ?rest @ CHR 0x7D # post"
          len PARSE_WAIT_END kb k0 PARSE_WAIT_KEY_START kb k0 oor acc b False] str len
      by (simp add: json_object_step_def json_space_def)
  qed simp
  moreover obtain kb' where "json_run oor str len (In_Object PARSE_WAIT_KEY_START kb k0 acc) b (length ?pre) False
      = json_run oor str len (In_Object PARSE_WAIT_END kb' k (acc @ [(k, stored v)])) b
          (length (?pre @ QUOTE # k @ QUOTE # CHR '':'' # doc_text v) + 1) False"
  proof -
    have k: "k \<noteq> []" "QUOTE \<notin> set k" "readable oor v"
      using Cons.prems(1) by (simp_all add: p)
    have "reads_as oor str len (length (?pre @ QUOTE # k @ [QUOTE, CHR '':''])) v"
      using k(3) [unfolded readable_def, rule_format, of str "?pre @ QUOTE # k @ [QUOTE, CHR '':'']" "?rest @ CHR 0x7D # post" len]
        str len by simp
    then show ?thesis
      using reads_pair [OF _ k(1,2) str, of oor len kb k0 acc b] len that by auto
  qed
  moreover have "json_run oor str len (In_Object PARSE_WAIT_END kb' k (acc @ [(k, stored v)])) b
      (length (?pre @ QUOTE # k @ QUOTE # CHR '':'' # doc_text v @ '' '')) False
    = Some (JSON_PARSE_OK, Node sizeof_container (Json_Object ((acc @ [(k, stored v)]) @ map (\<lambda>(k, v). (k, stored v)) ps)),
        length ((?pre @ QUOTE # k @ QUOTE # CHR '':'' # doc_text v @ '' '') @ ?rest) + 1, False)"
    using Cons.IH [of True "?pre @ QUOTE # k @ QUOTE # CHR '':'' # doc_text v @ '' ''"] Cons.prems(1) str len by simp
  ultimately show ?case
    by (simp add: p)
qed

lemma well_formed_readable: "well_formed_doc oor d \<Longrightarrow> readable oor d"
proof (induction d)
  case (Doc_Object ps)
  have ps: "list_all (\<lambda>(k, v). k \<noteq> [] \<and> QUOTE \<notin> set k \<and> readable oor v) ps" "ps \<noteq> []"
    using Doc_Object by (fastforce simp: list_all_iff)+
  show ?case
    unfolding readable_def
  proof (intro allI impI)
    fix str pre post len
    assume str: "str = pre @ doc_text (Doc_Object ps) @ CHR '' '' # post" and len: "length (pre @ doc_text (Doc_Object ps)) < len"
    let ?p = "pairs_text False (map (\<lambda>(k, v). (k, doc_text v)) ps)"
    have "bscl_json_parse_ws str (length pre) = Some (length pre)"
      by (rule ws_stays [where c = "CHR 0x7B"]) (use str in \<open>simp_all add: json_space_def\<close>)
    moreover have "json_run oor str len (In_Object (if False then PARSE_WAIT_END else PARSE_WAIT_KEY_START) 0 [] []) Null
        (length (pre @ [CHR 0x7B])) False
      = Some (JSON_PARSE_OK, Node sizeof_container (Json_Object ([] @ map (\<lambda>(k, v). (k, stored v)) ps)),
          length ((pre @ [CHR 0x7B]) @ ?p) + 1, False)"
      by (rule reads_pairs [OF ps(1)]) (use ps(2) str len in simp_all)
    moreover have "char_at str (length pre) = Some (CHR 0x7B)"
      using str by simp
    ultimately show "reads_as oor str len (length pre) (Doc_Object ps)"
      unfolding reads_as_def by (subst json_run.simps) (simp add: node_of_def)
  qed
next
  case Doc_Null
  then show ?case using reads_null by (auto simp: readable_def)
next
  case (Doc_Bool v)
  then show ?case unfolding readable_def using reads_bool less_imp_le by (metis length_append)
next
  case (Doc_String s)
  then show ?case by (auto simp: readable_def intro!: reads_string)
next
  case (Doc_Number n)
  then show ?case by (auto simp: readable_def intro!: reads_number)
qed

section \<open>Documents that are kept and documents that are lost\<close>

lemma value_after_space:
  assumes "str = sp @ c # post" and "list_all json_space sp" and "\<not> json_space c"
  shows "json_run oor str len At_Value b 0 err = json_run oor str len At_Value b (length sp) err"
proof -
  have "bscl_json_parse_ws str 0 = Some (length sp)" "bscl_json_parse_ws str (length sp) = Some (length sp)"
    using ws_runs [of str "[]" sp c post] ws_stays [of str sp c post] assms by simp_all
  then show ?thesis
    by (subst json_run.simps, subst (2) json_run.simps) simp
qed

lemma doc_text_starts:
  assumes "well_formed_doc oor d"
  obtains c cs where "doc_text d = c # cs" "\<not> json_space c"
proof (cases d)
  case (Doc_Bool v)
  then show ?thesis using that by (cases v) (simp_all add: json_space_def)
next
  case (Doc_Number n)
  obtain x xs where "dec n = x # xs" "isdigit x"
    using dec_split by blast
  then show ?thesis using that isdigit_neq [of x] by (simp add: Doc_Number)
qed (use that in \<open>simp_all add: json_space_def\<close>)


text \<open>
  An object of one pair with a null, a boolean or a string that is written without blanks is
  reported as parsed, but the object is never handed out: the character behind the value, its
  closing brace, is skipped.
\<close>

lemma bscl_json_compact_lost:
  assumes "well_formed_doc oor v" and "v = Doc_Null \<or> v = Doc_Bool x \<or> v = Doc_String s"
    and "k \<noteq> []" and "QUOTE \<notin> set k"
    and "len = length (CHR 0x7B # QUOTE # k @ QUOTE # CHR '':'' # doc_text v @ [CHR 0x7D])"
    and "str = CHR 0x7B # QUOTE # k @ QUOTE # CHR '':'' # doc_text v @ CHR 0x7D # post"
  shows "bscl_json_parse oor str len Null 0 False = Some (JSON_PARSE_OK, Null, len, False)"
proof -
  let ?pre = "[CHR 0x7B]"
  let ?p = "?pre @ QUOTE # k @ [QUOTE, CHR '':'']"
  have str: "str = ?pre @ QUOTE # k @ QUOTE # CHR '':'' # doc_text v @ CHR 0x7D # post"
    using assms(6) by simp
  have "reads_as oor str len (length ?p) v"
    using assms(2)
  proof (elim disjE)
    assume v: "v = Doc_Null"
    show ?thesis
      unfolding v by (rule reads_null [where post = "CHR 0x7D # post"]) (use assms v in simp_all)
  next
    assume v: "v = Doc_Bool x"
    show ?thesis
      unfolding v by (rule reads_bool [where post = "CHR 0x7D # post"]) (use assms v in simp_all)
  next
    assume v: "v = Doc_String s"
    show ?thesis
      unfolding v by (rule reads_string [where post = "CHR 0x7D # post"]) (use assms v in simp_all)
  qed
  then obtain kb' where "json_run oor str len (In_Object PARSE_WAIT_KEY_START 0 [] []) Null (length ?pre) False
      = json_run oor str len (In_Object PARSE_WAIT_END kb' k [(k, stored v)]) Null len False"
    using reads_pair [OF _ assms(3,4) str, of oor len 0 "[]" "[]" Null] assms(5) by auto
  moreover have "bscl_json_parse oor str len Null 0 False
      = json_run oor str len (In_Object PARSE_WAIT_KEY_START 0 [] []) Null (length ?pre) False"
    using ws_stays [of str "[]" "CHR 0x7B"] char_at_here [of "[]" "CHR 0x7B"] assms(6)
    unfolding bscl_json_parse_def by (subst json_run.simps) (simp add: json_space_def)
  moreover have "json_run oor str len (In_Object PARSE_WAIT_END kb' k [(k, stored v)]) Null len False
      = Some (JSON_PARSE_OK, Null, len, False)"
    by (subst json_run.simps) simp
  ultimately show ?thesis
    by simp
qed

text \<open>
  Any text that begins like no other value is parsed as a number, and what \<open>strtod\<close> cannot
  read is reported as parsed with nothing consumed; an array that begins with null reads a
  variable that was never set.
\<close>

lemma bscl_json_unchecked:
  assumes "str = c # post" and "\<not> json_space c" and "c \<notin> set ''nft[''" and "c \<noteq> CHR 0x7B" and "c \<noteq> QUOTE" and "c \<noteq> NUL"
    and "strtod_length str = 0" and "\<not> oor []" and "4 < len"
  shows "bscl_json_parse oor str len b 0 False = Some (JSON_PARSE_OK, b, 0, False)
    \<and> bscl_json_parse oor (''[null'' @ post) len b 0 False = None"
proof
  have ws: "bscl_json_parse_ws str 0 = Some 0"
    using ws_stays [of str "[]" c post] assms(1,2) by simp
  moreover have "char_at str 0 = Some c"
    using assms(1) by (simp add: char_at_def)
  moreover have "bscl_json_parse_num oor str b 0 False = Some (JSON_PARSE_OK, b, 0, False)"
    using assms ws by (simp add: bscl_json_parse_num_def Let_def)
  ultimately show "bscl_json_parse oor str len b 0 False = Some (JSON_PARSE_OK, b, 0, False)"
    unfolding bscl_json_parse_def using assms(3-6) by (subst json_run.simps) simp
next
  let ?t = "''[null'' @ post"
  have ws: "bscl_json_parse_ws ?t 0 = Some 0" "bscl_json_parse_ws ?t 1 = Some 1"
    using ws_stays [of ?t "[]" "CHR ''[''" "''null'' @ post"] ws_stays [of ?t "''[''" "CHR ''n''" "''ull'' @ post"]
    by (simp_all add: json_space_def)
  have c: "char_at ?t 0 = Some (CHR ''['')" "char_at ?t 1 = Some (CHR ''n'')"
    by (simp_all add: char_at_def)
  have "literal_at ?t 1 ''null'' = Some True"
    using literal_at_runs [of "''[''" "''null''" post] by simp
  then have "json_run oor ?t len At_Value Unset 1 False = None"
    using ws c assms(9) by (subst json_run.simps) (simp add: bscl_json_parse_null_def keep_err_def del: literal_at.simps)
  then have "json_run oor ?t len (In_Array Unset) b 1 False = None"
    using assms(9) by (subst json_run.simps) simp
  then show "bscl_json_parse oor ?t len b 0 False = None"
    unfolding bscl_json_parse_def using ws c by (subst json_run.simps) simp
qed

section \<open>A concrete document\<close>

definition demo_doc :: doc where
  "demo_doc = Doc_Object [(''a'', Doc_Null), (''b'', Doc_Object [(''c d'', Doc_Bool True), (''n'', Doc_Number 7)])]"


lemma bscl_json_compact_lost_witness:
  "bscl_json_parse (\<lambda>t. False) (CHR 0x7B # QUOTE # ''k'' @ QUOTE # CHR '':'' # ''null'' @ [CHR 0x7D, NUL]) 10 Null 0 False
    = Some (JSON_PARSE_OK, Null, 10, False)"
  using bscl_json_compact_lost [of "\<lambda>t. False" Doc_Null True "[]" "''k''" 10 _ "[NUL]"] by simp

lemma bscl_json_unchecked_witness:
  "bscl_json_parse (\<lambda>t. False) (''xyz'' @ [NUL]) 5 Null 0 False = Some (JSON_PARSE_OK, Null, 0, False)"
proof -
  have "strtod_length (''xyz'' @ [NUL]) = 0"
    by (simp add: strtod_length_def unsigned_length_def mantissa_length_def isspace_def isdigit_def lower_def)
  then show ?thesis
    using bscl_json_unchecked [of "''xyz'' @ [NUL]" "CHR ''x''" "''yz'' @ [NUL]" "\<lambda>t. False" 5 Null]
    by (simp add: json_space_def)
qed

end
