(* ===== verification/Wav.thy ===== *)
theory Wav
  imports Bytes
begin

text \<open>
  WAV files, \<open>src/bscl_wav.c\<close>: the header that is written before the samples, and its two lengths
  that are filled in at the end.

  A stream is the bytes of its file and its position; writes succeed, and a write behind the end
  fills the gap with zeros, as files do.
\<close>

section \<open>Streams\<close>

record stream =
  s_bytes :: "u8 list"
  s_pos :: nat

definition fwrite :: "stream \<Rightarrow> u8 list \<Rightarrow> stream" where
  "fwrite fp xs = \<lparr>s_bytes = take (s_pos fp) (s_bytes fp) @ replicate (s_pos fp - length (s_bytes fp)) 0 @ xs
     @ drop (s_pos fp + length xs) (s_bytes fp), s_pos = s_pos fp + length xs\<rparr>"

definition fseek_set :: "stream \<Rightarrow> nat \<Rightarrow> stream" where
  "fseek_set fp off = fp\<lparr>s_pos := off\<rparr>"

definition fseek_end :: "stream \<Rightarrow> stream" where
  "fseek_end fp = fp\<lparr>s_pos := length (s_bytes fp)\<rparr>"

definition fread :: "stream \<Rightarrow> nat \<Rightarrow> u8 list \<times> stream" where
  "fread fp len = (let xs = take len (drop (s_pos fp) (s_bytes fp)) in (xs, fp\<lparr>s_pos := s_pos fp + length xs\<rparr>))"

section \<open>The header\<close>

record bscl_wav_header_t =
  chRIFF :: string
  total_Len :: u32
  chWAVE :: string
  chFMT :: string
  FMTLen :: u32
  fmt_pcm :: u16
  channels :: u16
  fmt_sampingRate :: u32
  fmt_bytepsec :: u32
  fmt_bytesample :: u16
  fmt_bitpsample :: u16
  chDATA :: string
  DATALen :: u32

definition ascii :: "string \<Rightarrow> u8 list" where
  "ascii s = map of_char s"

text \<open>The struct is packed: its fields follow each other.\<close>

definition header_bytes :: "bscl_wav_header_t \<Rightarrow> u8 list" where
  "header_bytes d = ascii (chRIFF d) @ le32 (total_Len d) @ ascii (chWAVE d) @ ascii (chFMT d) @ le32 (FMTLen d)
     @ le16 (fmt_pcm d) @ le16 (channels d) @ le32 (fmt_sampingRate d) @ le32 (fmt_bytepsec d)
     @ le16 (fmt_bytesample d) @ le16 (fmt_bitpsample d) @ ascii (chDATA d) @ le32 (DATALen d)"

definition sizeof_header :: nat where "sizeof_header = 44"
definition offset_total_Len :: nat where "offset_total_Len = 4"
definition offset_chWAVE :: nat where "offset_chWAVE = 8"
definition offset_DATALen :: nat where "offset_DATALen = 40"

definition wav_head :: bscl_wav_header_t where
  "wav_head = \<lparr>chRIFF = ''RIFF'', total_Len = 0, chWAVE = ''WAVE'', chFMT = ''fmt '', FMTLen = 16, fmt_pcm = 1,
     channels = 1, fmt_sampingRate = 8000, fmt_bytepsec = 8000 * 2, fmt_bytesample = 2, fmt_bitpsample = 16,
     chDATA = ''data'', DATALen = 0\<rparr>"

section \<open>Operations\<close>

record bscl_wav_t =
  wav_fp :: "stream option"
  numChannels :: u32
  totalSamples :: u32
  wav_channels :: u16
  bitsPerSample :: u16

definition bscl_wav_init_with_fp :: "bscl_wav_t \<Rightarrow> stream \<Rightarrow> int \<times> bscl_wav_t" where
  "bscl_wav_init_with_fp this fp = (0, this\<lparr>wav_fp := Some (fwrite fp (header_bytes wav_head))\<rparr>)"

definition bscl_wav_write :: "bscl_wav_t \<Rightarrow> u8 list \<Rightarrow> (int \<times> bscl_wav_t) option" where
  "bscl_wav_write this buf = do {
     fp \<leftarrow> wav_fp this;
     Some (int (length buf), this\<lparr>wav_fp := Some (fwrite fp buf)\<rparr>)
   }"

definition bscl_wav_read :: "bscl_wav_t \<Rightarrow> nat \<Rightarrow> (u8 list \<times> bscl_wav_t) option" where
  "bscl_wav_read this len = do {
     fp \<leftarrow> wav_fp this;
     let (xs, fp) = fread fp len;
     Some (xs, this\<lparr>wav_fp := Some fp\<rparr>)
   }"

text \<open>The second component of the result is the file that is left when the stream is given up.\<close>

definition bscl_wav_finish :: "bscl_wav_t \<Rightarrow> (bscl_wav_t \<times> stream) option" where
  "bscl_wav_finish this = do {
     fp \<leftarrow> wav_fp this;
     let fp = fseek_end fp;
     let len = (ucast (word_of_nat (s_pos fp) - word_of_nat offset_chWAVE :: u64) :: u32);
     let datalen = (ucast (ucast len - word_of_nat sizeof_header + word_of_nat offset_chWAVE :: u64) :: u32);
     let fp = fseek_set fp offset_total_Len;
     let fp = fwrite fp (le32 len);
     let fp = fseek_set fp offset_DATALen;
     let fp = fwrite fp (le32 datalen);
     Some (this\<lparr>wav_fp := None\<rparr>, fp)
   }"

section \<open>Reading a file back\<close>

text \<open>The chunks of a RIFF file: a name of four bytes, a length and that many bytes.\<close>

function riff_chunks :: "u8 list \<Rightarrow> (u8 list \<times> u8 list) list option" where
  "riff_chunks bs =
     (if bs = [] then Some []
      else let n = unat (of_le32 (take 4 (drop 4 bs))) in
        if length bs < 8 + n then None
        else map_option (Cons (take 4 bs, take n (drop 8 bs))) (riff_chunks (drop (8 + n) bs)))"
  by pat_completeness auto

termination
  by (relation "measure length") auto

declare riff_chunks.simps [simp del]

definition wave_chunks :: "u8 list \<Rightarrow> (u8 list \<times> u8 list) list option" where
  "wave_chunks bs =
     (if take 4 bs = ascii ''RIFF'' \<and> unat (of_le32 (take 4 (drop 4 bs))) + 8 = length bs
        \<and> take 4 (drop 8 bs) = ascii ''WAVE''
      then riff_chunks (drop 12 bs) else None)"

fun wav_writes :: "bscl_wav_t \<Rightarrow> u8 list list \<Rightarrow> bscl_wav_t option" where
  "wav_writes this [] = Some this"
| "wav_writes this (b # bufs) = do { (n, this) \<leftarrow> bscl_wav_write this b; wav_writes this bufs }"

lemma length_ascii [simp]: "length (ascii s) = length s"
  by (simp add: ascii_def)

lemma fwrite_end: "s_pos fp = length (s_bytes fp)
    \<Longrightarrow> fwrite fp xs = \<lparr>s_bytes = s_bytes fp @ xs, s_pos = length (s_bytes fp @ xs)\<rparr>"
  by (simp add: fwrite_def)

lemma wav_writes_append:
  "wav_fp this = Some fp \<Longrightarrow> s_pos fp = length (s_bytes fp)
    \<Longrightarrow> \<exists>this'. wav_writes this bufs = Some this' \<and> wav_fp this'
      = Some \<lparr>s_bytes = s_bytes fp @ concat bufs, s_pos = length (s_bytes fp @ concat bufs)\<rparr>"
proof (induction bufs arbitrary: this fp)
  case (Cons b bufs)
  then show ?case
    using Cons.IH [of "this\<lparr>wav_fp := Some (fwrite fp b)\<rparr>" "fwrite fp b"]
    by (auto simp: bscl_wav_write_def fwrite_end)
qed simp

lemma fwrite_over:
  "s_bytes fp = pre @ ys @ post \<Longrightarrow> k = length pre \<Longrightarrow> length ys = length xs
    \<Longrightarrow> fwrite (fseek_set fp k) xs = \<lparr>s_bytes = pre @ xs @ post, s_pos = k + length xs\<rparr>"
  by (simp add: fwrite_def fseek_set_def)

lemma riff_chunks_Cons:
  assumes "length tag = 4" and "unat n = length data"
  shows "riff_chunks (tag @ le32 n @ data @ bs) = map_option (Cons (tag, data)) (riff_chunks bs)"
  using assms by (subst riff_chunks.simps) (auto simp: Let_def)

section \<open>What is written\<close>

lemma ucast_u64_u32_of_int: "(ucast (word_of_int i :: u64) :: u32) = word_of_int i"
  by (rule bit_word_eqI) (auto simp: bit_simps)

lemma ucast_u64_u32_of_nat: "(ucast (word_of_nat n :: u64) :: u32) = word_of_nat n"
  using ucast_u64_u32_of_int [of "int n"] by simp

lemma finish_lengths:
  "(ucast (word_of_nat (44 + n) - 8 :: u64) :: u32) = word_of_nat (36 + n)"
  "(ucast (ucast (word_of_nat (36 + n) :: u32) - 44 + 8 :: u64) :: u32) = word_of_nat n"
proof -
  have "(word_of_nat (44 + n) - 8 :: u64) = word_of_nat (36 + n)"
    by simp
  then show "(ucast (word_of_nat (44 + n) - 8 :: u64) :: u32) = word_of_nat (36 + n)"
    by (simp only: ucast_u64_u32_of_nat)
  let ?l = "word_of_nat (36 + n) :: u32"
  have down: "(ucast (x - 36 :: u64) :: u32) = ucast x - 36" for x :: u64
    using ucast_u64_u32_of_int [of "uint x - 36"] ucast_u64_u32_of_int [of "uint x"] by simp
  have "(ucast ?l - 44 + 8 :: u64) = ucast ?l - 36"
    by simp
  then have "(ucast (ucast ?l - 44 + 8 :: u64) :: u32) = ucast (ucast ?l - 36 :: u64)"
    by (simp only:)
  also have "\<dots> = ?l - 36"
    unfolding down by (simp add: ucast_up_ucast_id is_up)
  also have "\<dots> = word_of_nat n"
    by simp
  finally show "(ucast (ucast ?l - 44 + 8 :: u64) :: u32) = word_of_nat n" .
qed

definition finished_head :: "nat \<Rightarrow> bscl_wav_header_t" where
  "finished_head n = wav_head\<lparr>total_Len := word_of_nat (36 + n), DATALen := word_of_nat n\<rparr>"

lemma length_header_bytes: "length (header_bytes wav_head) = 44"
  by (simp add: header_bytes_def wav_head_def)

lemma finish_fills_in:
  assumes "wav_fp this = Some fp" and "s_bytes fp = header_bytes wav_head @ data"
  shows "\<exists>fp'. bscl_wav_finish this = Some (this\<lparr>wav_fp := None\<rparr>, fp')
    \<and> s_bytes fp' = header_bytes (finished_head (length data)) @ data"
proof -
  let ?n = "length data"
  let ?mid = "ascii ''WAVE'' @ ascii ''fmt '' @ le32 16 @ le16 1 @ le16 1 @ le32 8000 @ le32 (8000 * 2) @ le16 2 @ le16 16 @ ascii ''data''"
  let ?total = "word_of_nat (36 + ?n) :: u32" and ?len = "word_of_nat ?n :: u32"
  have head: "header_bytes (wav_head\<lparr>total_Len := t, DATALen := d\<rparr>) = ascii ''RIFF'' @ le32 t @ ?mid @ le32 d" for t d
    by (simp add: header_bytes_def wav_head_def)
  have fp: "s_bytes fp = ascii ''RIFF'' @ le32 0 @ (?mid @ le32 0 @ data)"
    using assms(2) head [of 0 0] by (simp add: wav_head_def)
  have "fwrite (fseek_set (fseek_end fp) 4) (le32 ?total)
      = \<lparr>s_bytes = ascii ''RIFF'' @ le32 ?total @ (?mid @ le32 0 @ data), s_pos = 4 + length (le32 ?total)\<rparr>"
    by (rule fwrite_over [where ys = "le32 0"]) (use fp in \<open>simp_all add: fseek_end_def\<close>)
  moreover have "fwrite (fseek_set \<lparr>s_bytes = ascii ''RIFF'' @ le32 ?total @ (?mid @ le32 0 @ data),
        s_pos = 4 + length (le32 ?total)\<rparr> 40) (le32 ?len)
      = \<lparr>s_bytes = (ascii ''RIFF'' @ le32 ?total @ ?mid) @ le32 ?len @ data, s_pos = 40 + length (le32 ?len)\<rparr>"
    by (rule fwrite_over [where ys = "le32 0"]) simp_all
  moreover have "length (s_bytes fp) = 44 + ?n"
    using assms(2) length_header_bytes by simp
  ultimately show ?thesis
    using assms(1) finish_lengths [of ?n] head
    by (simp add: bscl_wav_finish_def finished_head_def Let_def offset_chWAVE_def offset_total_Len_def
      offset_DATALen_def sizeof_header_def fseek_end_def del: of_nat_add)
qed

text \<open>
  C34: A file that is begun, filled by any number of writes and finished is a WAV file that can be
  read back: its length covers exactly the rest of the file, and behind the format come exactly
  the written bytes, as long as the lengths fit into 32 bits.
\<close>

theorem bscl_wav_reads_back:
  assumes "bscl_wav_init_with_fp this \<lparr>s_bytes = [], s_pos = 0\<rparr> = (r, this1)" and "length (concat bufs) + 36 < 2 ^ 32"
  shows "\<exists>this2 this3 fp. wav_writes this1 bufs = Some this2 \<and> bscl_wav_finish this2 = Some (this3, fp)
    \<and> wave_chunks (s_bytes fp) = Some
      [(ascii ''fmt '', le16 1 @ le16 1 @ le32 8000 @ le32 16000 @ le16 2 @ le16 16), (ascii ''data'', concat bufs)]"
proof -
  let ?data = "concat bufs" and ?h = "header_bytes wav_head"
  have "wav_fp this1 = Some \<lparr>s_bytes = ?h, s_pos = length ?h\<rparr>"
    using assms(1) by (auto simp: bscl_wav_init_with_fp_def fwrite_def)
  then obtain this2 where this2: "wav_writes this1 bufs = Some this2"
      "wav_fp this2 = Some \<lparr>s_bytes = ?h @ ?data, s_pos = length (?h @ ?data)\<rparr>"
    using wav_writes_append [of this1 "\<lparr>s_bytes = ?h, s_pos = length ?h\<rparr>" bufs] by auto
  then obtain fp where fp: "bscl_wav_finish this2 = Some (this2\<lparr>wav_fp := None\<rparr>, fp)"
      "s_bytes fp = header_bytes (finished_head (length ?data)) @ ?data"
    using finish_fills_in [OF this2(2), of ?data] by auto
  let ?fmt = "le16 1 @ le16 1 @ le32 8000 @ le32 16000 @ le16 2 @ le16 16"
  let ?tail = "ascii ''fmt '' @ le32 16 @ ?fmt @ ascii ''data'' @ le32 (word_of_nat (length ?data)) @ ?data @ []"
  have "s_bytes fp = ascii ''RIFF'' @ le32 (word_of_nat (36 + length ?data)) @ ascii ''WAVE'' @ ?tail"
    unfolding fp(2) by (simp add: header_bytes_def finished_head_def wav_head_def)
  moreover have "riff_chunks ?tail = Some [(ascii ''fmt '', ?fmt), (ascii ''data'', ?data)]"
    using assms(2) riff_chunks_Cons [of "ascii ''fmt ''" 16 ?fmt]
      riff_chunks_Cons [of "ascii ''data''" "word_of_nat (length ?data)" ?data "[]"]
    by (simp add: riff_chunks.simps [of "[]"] unat_of_nat)
  ultimately have "wave_chunks (s_bytes fp) = Some [(ascii ''fmt '', ?fmt), (ascii ''data'', ?data)]"
    using assms(2) by (simp add: wave_chunks_def unat_of_nat del: of_nat_add)
  then show ?thesis
    using this2(1) fp(1) by blast
qed

definition fresh_wav :: bscl_wav_t where
  "fresh_wav = \<lparr>wav_fp = None, numChannels = 0, totalSamples = 0, wav_channels = 0, bitsPerSample = 0\<rparr>"

lemma bscl_wav_reads_back_witness:
  "\<exists>this2 this3 fp. wav_writes (snd (bscl_wav_init_with_fp fresh_wav \<lparr>s_bytes = [], s_pos = 0\<rparr>)) [[1, 2], [3]] = Some this2
    \<and> bscl_wav_finish this2 = Some (this3, fp) \<and> map_option (map snd) (wave_chunks (s_bytes fp))
      = Some [[1, 0, 1, 0, 64, 31, 0, 0, 128, 62, 0, 0, 2, 0, 16, 0], [1, 2, 3]]"
proof -
  have "bscl_wav_init_with_fp fresh_wav \<lparr>s_bytes = [], s_pos = 0\<rparr>
      = (0, snd (bscl_wav_init_with_fp fresh_wav \<lparr>s_bytes = [], s_pos = 0\<rparr>))"
    by (simp add: bscl_wav_init_with_fp_def)
  from bscl_wav_reads_back [OF this, of "[[1, 2], [3]]"] show ?thesis
    by (auto simp: le16_def le32_def)
qed

end
