(* ===== verification/Network.thy ===== *)
theory Network
  imports Prelude
begin

text \<open>
  The network layer, \<open>src/bscl_network.c\<close> and \<open>include/bscl_network.h\<close>: sockets for datagrams and
  connections, and the own address that received datagrams are compared with.

  The calls of the system are a parameter \<open>W\<close>, a record of functions on a state of their own; a
  failed \<open>recvfrom\<close> leaves the address it is given alone. A loop that does not end is \<open>None\<close>.
\<close>

section \<open>Data\<close>

datatype sock_type = SOCK_STREAM | SOCK_DGRAM

text \<open>The port is in network order.\<close>

record sockaddr_in =
  sin_port :: u16
  s_addr :: u32

record 'e net_os =
  n_windows :: bool
  n_WSAStartup :: "'e \<Rightarrow> int \<times> 'e"
  n_socket :: "sock_type \<Rightarrow> 'e \<Rightarrow> int \<times> 'e"
  n_bind :: "int \<Rightarrow> sockaddr_in \<Rightarrow> 'e \<Rightarrow> int \<times> 'e"
  n_setsockopt_broadcast :: "int \<Rightarrow> 'e \<Rightarrow> int \<times> 'e"
  n_getsockname :: "int \<Rightarrow> 'e \<Rightarrow> (int \<times> sockaddr_in option) \<times> 'e"
  n_ioctl_nonblock :: "int \<Rightarrow> 'e \<Rightarrow> int \<times> 'e"
  n_malloc :: "nat \<Rightarrow> 'e \<Rightarrow> bool \<times> 'e"
  n_rand :: "nat \<Rightarrow> 'e \<Rightarrow> u8 list \<times> 'e"
  n_sendto :: "int \<Rightarrow> u8 list \<Rightarrow> sockaddr_in \<Rightarrow> 'e \<Rightarrow> int \<times> 'e"
  n_recvfrom :: "int \<Rightarrow> nat \<Rightarrow> 'e \<Rightarrow> (int \<times> u8 list \<times> sockaddr_in option) \<times> 'e"
  n_accept :: "int \<Rightarrow> 'e \<Rightarrow> (int \<times> sockaddr_in option) \<times> 'e"
  n_connect :: "int \<Rightarrow> sockaddr_in \<Rightarrow> 'e \<Rightarrow> int \<times> 'e"
  n_shutdown :: "int \<Rightarrow> 'e \<Rightarrow> 'e"
  n_close :: "int \<Rightarrow> 'e \<Rightarrow> 'e"

record 'e net =
  bscl_network_ip :: u32
  isInitialized :: bool
  n_env :: 'e

definition n_call :: "('e \<Rightarrow> 'r \<times> 'e) \<Rightarrow> 'e net \<Rightarrow> 'r \<times> 'e net" where
  "n_call f st = (let (r, e) = f (n_env st) in (r, st\<lparr>n_env := e\<rparr>))"

definition htons :: "u16 \<Rightarrow> u16" where
  "htons x = shl x 8 OR shr x 8"

definition INADDR_ANY :: u32 where "INADDR_ANY = 0"
definition INADDR_BROADCAST :: u32 where "INADDR_BROADCAST = 0xFFFFFFFF"

section \<open>The own address\<close>

definition bscl_network_close_socket :: "'e net_os \<Rightarrow> int \<Rightarrow> 'e net \<Rightarrow> 'e net" where
  "bscl_network_close_socket W fd st = st\<lparr>n_env := n_close W fd (n_shutdown W fd (n_env st))\<rparr>"

text \<open>What a call writes to the address it is given: nothing when it fails.\<close>

definition addr_after :: "sockaddr_in \<Rightarrow> sockaddr_in option \<Rightarrow> sockaddr_in" where
  "addr_after addr from = (case from of None \<Rightarrow> addr | Some a \<Rightarrow> a)"

text \<open>
  The received bytes are compared with the sent ones, but the \<open>continue\<close> on a difference belongs
  to the inner loop, so that every datagram is taken.
\<close>

partial_function (option) local_ip_loop :: "'e net_os \<Rightarrow> int \<Rightarrow> sockaddr_in \<Rightarrow> 'e net \<Rightarrow> 'e net option" where
  "local_ip_loop W fd addr st =
     (let ((res, bytes, from), st) = n_call (n_recvfrom W fd 1024) st;
          addr = addr_after addr from in
      if 0 < res then local_ip_loop W fd addr (st\<lparr>bscl_network_ip := s_addr addr\<rparr>)
      else Some st)"

definition bscl_network_get_local_ip :: "'e net_os \<Rightarrow> 'e net \<Rightarrow> 'e net option" where
  "bscl_network_get_local_ip W st =
     (let (fd, st) = n_call (n_socket W SOCK_DGRAM) st;
          (_, st) = n_call (n_bind W fd \<lparr>sin_port = 0, s_addr = INADDR_ANY\<rparr>) st;
          (_, st) = n_call (n_setsockopt_broadcast W fd) st;
          ((res, name), st) = n_call (n_getsockname W fd) st;
          addr = addr_after \<lparr>sin_port = 0, s_addr = INADDR_ANY\<rparr> name in
      if res \<noteq> 0 then Some st
      else
        let (_, st) = n_call (n_ioctl_nonblock W fd) st;
            (sendbuf, st) = n_call (n_malloc W 1024) st in
        if \<not> sendbuf then Some st
        else
          let (recvbuf, st) = n_call (n_malloc W 1024) st in
          if \<not> recvbuf then Some st
          else do {
            let (bytes, st) = n_call (n_rand W 1024) st;
            let addr = addr\<lparr>s_addr := INADDR_BROADCAST\<rparr>;
            let (_, st) = n_call (n_sendto W fd bytes addr) st;
            st \<leftarrow> local_ip_loop W fd addr st;
            Some (bscl_network_close_socket W fd st)
          })"

text \<open>On Linux the initialisation is an empty macro.\<close>

definition bscl_netowrk_init :: "'e net_os \<Rightarrow> 'e net \<Rightarrow> 'e net option" where
  "bscl_netowrk_init W st =
     (if n_windows W \<and> \<not> isInitialized st then do {
        let (_, st) = n_call (n_WSAStartup W) st;
        st \<leftarrow> bscl_network_get_local_ip W st;
        Some (st\<lparr>isInitialized := True\<rparr>)
      }
      else Some st)"

section \<open>Sockets\<close>

definition bscl_udp_new :: "'e net_os \<Rightarrow> u16 \<Rightarrow> 'e net \<Rightarrow> (int \<times> 'e net) option" where
  "bscl_udp_new W port st = do {
     st \<leftarrow> bscl_netowrk_init W st;
     let (fd, st) = n_call (n_socket W SOCK_DGRAM) st;
     if fd < 0 then Some (fd, st)
     else do {
       let (_, st) = n_call (n_bind W fd \<lparr>sin_port = htons port, s_addr = 0\<rparr>) st;
       let (_, st) = n_call (n_setsockopt_broadcast W fd) st;
       Some (fd, st)
     }
   }"

definition bscl_tcp_new :: "'e net_os \<Rightarrow> u16 \<Rightarrow> 'e net \<Rightarrow> (int \<times> 'e net) option" where
  "bscl_tcp_new W port st = do {
     st \<leftarrow> bscl_netowrk_init W st;
     let (fd, st) = n_call (n_socket W SOCK_STREAM) st;
     if fd < 0 then Some (fd, st)
     else let (_, st) = n_call (n_bind W fd \<lparr>sin_port = htons port, s_addr = 0\<rparr>) st in Some (fd, st)
   }"

text \<open>\<open>addr\<close> is what the uninitialised variable of the C code holds.\<close>

partial_function (option) udp_receive_loop ::
    "'e net_os \<Rightarrow> int \<Rightarrow> nat \<Rightarrow> sockaddr_in \<Rightarrow> 'e net \<Rightarrow> (int \<times> u8 list \<times> sockaddr_in \<times> 'e net) option" where
  "udp_receive_loop W fd len addr st =
     (let ((res, bytes, from), st) = n_call (n_recvfrom W fd len) st;
          addr = addr_after addr from in
      if s_addr addr = bscl_network_ip st then udp_receive_loop W fd len addr st
      else Some (res, bytes, addr, st))"

text \<open>The results are the return value, the bytes, the address and the port.\<close>

definition bscl_udp_receive ::
    "'e net_os \<Rightarrow> sockaddr_in \<Rightarrow> int \<Rightarrow> nat \<Rightarrow> 'e net \<Rightarrow> ((int \<times> u8 list \<times> u32 \<times> u16) \<times> 'e net) option" where
  "bscl_udp_receive W junk fd len st = do {
     (res, bytes, addr, st) \<leftarrow> udp_receive_loop W fd len junk st;
     Some ((res, bytes, s_addr addr, htons (sin_port addr)), st)
   }"

definition bscl_udp_unicast :: "'e net_os \<Rightarrow> int \<Rightarrow> u8 list \<Rightarrow> u32 \<Rightarrow> u16 \<Rightarrow> 'e net \<Rightarrow> int \<times> 'e net" where
  "bscl_udp_unicast W fd bytes ip port st = n_call (n_sendto W fd bytes \<lparr>sin_port = htons port, s_addr = ip\<rparr>) st"

definition bscl_udp_broadcast :: "'e net_os \<Rightarrow> int \<Rightarrow> u8 list \<Rightarrow> u16 \<Rightarrow> 'e net \<Rightarrow> int \<times> 'e net" where
  "bscl_udp_broadcast W fd bytes port st =
     n_call (n_sendto W fd bytes \<lparr>sin_port = htons port, s_addr = INADDR_BROADCAST\<rparr>) st"

definition bscl_tcp_accept ::
    "'e net_os \<Rightarrow> sockaddr_in \<Rightarrow> int \<Rightarrow> 'e net \<Rightarrow> (int \<times> u32 \<times> u16) \<times> 'e net" where
  "bscl_tcp_accept W junk fp st =
     (let ((res, from), st) = n_call (n_accept W fp) st; addr = addr_after junk from in
      ((res, s_addr addr, htons (sin_port addr)), st))"

definition bscl_tcp_connect :: "'e net_os \<Rightarrow> int \<Rightarrow> u32 \<Rightarrow> u16 \<Rightarrow> 'e net \<Rightarrow> int \<times> 'e net" where
  "bscl_tcp_connect W fd ip port st = n_call (n_connect W fd \<lparr>sin_port = htons port, s_addr = ip\<rparr>) st"

definition bscl_tcp_delete :: "'e net_os \<Rightarrow> int \<Rightarrow> 'e net \<Rightarrow> int \<times> 'e net" where
  "bscl_tcp_delete W fd st = (0, bscl_network_close_socket W fd st)"

section \<open>Incoming datagrams\<close>

text \<open>
  \<open>incoming W fd len e ds e'\<close>: the next calls of \<open>recvfrom\<close> with room for \<open>len\<close> bytes give the
  datagrams \<open>ds\<close>, each with its sender, and lead to \<open>e'\<close>.
\<close>

inductive incoming :: "'e net_os \<Rightarrow> int \<Rightarrow> nat \<Rightarrow> 'e \<Rightarrow> (sockaddr_in \<times> u8 list) list \<Rightarrow> 'e \<Rightarrow> bool"
  for W :: "'e net_os" and fd :: int and len :: nat where
  incoming_none: "incoming W fd len e [] e"
| incoming_one: "n_recvfrom W fd len e = ((int (length bs), bs, Some from), e1) \<Longrightarrow> bs = take len bytes \<Longrightarrow> bs \<noteq> []
    \<Longrightarrow> incoming W fd len e1 ds e' \<Longrightarrow> incoming W fd len e ((from, bytes) # ds) e'"

inductive_simps incoming_Nil: "incoming W fd len e [] e'"
inductive_simps incoming_Cons: "incoming W fd len e (d # ds) e'"

lemma htons_htons [simp]: "htons (htons x) = x"
  by (rule bit_word_eqI) (auto simp: htons_def bit_simps)

lemma incoming_append:
  "incoming W fd len e (xs @ ys) e' \<Longrightarrow> \<exists>e1. incoming W fd len e xs e1 \<and> incoming W fd len e1 ys e'"
  by (induction xs arbitrary: e) (auto simp: incoming_Nil incoming_Cons)

lemma receive_skips:
  assumes "incoming W fd len e ds e'"
  shows "\<forall>d \<in> set ds. s_addr (fst d) = bscl_network_ip st \<Longrightarrow> n_env st = e
    \<Longrightarrow> \<exists>addr'. udp_receive_loop W fd len addr st = udp_receive_loop W fd len addr' (st\<lparr>n_env := e'\<rparr>)"
  using assms
proof (induction arbitrary: addr st rule: incoming.induct)
  case (incoming_none e)
  then show ?case by (intro exI [where x = addr]) auto
next
  case (incoming_one e bs a e1 bytes ds e')
  have "udp_receive_loop W fd len addr st = udp_receive_loop W fd len a (st\<lparr>n_env := e1\<rparr>)"
    using incoming_one by (subst udp_receive_loop.simps) (simp add: n_call_def addr_after_def)
  then show ?case
    using incoming_one.IH [of "st\<lparr>n_env := e1\<rparr>" a] incoming_one.prems by auto
qed

text \<open>
  C35: Of the datagrams that come in, those that were sent from the own address are passed over in
  any number, and the first other one is delivered, cut to the length of the buffer, with its
  sender's address as it was received and its port in the order of the host; nothing behind it is consumed.
\<close>

theorem bscl_udp_receive_first_foreign:
  assumes "incoming W fd len (n_env st) (own @ [(from, bytes)]) e'"
    and "\<forall>d \<in> set own. s_addr (fst d) = bscl_network_ip st" and "s_addr from \<noteq> bscl_network_ip st"
  shows "bscl_udp_receive W junk fd len st
    = Some ((int (length (take len bytes)), take len bytes, s_addr from, htons (sin_port from)), st\<lparr>n_env := e'\<rparr>)"
proof -
  obtain e1 where e1: "incoming W fd len (n_env st) own e1" "incoming W fd len e1 [(from, bytes)] e'"
    using incoming_append [OF assms(1)] by blast
  obtain addr where "udp_receive_loop W fd len junk st = udp_receive_loop W fd len addr (st\<lparr>n_env := e1\<rparr>)"
    using receive_skips [OF e1(1) assms(2)] by blast
  also have "\<dots> = Some (int (length (take len bytes)), take len bytes, from, st\<lparr>n_env := e'\<rparr>)"
    using e1(2) assms(3)
    by (subst udp_receive_loop.simps) (auto simp: n_call_def addr_after_def incoming_Cons incoming_Nil)
  finally show ?thesis
    by (simp add: bscl_udp_receive_def)
qed

section \<open>Learning the own address\<close>

lemma local_ip_loop_runs:
  "incoming W fd 1024 e ds e' \<Longrightarrow> n_recvfrom W fd 1024 e' = ((res, bs, a'), e'') \<Longrightarrow> res \<le> 0 \<Longrightarrow> n_env st = e
    \<Longrightarrow> local_ip_loop W fd addr st
      = Some (st\<lparr>bscl_network_ip := if ds = [] then bscl_network_ip st else s_addr (fst (last ds)), n_env := e''\<rparr>)"
proof (induction arbitrary: addr st rule: incoming.induct)
  case (incoming_none e)
  then show ?case
    by (subst local_ip_loop.simps) (simp add: n_call_def)
next
  case (incoming_one e bs1 a e1 bytes ds e')
  let ?st = "st\<lparr>n_env := e1, bscl_network_ip := s_addr a\<rparr>"
  have "local_ip_loop W fd addr st = local_ip_loop W fd a ?st"
    using incoming_one by (subst local_ip_loop.simps) (simp add: n_call_def addr_after_def)
  then show ?case
    using incoming_one.IH [of ?st a] incoming_one.prems by simp
qed

text \<open>
  The address that is learned as the own one is that of the sender of the last datagram that
  comes in while the function waits for its own broadcast, whatever that datagram holds.
\<close>

lemma bscl_network_learns_last_sender:
  assumes "n_socket W SOCK_DGRAM (n_env st) = (fd, e1)" and "n_bind W fd \<lparr>sin_port = 0, s_addr = INADDR_ANY\<rparr> e1 = (r1, e2)"
    and "n_setsockopt_broadcast W fd e2 = (r2, e3)" and "n_getsockname W fd e3 = ((0, Some name), e4)"
    and "n_ioctl_nonblock W fd e4 = (r3, e5)" and "n_malloc W 1024 e5 = (True, e6)" and "n_malloc W 1024 e6 = (True, e7)"
    and "n_rand W 1024 e7 = (own, e8)" and "n_sendto W fd own (name\<lparr>s_addr := INADDR_BROADCAST\<rparr>) e8 = (r4, e9)"
    and "incoming W fd 1024 e9 (ds @ [(host, bytes)]) e10" and "n_recvfrom W fd 1024 e10 = ((res, bs, a), e11)" and "res \<le> 0"
  shows "bscl_network_get_local_ip W st
    = Some (st\<lparr>bscl_network_ip := s_addr host, n_env := n_close W fd (n_shutdown W fd e11)\<rparr>)"
  using assms(1-9) local_ip_loop_runs [OF assms(10-12), of "st\<lparr>n_env := e9\<rparr>"]
  by (simp add: bscl_network_get_local_ip_def n_call_def addr_after_def bscl_network_close_socket_def)

section \<open>A concrete network\<close>

text \<open>The state is the datagrams that are still to come, each with its sender.\<close>

definition demo_net :: "(sockaddr_in \<times> u8 list) list net_os" where
  "demo_net = \<lparr>n_windows = True, n_WSAStartup = \<lambda>e. (0, e), n_socket = \<lambda>t e. (3, e), n_bind = \<lambda>fd a e. (0, e),
     n_setsockopt_broadcast = \<lambda>fd e. (0, e), n_getsockname = \<lambda>fd e. ((0, Some \<lparr>sin_port = 7, s_addr = 0\<rparr>), e),
     n_ioctl_nonblock = \<lambda>fd e. (0, e), n_malloc = \<lambda>n e. (True, e), n_rand = \<lambda>n e. ([1, 2, 3], e),
     n_sendto = \<lambda>fd bs a e. (3, e),
     n_recvfrom = \<lambda>fd len e. (case e of [] \<Rightarrow> ((-1, [], None), [])
       | (a, bs) # ds \<Rightarrow> ((int (length (take len bs)), take len bs, Some a), ds)),
     n_accept = \<lambda>fd e. ((-1, None), e), n_connect = \<lambda>fd a e. (0, e), n_shutdown = \<lambda>fd e. e, n_close = \<lambda>fd e. e\<rparr>"

definition demo_datagrams :: "(sockaddr_in \<times> u8 list) list" where
  "demo_datagrams = [(\<lparr>sin_port = 0x0100, s_addr = 10\<rparr>, [1, 2, 3]), (\<lparr>sin_port = 0x0200, s_addr = 11\<rparr>, [4, 5])]"

lemma demo_net_calls:
  "n_socket demo_net t e = (3, e)" "n_bind demo_net fd a e = (0, e)" "n_setsockopt_broadcast demo_net fd e = (0, e)"
  "n_getsockname demo_net fd e = ((0, Some \<lparr>sin_port = 7, s_addr = 0\<rparr>), e)" "n_ioctl_nonblock demo_net fd e = (0, e)"
  "n_malloc demo_net n e = (True, e)" "n_rand demo_net n e = ([1, 2, 3], e)" "n_sendto demo_net fd bs a e = (3, e)"
  "n_recvfrom demo_net fd len [] = ((-1, [], None), [])" "n_shutdown demo_net fd e = e" "n_close demo_net fd e = e"
  by (simp_all add: demo_net_def)

lemma bscl_udp_receive_first_foreign_witness:
  "bscl_udp_receive demo_net \<lparr>sin_port = 0, s_addr = 0\<rparr> 3 1
      \<lparr>bscl_network_ip = 10, isInitialized = True, n_env = demo_datagrams\<rparr>
    = Some ((1, [4], 11, 2), \<lparr>bscl_network_ip = 10, isInitialized = True, n_env = []\<rparr>)"
proof -
  have "incoming demo_net 3 1 demo_datagrams (butlast demo_datagrams @ [last demo_datagrams]) []"
    by (simp add: demo_datagrams_def demo_net_def incoming_Cons incoming_Nil)
  moreover have "htons 0x200 = 2"
    by (simp add: htons_def push_bit_eq_mult drop_bit_eq_div)
  ultimately show ?thesis
    using bscl_udp_receive_first_foreign [of demo_net 3 1
      "\<lparr>bscl_network_ip = 10, isInitialized = True, n_env = demo_datagrams\<rparr>" "butlast demo_datagrams"
      "fst (last demo_datagrams)" "snd (last demo_datagrams)" "[]"]
    by (simp add: demo_datagrams_def)
qed

lemma bscl_network_learns_last_sender_witness:
  "bscl_network_get_local_ip demo_net \<lparr>bscl_network_ip = 0, isInitialized = False, n_env = demo_datagrams\<rparr>
    = Some \<lparr>bscl_network_ip = 11, isInitialized = False, n_env = []\<rparr>"
proof -
  have "incoming demo_net 3 1024 demo_datagrams (butlast demo_datagrams @ [(\<lparr>sin_port = 0x0200, s_addr = 11\<rparr>, [4, 5])]) []"
    by (simp add: demo_datagrams_def demo_net_def incoming_Cons incoming_Nil)
  then show ?thesis
    using bscl_network_learns_last_sender [of demo_net
      "\<lparr>bscl_network_ip = 0, isInitialized = False, n_env = demo_datagrams\<rparr>" 3 demo_datagrams 0 demo_datagrams 0 demo_datagrams
      "\<lparr>sin_port = 7, s_addr = 0\<rparr>" demo_datagrams 0 demo_datagrams demo_datagrams demo_datagrams "[1, 2, 3]" demo_datagrams 3
      demo_datagrams "butlast demo_datagrams" "\<lparr>sin_port = 0x0200, s_addr = 11\<rparr>" "[4, 5]" "[]" "-1" "[]" None "[]"]
    by (simp add: demo_net_calls)
qed

end
