(* ===== verification/Timer.thy ===== *)
theory Timer
  imports Links
begin

text \<open>
  The timers for Linux, \<open>src/linux/bscl_timer.c\<close>: a linked list of timers that the handler of the
  alarm signal walks every millisecond.

  Callbacks and \<open>setitimer\<close> are a parameter \<open>W\<close> on a state of their own; the callbacks do not
  touch the list. Memory that \<open>malloc\<close> gives holds anything, the links of the first timer included, which the
  code never sets: every property says what the links that \<open>malloc\<close> has left make of the list. A violated assertion, a division by zero, a
  null or dangling pointer and a loop that does not end are \<open>None\<close>.
\<close>

section \<open>Data\<close>

record bscl_timer_t = link +
  t_ms :: u32
  t_callback :: addr
  t_data :: addr

record 'e timer_os =
  os_callback :: "addr \<Rightarrow> addr \<Rightarrow> 'e \<Rightarrow> 'e"
  os_setitimer :: "bool \<Rightarrow> 'e \<Rightarrow> int \<times> 'e"

record 'e timers =
  t_cells :: "bscl_timer_t heap"
  bscl_timer_start :: addr
  t_count :: u32
  t_env :: 'e

section \<open>Operations\<close>

text \<open>One walk of the list by the signal handler.\<close>

definition timer_fire :: "'e timer_os \<Rightarrow> u32 \<Rightarrow> bscl_timer_t \<Rightarrow> 'e \<Rightarrow> 'e option" where
  "timer_fire W count t e =
     (if t_ms t = 0 then None
      else Some (if count mod t_ms t = t_ms t - 1 then os_callback W (t_callback t) (t_data t) e else e))"

partial_function (option) timer_walk :: "'e timer_os \<Rightarrow> bscl_timer_t heap \<Rightarrow> u32 \<Rightarrow> addr \<Rightarrow> 'e \<Rightarrow> 'e option" where
  "timer_walk W h count p e =
     (if p = 0 then Some e
      else do {
        t \<leftarrow> deref h p;
        e \<leftarrow> timer_fire W count t e;
        timer_walk W h count (l_next t) e
      })"

definition bscl_timer_on :: "'e timer_os \<Rightarrow> 'e timers \<Rightarrow> 'e timers option" where
  "bscl_timer_on W st = do {
     e \<leftarrow> timer_walk W (t_cells st) (t_count st) (bscl_timer_start st) (t_env st);
     Some (st\<lparr>t_env := e, t_count := t_count st + 1\<rparr>)
   }"

definition bscl_timer_new ::
    "'e timer_os \<Rightarrow> bscl_timer_t allocator \<Rightarrow> addr \<Rightarrow> u16 \<Rightarrow> addr \<Rightarrow> 'e timers \<Rightarrow> (addr \<times> 'e timers) option" where
  "bscl_timer_new W new callback ms data st =
     (if callback = 0 \<or> ms = 0 then None
      else do {
        (timer, x) \<leftarrow> new (t_cells st);
        let h = (t_cells st)(timer \<mapsto> x\<lparr>t_callback := callback, t_data := data, t_ms := ucast ms\<rparr>);
        if bscl_timer_start st = 0 then
          let (res, e) = os_setitimer W True (t_env st) in
          Some (if res \<noteq> 0 then (0, st\<lparr>t_cells := h, t_env := e\<rparr>)
            else (timer, st\<lparr>t_cells := h, t_env := e, bscl_timer_start := timer\<rparr>))
        else do {
          h \<leftarrow> bscl_list_head_insert_prev h (bscl_timer_start st) timer;
          Some (timer, st\<lparr>t_cells := h\<rparr>)
        }
      })"

text \<open>The search for the timer to delete: at the end of the list it stays at the last timer.\<close>

definition timer_delete_next :: "bscl_timer_t heap \<Rightarrow> addr \<Rightarrow> addr option" where
  "timer_delete_next h p = do { n \<leftarrow> get_next h p; Some (if n \<noteq> 0 then n else p) }"

definition timer_unlink :: "'e timers \<Rightarrow> addr \<Rightarrow> 'e timers option" where
  "timer_unlink st this = do {
     start \<leftarrow> (if bscl_timer_start st = this then get_next (t_cells st) this else Some (bscl_timer_start st));
     h \<leftarrow> bscl_list_head_remove (t_cells st) this;
     Some (st\<lparr>bscl_timer_start := start, t_cells := h\<rparr>)
   }"

partial_function (option) timer_delete_loop :: "'e timers \<Rightarrow> addr \<Rightarrow> addr \<Rightarrow> 'e timers option" where
  "timer_delete_loop st this p =
     (if p = 0 then Some st
      else if p = this then timer_unlink st this
      else do {
        q \<leftarrow> timer_delete_next (t_cells st) p;
        timer_delete_loop st this q
      })"

definition bscl_timer_delete :: "'e timer_os \<Rightarrow> addr \<Rightarrow> 'e timers \<Rightarrow> 'e timers option" where
  "bscl_timer_delete W this st = do {
     st \<leftarrow> timer_delete_loop st this (bscl_timer_start st);
     let st = (if bscl_timer_start st = 0 then st\<lparr>t_env := snd (os_setitimer W False (t_env st))\<rparr> else st);
     h \<leftarrow> free (t_cells st) this;
     Some (st\<lparr>t_cells := h\<rparr>)
   }"

section \<open>A list of one reachable timer\<close>

text \<open>
  New timers are put before the first one, but the handler walks from the first one to the end: only the
  first timer is ever reached.
\<close>

definition only_timer :: "'e timers \<Rightarrow> addr \<Rightarrow> addr \<Rightarrow> u32 \<Rightarrow> addr \<Rightarrow> bool" where
  "only_timer st p cb ms data \<longleftrightarrow> p \<noteq> 0 \<and> ms \<noteq> 0 \<and> bscl_timer_start st = p
    \<and> nxt (t_cells st) p = Some 0
    \<and> (\<exists>q. prv (t_cells st) p = Some q \<and> q \<noteq> p \<and> (q \<noteq> 0 \<longrightarrow> t_cells st q \<noteq> None))
    \<and> rest (t_cells st) p = Some \<lparr>t_ms = ms, t_callback = cb, t_data = data\<rparr>"

lemma only_timer_cell:
  assumes "only_timer st p cb ms data"
  obtains t where "deref (t_cells st) p = Some t" "l_next t = 0" "t_ms t = ms" "t_callback t = cb" "t_data t = data"
proof -
  obtain t where "t_cells st p = Some t" "l_next t = 0" "link.more t = \<lparr>t_ms = ms, t_callback = cb, t_data = data\<rparr>"
    using assms by (auto simp: only_timer_def nxt_def rest_def)
  then show ?thesis
    using assms by (intro that [of t]) (cases t, auto simp: only_timer_def deref_def)+
qed

lemma timer_walk_only:
  assumes "only_timer st p cb ms data"
  shows "timer_walk W (t_cells st) count p e
    = Some (if count mod ms = ms - 1 then os_callback W cb data e else e)"
proof -
  obtain t where "deref (t_cells st) p = Some t" "l_next t = 0" "t_ms t = ms" "t_callback t = cb" "t_data t = data"
    by (rule only_timer_cell [OF assms])
  then show ?thesis
    using assms
    by (simp add: timer_walk.simps [of W "t_cells st" count p e] timer_walk.simps [of W "t_cells st" count 0]
      only_timer_def timer_fire_def)
qed

lemma timer_fields: "link.more (x\<lparr>t_callback := cb, t_data := data, t_ms := ms\<rparr>)
    = \<lparr>t_ms = ms, t_callback = cb, t_data = data\<rparr>"
  by (cases x) simp

lemma unat_ucast_u16_u32: "unat (ucast (x :: u16) :: u32) = unat x"
  by (simp add: unsigned_ucast_eq take_bit_nat_eq_self_iff less_trans [OF u16_less_pow])

lemma ucast_u16_0: "(ucast (x :: u16) :: u32) = 0 \<longleftrightarrow> x = 0"
  by (metis unat_0 unat_ucast_u16_u32 word_unat_eq_iff)

text \<open>The first timer: its links are those that \<open>malloc\<close> has left in the memory.\<close>

lemma first_timer_new:
  assumes "fresh_allocator new" and "new (t_cells st) = Some (p, x)"
    and "bscl_timer_new W new cb ms data st = Some (p, st1)" and "bscl_timer_start st = 0"
  shows "t_cells st1 = (t_cells st)(p \<mapsto> x\<lparr>t_callback := cb, t_data := data, t_ms := ucast ms\<rparr>)"
    and "bscl_timer_start st1 = p" "t_count st1 = t_count st" "p \<noteq> 0" "(ucast ms :: u32) \<noteq> 0"
  using assms fresh_allocatorD(1) [OF assms(1,2)]
  by (auto simp: bscl_timer_new_def Let_def case_prod_unfold ucast_u16_0 split: if_splits)

lemma first_timer_only:
  assumes "fresh_allocator new" and "new (t_cells st) = Some (p, x)"
    and "bscl_timer_new W new cb ms data st = Some (p, st1)" and "bscl_timer_start st = 0"
    and "l_next x = 0" and "l_prev x = 0"
  shows "only_timer st1 p cb (ucast ms) data"
  using first_timer_new [OF assms(1-4)] assms(5,6)
  by (simp add: only_timer_def nxt_def prv_def rest_def timer_fields)

text \<open>A first timer whose links lead out of the memory.\<close>

lemma wild_next_walk:
  assumes "t_cells st p = Some t" and "p \<noteq> 0" and "l_next t \<noteq> 0" and "t_cells st (l_next t) = None"
    and "bscl_timer_start st = p"
  shows "bscl_timer_on W st = None"
proof -
  have "timer_walk W (t_cells st) (t_count st) (l_next t) e = None" for e
    using assms(3,4) by (subst timer_walk.simps) (simp add: deref_def)
  then show ?thesis
    using assms(1,2,5) by (simp add: bscl_timer_on_def timer_walk.simps [of W _ _ p] deref_def bind_eq_None_conv)
qed

lemma wild_next_delete:
  assumes "t_cells st p = Some t" and "p \<noteq> 0" and "l_next t \<noteq> 0" and "t_cells st (l_next t) = None"
    and "bscl_timer_start st = p"
  shows "bscl_timer_delete W this st = None"
proof -
  let ?n = "l_next t"
  have n: "nxt (t_cells st) p = Some ?n" "nxt (t_cells st) ?n = None" "prv (t_cells st) ?n = None" "?n \<noteq> p"
    using assms by (auto simp: nxt_def prv_def)
  have "prv (t_cells st) p = Some (l_prev t)"
    using assms(1) by (simp add: prv_def)
  then have remove: "bscl_list_head_remove (t_cells st) p = None"
    using n assms(2-4) by (cases "l_prev t = p") (simp_all add: bscl_list_head_remove_def link_simps)
  have "bscl_list_head_remove (t_cells st) ?n = None"
    using n by (simp add: bscl_list_head_remove_def get_prev_eq)
  then have "timer_unlink st ?n = None"
    by (simp add: timer_unlink_def bind_eq_None_conv)
  moreover have "timer_delete_next (t_cells st) ?n = None"
    using n by (simp add: timer_delete_next_def get_next_eq)
  ultimately have "timer_delete_loop st this ?n = None"
    using assms(3) by (subst timer_delete_loop.simps) auto
  moreover have "timer_unlink st p = None"
    using remove by (simp add: timer_unlink_def bind_eq_None_conv)
  moreover have "timer_delete_next (t_cells st) p = Some ?n"
    using n assms(2,3) by (simp add: timer_delete_next_def get_next_eq)
  ultimately have "timer_delete_loop st this p = None"
    using assms(2) by (subst timer_delete_loop.simps) auto
  then show ?thesis
    by (simp add: bscl_timer_delete_def assms(5))
qed

lemma wild_prev_insert:
  assumes "t_cells st p = Some t" and "p \<noteq> 0" and "l_prev t \<noteq> 0" and "t_cells st (l_prev t) = None"
    and "bscl_timer_start st = p" and "fresh_allocator new"
    and "map_option fst (new (t_cells st)) \<noteq> Some (l_prev t)"
  shows "bscl_timer_new W new cb ms data st = None"
proof (cases "new (t_cells st)")
  case (Some cx)
  obtain c y where c: "new (t_cells st) = Some (c, y)"
    using Some by (cases cx) simp
  have fresh: "c \<noteq> 0" "t_cells st c = None"
    using fresh_allocatorD [OF assms(6) c] by simp_all
  have ne: "c \<noteq> p" "c \<noteq> l_prev t" "p \<noteq> l_prev t"
    using fresh assms(1,4,7) c by auto
  moreover have "prv (t_cells st) p = Some (l_prev t)"
    using assms(1) by (simp add: prv_def)
  ultimately have "bscl_list_head_insert_prev ((t_cells st)(c \<mapsto> z)) p c = None" for z
    using assms(1-4) fresh(1) by (simp add: bscl_list_head_insert_prev_def link_simps)
  then show ?thesis
    using c assms(2,5) by (simp add: bscl_timer_new_def)
qed (simp add: bscl_timer_new_def)

lemma later_timer_only:
  assumes "fresh_allocator new" and "only_timer st p cb ms data"
    and "bscl_timer_new W new cb' ms' data' st = Some (r, st')"
  shows "only_timer st' p cb ms data" and "t_count st' = t_count st" and "t_env st' = t_env st"
proof -
  obtain q where p: "p \<noteq> 0" "bscl_timer_start st = p" "nxt (t_cells st) p = Some 0" "prv (t_cells st) p = Some q"
      "q \<noteq> p" "q \<noteq> 0 \<longrightarrow> t_cells st q \<noteq> None"
    using assms(2) unfolding only_timer_def by blast
  obtain c x where c: "new (t_cells st) = Some (c, x)"
    using assms(3) by (auto simp: bscl_timer_new_def split: if_splits Option.bind_splits)
  have fresh: "c \<noteq> 0" "t_cells st c = None"
    using fresh_allocatorD [OF assms(1) c] by simp_all
  let ?h = "(t_cells st)(c \<mapsto> x\<lparr>t_callback := cb', t_data := data', t_ms := ucast ms'\<rparr>)"
  have ne: "c \<noteq> p" "q \<noteq> c"
    using p field_Some(1) [OF p(3)] fresh by auto
  have "prv ?h p = Some q" and "q \<noteq> 0 \<Longrightarrow> ?h q \<noteq> None"
    using p ne by (simp_all add: link_simps)
  then obtain h' where h': "bscl_list_head_insert_prev ?h p c = Some h'" "prv h' p = Some c"
      "\<forall>y. y \<noteq> q \<longrightarrow> y \<noteq> c \<longrightarrow> nxt h' y = nxt ?h y" "\<forall>y. rest h' y = rest ?h y" "\<forall>y. h' y = None \<longleftrightarrow> ?h y = None"
    using list_head_insert_prev_runs [of p c ?h q] p(1) fresh(1) ne by auto
  have "st' = st\<lparr>t_cells := h'\<rparr>"
    using assms(3) c h'(1) p(1,2) by (auto simp: bscl_timer_new_def Let_def split: if_splits)
  then show "only_timer st' p cb ms data" and "t_count st' = t_count st" and "t_env st' = t_env st"
    using assms(2) h' ne p(5) fresh by (auto simp: only_timer_def link_simps)
qed

text \<open>Further timers, each with its callback, period and data.\<close>

fun timer_news :: "'e timer_os \<Rightarrow> bscl_timer_t allocator \<Rightarrow> (addr \<times> u16 \<times> addr) list \<Rightarrow> 'e timers \<Rightarrow> 'e timers option" where
  "timer_news W new [] st = Some st"
| "timer_news W new ((cb, ms, data) # reqs) st = do {
     (r, st) \<leftarrow> bscl_timer_new W new cb ms data st;
     timer_news W new reqs st
   }"

fun timer_ticks :: "'e timer_os \<Rightarrow> nat \<Rightarrow> 'e timers \<Rightarrow> 'e timers option" where
  "timer_ticks W 0 st = Some st"
| "timer_ticks W (Suc n) st = do { st \<leftarrow> timer_ticks W n st; bscl_timer_on W st }"

lemma timer_news_only:
  assumes "fresh_allocator new"
  shows "only_timer st p cb ms data \<Longrightarrow> timer_news W new reqs st = Some st'
    \<Longrightarrow> only_timer st' p cb ms data \<and> t_count st' = t_count st \<and> t_env st' = t_env st"
proof (induction reqs arbitrary: st)
  case (Cons req reqs)
  obtain cb' ms' data' where req: "req = (cb', ms', data')"
    by (cases req)
  then obtain r st1 where new: "bscl_timer_new W new cb' ms' data' st = Some (r, st1)"
      and rest: "timer_news W new reqs st1 = Some st'"
    using Cons.prems(2) by (auto split: Option.bind_splits)
  show ?case
    using Cons.IH [OF _ rest] later_timer_only [OF assms Cons.prems(1) new] by simp
qed simp

lemma div_step: "0 < m \<Longrightarrow> Suc n div m = (if n mod m = m - 1 then Suc (n div m) else n div m)"
  by (auto simp: div_Suc mod_Suc)

lemma timer_ticks_only:
  assumes "only_timer st p cb ms data" and "t_count st = 0"
  shows "n \<le> 2 ^ 32 \<Longrightarrow> timer_ticks W n st
    = Some (st\<lparr>t_env := (os_callback W cb data ^^ (n div unat ms)) (t_env st), t_count := word_of_nat n\<rparr>)"
proof (induction n)
  case (Suc n)
  let ?st = "st\<lparr>t_env := (os_callback W cb data ^^ (n div unat ms)) (t_env st), t_count := word_of_nat n\<rparr>"
  have ms: "0 < unat ms"
    using assms(1) by (simp add: only_timer_def unat_gt_0)
  have n: "unat (word_of_nat n :: u32) = n"
    using Suc.prems by (simp add: unat_of_nat)
  have "unat (ms - 1) = unat ms - 1"
    using assms(1) unat_minus_one [of ms] by (simp add: only_timer_def)
  then have due: "word_of_nat n mod ms = ms - 1 \<longleftrightarrow> n mod unat ms = unat ms - 1"
    using n by (metis unat_mod word_unat_eq_iff)
  have "only_timer ?st p cb ms data"
    using assms(1) by (simp add: only_timer_def)
  then have "bscl_timer_on W ?st = Some (?st\<lparr>t_env := (if n mod unat ms = unat ms - 1
      then os_callback W cb data (t_env ?st) else t_env ?st), t_count := t_count ?st + 1\<rparr>)"
    using timer_walk_only [of ?st p cb ms data W "word_of_nat n" "t_env ?st"] due
    by (simp add: bscl_timer_on_def only_timer_def)
  then show ?case
    using Suc ms by (simp add: div_step)
qed (use assms in simp)

section \<open>Firing\<close>

text \<open>
  C32: The code never sets the links of the first timer, so they are what \<open>malloc\<close> has left in its memory, and
  the clock depends on them. If they happen to be null, the first timer runs its callback once in every period of
  \<open>ms\<close> ticks for the first \<open>2 ^ 32\<close> ticks, however many timers are created after it, and none of
  those ever runs. If the next link leads out of the memory, the first tick is undefined already; if the previous
  link does, so is the creation of any further timer (unless its memory is just at that address).
\<close>

theorem bscl_timer_first_fires:
  assumes "fresh_allocator new" and "new (t_cells st) = Some (p, x)"
    and "bscl_timer_new W new cb ms data st = Some (p, st1)"
    and "bscl_timer_start st = 0" and "t_count st = 0"
  shows "(l_next x = 0 \<and> l_prev x = 0 \<longrightarrow>
      (\<forall>reqs st2 n. timer_news W new reqs st1 = Some st2 \<and> n \<le> 2 ^ 32 \<longrightarrow>
        (\<exists>st3. timer_ticks W n st2 = Some st3
          \<and> t_env st3 = (os_callback W cb data ^^ (n div unat ms)) (t_env st2) \<and> t_env st2 = t_env st1)))
    \<and> (l_next x \<noteq> 0 \<and> t_cells st1 (l_next x) = None \<longrightarrow> (\<forall>n. timer_ticks W (Suc n) st1 = None))
    \<and> (l_prev x \<noteq> 0 \<and> t_cells st1 (l_prev x) = None
        \<and> map_option fst (new (t_cells st1)) \<noteq> Some (l_prev x) \<longrightarrow>
      (\<forall>cb' ms' data'. bscl_timer_new W new cb' ms' data' st1 = None))"
proof -
  let ?t = "x\<lparr>t_callback := cb, t_data := data, t_ms := ucast ms\<rparr>"
  note first = first_timer_new [OF assms(1-4)]
  have cell: "t_cells st1 p = Some ?t"
    by (simp add: first(1))
  have fires: "\<exists>st3. timer_ticks W n st2 = Some st3
      \<and> t_env st3 = (os_callback W cb data ^^ (n div unat ms)) (t_env st2) \<and> t_env st2 = t_env st1"
    if "l_next x = 0" "l_prev x = 0" "timer_news W new reqs st1 = Some st2" "n \<le> 2 ^ 32" for reqs st2 n
  proof -
    have "only_timer st2 p cb (ucast ms) data" and "t_count st2 = 0" and "t_env st2 = t_env st1"
      using timer_news_only [OF assms(1) first_timer_only [OF assms(1-4) that(1,2)] that(3)] first(3) assms(5)
      by simp_all
    then show ?thesis
      using timer_ticks_only [of st2 p cb "ucast ms" data n W] that(4) by (simp add: unat_ucast_u16_u32)
  qed
  have wild: "timer_ticks W (Suc n) st1 = None" if "l_next x \<noteq> 0" "t_cells st1 (l_next x) = None" for n
    using wild_next_walk [OF cell first(4) _ _ first(2)] that by (induction n) simp_all
  have "bscl_timer_new W new cb' ms' data' st1 = None"
    if "l_prev x \<noteq> 0" "t_cells st1 (l_prev x) = None" "map_option fst (new (t_cells st1)) \<noteq> Some (l_prev x)"
    for cb' ms' data'
    using wild_prev_insert [OF cell first(4) _ _ first(2) assms(1)] that by simp
  with fires wild show ?thesis
    by blast
qed

section \<open>Deleting\<close>

lemma timer_delete_loop_stays:
  assumes "timer_delete_next (t_cells st) p = Some p" and "p \<noteq> 0" and "p \<noteq> this"
  shows "timer_delete_loop st this p = None"
proof -
  have "(st', this', q) \<noteq> (st, this, p)" if "timer_delete_loop st' this' q = Some r" for st' this' q r
    using that
  proof (rule timer_delete_loop.raw_induct [rotated])
    fix f :: "'a timers \<Rightarrow> addr \<Rightarrow> addr \<Rightarrow> 'a timers option" and st' this' q r
    assume IH: "\<And>st' this' q r. f st' this' q = Some r \<Longrightarrow> (st', this', q) \<noteq> (st, this, p)"
      and body: "(if q = 0 then Some st' else if q = this' then timer_unlink st' this'
        else timer_delete_next (t_cells st') q \<bind> f st' this') = Some r"
    show "(st', this', q) \<noteq> (st, this, p)"
      using IH [of st this p r] body assms by auto
  qed
  then show ?thesis
    by (cases "timer_delete_loop st this p") auto
qed

lemma delete_first:
  assumes "only_timer st p cb ms data"
  shows "\<exists>st'. bscl_timer_delete W p st = Some st' \<and> bscl_timer_start st' = 0
    \<and> t_env st' = snd (os_setitimer W False (t_env st))"
proof -
  obtain q where p: "p \<noteq> 0" "bscl_timer_start st = p" "nxt (t_cells st) p = Some 0" "prv (t_cells st) p = Some q"
      "q \<noteq> p" "q \<noteq> 0 \<longrightarrow> t_cells st q \<noteq> None"
    using assms unfolding only_timer_def by blast
  obtain h' where h': "bscl_list_head_remove (t_cells st) p = Some h'" "\<forall>x. h' x = None \<longleftrightarrow> t_cells st x = None"
    using list_head_remove_runs [of p "t_cells st" 0 q] p by auto
  have "h' p \<noteq> None"
    using h'(2) field_Some(1) [OF p(3)] by simp
  then show ?thesis
    using p h'(1) by (simp add: bscl_timer_delete_def timer_delete_loop.simps [of st p p] timer_unlink_def link_simps
      free_def) auto
qed

text \<open>
  C33: If the links that \<open>malloc\<close> has left in the first timer happen to be null, deleting any timer but the first
  one never returns: the search stays at the last timer of the list, which is the first one. Deleting the first
  one stops the clock for all the others. If the next link leads out of the memory, deleting is undefined, of
  whatever timer.
\<close>

theorem bscl_timer_delete_others_hangs:
  assumes "fresh_allocator new" and "new (t_cells st) = Some (p, x)"
    and "bscl_timer_new W new cb ms data st = Some (p, st1)" and "bscl_timer_start st = 0"
  shows "(l_next x = 0 \<and> l_prev x = 0 \<longrightarrow> (\<forall>reqs st2. timer_news W new reqs st1 = Some st2 \<longrightarrow>
      (\<forall>this. this \<noteq> p \<longrightarrow> timer_delete_next (t_cells st2) (bscl_timer_start st2) = Some (bscl_timer_start st2)
        \<and> bscl_timer_delete W this st2 = None)
      \<and> (\<exists>st3. bscl_timer_delete W p st2 = Some st3 \<and> t_env st3 = snd (os_setitimer W False (t_env st2))
        \<and> (\<forall>c e. timer_walk W (t_cells st3) c (bscl_timer_start st3) e = Some e))))
    \<and> (l_next x \<noteq> 0 \<and> t_cells st1 (l_next x) = None \<longrightarrow> (\<forall>this. bscl_timer_delete W this st1 = None))"
proof -
  note first = first_timer_new [OF assms]
  have cell: "t_cells st1 p = Some (x\<lparr>t_callback := cb, t_data := data, t_ms := ucast ms\<rparr>)"
    by (simp add: first(1))
  have hangs: "timer_delete_next (t_cells st2) (bscl_timer_start st2) = Some (bscl_timer_start st2)"
      "this \<noteq> p \<Longrightarrow> bscl_timer_delete W this st2 = None"
      "\<exists>st3. bscl_timer_delete W p st2 = Some st3 \<and> t_env st3 = snd (os_setitimer W False (t_env st2))
        \<and> (\<forall>c e. timer_walk W (t_cells st3) c (bscl_timer_start st3) e = Some e)"
    if "l_next x = 0" "l_prev x = 0" "timer_news W new reqs st1 = Some st2" for reqs st2 this
  proof -
    have only: "only_timer st2 p cb (ucast ms) data"
      using timer_news_only [OF assms(1) first_timer_only [OF assms that(1,2)] that(3)] by simp
    have start: "bscl_timer_start st2 = p" "p \<noteq> 0"
      using only by (simp_all add: only_timer_def)
    have nxt: "timer_delete_next (t_cells st2) p = Some p"
      using only by (simp add: only_timer_def timer_delete_next_def link_simps)
    then show "timer_delete_next (t_cells st2) (bscl_timer_start st2) = Some (bscl_timer_start st2)"
      by (simp add: start)
    show "this \<noteq> p \<Longrightarrow> bscl_timer_delete W this st2 = None"
      using timer_delete_loop_stays [OF nxt start(2)] start by (simp add: bscl_timer_delete_def)
    show "\<exists>st3. bscl_timer_delete W p st2 = Some st3 \<and> t_env st3 = snd (os_setitimer W False (t_env st2))
        \<and> (\<forall>c e. timer_walk W (t_cells st3) c (bscl_timer_start st3) e = Some e)"
      using delete_first [OF only, of W] by (auto simp: timer_walk.simps [of W _ _ 0])
  qed
  have "bscl_timer_delete W this st1 = None" if "l_next x \<noteq> 0" "t_cells st1 (l_next x) = None" for this
    using wild_next_delete [OF cell first(4) _ _ first(2)] that by simp
  with hangs show ?thesis
    by blast
qed

section \<open>Concrete timers\<close>

text \<open>Memory is given out at 1 to 3, and the state counts the calls of each callback.\<close>

definition demo_malloc :: "bscl_timer_t allocator" where
  "demo_malloc h = map_option (\<lambda>p. (p, \<lparr>l_next = 0, l_prev = 0, t_ms = 0, t_callback = 0, t_data = 0\<rparr>))
     (if h 1 = None then Some 1 else if h 2 = None then Some 2 else if h 3 = None then Some 3 else None)"

definition demo_timer_os :: "(addr \<Rightarrow> nat) timer_os" where
  "demo_timer_os = \<lparr>os_callback = \<lambda>cb data e. e(cb := e cb + 1), os_setitimer = \<lambda>on e. (0, e)\<rparr>"

definition no_timers :: "(addr \<Rightarrow> nat) timers" where
  "no_timers = \<lparr>t_cells = \<lambda>p. None, bscl_timer_start = 0, t_count = 0, t_env = \<lambda>cb. 0\<rparr>"

lemma demo_malloc_fresh: "fresh_allocator demo_malloc"
  by (auto simp: fresh_allocator_def demo_malloc_def split: if_splits)

lemmas demo_timer_simps = bscl_timer_new_def no_timers_def demo_malloc_def demo_timer_os_def

lemma demo_first: "bscl_timer_new demo_timer_os demo_malloc 7 10 0 no_timers = Some (1,
    no_timers\<lparr>t_cells := [1 \<mapsto> \<lparr>l_next = 0, l_prev = 0, t_ms = 10, t_callback = 7, t_data = 0\<rparr>], bscl_timer_start := 1\<rparr>)"
  by (simp add: demo_timer_simps)

lemma demo_second: "timer_news demo_timer_os demo_malloc [(8, 5, 0)]
    (no_timers\<lparr>t_cells := [1 \<mapsto> \<lparr>l_next = 0, l_prev = 0, t_ms = 10, t_callback = 7, t_data = 0\<rparr>], bscl_timer_start := 1\<rparr>)
  = Some (no_timers\<lparr>t_cells := [1 \<mapsto> \<lparr>l_next = 0, l_prev = 2, t_ms = 10, t_callback = 7, t_data = 0\<rparr>,
      2 \<mapsto> \<lparr>l_next = 1, l_prev = 0, t_ms = 5, t_callback = 8, t_data = 0\<rparr>], bscl_timer_start := 1\<rparr>)"
  by (simp add: demo_timer_simps bscl_list_head_insert_prev_def link_simps upd_next_def upd_prev_def prv_def fun_upd_twist)

text \<open>Memory with a next link that leads nowhere.\<close>

definition wild_malloc :: "bscl_timer_t allocator" where
  "wild_malloc h = (if h 1 = None
     then Some (1, \<lparr>l_next = 99, l_prev = 0, t_ms = 0, t_callback = 0, t_data = 0\<rparr>) else None)"

lemma wild_malloc_fresh: "fresh_allocator wild_malloc"
  by (auto simp: fresh_allocator_def wild_malloc_def split: if_splits)

lemma wild_first: "bscl_timer_new demo_timer_os wild_malloc 7 10 0 no_timers = Some (1,
    no_timers\<lparr>t_cells := [1 \<mapsto> \<lparr>l_next = 99, l_prev = 0, t_ms = 10, t_callback = 7, t_data = 0\<rparr>], bscl_timer_start := 1\<rparr>)"
  by (simp add: demo_timer_simps wild_malloc_def)

lemma demo_memory:
  "demo_malloc (t_cells no_timers) = Some (1, \<lparr>l_next = 0, l_prev = 0, t_ms = 0, t_callback = 0, t_data = 0\<rparr>)"
  "wild_malloc (t_cells no_timers) = Some (1, \<lparr>l_next = 99, l_prev = 0, t_ms = 0, t_callback = 0, t_data = 0\<rparr>)"
  by (simp_all add: demo_malloc_def wild_malloc_def no_timers_def)

lemma no_timers_start: "bscl_timer_start no_timers = 0" "t_count no_timers = 0"
  by (simp_all add: no_timers_def)

lemma bscl_timer_first_fires_witness:
  "(\<exists>st2 st3. timer_news demo_timer_os demo_malloc [(7, 10, 0), (8, 5, 0)] no_timers = Some st2
    \<and> timer_ticks demo_timer_os 95 st2 = Some st3 \<and> t_env st3 = (\<lambda>cb. if cb = 7 then 9 else 0))
   \<and> (\<exists>st1. bscl_timer_new demo_timer_os wild_malloc 7 10 0 no_timers = Some (1, st1)
    \<and> timer_ticks demo_timer_os 1 st1 = None)"
proof -
  have "(os_callback demo_timer_os 7 0 ^^ n) (\<lambda>cb. 0) = (\<lambda>cb. if cb = 7 then n else 0)" for n
    by (induction n) (auto simp: demo_timer_os_def)
  then have "\<exists>st2 st3. timer_news demo_timer_os demo_malloc [(7, 10, 0), (8, 5, 0)] no_timers = Some st2
      \<and> timer_ticks demo_timer_os 95 st2 = Some st3 \<and> t_env st3 = (\<lambda>cb. if cb = 7 then 9 else 0)"
    using bscl_timer_first_fires [OF demo_malloc_fresh demo_memory(1) demo_first no_timers_start, THEN conjunct1,
        rule_format, OF _ conjI [OF demo_second], of 95] demo_first demo_second
    by (simp add: no_timers_def)
  moreover have "\<exists>st1. bscl_timer_new demo_timer_os wild_malloc 7 10 0 no_timers = Some (1, st1)
      \<and> timer_ticks demo_timer_os (Suc 0) st1 = None"
    using bscl_timer_first_fires [OF wild_malloc_fresh demo_memory(2) wild_first no_timers_start, THEN conjunct2,
        THEN conjunct1, rule_format, of 0] wild_first
    by simp
  ultimately show ?thesis
    by simp
qed

lemma bscl_timer_delete_others_hangs_witness:
  "(\<exists>st2. timer_news demo_timer_os demo_malloc [(7, 10, 0), (8, 5, 0)] no_timers = Some st2
    \<and> bscl_timer_delete demo_timer_os 2 st2 = None \<and> bscl_timer_delete demo_timer_os 1 st2 \<noteq> None)
   \<and> (\<exists>st1. bscl_timer_new demo_timer_os wild_malloc 7 10 0 no_timers = Some (1, st1)
    \<and> bscl_timer_delete demo_timer_os 1 st1 = None)"
proof -
  let ?st2 = "no_timers\<lparr>t_cells := [1 \<mapsto> \<lparr>l_next = 0, l_prev = 2, t_ms = 10, t_callback = 7, t_data = 0\<rparr>,
      2 \<mapsto> \<lparr>l_next = 1, l_prev = 0, t_ms = 5, t_callback = 8, t_data = 0\<rparr>], bscl_timer_start := 1\<rparr>"
  have "timer_news demo_timer_os demo_malloc [(7, 10, 0), (8, 5, 0)] no_timers = Some ?st2"
    using demo_first demo_second by simp
  moreover have "bscl_timer_delete demo_timer_os 2 ?st2 = None \<and> bscl_timer_delete demo_timer_os 1 ?st2 \<noteq> None"
    using bscl_timer_delete_others_hangs [OF demo_malloc_fresh demo_memory(1) demo_first no_timers_start(1),
        THEN conjunct1, THEN mp, THEN spec, THEN spec, THEN mp, OF _ demo_second] by auto
  moreover have "\<exists>st1. bscl_timer_new demo_timer_os wild_malloc 7 10 0 no_timers = Some (1, st1)
      \<and> bscl_timer_delete demo_timer_os 1 st1 = None"
    using bscl_timer_delete_others_hangs [OF wild_malloc_fresh demo_memory(2) wild_first no_timers_start(1)] wild_first
    by simp
  ultimately show ?thesis
    by blast
qed

end
