(* ===== verification/Timer_Win32.thy ===== *)
theory Timer_Win32
  imports Prelude
begin

text \<open>
  The timers for Windows, \<open>src/win32/timer.c\<close> with \<open>include/win32/timer.h\<close>, over the multimedia timers
  of Windows, which are a parameter \<open>W\<close>, a record of functions on a state of their own. The struct is the one of
  the source file. Addresses of timers, routines and arguments are numbers; 0 is the null pointer.
\<close>

section \<open>The code\<close>

definition TIME_ONESHOT :: u32 where "TIME_ONESHOT = 0"
definition TIME_PERIODIC :: u32 where "TIME_PERIODIC = 1"
definition TIME_KILL_SYNCHRONOUS :: u32 where "TIME_KILL_SYNCHRONOUS = 0x100"

record 'e mm_os =
  mm_timeSetEvent :: "u32 \<Rightarrow> u32 \<Rightarrow> nat \<Rightarrow> u32 \<Rightarrow> 'e \<Rightarrow> u32 \<times> 'e"
  mm_timeKillEvent :: "u32 \<Rightarrow> 'e \<Rightarrow> 'e"
  mm_routine :: "nat \<Rightarrow> nat \<Rightarrow> nat \<Rightarrow> 'e \<Rightarrow> 'e"

record win_timer =
  wt_handle :: u32
  wt_ticks :: int
  wt_arg :: nat
  wt_routine :: nat

definition bscl_timer_create_win32 :: "win_timer \<Rightarrow> int \<times> win_timer" where
  "bscl_timer_create_win32 tim = (0, \<lparr>wt_handle = 0, wt_ticks = 0, wt_arg = 0, wt_routine = 0\<rparr>)"

definition bscl_timer_cancel_win32 :: "'e mm_os \<Rightarrow> win_timer \<Rightarrow> 'e \<Rightarrow> 'e" where
  "bscl_timer_cancel_win32 W tim e = (if wt_handle tim \<noteq> 0 then mm_timeKillEvent W (wt_handle tim) e else e)"

definition bscl_timer_delete_win32 :: "'e mm_os \<Rightarrow> win_timer \<Rightarrow> 'e \<Rightarrow> 'e" where
  "bscl_timer_delete_win32 W tim e = (if wt_handle tim \<noteq> 0 then mm_timeKillEvent W (wt_handle tim) e else e)"

text \<open>What Windows calls, with the address \<open>p\<close> of the timer, and \<open>tim\<close> what is there by then.\<close>

definition os_timer_svc :: "'e mm_os \<Rightarrow> nat \<Rightarrow> win_timer \<Rightarrow> 'e \<Rightarrow> 'e" where
  "os_timer_svc W p tim e = (if wt_routine tim \<noteq> 0 then mm_routine W (wt_routine tim) p (wt_arg tim) e else e)"

text \<open>\<open>abs\<close> has no result for the least \<open>int\<close>.\<close>

definition int_abs :: "int \<Rightarrow> int option" where
  "int_abs n = (if n = - (2 ^ 31) then None else Some \<bar>n\<bar>)"

definition bscl_timer_fire_win32 ::
    "'e mm_os \<Rightarrow> nat \<Rightarrow> win_timer \<Rightarrow> int \<Rightarrow> nat \<Rightarrow> nat \<Rightarrow> 'e \<Rightarrow> (int \<times> win_timer \<times> 'e) option" where
  "bscl_timer_fire_win32 W p tim ticks routine arg e = do {
     let tim = tim\<lparr>wt_routine := routine\<rparr>;
     let tim = tim\<lparr>wt_arg := arg\<rparr>;
     let tim = tim\<lparr>wt_ticks := ticks\<rparr>;
     delay \<leftarrow> int_abs ticks;
     let (h, e) = (if 0 < ticks then mm_timeSetEvent W (word_of_int delay) 0 p (TIME_ONESHOT OR TIME_KILL_SYNCHRONOUS) e
       else mm_timeSetEvent W (word_of_int delay) 0 p (TIME_PERIODIC OR TIME_KILL_SYNCHRONOUS) e);
     let tim = tim\<lparr>wt_handle := h\<rparr>;
     Some (if wt_handle tim = 0 then (-1, tim, e) else (0, tim, e))
   }"

section \<open>The events of Windows\<close>

text \<open>
  The events that are set, with their delay, the address of their timer and whether they come again. Setting
  one fails with 0 or gives a number that no other event has; killing one removes it.
\<close>

record mm_event =
  ev_delay :: u32
  ev_user :: nat
  ev_periodic :: bool

definition mm_laws :: "'e mm_os \<Rightarrow> ('e \<Rightarrow> u32 \<rightharpoonup> mm_event) \<Rightarrow> bool" where
  "mm_laws W events \<longleftrightarrow>
     (\<forall>delay res user flags e h e'. mm_timeSetEvent W delay res user flags e = (h, e') \<longrightarrow>
        (if h = 0 then events e' = events e
         else events e h = None \<and> events e' = (events e)(h \<mapsto>
           \<lparr>ev_delay = delay, ev_user = user, ev_periodic = (flags AND TIME_PERIODIC \<noteq> 0)\<rparr>)))
   \<and> (\<forall>h e. events (mm_timeKillEvent W h e) = (events e)(h := None))"

lemma mm_lawsD:
  assumes "mm_laws W events"
  shows "mm_timeSetEvent W delay res user flags e = (h, e') \<Longrightarrow> h \<noteq> 0 \<Longrightarrow> events e h = None \<and> events e' = (events e)(h \<mapsto>
      \<lparr>ev_delay = delay, ev_user = user, ev_periodic = (flags AND TIME_PERIODIC \<noteq> 0)\<rparr>)"
    and "mm_timeSetEvent W delay res user flags e = (0, e') \<Longrightarrow> events e' = events e"
    and "events (mm_timeKillEvent W h e) = (events e)(h := None)"
  using assms unfolding mm_laws_def by (metis)+

lemma periodic_flags:
  "(TIME_ONESHOT OR TIME_KILL_SYNCHRONOUS) AND TIME_PERIODIC = 0"
  "(TIME_PERIODIC OR TIME_KILL_SYNCHRONOUS) AND TIME_PERIODIC \<noteq> 0"
  by (simp_all add: TIME_ONESHOT_def TIME_PERIODIC_def TIME_KILL_SYNCHRONOUS_def)

text \<open>A success sets one event, once for positive ticks and again and again for others; a failure changes no event.\<close>

lemma timer_fire_sets_event:
  assumes "mm_laws W events" and "bscl_timer_fire_win32 W p tim ticks routine arg e = Some (r, tim', e')"
  shows "if r = 0 then wt_handle tim' \<noteq> 0 \<and> events e (wt_handle tim') = None \<and> events e' = (events e)(wt_handle tim' \<mapsto>
        \<lparr>ev_delay = word_of_int \<bar>ticks\<bar>, ev_user = p, ev_periodic = (ticks \<le> 0)\<rparr>)
      else r = -1 \<and> wt_handle tim' = 0 \<and> events e' = events e"
    and "wt_routine tim' = routine" and "wt_arg tim' = arg" and "ticks \<noteq> - (2 ^ 31)"
proof -
  define flags where "flags = (if 0 < ticks then TIME_ONESHOT else TIME_PERIODIC) OR TIME_KILL_SYNCHRONOUS"
  obtain h where h: "mm_timeSetEvent W (word_of_int \<bar>ticks\<bar>) 0 p flags e = (h, e')"
      "tim' = tim\<lparr>wt_routine := routine, wt_arg := arg, wt_ticks := ticks, wt_handle := h\<rparr>"
      "r = (if h = 0 then -1 else 0)" "ticks \<noteq> - (2 ^ 31)"
    using assms(2)
    by (auto simp: bscl_timer_fire_win32_def Let_def flags_def int_abs_def split: prod.splits if_splits)
  have "flags AND TIME_PERIODIC \<noteq> 0 \<longleftrightarrow> ticks \<le> 0"
    using periodic_flags by (auto simp: flags_def)
  then show "if r = 0 then wt_handle tim' \<noteq> 0 \<and> events e (wt_handle tim') = None \<and> events e' = (events e)(wt_handle tim' \<mapsto>
        \<lparr>ev_delay = word_of_int \<bar>ticks\<bar>, ev_user = p, ev_periodic = (ticks \<le> 0)\<rparr>)
      else r = -1 \<and> wt_handle tim' = 0 \<and> events e' = events e"
    using mm_lawsD(1) [OF assms(1) h(1)] mm_lawsD(2) [OF assms(1)] h by auto
  show "wt_routine tim' = routine" "wt_arg tim' = arg" "ticks \<noteq> - (2 ^ 31)"
    using h by simp_all
qed

section \<open>Timers that are started again\<close>

text \<open>The calls of \<open>bscl_timer_fire\<close> on one timer, each with ticks, routine and argument; all succeed.\<close>

fun timer_fires :: "'e mm_os \<Rightarrow> nat \<Rightarrow> (int \<times> nat \<times> nat) list \<Rightarrow> win_timer \<Rightarrow> 'e \<Rightarrow> (win_timer \<times> 'e) option" where
  "timer_fires W p [] tim e = Some (tim, e)"
| "timer_fires W p ((ticks, routine, arg) # fires) tim e = do {
     (r, tim, e) \<leftarrow> bscl_timer_fire_win32 W p tim ticks routine arg e;
     guard (r = 0);
     timer_fires W p fires tim e
   }"

definition timer_events :: "(u32 \<rightharpoonup> mm_event) \<Rightarrow> nat \<Rightarrow> u32 set" where
  "timer_events evs p = {h. \<exists>ev. evs h = Some ev \<and> ev_user ev = p}"

lemma timer_events_simps:
  "timer_events (evs(h \<mapsto> ev)) p = (if ev_user ev = p then insert h (timer_events evs p) else timer_events evs p - {h})"
  "timer_events (evs(h := None)) p = timer_events evs p - {h}"
  by (auto simp: timer_events_def)

lemma timer_fires_events:
  assumes "mm_laws W events" and "timer_fires W p fires tim e = Some (tim', e')"
    and "wt_handle tim = 0 \<or> wt_handle tim \<in> timer_events (events e) p"
  shows "card (timer_events (events e') p) = card (timer_events (events e) p) + length fires
    \<and> (wt_handle tim' = 0 \<or> wt_handle tim' \<in> timer_events (events e') p)
    \<and> (wt_handle tim \<noteq> 0 \<or> fires \<noteq> [] \<longrightarrow> wt_handle tim' \<noteq> 0)"
  using assms(2,3)
proof (induction fires arbitrary: tim e)
  case (Cons fire fires)
  obtain ticks routine arg where fire: "fire = (ticks, routine, arg)"
    by (cases fire)
  obtain tim1 e1 where one: "bscl_timer_fire_win32 W p tim ticks routine arg e = Some (0, tim1, e1)"
      and more: "timer_fires W p fires tim1 e1 = Some (tim', e')"
    using Cons.prems(1) by (auto simp: fire split: Option.bind_splits)
  have ev: "wt_handle tim1 \<noteq> 0" "events e (wt_handle tim1) = None"
      "timer_events (events e1) p = insert (wt_handle tim1) (timer_events (events e) p)"
    using timer_fire_sets_event(1) [OF assms(1) one] by (simp_all add: timer_events_simps)
  then have "wt_handle tim1 \<notin> timer_events (events e) p"
    by (simp add: timer_events_def)
  then show ?case
    using Cons.IH [OF more] ev by auto
qed simp

lemma timer_fires_append:
  "timer_fires W p (fires @ fires2) tim e = timer_fires W p fires tim e \<bind> (\<lambda>(tim, e). timer_fires W p fires2 tim e)"
  by (induction W p fires tim e rule: timer_fires.induct) (auto simp: case_prod_unfold intro!: Option.bind_cong)

text \<open>
  A timer that is started again is not stopped before: after any number of successful starts
  and one call to cancel it, all its events but the last are still set, and each of them calls the
  routine of the last start.
\<close>

lemma bscl_timer_win32_restart_leaks:
  assumes "mm_laws W events" and "timer_events (events e) p = {}"
    and "timer_fires W p (fires @ [(ticks, routine, arg)]) (snd (bscl_timer_create_win32 tim0)) e = Some (tim, e1)"
  shows "card (timer_events (events (bscl_timer_cancel_win32 W tim e1)) p) = length fires
    \<and> (routine \<noteq> 0 \<longrightarrow> os_timer_svc W p tim e2 = mm_routine W routine p arg e2)"
proof -
  obtain tim1 e0 where last: "bscl_timer_fire_win32 W p tim1 ticks routine arg e0 = Some (0, tim, e1)"
    using assms(3) by (auto simp: timer_fires_append split: Option.bind_splits)
  have "card (timer_events (events e1) p) = Suc (length fires)" and "wt_handle tim \<in> timer_events (events e1) p"
    using timer_fires_events [OF assms(1,3)] assms(2) by (auto simp: bscl_timer_create_win32_def)
  moreover have "wt_handle tim \<noteq> 0"
    using timer_fire_sets_event(1) [OF assms(1) last] by simp
  ultimately show ?thesis
    using timer_fire_sets_event(2,3) [OF assms(1) last]
    by (simp add: bscl_timer_cancel_win32_def mm_lawsD(3) [OF assms(1)] timer_events_simps os_timer_svc_def)
qed

text \<open>
  Cancelling does not forget the event: to delete the timer afterwards kills the number once more,
  which by then may be that of an event of another timer.
\<close>

lemma timer_delete_after_cancel:
  assumes "mm_laws W events" and "wt_handle tim \<noteq> 0"
    and "mm_timeSetEvent W delay res q flags (bscl_timer_cancel_win32 W tim e) = (wt_handle tim, e1)"
  shows "events e1 (wt_handle tim) \<noteq> None \<and> events (bscl_timer_delete_win32 W tim e1) (wt_handle tim) = None"
  using mm_lawsD(1) [OF assms(1,3,2)] assms(2) by (simp add: bscl_timer_delete_win32_def mm_lawsD(3) [OF assms(1)])

section \<open>Concrete multimedia timers\<close>

text \<open>The state is the table of the events that are set; there are only the numbers 1 and 2.\<close>

definition demo_mm :: "(u32 \<rightharpoonup> mm_event) mm_os" where
  "demo_mm = \<lparr>mm_timeSetEvent = \<lambda>delay res user flags e.
       let ev = \<lparr>ev_delay = delay, ev_user = user, ev_periodic = (flags AND TIME_PERIODIC \<noteq> 0)\<rparr> in
       if e 1 = None then (1, e(1 \<mapsto> ev)) else if e 2 = None then (2, e(2 \<mapsto> ev)) else (0, e),
     mm_timeKillEvent = \<lambda>h e. e(h := None), mm_routine = \<lambda>r p a e. e\<rparr>"

lemma demo_mm_laws: "mm_laws demo_mm id"
  by (auto simp: mm_laws_def demo_mm_def Let_def split: if_splits)

lemma bscl_timer_win32_restart_leaks_witness:
  "\<exists>tim e1. timer_fires demo_mm 5 [(10, 7, 0), (-20, 8, 1)] \<lparr>wt_handle = 0, wt_ticks = 0, wt_arg = 0, wt_routine = 0\<rparr> Map.empty
      = Some (tim, e1)
    \<and> card (timer_events (bscl_timer_cancel_win32 demo_mm tim e1) 5) = 1"
proof -
  let ?tim = "\<lparr>wt_handle = 2, wt_ticks = -20, wt_arg = 1, wt_routine = 8\<rparr>"
  let ?e1 = "[1 \<mapsto> \<lparr>ev_delay = 10, ev_user = 5, ev_periodic = False\<rparr>,
    2 \<mapsto> \<lparr>ev_delay = 20, ev_user = 5, ev_periodic = True\<rparr>]"
  have run: "timer_fires demo_mm 5 ([(10, 7, 0)] @ [(-20, 8, 1)])
      (snd (bscl_timer_create_win32 \<lparr>wt_handle = 3, wt_ticks = 3, wt_arg = 3, wt_routine = 3\<rparr>)) Map.empty = Some (?tim, ?e1)"
    by (simp add: bscl_timer_create_win32_def bscl_timer_fire_win32_def int_abs_def demo_mm_def TIME_ONESHOT_def TIME_PERIODIC_def TIME_KILL_SYNCHRONOUS_def)
  have "timer_events (id (Map.empty :: u32 \<rightharpoonup> mm_event)) 5 = {}"
    by (simp add: timer_events_def)
  from bscl_timer_win32_restart_leaks [OF demo_mm_laws this run, of Map.empty] run show ?thesis
    by (simp add: bscl_timer_create_win32_def)
qed

end
