(* ===== verification/Fs_Win32.thy ===== *)
theory Fs_Win32
  imports Fs
begin

text \<open>
  The file system functions for Windows, \<open>src/win32/fs.c\<close>: a table of open files and directories
  over the calls of the operating system.

  The calls of Windows are a parameter \<open>W\<close>, a record of functions on a state of their own; those
  that can fail return an option. An allocation returns what the new memory holds. A descriptor
  outside the table, or one whose entry is a null pointer, is \<open>None\<close> when it is used.
\<close>

section \<open>Data\<close>

definition MAX_OPEN_FILE :: nat where "MAX_OPEN_FILE = 64"

type_synonym handle = int

record find_data =
  cFileName :: string
  find_attributes :: u32

text \<open>A file, of which a directory uses the data: whether an entry is waiting, and the entry.\<close>

record bscl_file_win32_t =
  f_h :: handle
  f_valid :: bool
  f_find :: find_data

record file_info =
  nFileSizeLow :: u32
  nFileSizeHigh :: u32
  ftLastWriteTime :: u64
  dwFileAttributes :: u32

record 'e win32 =
  w_malloc :: "u8 \<Rightarrow> 'e \<Rightarrow> bscl_file_win32_t option \<times> 'e"
  w_malloc_path :: "nat \<Rightarrow> 'e \<Rightarrow> bool \<times> 'e"
  w_CreateFile :: "string \<Rightarrow> u32 \<Rightarrow> u32 \<Rightarrow> 'e \<Rightarrow> handle option \<times> 'e"
  w_WriteFile :: "handle \<Rightarrow> string \<Rightarrow> 'e \<Rightarrow> u32 option \<times> 'e"
  w_ReadFile :: "handle \<Rightarrow> nat \<Rightarrow> 'e \<Rightarrow> string option \<times> 'e"
  w_SetFilePointer :: "handle \<Rightarrow> int \<Rightarrow> u32 \<Rightarrow> 'e \<Rightarrow> u32 \<times> 'e"
  w_GetFileInformationByHandle :: "handle \<Rightarrow> 'e \<Rightarrow> file_info option \<times> 'e"
  w_GetFileAttributesEx :: "string \<Rightarrow> 'e \<Rightarrow> file_info option \<times> 'e"
  w_FlushFileBuffers :: "handle \<Rightarrow> 'e \<Rightarrow> 'e"
  w_CloseHandle :: "handle \<Rightarrow> 'e \<Rightarrow> 'e"
  w_CreateDirectory :: "string \<Rightarrow> 'e \<Rightarrow> int \<times> 'e"
  w_FindFirstFile :: "string \<Rightarrow> 'e \<Rightarrow> (handle \<times> find_data) option \<times> 'e"
  w_FindNextFile :: "handle \<Rightarrow> 'e \<Rightarrow> find_data option \<times> 'e"
  w_FindClose :: "handle \<Rightarrow> 'e \<Rightarrow> 'e"
  w_RemoveDirectory :: "string \<Rightarrow> 'e \<Rightarrow> int \<times> 'e"
  w_DeleteFile :: "string \<Rightarrow> 'e \<Rightarrow> int \<times> 'e"
  w_GetFileAttributes :: "string \<Rightarrow> 'e \<Rightarrow> u32 \<times> 'e"
  w_MoveFile :: "string \<Rightarrow> string \<Rightarrow> 'e \<Rightarrow> int \<times> 'e"
  w_CreateSymbolicLink :: "string \<Rightarrow> string \<Rightarrow> bool \<Rightarrow> 'e \<Rightarrow> int \<times> 'e"

record 'e fs =
  files :: "bscl_file_win32_t option list"
  w_env :: 'e

text \<open>The constants of Windows.\<close>

definition CREATE_ALWAYS :: u32 where "CREATE_ALWAYS = 2"
definition OPEN_EXISTING :: u32 where "OPEN_EXISTING = 3"
definition OPEN_ALWAYS :: u32 where "OPEN_ALWAYS = 4"
definition TRUNCATE_EXISTING :: u32 where "TRUNCATE_EXISTING = 5"
definition GENERIC_READ :: u32 where "GENERIC_READ = 0x80000000"
definition GENERIC_WRITE :: u32 where "GENERIC_WRITE = 0x40000000"
definition FILE_BEGIN :: u32 where "FILE_BEGIN = 0"
definition FILE_CURRENT :: u32 where "FILE_CURRENT = 1"
definition FILE_END :: u32 where "FILE_END = 2"
definition FILE_ATTRIBUTE_DIRECTORY :: u32 where "FILE_ATTRIBUTE_DIRECTORY = 0x10"
definition INVALID_FILE_ATTRIBUTES :: u32 where "INVALID_FILE_ATTRIBUTES = 0xFFFFFFFF"

definition w_call :: "('e \<Rightarrow> 'r \<times> 'e) \<Rightarrow> 'e fs \<Rightarrow> 'r \<times> 'e fs" where
  "w_call f st = (let (r, e) = f (w_env st) in (r, st\<lparr>w_env := e\<rparr>))"

definition file_at :: "'e fs \<Rightarrow> int \<Rightarrow> bscl_file_win32_t option" where
  "file_at st fd = (if 0 \<le> fd \<and> nat fd < length (files st) then files st ! nat fd else None)"

definition set_file :: "'e fs \<Rightarrow> int \<Rightarrow> bscl_file_win32_t option \<Rightarrow> 'e fs" where
  "set_file st fd f = st\<lparr>files := (files st)[nat fd := f]\<rparr>"

section \<open>Descriptors\<close>

text \<open>The loop over the table is left in its first round, by the return or by the break.\<close>

definition new_fd :: "'e win32 \<Rightarrow> 'e fs \<Rightarrow> u8 \<Rightarrow> int \<times> 'e fs" where
  "new_fd W st ftype =
     (let i = 0; (m, st) = w_call (w_malloc W ftype) st; st = set_file st i m in
      if m \<noteq> None then (i, st) else (-1, st))"

definition delete_fd :: "'e fs \<Rightarrow> int \<Rightarrow> 'e fs option" where
  "delete_fd st fd = (if 0 \<le> fd \<and> nat fd < length (files st) then Some (set_file st fd None) else None)"

section \<open>Files\<close>

definition fs_creation :: "u8 \<Rightarrow> u32" where
  "fs_creation mode =
     (if mode AND BSCL_FS_MODE_CREATE \<noteq> 0 \<and> mode AND BSCL_FS_MODE_TRUNC \<noteq> 0 then CREATE_ALWAYS
      else if mode AND BSCL_FS_MODE_CREATE \<noteq> 0 then OPEN_ALWAYS
      else if mode AND BSCL_FS_MODE_TRUNC \<noteq> 0 then TRUNCATE_EXISTING
      else OPEN_EXISTING)"

definition fs_access :: "u8 \<Rightarrow> u32" where
  "fs_access mode =
     (if mode AND BSCL_FS_MODE_READ \<noteq> 0 then GENERIC_READ else 0)
     OR (if mode AND BSCL_FS_MODE_WRITE \<noteq> 0 then GENERIC_WRITE else 0)"

definition bscl_fs_open :: "'e win32 \<Rightarrow> 'e fs \<Rightarrow> string \<Rightarrow> u8 \<Rightarrow> (int \<times> 'e fs) option" where
  "bscl_fs_open W st path mode =
     (let (fd, st) = new_fd W st BSCL_FS_TYPE_REG in
      if fd < 0 then Some (-1, st)
      else do {
        f \<leftarrow> file_at st fd;
        let (h, st) = w_call (w_CreateFile W path (fs_access mode) (fs_creation mode)) st;
        (case h of
           None \<Rightarrow> do { st \<leftarrow> delete_fd st fd; Some (-1, st) }
         | Some h \<Rightarrow> Some (fd, set_file st fd (Some (f\<lparr>f_h := h\<rparr>))))
      })"

definition bscl_fs_write :: "'e win32 \<Rightarrow> 'e fs \<Rightarrow> int \<Rightarrow> string \<Rightarrow> (int \<times> 'e fs) option" where
  "bscl_fs_write W st fd buf = do {
     f \<leftarrow> file_at st fd;
     let (r, st) = w_call (w_WriteFile W (f_h f) buf) st;
     Some (case r of None \<Rightarrow> -1 | Some written \<Rightarrow> sint written, st)
   }"

definition bscl_fs_read :: "'e win32 \<Rightarrow> 'e fs \<Rightarrow> int \<Rightarrow> nat \<Rightarrow> ((int \<times> string) \<times> 'e fs) option" where
  "bscl_fs_read W st fd len = do {
     f \<leftarrow> file_at st fd;
     let (r, st) = w_call (w_ReadFile W (f_h f) len) st;
     Some (case r of None \<Rightarrow> (-1, []) | Some bytes \<Rightarrow> (int (length bytes), bytes), st)
   }"

definition bscl_fs_seek :: "'e win32 \<Rightarrow> 'e fs \<Rightarrow> int \<Rightarrow> int \<Rightarrow> u8 \<Rightarrow> (int \<times> 'e fs) option" where
  "bscl_fs_seek W st fd offset origin =
     (let move = (if origin = BSCL_FS_SEEK_SET then Some FILE_BEGIN
        else if origin = BSCL_FS_SEEK_CUR then Some FILE_CURRENT
        else if origin = BSCL_FS_SEEK_END then Some FILE_END else None) in
      case move of
        None \<Rightarrow> if 0 \<le> fd \<and> nat fd < length (files st) then Some (-1, st) else None
      | Some m \<Rightarrow> do {
          f \<leftarrow> file_at st fd;
          let (_, st) = w_call (w_SetFilePointer W (f_h f) offset m) st;
          Some (0, st)
        })"

definition bscl_fs_tell :: "'e win32 \<Rightarrow> 'e fs \<Rightarrow> int \<Rightarrow> (int \<times> 'e fs) option" where
  "bscl_fs_tell W st fd = do {
     f \<leftarrow> file_at st fd;
     let (r, st) = w_call (w_SetFilePointer W (f_h f) 0 FILE_CURRENT) st;
     Some (sint r, st)
   }"

definition convertWindowsTimeToUnixTime :: "u64 \<Rightarrow> int" where
  "convertWindowsTimeToUnixTime tick = sint (tick div 10000000 - 11644473600 :: u64)"

definition stat_of_info :: "file_info \<Rightarrow> bscl_fs_stat_buf" where
  "stat_of_info info =
     \<lparr>st_type = (if dwFileAttributes info AND FILE_ATTRIBUTE_DIRECTORY \<noteq> 0 then BSCL_FS_TYPE_DIR else BSCL_FS_TYPE_REG),
      st_size = nFileSizeLow info, st_time = convertWindowsTimeToUnixTime (ftLastWriteTime info)\<rparr>"

definition bscl_fs_fstat :: "'e win32 \<Rightarrow> 'e fs \<Rightarrow> int \<Rightarrow> ((int \<times> bscl_fs_stat_buf option) \<times> 'e fs) option" where
  "bscl_fs_fstat W st fd = do {
     f \<leftarrow> file_at st fd;
     let (r, st) = w_call (w_GetFileInformationByHandle W (f_h f)) st;
     Some (case r of None \<Rightarrow> (-1, None) | Some info \<Rightarrow> (0, Some (stat_of_info info)), st)
   }"

definition bscl_fs_stat :: "'e win32 \<Rightarrow> 'e fs \<Rightarrow> string \<Rightarrow> (int \<times> bscl_fs_stat_buf option) \<times> 'e fs" where
  "bscl_fs_stat W st path =
     (let (r, st) = w_call (w_GetFileAttributesEx W path) st in
      (case r of None \<Rightarrow> (-1, None) | Some info \<Rightarrow> (0, Some (stat_of_info info)), st))"

definition bscl_fs_flush :: "'e win32 \<Rightarrow> 'e fs \<Rightarrow> int \<Rightarrow> (int \<times> 'e fs) option" where
  "bscl_fs_flush W st fd = do {
     f \<leftarrow> file_at st fd;
     Some (0, st\<lparr>w_env := w_FlushFileBuffers W (f_h f) (w_env st)\<rparr>)
   }"

definition bscl_fs_close :: "'e win32 \<Rightarrow> 'e fs \<Rightarrow> int \<Rightarrow> (int \<times> 'e fs) option" where
  "bscl_fs_close W st fd = do {
     f \<leftarrow> file_at st fd;
     st \<leftarrow> delete_fd (st\<lparr>w_env := w_CloseHandle W (f_h f) (w_env st)\<rparr>) fd;
     Some (0, st)
   }"

section \<open>Directories and names\<close>

definition bscl_fs_mkdir :: "'e win32 \<Rightarrow> 'e fs \<Rightarrow> string \<Rightarrow> int \<times> 'e fs" where
  "bscl_fs_mkdir W st path = w_call (w_CreateDirectory W path) st"

text \<open>The descriptor is not returned, but a 0, which is the only descriptor there is.\<close>

definition bscl_fs_opendir :: "'e win32 \<Rightarrow> 'e fs \<Rightarrow> string \<Rightarrow> (int \<times> 'e fs) option" where
  "bscl_fs_opendir W st path =
     (let find_str = path @ [CHR 0x5C, CHR ''*'']; (ok, st) = w_call (w_malloc_path W (length find_str + 1)) st in
      if \<not> ok then Some (-1, st)
      else let (fd, st) = new_fd W st BSCL_FS_TYPE_DIR in
      if fd < 0 then Some (-1, st)
      else do {
        f \<leftarrow> file_at st fd;
        let (r, st) = w_call (w_FindFirstFile W find_str) st;
        (case r of
           None \<Rightarrow> do { st \<leftarrow> delete_fd st fd; Some (-1, st) }
         | Some (h, d) \<Rightarrow> Some (0, set_file st fd (Some (f\<lparr>f_h := h, f_valid := True, f_find := d\<rparr>))))
      })"

text \<open>A name that fills its array has no terminating zero.\<close>

definition dirent_of :: "find_data \<Rightarrow> bscl_fs_dirent" where
  "dirent_of d =
     \<lparr>d_type = (if find_attributes d AND FILE_ATTRIBUTE_DIRECTORY \<noteq> 0 then BSCL_FS_TYPE_DIR else BSCL_FS_TYPE_REG),
      d_name = take BSCL_FS_PATH_MAX (cFileName d)\<rparr>"

definition bscl_fs_readdir :: "'e win32 \<Rightarrow> 'e fs \<Rightarrow> int \<Rightarrow> ((int \<times> bscl_fs_dirent option) \<times> 'e fs) option" where
  "bscl_fs_readdir W st fd = do {
     f \<leftarrow> file_at st fd;
     if \<not> f_valid f then Some ((-1, None), st)
     else do {
       let dirent = dirent_of (f_find f);
       let (r, st) = w_call (w_FindNextFile W (f_h f)) st;
       let f = (case r of None \<Rightarrow> f\<lparr>f_valid := False\<rparr> | Some d \<Rightarrow> f\<lparr>f_find := d\<rparr>);
       Some ((0, Some dirent), set_file st fd (Some f))
     }
   }"

definition bscl_fs_closedir :: "'e win32 \<Rightarrow> 'e fs \<Rightarrow> int \<Rightarrow> (int \<times> 'e fs) option" where
  "bscl_fs_closedir W st fd = do {
     f \<leftarrow> file_at st fd;
     st \<leftarrow> delete_fd (st\<lparr>w_env := w_FindClose W (f_h f) (w_env st)\<rparr>) fd;
     Some (0, st)
   }"

definition bscl_fs_exists :: "'e win32 \<Rightarrow> 'e fs \<Rightarrow> string \<Rightarrow> bool \<times> 'e fs" where
  "bscl_fs_exists W st path =
     (let (x, st) = w_call (w_GetFileAttributes W path) st in (x \<noteq> INVALID_FILE_ATTRIBUTES, st))"

definition bscl_fs_isdir :: "'e win32 \<Rightarrow> 'e fs \<Rightarrow> string \<Rightarrow> bool \<times> 'e fs" where
  "bscl_fs_isdir W st path =
     (let (x, st) = w_call (w_GetFileAttributes W path) st in
      (x \<noteq> INVALID_FILE_ATTRIBUTES \<and> x AND FILE_ATTRIBUTE_DIRECTORY \<noteq> 0, st))"

definition bscl_fs_remove :: "'e win32 \<Rightarrow> 'e fs \<Rightarrow> string \<Rightarrow> int \<times> 'e fs" where
  "bscl_fs_remove W st path =
     (let (dir, st) = bscl_fs_isdir W st path in
      if dir then w_call (w_RemoveDirectory W path) st else w_call (w_DeleteFile W path) st)"

definition bscl_fs_mtime :: "'e win32 \<Rightarrow> 'e fs \<Rightarrow> string \<Rightarrow> int \<times> 'e fs" where
  "bscl_fs_mtime W st path =
     (let (r, st) = w_call (w_GetFileAttributesEx W path) st in
      (case r of None \<Rightarrow> -1 | Some info \<Rightarrow> sint (ftLastWriteTime info), st))"

definition bscl_fs_fsize :: "'e win32 \<Rightarrow> 'e fs \<Rightarrow> string \<Rightarrow> int \<times> 'e fs" where
  "bscl_fs_fsize W st path =
     (let (r, st) = w_call (w_GetFileAttributesEx W path) st in
      (case r of None \<Rightarrow> -1
       | Some info \<Rightarrow> sint (shl (ucast (nFileSizeHigh info)) 32 OR ucast (nFileSizeLow info) :: u64), st))"

definition bscl_fs_rename :: "'e win32 \<Rightarrow> 'e fs \<Rightarrow> string \<Rightarrow> string \<Rightarrow> bool \<times> 'e fs" where
  "bscl_fs_rename W st src dst = (let (r, st) = w_call (w_MoveFile W src dst) st in (r \<noteq> 0, st))"

definition bscl_fs_symlink :: "'e win32 \<Rightarrow> 'e fs \<Rightarrow> string \<Rightarrow> string \<Rightarrow> bool \<times> 'e fs" where
  "bscl_fs_symlink W st dst lnk =
     (let (dir, st) = bscl_fs_isdir W st dst; (r, st) = w_call (w_CreateSymbolicLink W lnk dst dir) st in (r \<noteq> 0, st))"

section \<open>The table of descriptors\<close>

text \<open>
  One call of the interface that changes the table or the data of a file. The other calls leave the table alone
  and change the state of Windows only, as other programs do: \<open>reach_other\<close> allows any such change.
\<close>

inductive fs_step :: "'e win32 \<Rightarrow> 'e fs \<Rightarrow> 'e fs \<Rightarrow> bool" for W :: "'e win32" where
  step_open: "bscl_fs_open W st path mode = Some (r, st') \<Longrightarrow> fs_step W st st'"
| step_opendir: "bscl_fs_opendir W st path = Some (r, st') \<Longrightarrow> fs_step W st st'"
| step_readdir: "bscl_fs_readdir W st fd = Some (d, st') \<Longrightarrow> fs_step W st st'"
| step_close: "bscl_fs_close W st fd = Some (r, st') \<Longrightarrow> fs_step W st st'"
| step_closedir: "bscl_fs_closedir W st fd = Some (r, st') \<Longrightarrow> fs_step W st st'"

inductive fs_reachable :: "'e win32 \<Rightarrow> 'e fs \<Rightarrow> bool" for W :: "'e win32" where
  reach_start: "files st = replicate MAX_OPEN_FILE None \<Longrightarrow> fs_reachable W st"
| reach_step: "fs_reachable W st \<Longrightarrow> fs_step W st st' \<Longrightarrow> fs_reachable W st'"
| reach_other: "fs_reachable W st \<Longrightarrow> fs_reachable W (st\<lparr>w_env := e\<rparr>)"

inductive_cases fs_stepE: "fs_step W st st'"

text \<open>All entries but the first are null.\<close>

definition one_file :: "'e fs \<Rightarrow> bool" where
  "one_file st \<longleftrightarrow> length (files st) = MAX_OPEN_FILE \<and> (\<forall>i < MAX_OPEN_FILE. 0 < i \<longrightarrow> files st ! i = None)"

named_theorems fs_simps

lemma w_call_simps [fs_simps]:
  "files (snd (w_call f st)) = files st" "fst (w_call f st) = fst (f (w_env st))"
  "w_env (snd (w_call f st)) = snd (f (w_env st))"
  by (simp_all add: w_call_def split: prod.splits)

lemma one_file_call [fs_simps]: "one_file (snd (w_call f st)) = one_file st"
  by (simp add: one_file_def fs_simps)

lemma one_file_env [fs_simps]: "one_file (st\<lparr>w_env := e\<rparr>) = one_file st"
  by (simp add: one_file_def)

lemma one_file_set: "one_file st \<Longrightarrow> nat fd = 0 \<or> f = None \<Longrightarrow> one_file (set_file st fd f)"
  by (cases "nat fd < length (files st)") (auto simp: one_file_def set_file_def nth_list_update)

lemma file_at_one: "one_file st \<Longrightarrow> file_at st fd = Some f \<Longrightarrow> fd = 0"
  by (auto simp: one_file_def file_at_def split: if_splits)

lemma delete_fd_one: "one_file st \<Longrightarrow> delete_fd st fd = Some st' \<Longrightarrow> one_file st'"
  by (auto simp: delete_fd_def one_file_set split: if_splits)

lemma delete_fd_call: "delete_fd (snd (w_call f st)) fd = Some st' \<Longrightarrow> one_file st \<Longrightarrow> one_file st'"
  by (rule delete_fd_one [of "snd (w_call f st)"]) (simp_all add: fs_simps)

lemma set_file_simps [simp]:
  "w_env (set_file st fd f) = w_env st" "length (files (set_file st fd f)) = length (files st)"
  by (simp_all add: set_file_def)

lemma new_fd_one:
  assumes "one_file st" and "new_fd W st ft = (fd, st')"
  shows "one_file st'" "fd = 0 \<or> fd = -1"
  using assms one_file_set [of "snd (w_call (w_malloc W ft) st)" 0]
  by (auto simp: new_fd_def Let_def case_prod_unfold fs_simps split: if_splits)

lemma fs_open_one:
  assumes "one_file st" and "bscl_fs_open W st path mode = Some (r, st')"
  shows "one_file st'" "r = 0 \<or> r = -1"
proof -
  obtain fd st1 where n: "new_fd W st BSCL_FS_TYPE_REG = (fd, st1)"
    by (cases "new_fd W st BSCL_FS_TYPE_REG")
  note n1 = new_fd_one [OF assms(1) n]
  have "one_file st' \<and> (r = 0 \<or> r = -1)"
    using assms(2) n1 unfolding bscl_fs_open_def n Let_def
    by (auto simp: case_prod_unfold fs_simps split: if_splits option.splits Option.bind_splits
      intro!: one_file_set elim: delete_fd_call)
  then show "one_file st'" "r = 0 \<or> r = -1"
    by simp_all
qed

lemma fs_opendir_one:
  assumes "one_file st" and "bscl_fs_opendir W st path = Some (r, st')"
  shows "one_file st'" "r = 0 \<or> r = -1"
proof -
  define st0 where "st0 = snd (w_call (w_malloc_path W (length (path @ [CHR 0x5C, CHR ''*'']) + 1)) st)"
  obtain fd st1 where n: "new_fd W st0 BSCL_FS_TYPE_DIR = (fd, st1)"
    by (cases "new_fd W st0 BSCL_FS_TYPE_DIR")
  have st0: "one_file st0"
    using assms(1) by (simp add: st0_def fs_simps)
  note n1 = new_fd_one [OF st0 n]
  have "one_file st' \<and> (r = 0 \<or> r = -1)"
    using assms(2) n1 st0 n unfolding bscl_fs_opendir_def Let_def case_prod_unfold st0_def [symmetric]
    by (auto simp: case_prod_unfold fs_simps split: if_splits option.splits Option.bind_splits
      intro!: one_file_set elim: delete_fd_call)
  then show "one_file st'" "r = 0 \<or> r = -1"
    by simp_all
qed

lemma fs_step_one: "fs_step W st st' \<Longrightarrow> one_file st \<Longrightarrow> one_file st'"
proof (erule fs_stepE)
  fix fd d assume "one_file st" "bscl_fs_readdir W st fd = Some (d, st')"
  then show "one_file st'"
    using file_at_one [of st fd]
    by (auto simp: bscl_fs_readdir_def Let_def case_prod_unfold fs_simps split: Option.bind_splits if_splits
      intro!: one_file_set)
next
  fix fd r assume "one_file st" "bscl_fs_close W st fd = Some (r, st')"
  then show "one_file st'"
    by (auto simp: bscl_fs_close_def fs_simps split: Option.bind_splits elim!: delete_fd_one [rotated])
next
  fix fd r assume "one_file st" "bscl_fs_closedir W st fd = Some (r, st')"
  then show "one_file st'"
    by (auto simp: bscl_fs_closedir_def fs_simps split: Option.bind_splits elim!: delete_fd_one [rotated])
qed (auto dest: fs_open_one fs_opendir_one)

lemma fs_reachable_one: "fs_reachable W st \<Longrightarrow> one_file st"
proof (induction rule: fs_reachable.induct)
  case (reach_start st)
  then show ?case by (simp add: one_file_def)
next
  case (reach_step st st')
  then show ?case by (blast intro: fs_step_one)
next
  case (reach_other st e)
  then show ?case by (simp add: one_file_env)
qed

text \<open>
  C28: After any sequence of calls at most one file or directory is open: every entry of the table
  but the first is null, and no call returns another descriptor than 0.
\<close>

theorem bscl_fs_one_descriptor:
  assumes "fs_reachable W st"
  shows "(\<forall>i < MAX_OPEN_FILE. 0 < i \<longrightarrow> files st ! i = None)
    \<and> (\<forall>path mode r st'. bscl_fs_open W st path mode = Some (r, st') \<longrightarrow> r = 0 \<or> r = -1)
    \<and> (\<forall>path r st'. bscl_fs_opendir W st path = Some (r, st') \<longrightarrow> r = 0 \<or> r = -1)"
  using fs_reachable_one [OF assms] fs_open_one(2) fs_opendir_one(2) unfolding one_file_def by blast

section \<open>Directories\<close>

text \<open>What \<open>FindNextFile\<close> gives, one call after the other.\<close>

inductive enumerates :: "'e win32 \<Rightarrow> handle \<Rightarrow> 'e \<Rightarrow> find_data list \<Rightarrow> bool" for W :: "'e win32" and h :: handle where
  enum_end: "w_FindNextFile W h e = (None, e') \<Longrightarrow> enumerates W h e []"
| enum_next: "w_FindNextFile W h e = (Some d, e1) \<Longrightarrow> enumerates W h e1 ds \<Longrightarrow> enumerates W h e (d # ds)"

inductive_cases enum_ConsE: "enumerates W h e (d # ds)"
inductive_cases enum_NilE: "enumerates W h e []"

text \<open>Calling \<open>bscl_fs_readdir\<close> until it fails.\<close>

partial_function (option) fs_list :: "'e win32 \<Rightarrow> 'e fs \<Rightarrow> int \<Rightarrow> bscl_fs_dirent list option" where
  "fs_list W st fd = do {
     ((r, d), st) \<leftarrow> bscl_fs_readdir W st fd;
     (case d of None \<Rightarrow> Some [] | Some d \<Rightarrow> do { ds \<leftarrow> fs_list W st fd; Some (d # ds) })
   }"

lemma file_at_set: "0 \<le> fd \<Longrightarrow> nat fd < length (files st) \<Longrightarrow> file_at (set_file st fd f) fd = f"
  by (simp add: file_at_def set_file_def)

lemma fs_list_runs:
  assumes "enumerates W h e ds" and "w_env st = e" and "0 \<le> fd" and "nat fd < length (files st)"
    and "file_at st fd = Some f" and "f_h f = h" and "f_valid f"
  shows "fs_list W st fd = Some (map dirent_of (f_find f # ds))"
  using assms
proof (induction arbitrary: st f rule: enumerates.induct)
  case (enum_end e e')
  let ?st = "set_file (st\<lparr>w_env := e'\<rparr>) fd (Some (f\<lparr>f_valid := False\<rparr>))"
  have "bscl_fs_readdir W st fd = Some ((0, Some (dirent_of (f_find f))), ?st)"
    using enum_end by (simp add: bscl_fs_readdir_def w_call_def)
  moreover have "bscl_fs_readdir W ?st fd = Some ((-1, None), ?st)"
    using enum_end by (simp add: bscl_fs_readdir_def file_at_set)
  then have "fs_list W ?st fd = Some []"
    by (subst fs_list.simps) simp
  ultimately show ?case
    by (subst fs_list.simps) simp
next
  case (enum_next e d e1 ds)
  let ?st = "set_file (st\<lparr>w_env := e1\<rparr>) fd (Some (f\<lparr>f_find := d\<rparr>))"
  have "bscl_fs_readdir W st fd = Some ((0, Some (dirent_of (f_find f))), ?st)"
    using enum_next by (simp add: bscl_fs_readdir_def w_call_def)
  moreover have "fs_list W ?st fd = Some (map dirent_of (d # ds))"
    using enum_next.IH [of ?st "f\<lparr>f_find := d\<rparr>"] enum_next by (simp add: file_at_set)
  ultimately show ?case
    by (subst fs_list.simps) simp
qed

text \<open>
  C29: An opened directory is read completely: the entries come one by one in the order of Windows,
  each once, and then the end is reported; names are kept up to the size of the array.
\<close>

theorem bscl_fs_readdir_lists_all:
  assumes "bscl_fs_opendir W st path = Some (0, st')" and "length (files st) = MAX_OPEN_FILE"
    and "snd (w_malloc_path W (length path + 3) (w_env st)) = e0" and "snd (w_malloc W BSCL_FS_TYPE_DIR e0) = e1"
    and "w_FindFirstFile W (path @ [CHR 0x5C, CHR ''*'']) e1 = (Some (h, d), e2)" and "enumerates W h e2 ds"
  shows "fs_list W st' 0 = Some (map dirent_of (d # ds))"
proof -
  have "\<exists>f. file_at st' 0 = Some f \<and> f_h f = h \<and> f_valid f \<and> f_find f = d \<and> w_env st' = e2
      \<and> length (files st') = MAX_OPEN_FILE"
    using assms(1-5)
    by (auto simp: bscl_fs_opendir_def new_fd_def w_call_def set_file_def Let_def case_prod_unfold file_at_def
      numeral_eq_Suc split: if_splits Option.bind_splits)
  then obtain f where st': "file_at st' 0 = Some f" "f_h f = h" "f_valid f" "f_find f = d" "w_env st' = e2"
      "length (files st') = MAX_OPEN_FILE"
    by blast
  then show ?thesis
    using fs_list_runs [OF assms(6) st'(5), of 0 f] by (simp add: MAX_OPEN_FILE_def)
qed

section \<open>Times and sizes\<close>

lemma sint_of_int: "- (2 ^ 63) \<le> x \<Longrightarrow> x < 2 ^ 63 \<Longrightarrow> sint (word_of_int x :: u64) = x"
  by (simp add: signed_of_int signed_take_bit_int_eq_self)

lemma time_exact: "convertWindowsTimeToUnixTime tick = uint tick div 10000000 - 11644473600"
proof -
  have t: "uint tick < 2 ^ 64" "0 \<le> uint tick"
    using unsigned_less [of tick, where ?'a = int] by simp_all
  have "tick div 10000000 - 11644473600 = (word_of_int (uint tick div 10000000 - 11644473600) :: u64)"
    by (simp add: word_div_def wi_hom_syms)
  moreover have "sint (word_of_int (uint tick div 10000000 - 11644473600) :: u64) = uint tick div 10000000 - 11644473600"
  proof (rule sint_of_int)
    have "0 \<le> uint tick div 10000000"
      using t by (intro pos_imp_zdiv_nonneg_iff [THEN iffD2]) simp_all
    then show "- (2 ^ 63) \<le> uint tick div 10000000 - 11644473600"
      by simp
    show "uint tick div 10000000 - 11644473600 < 2 ^ 63"
      using t by auto
  qed
  ultimately show ?thesis
    by (simp add: convertWindowsTimeToUnixTime_def)
qed

lemma size_joined:
  fixes h l :: u32
  shows "shl (ucast h) 32 OR ucast l = (word_of_int (uint h * 2 ^ 32 + uint l) :: u64)"
proof -
  have "push_bit 32 (uint h) + uint l = push_bit 32 (uint h) OR uint l"
    by (intro disjunctive_add_eq_or bit_eqI) (auto simp: bit_simps dest: bit_imp_le_length)
  then have "uint h * 2 ^ 32 + uint l = push_bit 32 (uint h) OR uint l"
    by (simp add: push_bit_eq_mult)
  then show ?thesis
    by (intro bit_word_eqI) (auto simp: bit_simps)
qed

text \<open>
  C30: The time of a file is converted exactly, for every time of Windows, also before 1970; the
  size that \<open>bscl_fs_stat\<close> reports is the low 32 bits of the one that \<open>bscl_fs_fsize\<close> reports, and
  the time that \<open>bscl_fs_mtime\<close> reports is not converted at all.
\<close>

theorem bscl_fs_stat_bounds:
  assumes "w_GetFileAttributesEx W path (w_env st) = (Some info, e)"
    and "size64 = uint (nFileSizeHigh info) * 2 ^ 32 + uint (nFileSizeLow info)" and "size64 < 2 ^ 63"
  shows "\<exists>b. fst (bscl_fs_stat W st path) = (0, Some b)
    \<and> st_time b = uint (ftLastWriteTime info) div 10000000 - 11644473600
    \<and> uint (st_size b) = size64 mod 2 ^ 32
    \<and> fst (bscl_fs_fsize W st path) = size64
    \<and> fst (bscl_fs_mtime W st path) = sint (ftLastWriteTime info)"
proof -
  have "fst (bscl_fs_stat W st path) = (0, Some (stat_of_info info))"
    and "fst (bscl_fs_mtime W st path) = sint (ftLastWriteTime info)"
    and "fst (bscl_fs_fsize W st path) = sint (word_of_int size64 :: u64)"
    using assms(1,2) by (simp_all add: bscl_fs_stat_def bscl_fs_mtime_def bscl_fs_fsize_def w_call_def size_joined)
  moreover have "sint (word_of_int size64 :: u64) = size64"
  proof (rule sint_of_int)
    have "0 \<le> size64"
      unfolding assms(2) by simp
    then show "- (2 ^ 63) \<le> size64"
      by simp
  qed (use assms(3) in simp)
  moreover have "uint (nFileSizeLow info) = size64 mod 2 ^ 32"
    using assms(2) unsigned_less [of "nFileSizeLow info", where ?'a = int] by simp
  ultimately show ?thesis
    by (simp add: stat_of_info_def time_exact)
qed

section \<open>A concrete file system\<close>

text \<open>Every call succeeds; the state counts down the entries of a directory.\<close>

definition demo_entry :: "nat \<Rightarrow> find_data" where
  "demo_entry n = \<lparr>cFileName = replicate (n + 1) (CHR ''f''), find_attributes = 0\<rparr>"

definition demo_info :: file_info where
  "demo_info = \<lparr>nFileSizeLow = 7, nFileSizeHigh = 1, ftLastWriteTime = 116444736010000000, dwFileAttributes = 0\<rparr>"

definition demo_win32 :: "nat win32" where
  "demo_win32 = \<lparr>w_malloc = \<lambda>t e. (Some \<lparr>f_h = 0, f_valid = False, f_find = demo_entry 0\<rparr>, e),
     w_malloc_path = \<lambda>n e. (True, e), w_CreateFile = \<lambda>p a c e. (Some 11, e), w_WriteFile = \<lambda>h b e. (Some (word_of_nat (length b)), e),
     w_ReadFile = \<lambda>h n e. (Some [], e), w_SetFilePointer = \<lambda>h i m e. (0, e),
     w_GetFileInformationByHandle = \<lambda>h e. (Some demo_info, e), w_GetFileAttributesEx = \<lambda>p e. (Some demo_info, e),
     w_FlushFileBuffers = \<lambda>h e. e, w_CloseHandle = \<lambda>h e. e, w_CreateDirectory = \<lambda>p e. (1, e),
     w_FindFirstFile = \<lambda>p e. (Some (12, demo_entry e), e),
     w_FindNextFile = \<lambda>h e. (case e of 0 \<Rightarrow> (None, 0) | Suc n \<Rightarrow> (Some (demo_entry n), n)),
     w_FindClose = \<lambda>h e. e, w_RemoveDirectory = \<lambda>p e. (1, e), w_DeleteFile = \<lambda>p e. (1, e),
     w_GetFileAttributes = \<lambda>p e. (0, e), w_MoveFile = \<lambda>a b e. (1, e), w_CreateSymbolicLink = \<lambda>a b d e. (1, e)\<rparr>"

definition demo_fs :: "nat fs" where
  "demo_fs = \<lparr>files = replicate MAX_OPEN_FILE None, w_env = 2\<rparr>"

lemma bscl_fs_one_descriptor_witness:
  "\<exists>st' st''. bscl_fs_open demo_win32 demo_fs ''a'' 1 = Some (0, st') \<and> bscl_fs_open demo_win32 st' ''b'' 1 = Some (0, st'')
    \<and> files st' ! 1 = None"
proof -
  obtain st' where st': "bscl_fs_open demo_win32 demo_fs ''a'' 1 = Some (0, st')"
    by (simp add: bscl_fs_open_def new_fd_def w_call_def file_at_def set_file_def demo_win32_def demo_fs_def MAX_OPEN_FILE_def)
  then obtain st'' where "bscl_fs_open demo_win32 st' ''b'' 1 = Some (0, st'')"
    by (auto simp: bscl_fs_open_def new_fd_def w_call_def file_at_def set_file_def demo_win32_def demo_fs_def MAX_OPEN_FILE_def)
  moreover have "fs_reachable demo_win32 st'"
    by (rule reach_step [OF reach_start step_open [OF st']]) (simp add: demo_fs_def)
  then have "files st' ! 1 = None"
    using bscl_fs_one_descriptor [of demo_win32 st'] by (auto simp: MAX_OPEN_FILE_def)
  ultimately show ?thesis
    using st' by blast
qed

lemma bscl_fs_readdir_lists_all_witness:
  "\<exists>st'. bscl_fs_opendir demo_win32 demo_fs ''d'' = Some (0, st')
    \<and> fs_list demo_win32 st' 0 = Some (map dirent_of [demo_entry 2, demo_entry 1, demo_entry 0])"
proof -
  obtain st' where st': "bscl_fs_opendir demo_win32 demo_fs ''d'' = Some (0, st')"
    by (simp add: bscl_fs_opendir_def new_fd_def w_call_def file_at_def set_file_def demo_win32_def demo_fs_def MAX_OPEN_FILE_def)
  have "enumerates demo_win32 12 2 [demo_entry 1, demo_entry 0]"
    by (rule enum_next [where ?e1.0 = 1], simp add: demo_win32_def eval_nat_numeral,
      rule enum_next [where ?e1.0 = 0], simp add: demo_win32_def, rule enum_end [where e' = 0], simp add: demo_win32_def)
  then show ?thesis
    using bscl_fs_readdir_lists_all [OF st', of 2 2 12 "demo_entry 2" 2] st'
    by (simp add: demo_fs_def demo_win32_def)
qed

lemma bscl_fs_stat_bounds_witness:
  "\<exists>b. fst (bscl_fs_stat demo_win32 demo_fs ''a'') = (0, Some b) \<and> st_time b = 1 \<and> uint (st_size b) = 7
    \<and> fst (bscl_fs_fsize demo_win32 demo_fs ''a'') = 4294967303"
  using bscl_fs_stat_bounds [of demo_win32 "''a''" demo_fs demo_info 2 4294967303]
  by (auto simp: demo_fs_def demo_win32_def demo_info_def)

end
