(* ===== verification/Fs_Linux.thy ===== *)
theory Fs_Linux
  imports Fs
begin

text \<open>
  The file system wrappers for Linux, \<open>src/linux/fs.c\<close>: each is one or two calls of POSIX, which are
  a parameter \<open>W\<close>, a record of functions on a state of their own. The names have the suffix \<open>_linux\<close>, because the
  file for Windows defines the same functions.
\<close>

section \<open>The calls of POSIX\<close>

record stat =
  st_isdir :: bool
  st_mtime :: int
  st_size64 :: int

record 'e posix =
  p_lstat :: "string \<Rightarrow> 'e \<Rightarrow> stat option"
  p_stat :: "string \<Rightarrow> 'e \<Rightarrow> stat option"
  p_mkdir :: "string \<Rightarrow> nat \<Rightarrow> 'e \<Rightarrow> int \<times> 'e"
  p_rmdir :: "string \<Rightarrow> 'e \<Rightarrow> int \<times> 'e"
  p_unlink :: "string \<Rightarrow> 'e \<Rightarrow> int \<times> 'e"
  p_remove :: "string \<Rightarrow> 'e \<Rightarrow> int \<times> 'e"
  p_rename :: "string \<Rightarrow> string \<Rightarrow> 'e \<Rightarrow> int \<times> 'e"
  p_symlink :: "string \<Rightarrow> string \<Rightarrow> 'e \<Rightarrow> int \<times> 'e"
  p_open :: "string \<Rightarrow> u32 \<Rightarrow> 'e \<Rightarrow> int \<times> 'e"
  p_write :: "int \<Rightarrow> u8 list \<Rightarrow> 'e \<Rightarrow> int \<times> 'e"
  p_read :: "int \<Rightarrow> nat \<Rightarrow> 'e \<Rightarrow> (int \<times> u8 list) \<times> 'e"
  p_lseek :: "int \<Rightarrow> int \<Rightarrow> u8 \<Rightarrow> 'e \<Rightarrow> int \<times> 'e"
  p_fsync :: "int \<Rightarrow> 'e \<Rightarrow> int \<times> 'e"
  p_close :: "int \<Rightarrow> 'e \<Rightarrow> int \<times> 'e"

text \<open>A 64-bit result that is returned as an \<open>int\<close>.\<close>

definition to_int :: "int \<Rightarrow> int" where
  "to_int x = sint (word_of_int x :: u32)"

section \<open>Paths\<close>

definition bscl_fs_exists_linux :: "'e posix \<Rightarrow> string \<Rightarrow> 'e \<Rightarrow> bool" where
  "bscl_fs_exists_linux W path e = (p_lstat W path e \<noteq> None)"

definition bscl_fs_isdir_linux :: "'e posix \<Rightarrow> string \<Rightarrow> 'e \<Rightarrow> bool" where
  "bscl_fs_isdir_linux W path e = (case p_lstat W path e of None \<Rightarrow> False | Some attr \<Rightarrow> st_isdir attr)"

definition bscl_fs_mtime_linux :: "'e posix \<Rightarrow> string \<Rightarrow> 'e \<Rightarrow> int" where
  "bscl_fs_mtime_linux W path e = (case p_lstat W path e of None \<Rightarrow> -1 | Some attr \<Rightarrow> st_mtime attr)"

definition bscl_fs_fsize_linux :: "'e posix \<Rightarrow> string \<Rightarrow> 'e \<Rightarrow> int" where
  "bscl_fs_fsize_linux W path e = (case p_lstat W path e of None \<Rightarrow> -1 | Some attr \<Rightarrow> st_size64 attr)"

text \<open>The mode is octal 755.\<close>

definition bscl_fs_mkdir_linux :: "'e posix \<Rightarrow> string \<Rightarrow> 'e \<Rightarrow> bool \<times> 'e" where
  "bscl_fs_mkdir_linux W path e = (let (r, e) = p_mkdir W path 493 e in (r = 0, e))"

definition bscl_fs_remove_linux :: "'e posix \<Rightarrow> string \<Rightarrow> 'e \<Rightarrow> bool \<times> 'e" where
  "bscl_fs_remove_linux W path e =
     (if \<not> bscl_fs_exists_linux W path e then (True, e)
      else if bscl_fs_isdir_linux W path e then let (r, e) = p_rmdir W path e in (r = 0, e)
      else let (r, e) = p_unlink W path e in (r = 0, e))"

definition bscl_fs_rename_linux :: "'e posix \<Rightarrow> string \<Rightarrow> string \<Rightarrow> 'e \<Rightarrow> bool \<times> 'e" where
  "bscl_fs_rename_linux W src dst e = (let (r, e) = p_rename W src dst e in (r = 0, e))"

definition bscl_fs_symlink_linux :: "'e posix \<Rightarrow> string \<Rightarrow> string \<Rightarrow> 'e \<Rightarrow> bool \<times> 'e" where
  "bscl_fs_symlink_linux W dst lnk e =
     (let (_, e) = p_remove W lnk e; (r, e) = p_symlink W dst lnk e in (r = 0, e))"

section \<open>Files\<close>

text \<open>The mode is handed to \<open>open\<close> as its flags.\<close>

definition bscl_fs_open_linux :: "'e posix \<Rightarrow> string \<Rightarrow> u8 \<Rightarrow> 'e \<Rightarrow> int \<times> 'e" where
  "bscl_fs_open_linux W path mode e = p_open W path (ucast mode) e"

definition bscl_fs_write_linux :: "'e posix \<Rightarrow> int \<Rightarrow> u8 list \<Rightarrow> 'e \<Rightarrow> int \<times> 'e" where
  "bscl_fs_write_linux W fd buf e = (let (r, e) = p_write W fd buf e in (to_int r, e))"

definition bscl_fs_read_linux :: "'e posix \<Rightarrow> int \<Rightarrow> nat \<Rightarrow> 'e \<Rightarrow> (int \<times> u8 list) \<times> 'e" where
  "bscl_fs_read_linux W fd len e = (let ((r, buf), e) = p_read W fd len e in ((to_int r, buf), e))"

definition bscl_fs_seek_linux :: "'e posix \<Rightarrow> int \<Rightarrow> int \<Rightarrow> u8 \<Rightarrow> 'e \<Rightarrow> int \<times> 'e" where
  "bscl_fs_seek_linux W fd offset origin e = (let (r, e) = p_lseek W fd offset origin e in (to_int r, e))"

definition bscl_fs_tell_linux :: "'e posix \<Rightarrow> int \<Rightarrow> 'e \<Rightarrow> int \<times> 'e" where
  "bscl_fs_tell_linux W fd e = (let (r, e) = p_lseek W fd 0 BSCL_FS_SEEK_CUR e in (to_int r, e))"

text \<open>The struct that is to be filled stays as it was.\<close>

definition bscl_fs_fstat_linux :: "int \<Rightarrow> bscl_fs_stat_buf \<Rightarrow> int \<times> bscl_fs_stat_buf" where
  "bscl_fs_fstat_linux fd buf = (-1, buf)"

definition bscl_fs_stat_linux :: "'e posix \<Rightarrow> string \<Rightarrow> bscl_fs_stat_buf \<Rightarrow> 'e \<Rightarrow> int \<times> bscl_fs_stat_buf" where
  "bscl_fs_stat_linux W path buf e = (if p_stat W path e = None then -1 else 0, buf)"

definition bscl_fs_flush_linux :: "'e posix \<Rightarrow> int \<Rightarrow> 'e \<Rightarrow> int \<times> 'e" where
  "bscl_fs_flush_linux W fd e = p_fsync W fd e"

definition bscl_fs_close_linux :: "'e posix \<Rightarrow> int \<Rightarrow> 'e \<Rightarrow> int \<times> 'e" where
  "bscl_fs_close_linux W fd e = p_close W fd e"

definition bscl_fs_eof_linux :: "int \<Rightarrow> int" where
  "bscl_fs_eof_linux fd = -1"

section \<open>Directories\<close>

definition bscl_fs_opendir_linux :: "string \<Rightarrow> int" where
  "bscl_fs_opendir_linux path = -1"

definition bscl_fs_readdir_linux :: "int \<Rightarrow> bscl_fs_dirent \<Rightarrow> int \<times> bscl_fs_dirent" where
  "bscl_fs_readdir_linux fd dirent = (-1, dirent)"

definition bscl_fs_closedir_linux :: "int \<Rightarrow> int" where
  "bscl_fs_closedir_linux fd = -1"

section \<open>What POSIX promises\<close>

definition O_ACCMODE :: u32 where "O_ACCMODE = 3"
definition O_WRONLY :: u32 where "O_WRONLY = 1"
definition O_CREAT :: u32 where "O_CREAT = 64"

text \<open>A file is not created without \<open>O_CREAT\<close>, and a descriptor opened for writing only is not read.\<close>

definition posix_open_laws :: "'e posix \<Rightarrow> bool" where
  "posix_open_laws W \<longleftrightarrow>
     (\<forall>path flags e. p_stat W path e = None \<longrightarrow> flags AND O_CREAT = 0 \<longrightarrow> fst (p_open W path flags e) = -1)
   \<and> (\<forall>path flags e fd e' len. p_open W path flags e = (fd, e') \<longrightarrow> 0 \<le> fd \<longrightarrow> flags AND O_ACCMODE = O_WRONLY
        \<longrightarrow> fst (fst (p_read W fd len e')) = -1)"

text \<open>What is removed with success is gone.\<close>

definition posix_remove_laws :: "'e posix \<Rightarrow> bool" where
  "posix_remove_laws W \<longleftrightarrow>
     (\<forall>path e e'. p_rmdir W path e = (0, e') \<longrightarrow> p_lstat W path e' = None)
   \<and> (\<forall>path e e'. p_unlink W path e = (0, e') \<longrightarrow> p_lstat W path e' = None)
   \<and> (\<forall>path e r e'. p_rmdir W path e = (r, e') \<longrightarrow> r \<noteq> 0 \<longrightarrow> e' = e)
   \<and> (\<forall>path e r e'. p_unlink W path e = (r, e') \<longrightarrow> r \<noteq> 0 \<longrightarrow> e' = e)"

lemma to_int_small: "- (2 ^ 31) \<le> x \<Longrightarrow> x < 2 ^ 31 \<Longrightarrow> to_int x = x"
  by (simp add: to_int_def signed_of_int signed_take_bit_int_eq_self)

lemma mode_flags:
  fixes mode :: u8
  assumes "mode < 16"
  shows "ucast mode AND O_CREAT = 0" and "mode AND 3 = BSCL_FS_MODE_READ \<Longrightarrow> ucast mode AND O_ACCMODE = O_WRONLY"
proof -
  obtain n where n: "mode = word_of_nat n" "n < 16"
    using assms by (intro that [of "unat mode"]) (simp_all add: word_less_nat_alt)
  then have "n \<in> set [0..<16]"
    by simp
  then show "ucast mode AND O_CREAT = 0"
    and "mode AND 3 = BSCL_FS_MODE_READ \<Longrightarrow> ucast mode AND O_ACCMODE = O_WRONLY"
    unfolding n(1) by (auto simp: upt_rec O_CREAT_def O_ACCMODE_def O_WRONLY_def BSCL_FS_MODE_READ_def)
qed

text \<open>
  C36: The modes of the library are no flags of Linux: whatever mode is asked for, a file that does
  not exist is not created, and a file that is opened for reading cannot be read.
\<close>

theorem bscl_fs_open_modes_linux:
  assumes "posix_open_laws W" and "mode < 16"
  shows "(p_stat W path e = None \<longrightarrow> fst (bscl_fs_open_linux W path mode e) = -1)
    \<and> (mode AND 3 = BSCL_FS_MODE_READ \<longrightarrow> bscl_fs_open_linux W path mode e = (fd, e') \<longrightarrow> 0 \<le> fd
        \<longrightarrow> fst (fst (bscl_fs_read_linux W fd len e')) = -1)"
proof -
  have "fst (fst (bscl_fs_read_linux W fd len e')) = to_int (fst (fst (p_read W fd len e')))"
    by (simp add: bscl_fs_read_linux_def case_prod_unfold Let_def)
  then show ?thesis
    using assms(1) mode_flags [OF assms(2)] to_int_small [of "-1"]
    unfolding posix_open_laws_def bscl_fs_open_linux_def by auto
qed

text \<open>
  When removing a path succeeds, nothing is left there, whether it was a file, a directory or did
  not exist; when it fails, nothing has changed; and a second removal succeeds.
\<close>

lemma bscl_fs_remove_linux_gone:
  assumes "posix_remove_laws W" and "bscl_fs_remove_linux W path e = (r, e')"
  shows "if r then \<not> bscl_fs_exists_linux W path e' \<and> bscl_fs_remove_linux W path e' = (True, e') else e' = e"
proof -
  have "if r then p_lstat W path e' = None else e' = e"
    using assms unfolding posix_remove_laws_def
    by (auto simp: bscl_fs_remove_linux_def bscl_fs_exists_linux_def split: if_splits prod.splits)
  then show ?thesis
    by (auto simp: bscl_fs_remove_linux_def bscl_fs_exists_linux_def split: if_splits)
qed

section \<open>A concrete file system\<close>

text \<open>The state is the files by their paths and the flags of the one open file.\<close>

definition demo_posix :: "((string \<Rightarrow> stat option) \<times> u32) posix" where
  "demo_posix = \<lparr>p_lstat = \<lambda>path e. fst e path, p_stat = \<lambda>path e. fst e path, p_mkdir = \<lambda>path m e. (0, e),
     p_rmdir = \<lambda>path e. (0, ((fst e)(path := None), snd e)), p_unlink = \<lambda>path e. (0, ((fst e)(path := None), snd e)),
     p_remove = \<lambda>path e. (0, e), p_rename = \<lambda>a b e. (0, e), p_symlink = \<lambda>a b e. (0, e),
     p_open = \<lambda>path flags e. if fst e path = None \<and> flags AND O_CREAT = 0 then (-1, e) else (3, (fst e, flags)),
     p_write = \<lambda>fd buf e. (0, e), p_read = \<lambda>fd len e. (if snd e AND O_ACCMODE = O_WRONLY then (-1, []) else (0, []), e),
     p_lseek = \<lambda>fd n w e. (0, e), p_fsync = \<lambda>fd e. (0, e), p_close = \<lambda>fd e. (0, e)\<rparr>"

definition demo_files :: "string \<Rightarrow> stat option" where
  "demo_files = [''a'' \<mapsto> \<lparr>st_isdir = False, st_mtime = 0, st_size64 = 9\<rparr>]"

lemma demo_posix_laws: "posix_open_laws demo_posix" "posix_remove_laws demo_posix"
  by (auto simp: posix_open_laws_def posix_remove_laws_def demo_posix_def split: if_splits)

lemma bscl_fs_open_modes_linux_witness:
  "fst (bscl_fs_open_linux demo_posix ''b'' (BSCL_FS_MODE_CREATE OR BSCL_FS_MODE_WRITE) (demo_files, 0)) = -1
    \<and> fst (fst (bscl_fs_read_linux demo_posix 3 5 (snd (bscl_fs_open_linux demo_posix ''a'' BSCL_FS_MODE_READ (demo_files, 0))))) = -1"
proof
  show "fst (bscl_fs_open_linux demo_posix ''b'' (BSCL_FS_MODE_CREATE OR BSCL_FS_MODE_WRITE) (demo_files, 0)) = -1"
    using bscl_fs_open_modes_linux [OF demo_posix_laws(1), of "BSCL_FS_MODE_CREATE OR BSCL_FS_MODE_WRITE" "''b''" "(demo_files, 0)"]
    by (simp add: BSCL_FS_MODE_CREATE_def BSCL_FS_MODE_WRITE_def demo_posix_def demo_files_def)
  have "bscl_fs_open_linux demo_posix ''a'' BSCL_FS_MODE_READ (demo_files, 0) = (3, (demo_files, 1))"
    by (simp add: bscl_fs_open_linux_def BSCL_FS_MODE_READ_def demo_posix_def demo_files_def)
  then show "fst (fst (bscl_fs_read_linux demo_posix 3 5
      (snd (bscl_fs_open_linux demo_posix ''a'' BSCL_FS_MODE_READ (demo_files, 0))))) = -1"
    using bscl_fs_open_modes_linux [OF demo_posix_laws(1), of BSCL_FS_MODE_READ "''a''" "(demo_files, 0)" 3 "(demo_files, 1)" 5]
    by (simp add: BSCL_FS_MODE_READ_def)
qed

lemma bscl_fs_remove_linux_gone_witness:
  "\<not> bscl_fs_exists_linux demo_posix ''a'' (snd (bscl_fs_remove_linux demo_posix ''a'' (demo_files, 0)))"
proof -
  have "bscl_fs_remove_linux demo_posix ''a'' (demo_files, 0) = (True, (demo_files(''a'' := None), 0))"
    by (simp add: bscl_fs_remove_linux_def bscl_fs_exists_linux_def bscl_fs_isdir_linux_def demo_posix_def demo_files_def)
  then show ?thesis
    using bscl_fs_remove_linux_gone [OF demo_posix_laws(2), of "''a''" "(demo_files, 0)"] by simp
qed

end
