(* ===== verification/Serial.thy ===== *)
theory Serial
  imports Cstring
begin

text \<open>
  The types, constants and functions of the serial port interface \<open>include/bscl_serialport.h\<close>, and
  what its users rely on, whatever the system: the locale \<open>serial_line\<close>.
\<close>

definition BSCL_SERIALPORT_EARG :: int where "BSCL_SERIALPORT_EARG = -1"
definition BSCL_SERIALPORT_EFAIL :: int where "BSCL_SERIALPORT_EFAIL = -2"
definition BSCL_SERIALPORT_EMEM :: int where "BSCL_SERIALPORT_EMEM = -3"

definition BSCL_SERIALPORT_PARITY_NONE :: int where "BSCL_SERIALPORT_PARITY_NONE = 0"
definition BSCL_SERIALPORT_PARITY_EVEN :: int where "BSCL_SERIALPORT_PARITY_EVEN = 1"
definition BSCL_SERIALPORT_PARITY_ODD :: int where "BSCL_SERIALPORT_PARITY_ODD = 2"

definition BSCL_SERIALPORT_STOPBITS_1 :: int where "BSCL_SERIALPORT_STOPBITS_1 = 0"
definition BSCL_SERIALPORT_STOPBITS_1_5 :: int where "BSCL_SERIALPORT_STOPBITS_1_5 = 1"
definition BSCL_SERIALPORT_STOPBITS_2 :: int where "BSCL_SERIALPORT_STOPBITS_2 = 2"

record bscl_serialport_config_t =
  baudrate :: int
  parity :: int
  stopbits :: int

section \<open>Characters as bytes\<close>

definition byte_char :: "u8 \<Rightarrow> char" where
  "byte_char b = char_of (unat b)"

definition char_byte :: "char \<Rightarrow> u8" where
  "char_byte c = of_char c"

lemma char_byte_char [simp]: "char_byte (byte_char b) = b"
proof -
  have "char_byte (byte_char b) = of_nat (of_char (byte_char b))"
    by (simp add: char_byte_def of_nat_of_char)
  also have "of_char (byte_char b) = unat b mod 256"
    by (simp add: byte_char_def)
  also have "unat b mod 256 = unat b"
    using unsigned_less [of b] by simp
  finally show ?thesis by simp
qed

section \<open>The interface\<close>

text \<open>The functions that an application calls, on a state \<open>'st\<close>; \<open>None\<close> does not return.\<close>

record 'st serial_ops =
  sp_open :: "string \<Rightarrow> 'st \<Rightarrow> (int \<times> 'st) option"
  sp_config :: "int \<Rightarrow> bscl_serialport_config_t \<Rightarrow> 'st \<Rightarrow> (int \<times> 'st) option"
  sp_read :: "int \<Rightarrow> nat \<Rightarrow> 'st \<Rightarrow> ((int \<times> u8 list) \<times> 'st) option"
  sp_write :: "int \<Rightarrow> u8 list \<Rightarrow> 'st \<Rightarrow> (int \<times> 'st) option"

text \<open>
  \<open>wire st\<close> is what was handed to the system to be sent, one list of bytes for each time. Only a
  write adds to it, exactly its bytes; a write that does not is reported by a negative result.
\<close>

locale serial_line =
  fixes P :: "'st serial_ops" and wire :: "'st \<Rightarrow> u8 list list"
  assumes open_keeps: "sp_open P name st = Some (r, st') \<Longrightarrow> wire st' = wire st"
    and config_keeps: "sp_config P fd conf st = Some (r, st') \<Longrightarrow> wire st' = wire st"
    and read_keeps: "sp_read P fd n st = Some (x, st') \<Longrightarrow> wire st' = wire st"
    and write_sends: "bytes \<noteq> [] \<Longrightarrow> sp_write P fd bytes st = Some (r, st') \<Longrightarrow>
      wire st' = wire st @ [bytes] \<or> r < 0 \<and> wire st' = wire st"

section \<open>Records of calls\<close>

text \<open>A call of a system, next to a record of calls that it does not add to.\<close>

definition lifted :: "('e \<Rightarrow> 'r \<times> 'e) \<Rightarrow> 'e \<times> 'l \<Rightarrow> 'r \<times> 'e \<times> 'l" where
  "lifted f = (\<lambda>(e, log). let (r, e) = f e in (r, e, log))"

lemma snd_lifted: "snd (snd (lifted f e)) = snd e"
  by (simp add: lifted_def case_prod_unfold Let_def)

lemma lifted_eq: "lifted f e = (r, e') \<Longrightarrow> snd e' = snd e"
  using snd_lifted [of f e] by simp

end
