(* ===== verification/Serial_Linux.thy ===== *)
theory Serial_Linux
  imports Serial
begin

text \<open>
  The serial ports for Linux, \<open>src/linux/serialport.c\<close>, over the calls of POSIX, which are a
  parameter \<open>W\<close>, a record of functions on a state of their own. The names have the suffix \<open>_linux\<close>, because the
  file for Windows defines the same functions.
\<close>

section \<open>Terminals\<close>

record termios =
  c_iflag :: u32
  c_oflag :: u32
  c_cflag :: u32
  c_lflag :: u32
  c_vtime :: u8
  c_vmin :: u8
  c_ispeed :: int
  c_ospeed :: int

text \<open>The bits of Linux.\<close>

definition CSIZE :: u32 where "CSIZE = 0x30"
definition CS8 :: u32 where "CS8 = 0x30"
definition CSTOPB :: u32 where "CSTOPB = 0x40"
definition CREAD :: u32 where "CREAD = 0x80"
definition PARENB :: u32 where "PARENB = 0x100"
definition CLOCAL :: u32 where "CLOCAL = 0x800"
definition CRTSCTS :: u32 where "CRTSCTS = 0x80000000"
definition INPCK :: u32 where "INPCK = 0x10"
definition ISTRIP :: u32 where "ISTRIP = 0x20"
definition INLCR :: u32 where "INLCR = 0x40"
definition IGNCR :: u32 where "IGNCR = 0x80"
definition ICRNL :: u32 where "ICRNL = 0x100"
definition IXON :: u32 where "IXON = 0x400"
definition IXANY :: u32 where "IXANY = 0x800"
definition IXOFF :: u32 where "IXOFF = 0x1000"
definition OPOST :: u32 where "OPOST = 1"
definition ONLCR :: u32 where "ONLCR = 4"
definition OCRNL :: u32 where "OCRNL = 8"
definition ISIG :: u32 where "ISIG = 1"
definition ICANON :: u32 where "ICANON = 2"
definition ECHO :: u32 where "ECHO = 8"
definition ECHOE :: u32 where "ECHOE = 0x10"

definition POLLIN :: u16 where "POLLIN = 1"

definition O_RDWR_NOCTTY :: u32 where "O_RDWR_NOCTTY = 0x102"

text \<open>\<open>tty_raw\<close> is \<open>cfmakeraw\<close>; \<open>tty_speed\<close> sets both speeds.\<close>

record 'e tty_os =
  tty_open :: "string \<Rightarrow> u32 \<Rightarrow> 'e \<Rightarrow> int \<times> 'e"
  tty_read :: "int \<Rightarrow> nat \<Rightarrow> 'e \<Rightarrow> (int \<times> u8 list) \<times> 'e"
  tty_write :: "int \<Rightarrow> u8 list \<Rightarrow> 'e \<Rightarrow> int \<times> 'e"
  tty_poll :: "int \<Rightarrow> u16 \<Rightarrow> int \<Rightarrow> 'e \<Rightarrow> (int \<times> u16) \<times> 'e"
  tty_close :: "int \<Rightarrow> 'e \<Rightarrow> 'e"
  tty_getattr :: "int \<Rightarrow> 'e \<Rightarrow> termios"
  tty_setattr :: "int \<Rightarrow> termios \<Rightarrow> 'e \<Rightarrow> int \<times> 'e"
  tty_flush :: "int \<Rightarrow> 'e \<Rightarrow> 'e"
  tty_speed :: "int \<Rightarrow> termios \<Rightarrow> termios"
  tty_raw :: "termios \<Rightarrow> termios"

section \<open>Operations\<close>

definition bscl_serialport_open_linux :: "'e tty_os \<Rightarrow> string \<Rightarrow> 'e \<Rightarrow> int \<times> 'e" where
  "bscl_serialport_open_linux W name e =
     (let (fd, e) = tty_open W name O_RDWR_NOCTTY e in if fd < 0 then (-1, e) else (fd, e))"

definition bscl_serialport_read_linux :: "'e tty_os \<Rightarrow> int \<Rightarrow> nat \<Rightarrow> 'e \<Rightarrow> (int \<times> u8 list) \<times> 'e" where
  "bscl_serialport_read_linux W fd len e = tty_read W fd len e"

text \<open>The timeout is handed to \<open>poll\<close> as an \<open>int\<close>, so that a large one is negative.\<close>

definition bscl_serialport_read_timeout_linux ::
    "'e tty_os \<Rightarrow> int \<Rightarrow> nat \<Rightarrow> u32 \<Rightarrow> 'e \<Rightarrow> (int \<times> u8 list) \<times> 'e" where
  "bscl_serialport_read_timeout_linux W fd len timeout e =
     (let ((ret, revents), e) = tty_poll W fd POLLIN (sint timeout) e in
      if 0 < ret \<and> revents AND POLLIN \<noteq> 0 then
        let ((ret, buf), e) = tty_read W fd len e in
        if ret \<le> 0 then ((-1, buf), e) else ((ret, buf), e)
      else if ret = 0 then ((0, []), e)
      else ((-1, []), e))"

definition bscl_serialport_close_linux :: "'e tty_os \<Rightarrow> int \<Rightarrow> 'e \<Rightarrow> int \<times> 'e" where
  "bscl_serialport_close_linux W fd e = (0, tty_close W fd e)"

definition serial_cflag :: "int \<Rightarrow> u32 \<Rightarrow> u32" where
  "serial_cflag stop c =
     (let c = c AND NOT CSIZE; c = c OR CS8; c = c AND NOT PARENB; c = c AND NOT INPCK;
          c = c OR (CLOCAL OR CREAD); c = c AND NOT CRTSCTS in
      if stop = BSCL_SERIALPORT_STOPBITS_2 then c OR CSTOPB else c AND NOT CSTOPB)"

definition serial_attr :: "'e tty_os \<Rightarrow> bscl_serialport_config_t \<Rightarrow> termios \<Rightarrow> termios" where
  "serial_attr W conf opt =
     (let opt = tty_speed W (baudrate conf) opt;
          opt = opt\<lparr>c_cflag := serial_cflag (stopbits conf) (c_cflag opt)\<rparr>;
          opt = opt\<lparr>c_lflag := c_lflag opt AND NOT (ICANON OR ECHO OR ECHOE OR ISIG)\<rparr>;
          opt = opt\<lparr>c_oflag := c_oflag opt AND NOT OPOST AND NOT (ONLCR OR OCRNL)\<rparr>;
          opt = opt\<lparr>c_iflag := c_iflag opt AND NOT (ICRNL OR INLCR) AND NOT (IXON OR IXOFF OR IXANY)\<rparr>;
          opt = opt\<lparr>c_vtime := 0, c_vmin := 0\<rparr>
      in tty_raw W opt)"

definition bscl_serialport_config_linux ::
    "'e tty_os \<Rightarrow> int \<Rightarrow> bscl_serialport_config_t \<Rightarrow> 'e \<Rightarrow> int \<times> 'e" where
  "bscl_serialport_config_linux W fd conf e =
     (let opt = serial_attr W conf (tty_getattr W fd e);
          (r, e) = tty_setattr W fd opt (tty_flush W fd e) in
      if r \<noteq> 0 then (-1, tty_close W fd e) else (0, e))"

definition bscl_serialport_write_linux :: "'e tty_os \<Rightarrow> int \<Rightarrow> u8 list \<Rightarrow> 'e \<Rightarrow> int \<times> 'e" where
  "bscl_serialport_write_linux W fd buf e = tty_write W fd buf e"

definition bscl_serialport_list_begin_linux :: "'a \<Rightarrow> int \<times> 'a" where
  "bscl_serialport_list_begin_linux sp_list = (0, sp_list)"

section \<open>The settings\<close>

text \<open>What \<open>cfmakeraw\<close> does to the flags of the line.\<close>

definition tty_laws :: "'e tty_os \<Rightarrow> bool" where
  "tty_laws W \<longleftrightarrow>
     (\<forall>t. c_cflag (tty_raw W t) = (c_cflag t AND NOT (CSIZE OR PARENB)) OR CS8)
   \<and> (\<forall>t. c_lflag (tty_raw W t) AND NOT (c_lflag t) = 0) \<and> (\<forall>t. c_oflag (tty_raw W t) AND NOT (c_oflag t) = 0)
   \<and> (\<forall>t. c_iflag (tty_raw W t) AND NOT (c_iflag t) = 0)"

definition line_bits :: u32 where
  "line_bits = CSIZE OR PARENB OR CSTOPB OR CLOCAL OR CREAD OR CRTSCTS"

lemma bit_exp_u32: "k < 32 \<Longrightarrow> w = (2 ^ k :: u32) \<Longrightarrow> bit w n \<longleftrightarrow> n = k"
  by (auto simp: bit_simps)

lemma bit_exp2_u32: "k < 32 \<Longrightarrow> l < 32 \<Longrightarrow> w = (2 ^ k OR 2 ^ l :: u32) \<Longrightarrow> bit w n \<longleftrightarrow> n = k \<or> n = l"
  by (auto simp: bit_simps)

lemma flag_bits:
  "bit CSIZE n \<longleftrightarrow> n = 4 \<or> n = 5" "bit CS8 n \<longleftrightarrow> n = 4 \<or> n = 5" "bit INPCK n \<longleftrightarrow> n = 4"
  "bit CSTOPB n \<longleftrightarrow> n = 6" "bit CREAD n \<longleftrightarrow> n = 7" "bit PARENB n \<longleftrightarrow> n = 8" "bit CLOCAL n \<longleftrightarrow> n = 11"
  "bit CRTSCTS n \<longleftrightarrow> n = 31"
  by (rule bit_exp_u32 bit_exp2_u32; simp add: CSIZE_def CS8_def INPCK_def CSTOPB_def CREAD_def PARENB_def
    CLOCAL_def CRTSCTS_def)+

lemma serial_cflag_raw:
  "((serial_cflag stop c AND NOT (CSIZE OR PARENB)) OR CS8) AND line_bits
    = CS8 OR CLOCAL OR CREAD OR (if stop = BSCL_SERIALPORT_STOPBITS_2 then CSTOPB else 0)"
  by (rule bit_word_eqI) (simp add: serial_cflag_def Let_def bit_simps flag_bits line_bits_def; auto)

lemma cleared_stays:
  fixes a b m :: u32
  assumes "a AND NOT b = 0" and "b AND m = 0"
  shows "a AND m = 0"
proof (rule bit_word_eqI)
  fix n assume n: "n < LENGTH(32)"
  have "bit (a AND NOT b) n = False" and "bit (b AND m) n = False"
    using assms by simp_all
  then show "bit (a AND m) n = bit 0 n"
    using n by (auto simp: bit_simps)
qed

text \<open>
  C37: Whatever the settings were and whatever parity is asked for, the line is set to eight data bits
  without parity and flow control, with two stop bits exactly when that is asked for, and with no
  translation of what is sent and received; when that fails, the port is closed.
\<close>

theorem bscl_serialport_config_linux_raw:
  assumes "tty_laws W" and "bscl_serialport_config_linux W fd conf e = (r, e')"
    and "opt = serial_attr W conf (tty_getattr W fd e)"
  shows "c_cflag opt AND line_bits
      = CS8 OR CLOCAL OR CREAD OR (if stopbits conf = BSCL_SERIALPORT_STOPBITS_2 then CSTOPB else 0)
    \<and> c_lflag opt AND (ICANON OR ECHO OR ECHOE OR ISIG) = 0 \<and> c_oflag opt AND (OPOST OR ONLCR OR OCRNL) = 0
    \<and> c_iflag opt AND (ICRNL OR INLCR OR IXON OR IXOFF OR IXANY) = 0
    \<and> (let (q, e1) = tty_setattr W fd opt (tty_flush W fd e) in
        if q = 0 then r = 0 \<and> e' = e1 else r = -1 \<and> e' = tty_close W fd e1)"
proof (intro conjI)
  let ?t = "tty_speed W (baudrate conf) (tty_getattr W fd e)"
  obtain t where t: "opt = tty_raw W t" "c_cflag t = serial_cflag (stopbits conf) (c_cflag ?t)"
      "c_lflag t = c_lflag ?t AND NOT (ICANON OR ECHO OR ECHOE OR ISIG)"
      "c_oflag t = c_oflag ?t AND NOT OPOST AND NOT (ONLCR OR OCRNL)"
      "c_iflag t = c_iflag ?t AND NOT (ICRNL OR INLCR) AND NOT (IXON OR IXOFF OR IXANY)"
    using assms(3) by (auto simp: serial_attr_def Let_def intro!: that)
  have raw: "c_cflag (tty_raw W t) = (c_cflag t AND NOT (CSIZE OR PARENB)) OR CS8"
      "c_lflag (tty_raw W t) AND NOT (c_lflag t) = 0" "c_oflag (tty_raw W t) AND NOT (c_oflag t) = 0"
      "c_iflag (tty_raw W t) AND NOT (c_iflag t) = 0"
    using assms(1) unfolding tty_laws_def by blast+
  show "c_cflag opt AND line_bits
      = CS8 OR CLOCAL OR CREAD OR (if stopbits conf = BSCL_SERIALPORT_STOPBITS_2 then CSTOPB else 0)"
    unfolding t(1) raw(1) t(2) by (rule serial_cflag_raw)
  have "c_lflag t AND (ICANON OR ECHO OR ECHOE OR ISIG) = 0"
    unfolding t(3) by (rule bit_word_eqI) (auto simp only: bit_simps bit_0_eq bot_apply bot_bool_def)
  then show "c_lflag opt AND (ICANON OR ECHO OR ECHOE OR ISIG) = 0"
    unfolding t(1) by (rule cleared_stays [OF raw(2)])
  have "c_oflag t AND (OPOST OR ONLCR OR OCRNL) = 0"
    unfolding t(4) by (rule bit_word_eqI) (auto simp only: bit_simps bit_0_eq bot_apply bot_bool_def)
  then show "c_oflag opt AND (OPOST OR ONLCR OR OCRNL) = 0"
    unfolding t(1) by (rule cleared_stays [OF raw(3)])
  have "c_iflag t AND (ICRNL OR INLCR OR IXON OR IXOFF OR IXANY) = 0"
    unfolding t(5) by (rule bit_word_eqI) (auto simp only: bit_simps bit_0_eq bot_apply bot_bool_def)
  then show "c_iflag opt AND (ICRNL OR INLCR OR IXON OR IXOFF OR IXANY) = 0"
    unfolding t(1) by (rule cleared_stays [OF raw(4)])
  show "let (q, e1) = tty_setattr W fd opt (tty_flush W fd e) in
      if q = 0 then r = 0 \<and> e' = e1 else r = -1 \<and> e' = tty_close W fd e1"
    using assms(2,3) by (auto simp: bscl_serialport_config_linux_def Let_def split: prod.splits if_splits)
qed

section \<open>Reading with a timeout\<close>

text \<open>
  A read with a timeout gives at least one byte, or 0 when the time is over, or -1: the end of the
  line is an error like any other.
\<close>

lemma bscl_serialport_read_timeout_linux_result:
  assumes "bscl_serialport_read_timeout_linux W fd len timeout e = ((r, buf), e')"
  shows "0 < r \<or> r = 0 \<and> fst (fst (tty_poll W fd POLLIN (sint timeout) e)) = 0 \<or> r = -1"
  using assms by (auto simp: bscl_serialport_read_timeout_linux_def Let_def split: prod.splits if_splits)

section \<open>The interface\<close>

definition serial_linux :: "'e tty_os \<Rightarrow> 'e serial_ops" where
  "serial_linux W =
     \<lparr>sp_open = \<lambda>name e. Some (bscl_serialport_open_linux W name e),
      sp_config = \<lambda>fd conf e. Some (bscl_serialport_config_linux W fd conf e),
      sp_read = \<lambda>fd n e. Some (bscl_serialport_read_linux W fd n e),
      sp_write = \<lambda>fd buf e. Some (bscl_serialport_write_linux W fd buf e)\<rparr>"

text \<open>The same system with a record of what was given to \<open>write\<close>.\<close>

definition logged_tty :: "'e tty_os \<Rightarrow> ('e \<times> u8 list list) tty_os" where
  "logged_tty W =
     \<lparr>tty_open = \<lambda>name flags. lifted (tty_open W name flags), tty_read = \<lambda>fd n. lifted (tty_read W fd n),
      tty_write = \<lambda>fd buf (e, log). lifted (tty_write W fd buf) (e, log @ [buf]),
      tty_poll = \<lambda>fd ev t. lifted (tty_poll W fd ev t), tty_close = \<lambda>fd. apfst (tty_close W fd),
      tty_getattr = \<lambda>fd. tty_getattr W fd \<circ> fst, tty_setattr = \<lambda>fd t. lifted (tty_setattr W fd t),
      tty_flush = \<lambda>fd. apfst (tty_flush W fd), tty_speed = tty_speed W, tty_raw = tty_raw W\<rparr>"

interpretation linux_port: serial_line "serial_linux (logged_tty W)" snd for W
proof
  fix bytes fd st r st'
  show "sp_write (serial_linux (logged_tty W)) fd bytes st = Some (r, st')
    \<Longrightarrow> snd st' = snd st @ [bytes] \<or> r < 0 \<and> snd st' = snd st"
    by (cases st) (auto simp: serial_linux_def logged_tty_def bscl_serialport_write_linux_def dest: lifted_eq)
qed (auto simp: serial_linux_def logged_tty_def bscl_serialport_open_linux_def bscl_serialport_read_linux_def
  bscl_serialport_config_linux_def Let_def split: prod.splits if_splits dest!: lifted_eq)

section \<open>A concrete terminal\<close>

definition demo_tty :: "nat tty_os" where
  "demo_tty = \<lparr>tty_open = \<lambda>name flags e. (3, e), tty_read = \<lambda>fd n e. ((0, []), e), tty_write = \<lambda>fd buf e. (0, e),
     tty_poll = \<lambda>fd ev t e. ((0, 0), e), tty_close = \<lambda>fd e. e - 1,
     tty_getattr = \<lambda>fd e. \<lparr>c_iflag = IXON, c_oflag = OPOST, c_cflag = PARENB, c_lflag = ECHO, c_vtime = 0, c_vmin = 0,
       c_ispeed = 0, c_ospeed = 0\<rparr>,
     tty_setattr = \<lambda>fd t e. (-1, e), tty_flush = \<lambda>fd e. e, tty_speed = \<lambda>b t. t\<lparr>c_ispeed := b, c_ospeed := b\<rparr>,
     tty_raw = \<lambda>t. t\<lparr>c_cflag := (c_cflag t AND NOT (CSIZE OR PARENB)) OR CS8\<rparr>\<rparr>"

lemma demo_tty_laws: "tty_laws demo_tty"
  by (simp add: tty_laws_def demo_tty_def)

lemma bscl_serialport_config_linux_raw_witness:
  "bscl_serialport_config_linux demo_tty 3 \<lparr>baudrate = 9600, parity = 1, stopbits = 2\<rparr> 5 = (-1, 4)
    \<and> c_cflag (serial_attr demo_tty \<lparr>baudrate = 9600, parity = 1, stopbits = 2\<rparr> (tty_getattr demo_tty 3 5)) AND line_bits
      = CS8 OR CLOCAL OR CREAD OR CSTOPB"
proof -
  have "bscl_serialport_config_linux demo_tty 3 \<lparr>baudrate = 9600, parity = 1, stopbits = 2\<rparr> 5 = (-1, 4)"
    by (simp add: bscl_serialport_config_linux_def demo_tty_def)
  from bscl_serialport_config_linux_raw [OF demo_tty_laws this refl] this show ?thesis
    by (simp add: BSCL_SERIALPORT_STOPBITS_2_def)
qed

end
