(* ===== verification/Serial_Win32.thy ===== *)
theory Serial_Win32
  imports Serial
begin

text \<open>
  The serial ports for Windows, \<open>src/win32/serialport.c\<close>: a table of open ports over the calls of
  the operating system.

  The calls of Windows are a parameter \<open>W\<close>, a record of functions on a state of their own. A
  violated assertion, an index outside the table and a null pointer are \<open>None\<close>.
\<close>

section \<open>Data\<close>

definition DEV_PATH_MAX :: nat where "DEV_PATH_MAX = 128"
definition MAX_OPEN_NUM :: nat where "MAX_OPEN_NUM = 8"

text \<open>The part of the \<open>DCB\<close> of Windows that is set.\<close>

record dcb =
  BaudRate :: u32
  fParity :: bool
  Parity :: u8
  StopBits :: u8
  fBinary :: bool
  fOutxCtsFlow :: bool
  fOutxDsrFlow :: bool
  fDtrControl :: nat
  fDsrSensitivity :: bool
  fOutX :: bool
  fInX :: bool
  fRtsControl :: nat

text \<open>What an overlapped read or write does: it is done at once, goes on, or fails.\<close>

datatype 'a overlapped = Io_Done 'a | Io_Pending | Io_Error

record 'e serial_os =
  s_CreateFile :: "string \<Rightarrow> 'e \<Rightarrow> int option \<times> 'e"
  s_SetCommMask :: "int \<Rightarrow> 'e \<Rightarrow> bool \<times> 'e"
  s_malloc :: "'e \<Rightarrow> bool \<times> 'e"
  s_CreateEvent :: "'e \<Rightarrow> int option \<times> 'e"
  s_CloseHandle :: "int \<Rightarrow> 'e \<Rightarrow> 'e"
  s_SetCommTimeouts :: "int \<Rightarrow> u32 \<Rightarrow> 'e \<Rightarrow> bool \<times> 'e"
  s_ReadFile :: "int \<Rightarrow> nat \<Rightarrow> 'e \<Rightarrow> string overlapped \<times> 'e"
  s_ReadResult :: "int \<Rightarrow> 'e \<Rightarrow> string option \<times> 'e"
  s_WriteFile :: "int \<Rightarrow> string \<Rightarrow> 'e \<Rightarrow> u32 overlapped \<times> 'e"
  s_WriteResult :: "int \<Rightarrow> 'e \<Rightarrow> u32 option \<times> 'e"
  s_GetCommState :: "int \<Rightarrow> 'e \<Rightarrow> dcb option \<times> 'e"
  s_SetCommState :: "int \<Rightarrow> dcb \<Rightarrow> 'e \<Rightarrow> bool \<times> 'e"

text \<open>The table: the handle of each open port.\<close>

record 'e serial =
  port :: "int option list"
  s_env :: 'e

definition s_call :: "('e \<Rightarrow> 'r \<times> 'e) \<Rightarrow> 'e serial \<Rightarrow> 'r \<times> 'e serial" where
  "s_call f st = (let (r, e) = f (s_env st) in (r, st\<lparr>s_env := e\<rparr>))"

definition close_handle :: "'e serial_os \<Rightarrow> 'e serial \<Rightarrow> int \<Rightarrow> 'e serial" where
  "close_handle W st h = st\<lparr>s_env := s_CloseHandle W h (s_env st)\<rparr>"

definition port_at :: "'e serial \<Rightarrow> int \<Rightarrow> int option option" where
  "port_at st fd = (if 0 \<le> fd \<and> nat fd < length (port st) then Some (port st ! nat fd) else None)"

section \<open>Opening and closing\<close>

fun free_fd_loop :: "int \<Rightarrow> int option list \<Rightarrow> int" where
  "free_fd_loop i [] = -1"
| "free_fd_loop i (p # ps) = (if p = None then i else free_fd_loop (i + 1) ps)"

definition get_free_fd :: "'e serial \<Rightarrow> int" where
  "get_free_fd st = free_fd_loop 0 (port st)"

definition bscl_serialport_open :: "'e serial_os \<Rightarrow> 'e serial \<Rightarrow> string \<Rightarrow> (int \<times> 'e serial) option" where
  "bscl_serialport_open W st name =
     (let fd = get_free_fd st in
      if fd < 0 then Some (fd, st)
      else let path = [CHR 0x5C, CHR 0x5C, CHR ''.'', CHR 0x5C] @ name in
      if length path \<ge> DEV_PATH_MAX then None
      else let (h, st) = s_call (s_CreateFile W path) st in
      case h of
        None \<Rightarrow> Some (BSCL_SERIALPORT_EFAIL, st)
      | Some h \<Rightarrow>
          let (ok, st) = s_call (s_SetCommMask W h) st in
          if \<not> ok then Some (BSCL_SERIALPORT_EFAIL, st)
          else let (m, st) = s_call (s_malloc W) st in
          if \<not> m then None
          else Some (fd, st\<lparr>port := (port st)[nat fd := Some h]\<rparr>))"

definition bscl_serialport_close :: "'e serial_os \<Rightarrow> 'e serial \<Rightarrow> int \<Rightarrow> (int \<times> 'e serial) option" where
  "bscl_serialport_close W st fd = do {
     p \<leftarrow> port_at st fd;
     (case p of
        None \<Rightarrow> Some (BSCL_SERIALPORT_EARG, st)
      | Some h \<Rightarrow> Some (0, close_handle W st h))
   }"

section \<open>Reading and writing\<close>

text \<open>The bytes are what the buffer holds after the call. An immediate end returns the length asked for.\<close>

definition bscl_serialport_read_timeout ::
    "'e serial_os \<Rightarrow> 'e serial \<Rightarrow> int \<Rightarrow> int \<Rightarrow> u32 \<Rightarrow> ((int \<times> string) \<times> 'e serial) option" where
  "bscl_serialport_read_timeout W st fd len timeout =
     (if len = 0 then None
      else do {
        p \<leftarrow> port_at st fd;
        (case p of
           None \<Rightarrow> Some ((BSCL_SERIALPORT_EARG, []), st)
         | Some h \<Rightarrow>
             let (ev, st) = s_call (s_CreateEvent W) st in
             case ev of
               None \<Rightarrow> Some ((BSCL_SERIALPORT_EFAIL, []), st)
             | Some ev \<Rightarrow>
                 let (_, st) = s_call (s_SetCommTimeouts W h timeout) st;
                     (r, st) = s_call (s_ReadFile W h (nat len)) st in
                 case r of
                   Io_Error \<Rightarrow> Some ((BSCL_SERIALPORT_EFAIL, []), close_handle W st ev)
                 | Io_Done bytes \<Rightarrow> Some ((len, bytes), close_handle W st ev)
                 | Io_Pending \<Rightarrow>
                     let (r, st) = s_call (s_ReadResult W h) st in
                     case r of
                       None \<Rightarrow> Some ((BSCL_SERIALPORT_EFAIL, []), close_handle W st ev)
                     | Some bytes \<Rightarrow> Some ((int (length bytes), bytes), close_handle W st ev))
      })"

definition INFINITE :: u32 where "INFINITE = 0xFFFFFFFF"

definition bscl_serialport_read :: "'e serial_os \<Rightarrow> 'e serial \<Rightarrow> int \<Rightarrow> int \<Rightarrow> ((int \<times> string) \<times> 'e serial) option" where
  "bscl_serialport_read W st fd len = bscl_serialport_read_timeout W st fd len INFINITE"

definition bscl_serialport_write :: "'e serial_os \<Rightarrow> 'e serial \<Rightarrow> int \<Rightarrow> string \<Rightarrow> (int \<times> 'e serial) option" where
  "bscl_serialport_write W st fd buf =
     (if buf = [] then None
      else do {
        p \<leftarrow> port_at st fd;
        (case p of
           None \<Rightarrow> Some (BSCL_SERIALPORT_EARG, st)
         | Some h \<Rightarrow>
             let (ev, st) = s_call (s_CreateEvent W) st in
             case ev of
               None \<Rightarrow> Some (BSCL_SERIALPORT_EFAIL, st)
             | Some ev \<Rightarrow>
                 let (r, st) = s_call (s_WriteFile W h buf) st;
                     (fRes, st) = (case r of
                         Io_Done n \<Rightarrow> (True, st)
                       | Io_Error \<Rightarrow> (False, st)
                       | Io_Pending \<Rightarrow> let (n, st) = s_call (s_WriteResult W h) st in (n \<noteq> None, st)) in
                 Some (if fRes then int (length buf) else 0, close_handle W st ev))
      })"

section \<open>Configuration\<close>

definition serial_dcb :: "bscl_serialport_config_t \<Rightarrow> dcb \<Rightarrow> dcb" where
  "serial_dcb conf d =
     (let d = d\<lparr>BaudRate := word_of_int (baudrate conf)\<rparr>;
          d = (if parity conf = BSCL_SERIALPORT_PARITY_NONE then d\<lparr>fParity := False, Parity := 0\<rparr>
            else let d = d\<lparr>fParity := True\<rparr> in
              if parity conf = BSCL_SERIALPORT_PARITY_EVEN then d\<lparr>Parity := 2\<rparr>
              else if BSCL_SERIALPORT_PARITY_ODD \<noteq> 0 then d\<lparr>Parity := 1\<rparr>
              else d\<lparr>Parity := 0\<rparr>)
      in d\<lparr>StopBits := word_of_int (stopbits conf), fBinary := True, fOutxCtsFlow := False, fOutxDsrFlow := False,
        fDtrControl := 0, fDsrSensitivity := False, fOutX := False, fInX := False, fRtsControl := 0\<rparr>)"

definition bscl_serialport_config ::
    "'e serial_os \<Rightarrow> 'e serial \<Rightarrow> int \<Rightarrow> bscl_serialport_config_t \<Rightarrow> (int \<times> 'e serial) option" where
  "bscl_serialport_config W st fd conf = do {
     p \<leftarrow> port_at st fd;
     (case p of
        None \<Rightarrow> Some (BSCL_SERIALPORT_EARG, st)
      | Some h \<Rightarrow>
          let (d, st) = s_call (s_GetCommState W h) st in
          case d of
            None \<Rightarrow> Some (BSCL_SERIALPORT_EFAIL, st)
          | Some d \<Rightarrow>
              let (ok, st) = s_call (s_SetCommState W h (serial_dcb conf d)) st in
              Some (if ok then 0 else BSCL_SERIALPORT_EFAIL, st))
   }"

section \<open>The interface\<close>

definition serial_win32 :: "'e serial_os \<Rightarrow> 'e serial serial_ops" where
  "serial_win32 W =
     \<lparr>sp_open = \<lambda>name st. bscl_serialport_open W st name,
      sp_config = \<lambda>fd conf st. bscl_serialport_config W st fd conf,
      sp_read = \<lambda>fd n st. map_option (\<lambda>((r, buf), st). ((r, map char_byte buf), st)) (bscl_serialport_read W st fd (int n)),
      sp_write = \<lambda>fd buf st. bscl_serialport_write W st fd (map byte_char buf)\<rparr>"

text \<open>The same system with a record of what was given to \<open>WriteFile\<close>.\<close>

definition logged_win :: "'e serial_os \<Rightarrow> ('e \<times> string list) serial_os" where
  "logged_win W =
     \<lparr>s_CreateFile = \<lambda>path. lifted (s_CreateFile W path), s_SetCommMask = \<lambda>h. lifted (s_SetCommMask W h),
      s_malloc = lifted (s_malloc W), s_CreateEvent = lifted (s_CreateEvent W),
      s_CloseHandle = \<lambda>h. apfst (s_CloseHandle W h), s_SetCommTimeouts = \<lambda>h t. lifted (s_SetCommTimeouts W h t),
      s_ReadFile = \<lambda>h n. lifted (s_ReadFile W h n), s_ReadResult = \<lambda>h. lifted (s_ReadResult W h),
      s_WriteFile = \<lambda>h buf (e, log). lifted (s_WriteFile W h buf) (e, log @ [buf]),
      s_WriteResult = \<lambda>h. lifted (s_WriteResult W h), s_GetCommState = \<lambda>h. lifted (s_GetCommState W h),
      s_SetCommState = \<lambda>h d. lifted (s_SetCommState W h d)\<rparr>"

definition win_wire :: "('e \<times> string list) serial \<Rightarrow> u8 list list" where
  "win_wire st = map (map char_byte) (snd (s_env st))"

lemma s_call_lifted: "s_call (lifted f) st = (r, st') \<Longrightarrow> win_wire st' = win_wire st"
  by (auto simp: s_call_def win_wire_def Let_def split: prod.splits dest: lifted_eq)

lemma s_call_write: "s_call (s_WriteFile (logged_win W) h buf) st = (r, st')
    \<Longrightarrow> win_wire st' = win_wire st @ [map char_byte buf]"
  by (cases "s_env st") (auto simp: s_call_def win_wire_def logged_win_def Let_def split: prod.splits dest: lifted_eq)

lemma close_handle_logged [simp]: "win_wire (close_handle (logged_win W) st h) = win_wire st"
  by (simp add: win_wire_def close_handle_def logged_win_def)

lemma win_wire_port [simp]: "win_wire (st\<lparr>port := p\<rparr>) = win_wire st"
  by (simp add: win_wire_def)

lemma logged_win_simps:
  "s_CreateFile (logged_win W) path = lifted (s_CreateFile W path)"
  "s_SetCommMask (logged_win W) h = lifted (s_SetCommMask W h)"
  "s_malloc (logged_win W) = lifted (s_malloc W)"
  "s_CreateEvent (logged_win W) = lifted (s_CreateEvent W)"
  "s_SetCommTimeouts (logged_win W) h t = lifted (s_SetCommTimeouts W h t)"
  "s_ReadFile (logged_win W) h n = lifted (s_ReadFile W h n)"
  "s_ReadResult (logged_win W) h = lifted (s_ReadResult W h)"
  "s_WriteResult (logged_win W) h = lifted (s_WriteResult W h)"
  "s_GetCommState (logged_win W) h = lifted (s_GetCommState W h)"
  "s_SetCommState (logged_win W) h d = lifted (s_SetCommState W h d)"
  by (simp_all add: logged_win_def)

interpretation win_port: serial_line "serial_win32 (logged_win W)" win_wire for W
proof
  fix bytes :: "u8 list" and fd st r st'
  have chars: "map (char_byte \<circ> byte_char) bytes = bytes"
    by (simp add: comp_def)
  show "bytes \<noteq> [] \<Longrightarrow> sp_write (serial_win32 (logged_win W)) fd bytes st = Some (r, st')
    \<Longrightarrow> win_wire st' = win_wire st @ [bytes] \<or> r < 0 \<and> win_wire st' = win_wire st"
    using chars
    by (auto simp: serial_win32_def bscl_serialport_write_def logged_win_simps Let_def BSCL_SERIALPORT_EARG_def
      BSCL_SERIALPORT_EFAIL_def dest!: s_call_lifted s_call_write
      split: Option.bind_splits option.splits prod.splits overlapped.splits if_splits)
qed (auto simp: serial_win32_def bscl_serialport_open_def bscl_serialport_read_def bscl_serialport_read_timeout_def
  bscl_serialport_config_def logged_win_simps Let_def dest!: s_call_lifted
  split: Option.bind_splits option.splits prod.splits overlapped.splits if_splits)

section \<open>Finding ports\<close>

text \<open>
  The list of the ports is a key of the registry: \<open>reg\<close> gives its values, each a name and a port,
  when the key can be opened. A value that is longer than its buffer is an error.
\<close>

record bscl_serialport_reg_t =
  reg_key :: "(string \<times> string) list"
  reg_index :: nat

definition bscl_serialport_list_begin :: "bool \<Rightarrow> (string \<times> string) list option \<Rightarrow> int \<times> bscl_serialport_reg_t option" where
  "bscl_serialport_list_begin malloc_ok reg =
     (if \<not> malloc_ok then (BSCL_SERIALPORT_EMEM, None)
      else case reg of
          None \<Rightarrow> (BSCL_SERIALPORT_EFAIL, None)
        | Some names \<Rightarrow> (0, Some \<lparr>reg_key = names, reg_index = 0\<rparr>))"

definition bscl_serialport_list_next ::
    "bscl_serialport_reg_t \<Rightarrow> nat \<Rightarrow> (int \<times> string option) \<times> bscl_serialport_reg_t" where
  "bscl_serialport_list_next r len =
     (if reg_index r < length (reg_key r) then
        let (value_name, name) = reg_key r ! reg_index r in
        if length value_name < 20 \<and> length name < len
        then ((0, Some name), r\<lparr>reg_index := reg_index r + 1\<rparr>)
        else ((BSCL_SERIALPORT_EFAIL, None), r)
      else ((BSCL_SERIALPORT_EFAIL, None), r))"

text \<open>The list is freed: \<open>alive\<close> says whether the pointer is still good, and a second end is an error.\<close>

definition bscl_serialport_list_end :: "bscl_serialport_reg_t option \<Rightarrow> (int \<times> bscl_serialport_reg_t option) option" where
  "bscl_serialport_list_end alive = (case alive of None \<Rightarrow> None | Some reg \<Rightarrow> Some (0, None))"

record usb_device =
  hardware_id :: "string option"
  device_class :: "string option"
  port_name :: "(string \<times> bool) option"

fun hex_digits :: "nat \<Rightarrow> nat \<Rightarrow> string" where
  "hex_digits 0 n = []"
| "hex_digits (Suc w) n = hex_digits w (n div 16) @ [''0123456789abcdef'' ! (n mod 16)]"

definition SP_PORT_HID_FORMAT :: "u16 \<Rightarrow> u16 \<Rightarrow> u16 \<Rightarrow> u8 \<Rightarrow> string" where
  "SP_PORT_HID_FORMAT vendor product device interface =
     ''USB'' @ [CHR 0x5C] @ ''VID_'' @ hex_digits 4 (unat vendor) @ ''&PID_'' @ hex_digits 4 (unat product)
     @ ''&REV_'' @ hex_digits 4 (unat device) @ ''&MI_'' @ hex_digits 2 (unat interface)"

text \<open>The loop over the devices: the first serial port with the right identity that has a name.\<close>

fun find_usb_loop :: "string \<Rightarrow> nat \<Rightarrow> usb_device list \<Rightarrow> int \<times> string option" where
  "find_usb_loop hid len [] = (-1, None)"
| "find_usb_loop hid len (d # ds) =
     (case hardware_id d of
        None \<Rightarrow> find_usb_loop hid len ds
      | Some hw \<Rightarrow>
          if \<not> strncmp_equal hw hid (length hid) then find_usb_loop hid len ds
          else case device_class d of
              None \<Rightarrow> find_usb_loop hid len ds
            | Some c \<Rightarrow>
                if \<not> strncmp_equal c ''Ports'' 5 then find_usb_loop hid len ds
                else case port_name d of
                    Some (name, True) \<Rightarrow> (0, Some (take len name))
                  | _ \<Rightarrow> find_usb_loop hid len ds)"

definition sp_port_find_usb ::
    "usb_device list option \<Rightarrow> nat \<Rightarrow> u16 \<Rightarrow> u16 \<Rightarrow> u16 \<Rightarrow> u8 \<Rightarrow> int \<times> string option" where
  "sp_port_find_usb devices len vendor product device interface =
     (case devices of
        None \<Rightarrow> (-1, None)
      | Some ds \<Rightarrow> find_usb_loop (SP_PORT_HID_FORMAT vendor product device interface) len ds)"

section \<open>The slots of the table\<close>

text \<open>The calls of a program, and how many of its calls of \<open>bscl_serialport_open\<close> succeed.\<close>

datatype serial_op = Op_Open string | Op_Close int | Op_Read int int u32 | Op_Write int string
  | Op_Config int bscl_serialport_config_t

fun serial_run :: "'e serial_os \<Rightarrow> serial_op \<Rightarrow> 'e serial \<Rightarrow> (int \<times> 'e serial) option" where
  "serial_run W (Op_Open name) st = bscl_serialport_open W st name"
| "serial_run W (Op_Close fd) st = bscl_serialport_close W st fd"
| "serial_run W (Op_Read fd len t) st = map_option (\<lambda>((n, bytes), st). (n, st)) (bscl_serialport_read_timeout W st fd len t)"
| "serial_run W (Op_Write fd buf) st = bscl_serialport_write W st fd buf"
| "serial_run W (Op_Config fd conf) st = bscl_serialport_config W st fd conf"

fun is_open_op :: "serial_op \<Rightarrow> bool" where
  "is_open_op (Op_Open name) = True"
| "is_open_op _ = False"

inductive serial_history :: "'e serial_os \<Rightarrow> nat \<Rightarrow> 'e serial \<Rightarrow> bool" for W :: "'e serial_os" where
  history_start: "port st = replicate MAX_OPEN_NUM None \<Longrightarrow> serial_history W 0 st"
| history_step: "serial_history W n st \<Longrightarrow> serial_run W op st = Some (r, st')
    \<Longrightarrow> serial_history W (if is_open_op op \<and> 0 \<le> r then n + 1 else n) st'"

definition used :: "'e serial \<Rightarrow> nat" where
  "used st = length (filter (\<lambda>p. p \<noteq> None) (port st))"

lemma free_fd_loop_result:
  "if None \<in> set ps then \<exists>j < length ps. free_fd_loop i ps = i + int j \<and> ps ! j = None else free_fd_loop i ps = -1"
proof (induction ps arbitrary: i)
  case (Cons p ps)
  show ?case
  proof (cases "p = None")
    case False
    with Cons [of "i + 1"] show ?thesis
      by (cases "None \<in> set ps") (auto intro: exI [where x = "Suc _"])
  qed (auto intro: exI [where x = 0])
qed simp

lemma used_update:
  assumes "port st ! i = None" and "i < length (port st)"
  shows "used (st\<lparr>port := (port st)[i := Some h]\<rparr>) = used st + 1"
proof -
  have s: "port st = take i (port st) @ None # drop (i + 1) (port st)"
    using assms by (metis Suc_eq_plus1 id_take_nth_drop)
  have "(port st)[i := Some h] = take i (port st) @ Some h # drop (i + 1) (port st)"
    using assms(2) by (simp add: upd_conv_take_nth_drop)
  then have "used (st\<lparr>port := (port st)[i := Some h]\<rparr>)
      = length (filter (\<lambda>p. p \<noteq> None) (take i (port st) @ Some h # drop (i + 1) (port st)))"
    by (simp add: used_def)
  moreover have "used st = length (filter (\<lambda>p. p \<noteq> None) (take i (port st) @ None # drop (i + 1) (port st)))"
    unfolding used_def using s by simp
  ultimately show ?thesis
    by simp
qed

lemma s_call_simps [simp]: "port (snd (s_call f st)) = port st" "used (snd (s_call f st)) = used st"
  by (simp_all add: s_call_def used_def split: prod.splits)

lemma close_handle_simps [simp]: "port (close_handle W st h) = port st" "used (close_handle W st h) = used st"
  by (simp_all add: close_handle_def used_def)

lemma open_uses_a_slot:
  assumes "bscl_serialport_open W st name = Some (r, st')"
  shows "length (port st') = length (port st) \<and> used st' = (if 0 \<le> r then used st + 1 else used st)"
proof (cases "None \<in> set (port st)")
  case True
  then obtain j where j: "j < length (port st)" "get_free_fd st = int j" "port st ! j = None"
    using free_fd_loop_result [of "port st" 0] by (auto simp: get_free_fd_def)
  have u: "used (st1\<lparr>port := (port st)[j := Some h]\<rparr>) = used st + 1" for st1 :: "'a serial" and h
    using used_update [OF j(3,1), of h] by (simp add: used_def)
  show ?thesis
    using assms j(1) unfolding bscl_serialport_open_def j(2) Let_def case_prod_unfold
    by (auto simp: u BSCL_SERIALPORT_EFAIL_def split: if_splits option.splits)
next
  case False
  then have "get_free_fd st = -1"
    using free_fd_loop_result [of "port st" 0] by (simp add: get_free_fd_def)
  then show ?thesis
    using assms by (auto simp: bscl_serialport_open_def)
qed

lemma other_calls_keep_table:
  assumes "serial_run W op st = Some (r, st')" and "\<not> is_open_op op"
  shows "port st' = port st"
  using assms
  by (cases op) (auto simp: bscl_serialport_close_def bscl_serialport_read_timeout_def bscl_serialport_write_def
    bscl_serialport_config_def Let_def case_prod_unfold
    split: Option.bind_splits option.splits overlapped.splits if_splits)

lemma history_used: "serial_history W n st \<Longrightarrow> length (port st) = MAX_OPEN_NUM \<and> used st = n"
proof (induction rule: serial_history.induct)
  case (history_start st)
  then show ?case by (simp add: used_def)
next
  case (history_step n st op r st')
  show ?case
  proof (cases "is_open_op op")
    case True
    then obtain name where "op = Op_Open name"
      by (cases op) auto
    then show ?thesis
      using history_step open_uses_a_slot [of W st name r st'] by auto
  next
    case False
    then show ?thesis
      using history_step other_calls_keep_table [of W op st r st'] by (simp add: used_def)
  qed
qed

text \<open>
  C31: Closing a port never frees its slot: in any history of calls as many slots are in use as
  ports were ever opened, so after eight successful openings no port can be opened any more,
  whatever was closed, and a closed descriptor keeps its closed handle.
\<close>

theorem bscl_serialport_slots:
  assumes "serial_history W n st"
  shows "n \<le> MAX_OPEN_NUM \<and> used st = n
    \<and> (n = MAX_OPEN_NUM \<longrightarrow> (\<forall>name. bscl_serialport_open W st name = Some (-1, st)))
    \<and> (\<forall>fd st'. bscl_serialport_close W st fd = Some (0, st') \<longrightarrow> port st' = port st)"
proof -
  have u: "length (port st) = MAX_OPEN_NUM" "used st = n"
    using history_used [OF assms] by simp_all
  have le: "n \<le> MAX_OPEN_NUM"
    using u length_filter_le [of "\<lambda>p. p \<noteq> None" "port st"] by (simp add: used_def)
  have full: "bscl_serialport_open W st name = Some (-1, st)" if "n = MAX_OPEN_NUM" for name
  proof -
    have "length (filter (\<lambda>p. p \<noteq> None) (port st)) = length (port st)"
      using u that by (simp add: used_def)
    then have "None \<notin> set (port st)"
      using length_filter_less [of None "port st" "\<lambda>p. p \<noteq> None"] by auto
    then have "get_free_fd st = -1"
      using free_fd_loop_result [of "port st" 0] by (simp add: get_free_fd_def)
    then show ?thesis
      by (simp add: bscl_serialport_open_def)
  qed
  show ?thesis
    using u le full other_calls_keep_table [of W "Op_Close _" st] by simp
qed

text \<open>A system on which every call succeeds: the handles are 5 for the port and 6 for an event.\<close>

definition willing_os :: "unit serial_os" where
  "willing_os = \<lparr>s_CreateFile = (\<lambda>path e. (Some 5, e)), s_SetCommMask = (\<lambda>h e. (True, e)),
     s_malloc = (\<lambda>e. (True, e)), s_CreateEvent = (\<lambda>e. (Some 6, e)), s_CloseHandle = (\<lambda>h e. e),
     s_SetCommTimeouts = (\<lambda>h t e. (True, e)), s_ReadFile = (\<lambda>h n e. (Io_Done (replicate n CHR 0x00), e)),
     s_ReadResult = (\<lambda>h e. (Some [], e)), s_WriteFile = (\<lambda>h buf e. (Io_Done 0, e)),
     s_WriteResult = (\<lambda>h e. (Some 0, e)), s_GetCommState = (\<lambda>h e. (None, e)),
     s_SetCommState = (\<lambda>h d e. (True, e))\<rparr>"

definition opened_ports :: "nat \<Rightarrow> unit serial" where
  "opened_ports n = \<lparr>port = replicate n (Some 5) @ replicate (MAX_OPEN_NUM - n) None, s_env = ()\<rparr>"

lemma open_next_port:
  assumes "n < 8"
  shows "bscl_serialport_open willing_os (opened_ports n) ''COM1'' = Some (int n, opened_ports (Suc n))"
proof -
  have "n \<in> set [0..<8]"
    using assms by simp
  then show ?thesis
    by (auto simp: upt_rec bscl_serialport_open_def get_free_fd_def opened_ports_def MAX_OPEN_NUM_def
      DEV_PATH_MAX_def s_call_def willing_os_def eval_nat_numeral)
qed

lemma opened_history: "n \<le> 8 \<Longrightarrow> serial_history willing_os n (opened_ports n)"
proof (induction n)
  case 0
  show ?case
    by (rule history_start) (simp add: opened_ports_def)
next
  case (Suc n)
  then show ?case
    using history_step [of willing_os n "opened_ports n" "Op_Open ''COM1''" "int n" "opened_ports (Suc n)"]
      open_next_port [of n] by simp
qed

lemma bscl_serialport_slots_witness:
  "bscl_serialport_open willing_os (opened_ports 8) ''COM2'' = Some (-1, opened_ports 8)
    \<and> bscl_serialport_close willing_os (opened_ports 8) 3 = Some (0, opened_ports 8)"
  using bscl_serialport_slots [OF opened_history [of 8]]
  by (simp add: MAX_OPEN_NUM_def bscl_serialport_close_def opened_ports_def port_at_def close_handle_def willing_os_def
    eval_nat_numeral)

end
