(* ===== verification/Sterm.thy ===== *)
theory Sterm
  imports Serial_Linux Serial_Win32 "HOL-Library.Sublist"
begin

text \<open>
  The serial terminal \<open>src/tools/sterm/sterm.c\<close>: one thread sends what is typed to a serial port, another
  shows what the port receives. The port is any implementation \<open>P\<close> of the interface of \<open>Serial\<close>; the two threads
  are a step relation, whose steps are the calls of their loops, in any order. The console itself (\<open>initscr\<close>,
  the messages, the wait for a key before the program ends) is left out; neither loop ends, so \<open>deinit\<close>
  is never called.
\<close>

section \<open>The code\<close>

definition ENABLE_LINE_INPUT :: u32 where "ENABLE_LINE_INPUT = 2"
definition ENABLE_ECHO_INPUT :: u32 where "ENABLE_ECHO_INPUT = 4"

text \<open>The mode of the console of Windows.\<close>

definition sterm_init :: "u32 \<Rightarrow> u32" where
  "sterm_init mode = mode AND NOT (ENABLE_ECHO_INPUT OR ENABLE_LINE_INPUT)"

text \<open>
  \<open>tm_key\<close> is the key that \<open>main\<close> has got but not yet sent, \<open>tm_c\<close> the variable \<open>c\<close> of \<open>recv_task\<close>, and \<open>tm_due\<close>
  says that it is to be shown. The rest is history: the keys typed, the results of the writes, the bytes that
  each read has stored, and the screen.
\<close>

record 'st sterm =
  tm_port :: 'st
  tm_fd :: int
  tm_key :: "int option"
  tm_c :: u8
  tm_due :: bool
  tm_typed :: "int list"
  tm_results :: "int list"
  tm_reads :: "u8 list list"
  tm_screen :: "u8 list"

text \<open>A read of one byte leaves \<open>c\<close> as it is when it stores nothing.\<close>

fun recv_char :: "u8 \<Rightarrow> u8 list \<Rightarrow> u8" where
  "recv_char c [] = c"
| "recv_char c (b # bs) = b"

inductive sterm_step :: "'st serial_ops \<Rightarrow> 'st sterm \<Rightarrow> 'st sterm \<Rightarrow> bool" for P :: "'st serial_ops" where
  main_getch: "tm_key s = None \<Longrightarrow>
    sterm_step P s (s\<lparr>tm_key := Some k, tm_typed := tm_typed s @ [k]\<rparr>)"
| main_write: "tm_key s = Some k \<Longrightarrow> sp_write P (tm_fd s) [word_of_int k] (tm_port s) = Some (r, st) \<Longrightarrow>
    sterm_step P s (s\<lparr>tm_port := st, tm_key := None, tm_results := tm_results s @ [r]\<rparr>)"
| recv_read: "\<not> tm_due s \<Longrightarrow> sp_read P (tm_fd s) 1 (tm_port s) = Some ((r, bytes), st) \<Longrightarrow>
    sterm_step P s (s\<lparr>tm_port := st, tm_c := recv_char (tm_c s) bytes, tm_due := True, tm_reads := tm_reads s @ [bytes]\<rparr>)"
| recv_putchar: "tm_due s \<Longrightarrow>
    sterm_step P s (s\<lparr>tm_screen := tm_screen s @ [tm_c s], tm_due := False\<rparr>)"

inductive_cases sterm_stepE: "sterm_step P s s'"

definition sterm_config :: bscl_serialport_config_t where
  "sterm_config = \<lparr>baudrate = 115200, parity = BSCL_SERIALPORT_PARITY_NONE, stopbits = BSCL_SERIALPORT_STOPBITS_1\<rparr>"

text \<open>\<open>main\<close> ends with a result, or starts the two loops; \<open>c\<close> is what the variable of \<open>recv_task\<close> holds at first.\<close>

definition sterm_main :: "'st serial_ops \<Rightarrow> string \<Rightarrow> u8 \<Rightarrow> 'st \<Rightarrow> (int \<times> 'st + 'st sterm) option" where
  "sterm_main P dev_name c st = do {
     (fd, st) \<leftarrow> sp_open P dev_name st;
     if fd < 0 then Some (Inl (-1, st))
     else do {
       (r, st) \<leftarrow> sp_config P fd sterm_config st;
       Some (if r < 0 then Inl (-1, st)
         else Inr \<lparr>tm_port = st, tm_fd = fd, tm_key = None, tm_c = c, tm_due = False, tm_typed = [], tm_results = [],
           tm_reads = [], tm_screen = []\<rparr>)
     }
   }"

section \<open>The two directions\<close>

text \<open>The keys that were handed over to the port, and what is shown for a sequence of reads.\<close>

definition sterm_taken :: "'st sterm \<Rightarrow> u8 list list" where
  "sterm_taken s = map (\<lambda>k. [word_of_int k]) (if tm_key s = None then tm_typed s else butlast (tm_typed s))"

fun shown :: "u8 \<Rightarrow> u8 list list \<Rightarrow> u8 list" where
  "shown c [] = []"
| "shown c (bytes # reads) = recv_char c bytes # shown (recv_char c bytes) reads"

definition sterm_screen_inv :: "u8 \<Rightarrow> 'st sterm \<Rightarrow> bool" where
  "sterm_screen_inv c s \<longleftrightarrow> tm_screen s @ (if tm_due s then [tm_c s] else []) = shown c (tm_reads s)
    \<and> tm_c s = last (c # shown c (tm_reads s))"

definition sterm_key_inv :: "'st sterm \<Rightarrow> bool" where
  "sterm_key_inv s \<longleftrightarrow> (\<forall>k. tm_key s = Some k \<longrightarrow> tm_typed s \<noteq> [] \<and> last (tm_typed s) = k)"

lemma shown_snoc: "shown c (reads @ [bytes]) = shown c reads @ [recv_char (last (c # shown c reads)) bytes]"
  by (induction c reads rule: shown.induct) simp_all

lemma shown_bytes: "\<forall>bytes \<in> set reads. length bytes = 1 \<Longrightarrow> shown c reads = concat reads"
  by (induction c reads rule: shown.induct) (auto simp: length_Suc_conv)

lemma sterm_screen:
  "(sterm_step P)\<^sup>*\<^sup>* s0 s \<Longrightarrow> sterm_screen_inv c s0 \<Longrightarrow> sterm_screen_inv c s"
  by (induction rule: rtranclp_induct) (auto simp: sterm_screen_inv_def shown_snoc elim!: sterm_stepE split: if_splits)

lemma sterm_key: "(sterm_step P)\<^sup>*\<^sup>* s0 s \<Longrightarrow> sterm_key_inv s0 \<Longrightarrow> sterm_key_inv s"
  by (induction rule: rtranclp_induct) (auto simp: sterm_key_inv_def elim!: sterm_stepE)

definition wire_inv :: "('st \<Rightarrow> u8 list list) \<Rightarrow> u8 list list \<Rightarrow> 'st sterm \<Rightarrow> bool" where
  "wire_inv wire w s \<longleftrightarrow> (\<exists>sent. wire (tm_port s) = w @ sent \<and> subseq sent (sterm_taken s)
    \<and> ((\<forall>r \<in> set (tm_results s). 0 \<le> r) \<longrightarrow> sent = sterm_taken s))"

lemma sterm_taken_write:
  "sterm_key_inv s \<Longrightarrow> tm_key s = Some k \<Longrightarrow>
    sterm_taken (s\<lparr>tm_port := st, tm_key := None, tm_results := rs\<rparr>) = sterm_taken s @ [[word_of_int k]]"
  by (cases "tm_typed s" rule: rev_cases) (auto simp: sterm_taken_def sterm_key_inv_def)

context serial_line
begin

lemma wire_inv_write:
  assumes "sterm_key_inv s" and "wire_inv wire w s" and "tm_key s = Some k"
    and "sp_write P (tm_fd s) [word_of_int k] (tm_port s) = Some (r, st)"
  shows "wire_inv wire w (s\<lparr>tm_port := st, tm_key := None, tm_results := tm_results s @ [r]\<rparr>)"
proof -
  obtain sent where sent: "wire (tm_port s) = w @ sent" "subseq sent (sterm_taken s)"
      "(\<forall>r \<in> set (tm_results s). 0 \<le> r) \<longrightarrow> sent = sterm_taken s"
    using assms(2) unfolding wire_inv_def by blast
  from write_sends [OF _ assms(4)] consider "wire st = wire (tm_port s) @ [[word_of_int k]]"
    | "r < 0" "wire st = wire (tm_port s)"
    by auto
  then have "\<exists>sent'. wire st = w @ sent' \<and> subseq sent' (sterm_taken s @ [[word_of_int k]])
      \<and> ((\<forall>q \<in> insert r (set (tm_results s)). 0 \<le> q) \<longrightarrow> sent' = sterm_taken s @ [[word_of_int k]])"
  proof cases
    case 1
    then show ?thesis
      using sent by (intro exI [of _ "sent @ [[word_of_int k]]"]) simp
  next
    case 2
    then show ?thesis
      using sent by (intro exI [of _ sent]) (auto intro: list_emb_append2)
  qed
  then show ?thesis
    unfolding wire_inv_def sterm_taken_write [OF assms(1,3)] by simp
qed

lemma wire_inv_step:
  assumes "sterm_step P s s'" and "sterm_key_inv s" and "wire_inv wire w s"
  shows "wire_inv wire w s'"
  using assms
proof (cases rule: sterm_step.cases)
  case (main_write k r st)
  with wire_inv_write [OF assms(2,3)] show ?thesis by blast
qed (auto simp: wire_inv_def sterm_taken_def dest!: read_keeps split: if_splits)

lemma wire_inv_start:
  "sterm_main P dev c st = Some (Inr s0) \<Longrightarrow> wire_inv wire (wire st) s0 \<and> sterm_key_inv s0 \<and> sterm_screen_inv c s0"
  by (auto simp: sterm_main_def wire_inv_def sterm_key_inv_def sterm_screen_inv_def sterm_taken_def
    dest!: open_keeps config_keeps split: Option.bind_splits if_splits)

lemma wire_inv_reachable:
  assumes "(sterm_step P)\<^sup>*\<^sup>* s0 s" and "sterm_main P dev c st = Some (Inr s0)"
  shows "wire_inv wire (wire st) s"
  using assms(1)
proof (induction rule: rtranclp_induct)
  case (step s1 s2)
  then show ?case
    using wire_inv_step sterm_key wire_inv_start [OF assms(2)] by blast
qed (use wire_inv_start [OF assms(2)] in blast)

end

text \<open>
  C38: Whatever the system does, and in whatever order the two threads of the terminal take
  their steps, the bytes that were handed to the port to be sent are keys that were typed, in the order of typing and
  each at most once, and all of them but the one that is still to be sent when no write has failed. The screen shows
  one character for each read: the byte that was read, or else the character before once more.
\<close>

theorem sterm_both_directions:
  assumes "sterm_main (serial_linux (logged_tty W)) dev_name c (e, []) = Some (Inr s0)"
    and "(sterm_step (serial_linux (logged_tty W)))\<^sup>*\<^sup>* s0 s"
  shows "subseq (snd (tm_port s)) (sterm_taken s)
    \<and> ((\<forall>r \<in> set (tm_results s). 0 \<le> r) \<longrightarrow> snd (tm_port s) = sterm_taken s)
    \<and> tm_screen s @ (if tm_due s then [tm_c s] else []) = shown c (tm_reads s)
    \<and> ((\<forall>bytes \<in> set (tm_reads s). length bytes = 1) \<longrightarrow> prefix (tm_screen s) (concat (tm_reads s)))"
proof -
  have "wire_inv snd [] s"
    using linux_port.wire_inv_reachable [OF assms(2,1)] by simp
  moreover have screen: "sterm_screen_inv c s"
    using sterm_screen [OF assms(2)] linux_port.wire_inv_start [OF assms(1)] by blast
  moreover have "prefix (tm_screen s) (shown c (tm_reads s))"
    using screen unfolding sterm_screen_inv_def by (metis prefixI)
  ultimately show ?thesis
    by (auto simp: wire_inv_def sterm_screen_inv_def shown_bytes)
qed

text \<open>The same on Windows.\<close>

lemma sterm_sends_win32:
  assumes "sterm_main (serial_win32 (logged_win W)) dev_name c st = Some (Inr s0)" and "win_wire st = []"
    and "(sterm_step (serial_win32 (logged_win W)))\<^sup>*\<^sup>* s0 s"
  shows "subseq (win_wire (tm_port s)) (sterm_taken s)
    \<and> ((\<forall>r \<in> set (tm_results s). 0 \<le> r) \<longrightarrow> win_wire (tm_port s) = sterm_taken s)"
  using win_port.wire_inv_reachable [OF assms(3,1)] assms(2) by (auto simp: wire_inv_def)

section \<open>A concrete session\<close>

text \<open>A port whose state is what it will receive.\<close>

definition demo_port :: "u8 list tty_os" where
  "demo_port = \<lparr>tty_open = \<lambda>name flags e. (3, e),
     tty_read = \<lambda>fd n e. (case e of [] \<Rightarrow> ((-1, []), []) | b # e \<Rightarrow> ((1, [b]), e)), tty_write = \<lambda>fd buf e. (int (length buf), e),
     tty_poll = \<lambda>fd ev t e. ((0, 0), e), tty_close = \<lambda>fd e. e,
     tty_getattr = \<lambda>fd e. \<lparr>c_iflag = 0, c_oflag = 0, c_cflag = 0, c_lflag = 0, c_vtime = 0, c_vmin = 0,
       c_ispeed = 0, c_ospeed = 0\<rparr>,
     tty_setattr = \<lambda>fd t e. (0, e), tty_flush = \<lambda>fd e. e, tty_speed = \<lambda>b t. t, tty_raw = \<lambda>t. t\<rparr>"

lemma sterm_both_directions_witness:
  "\<exists>s0 s. sterm_main (serial_linux (logged_tty demo_port)) ''/dev/ttyS5'' 0 ([0x41], []) = Some (Inr s0)
    \<and> (sterm_step (serial_linux (logged_tty demo_port)))\<^sup>*\<^sup>* s0 s \<and> snd (tm_port s) = [[0x61]] \<and> tm_screen s = [0x41]"
proof -
  let ?P = "serial_linux (logged_tty demo_port)"
  let ?s0 = "\<lparr>tm_port = ([0x41], []), tm_fd = 3, tm_key = None, tm_c = 0, tm_due = False, tm_typed = [], tm_results = [],
    tm_reads = [], tm_screen = []\<rparr>"
  let ?s1 = "?s0\<lparr>tm_key := Some 0x61, tm_typed := [0x61]\<rparr>"
  let ?s2 = "?s1\<lparr>tm_port := ([], []), tm_c := 0x41, tm_due := True, tm_reads := [[0x41]]\<rparr>"
  let ?s3 = "?s2\<lparr>tm_port := ([], [[0x61]]), tm_key := None, tm_results := [1]\<rparr>"
  let ?s4 = "?s3\<lparr>tm_screen := [0x41], tm_due := False\<rparr>"
  have start: "sterm_main ?P ''/dev/ttyS5'' 0 ([0x41], []) = Some (Inr ?s0)"
    by (simp add: sterm_main_def serial_linux_def logged_tty_def lifted_def demo_port_def bscl_serialport_open_linux_def
      bscl_serialport_config_linux_def Let_def)
  have 1: "sterm_step ?P ?s0 ?s1"
    using main_getch [of ?s0 ?P "0x61"] by simp
  have 2: "sterm_step ?P ?s1 ?s2"
    using recv_read [of ?s1 ?P 1 "[0x41]" "([], [])"]
    by (simp add: serial_linux_def logged_tty_def lifted_def demo_port_def bscl_serialport_read_linux_def)
  have 3: "sterm_step ?P ?s2 ?s3"
    using main_write [of ?s2 "0x61" ?P 1 "([], [[0x61]])"]
    by (simp add: serial_linux_def logged_tty_def lifted_def demo_port_def bscl_serialport_write_linux_def)
  have 4: "sterm_step ?P ?s3 ?s4"
    using recv_putchar [of ?s3 ?P] by simp
  have run: "(sterm_step ?P)\<^sup>*\<^sup>* ?s0 ?s4"
    by (rule converse_rtranclp_into_rtranclp [OF 1 converse_rtranclp_into_rtranclp [OF 2
      converse_rtranclp_into_rtranclp [OF 3 r_into_rtranclp [of "sterm_step ?P", OF 4]]]])
  from sterm_both_directions [OF start run] show ?thesis
    using start run by (intro exI [of _ ?s0] exI [of _ ?s4]) (simp add: sterm_taken_def)
qed

end
