(* ===== verification/Os_Win32.thy ===== *)
theory Os_Win32
  imports Cstring
begin

text \<open>
  Mutexes, semaphores, threads, processes and the time for Windows: \<open>src/win32/mutex.c\<close>, \<open>sem.c\<close>,
  \<open>thread.c\<close>, \<open>process.c\<close> and \<open>time.c\<close>. The calls of Windows are a parameter \<open>W\<close>, a record of functions on
  a state of their own. A null, freed or dangling pointer is \<open>None\<close>.
\<close>

section \<open>The calls of Windows\<close>

datatype wait_result = WAIT_OBJECT_0 | WAIT_ABANDONED | WAIT_TIMEOUT | WAIT_FAILED

record 'e win_os =
  o_malloc :: "'e \<Rightarrow> bool \<times> 'e"
  o_CreateMutex :: "'e \<Rightarrow> int option \<times> 'e"
  o_ReleaseMutex :: "int \<Rightarrow> 'e \<Rightarrow> bool \<times> 'e"
  o_CreateSemaphore :: "int \<Rightarrow> int \<Rightarrow> 'e \<Rightarrow> int option \<times> 'e"
  o_ReleaseSemaphore :: "int \<Rightarrow> 'e \<Rightarrow> bool \<times> 'e"
  o_WaitForSingleObject :: "int \<Rightarrow> u32 \<Rightarrow> 'e \<Rightarrow> wait_result \<times> 'e"
  o_CloseHandle :: "int \<Rightarrow> 'e \<Rightarrow> 'e"
  o_CreateProcess :: "string \<Rightarrow> string \<Rightarrow> 'e \<Rightarrow> int option \<times> 'e"
  o_GetTickCount :: "'e \<Rightarrow> u32"
  o_CreateWaitableTimer :: "'e \<Rightarrow> int \<times> 'e"
  o_SetWaitableTimer :: "int \<Rightarrow> int \<Rightarrow> 'e \<Rightarrow> 'e"
  o_CreateThread :: "'e \<Rightarrow> int \<times> 'e"

text \<open>What the pointer in the caller's variable points to: an object with its handle, or memory given back.\<close>

datatype os_object = Os_Null | Os_Freed | Os_Handle int

fun os_handle :: "os_object \<Rightarrow> int option" where
  "os_handle (Os_Handle h) = Some h"
| "os_handle _ = None"

definition OS_INFINITE :: u32 where "OS_INFINITE = 0xFFFFFFFF"

text \<open>\<open>malloc\<close> and then the creation of the object, whose memory is given back when that fails.\<close>

definition os_create :: "'e win_os \<Rightarrow> ('e \<Rightarrow> int option \<times> 'e) \<Rightarrow> 'e \<Rightarrow> (int \<times> os_object) \<times> 'e" where
  "os_create W create e =
     (let (m, e) = o_malloc W e in
      if \<not> m then ((-1, Os_Null), e)
      else let (h, e) = create e in
        case h of None \<Rightarrow> ((-1, Os_Freed), e) | Some h \<Rightarrow> ((0, Os_Handle h), e))"

definition os_wait :: "'e win_os \<Rightarrow> os_object \<Rightarrow> u32 \<Rightarrow> 'e \<Rightarrow> (int \<times> 'e) option" where
  "os_wait W obj timeout_ms e = do {
     h \<leftarrow> os_handle obj;
     let (r, e) = o_WaitForSingleObject W h timeout_ms e;
     Some (case r of WAIT_OBJECT_0 \<Rightarrow> 0 | WAIT_TIMEOUT \<Rightarrow> -1 | _ \<Rightarrow> -1, e)
   }"

definition os_delete :: "'e win_os \<Rightarrow> os_object \<Rightarrow> 'e \<Rightarrow> (os_object \<times> 'e) option" where
  "os_delete W obj e = do { h \<leftarrow> os_handle obj; Some (Os_Freed, o_CloseHandle W h e) }"

section \<open>Mutexes\<close>

definition os_mutex_create :: "'e win_os \<Rightarrow> 'e \<Rightarrow> (int \<times> os_object) \<times> 'e" where
  "os_mutex_create W e = os_create W (o_CreateMutex W) e"

definition os_mutex_unlock :: "'e win_os \<Rightarrow> os_object \<Rightarrow> 'e \<Rightarrow> (int \<times> 'e) option" where
  "os_mutex_unlock W mtx e = do {
     h \<leftarrow> os_handle mtx;
     let (ok, e) = o_ReleaseMutex W h e;
     Some (if ok then 0 else -1, e)
   }"

definition os_mutex_timedlock :: "'e win_os \<Rightarrow> os_object \<Rightarrow> int \<Rightarrow> 'e \<Rightarrow> (int \<times> 'e) option" where
  "os_mutex_timedlock W mtx timeout_ms e = os_wait W mtx (word_of_int timeout_ms) e"

definition os_mutex_lock :: "'e win_os \<Rightarrow> os_object \<Rightarrow> 'e \<Rightarrow> (int \<times> 'e) option" where
  "os_mutex_lock W mtx e = os_mutex_timedlock W mtx (sint OS_INFINITE) e"

definition os_mutex_trylock :: "'e win_os \<Rightarrow> os_object \<Rightarrow> 'e \<Rightarrow> (int \<times> 'e) option" where
  "os_mutex_trylock W mtx e = os_mutex_timedlock W mtx 0 e"

definition os_mutex_delete :: "'e win_os \<Rightarrow> os_object \<Rightarrow> 'e \<Rightarrow> (os_object \<times> 'e) option" where
  "os_mutex_delete W mtx e = os_delete W mtx e"

section \<open>Semaphores\<close>

definition SHRT_MAX :: int where "SHRT_MAX = 32767"

definition bscl_sem_create_win32 :: "'e win_os \<Rightarrow> u32 \<Rightarrow> 'e \<Rightarrow> (int \<times> os_object) \<times> 'e" where
  "bscl_sem_create_win32 W n e = os_create W (o_CreateSemaphore W (sint n) SHRT_MAX) e"

definition bscl_sem_post_win32 :: "'e win_os \<Rightarrow> os_object \<Rightarrow> 'e \<Rightarrow> (int \<times> 'e) option" where
  "bscl_sem_post_win32 W sem e = do {
     h \<leftarrow> os_handle sem;
     let (ok, e) = o_ReleaseSemaphore W h e;
     Some (if ok then 0 else -1, e)
   }"

definition bscl_sem_timedwait_win32 :: "'e win_os \<Rightarrow> os_object \<Rightarrow> u32 \<Rightarrow> 'e \<Rightarrow> (int \<times> 'e) option" where
  "bscl_sem_timedwait_win32 W sem timeout_ms e = os_wait W sem timeout_ms e"

definition bscl_sem_wait_win32 :: "'e win_os \<Rightarrow> os_object \<Rightarrow> 'e \<Rightarrow> (int \<times> 'e) option" where
  "bscl_sem_wait_win32 W sem e = bscl_sem_timedwait_win32 W sem OS_INFINITE e"

definition bscl_sem_trywait_win32 :: "'e win_os \<Rightarrow> os_object \<Rightarrow> 'e \<Rightarrow> (int \<times> 'e) option" where
  "bscl_sem_trywait_win32 W sem e = bscl_sem_timedwait_win32 W sem 0 e"

definition bscl_sem_delete_win32 :: "'e win_os \<Rightarrow> os_object \<Rightarrow> 'e \<Rightarrow> (os_object \<times> 'e) option" where
  "bscl_sem_delete_win32 W sem e = os_delete W sem e"

section \<open>Time\<close>

definition bscl_milli_time :: "'e win_os \<Rightarrow> 'e \<Rightarrow> u32" where
  "bscl_milli_time W e = o_GetTickCount W e"

text \<open>The product is one of 32 bits.\<close>

definition bscl_micro_time :: "'e win_os \<Rightarrow> 'e \<Rightarrow> u64" where
  "bscl_micro_time W e = ucast (bscl_milli_time W e * 1000)"

definition bscl_usleep :: "'e win_os \<Rightarrow> int \<Rightarrow> 'e \<Rightarrow> 'e" where
  "bscl_usleep W usec e =
     (let (timer, e) = o_CreateWaitableTimer W e;
          e = o_SetWaitableTimer W timer (- (10 * usec)) e;
          (_, e) = o_WaitForSingleObject W timer OS_INFINITE e
      in o_CloseHandle W timer e)"

section \<open>Processes\<close>

definition COMMAND_LEN_MAX :: nat where "COMMAND_LEN_MAX = 1024"

text \<open>\<open>offset = snprintf(buf + offset, size, "%s ", argv[i])\<close>\<close>

fun process_args_loop :: "string list \<Rightarrow> string \<Rightarrow> nat \<Rightarrow> string option" where
  "process_args_loop [] buf off = Some buf"
| "process_args_loop (arg # argv) buf off = do {
     let size1 = COMMAND_LEN_MAX - off;
     let out = arg @ '' '';
     buf \<leftarrow> (if size1 = 0 then Some buf else mem_write buf off (take (size1 - 1) out @ [NUL]));
     if size1 \<le> length out then Some buf else process_args_loop argv buf (length out)
   }"

text \<open>\<open>buf\<close> is what the uninitialised array holds. The result is the process, or null.\<close>

definition bscl_process_exec :: "'e win_os \<Rightarrow> string \<Rightarrow> string \<Rightarrow> string list \<Rightarrow> 'e \<Rightarrow> (int option \<times> 'e) option" where
  "bscl_process_exec W buf command argv e = do {
     let (m, e) = o_malloc W e;
     _ \<leftarrow> guard m;
     buf \<leftarrow> process_args_loop argv buf 0;
     line \<leftarrow> cstr_at buf 0;
     Some (o_CreateProcess W command line e)
   }"

section \<open>The command line\<close>

text \<open>
  The length that \<open>snprintf\<close> returns is taken for the next offset instead of being added to the last one: each
  argument overwrites the line behind as many characters as the argument before it has.
\<close>

fun command_line :: "string \<Rightarrow> nat \<Rightarrow> string list \<Rightarrow> string" where
  "command_line line n [] = line"
| "command_line line n (arg # argv) = command_line (take n line @ arg @ '' '') (length arg + 1) argv"

lemma args_loop_line:
  "list_all (\<lambda>a. NUL \<notin> set a) argv \<Longrightarrow> NUL \<notin> set line \<Longrightarrow> buf = line @ NUL # post \<Longrightarrow> n \<le> length line
    \<Longrightarrow> length buf = COMMAND_LEN_MAX \<Longrightarrow> list_all (\<lambda>a. n + length a + 1 < COMMAND_LEN_MAX \<and> (\<forall>b \<in> set argv. length a + length b + 2 < COMMAND_LEN_MAX)) argv
    \<Longrightarrow> \<exists>post'. process_args_loop argv buf n = Some (command_line line n argv @ NUL # post')
      \<and> NUL \<notin> set (command_line line n argv)"
proof (induction argv arbitrary: line buf n post)
  case (Cons a argv)
  let ?out = "a @ '' ''" and ?line = "take n line @ a @ '' ''"
  have fit: "n + length ?out < COMMAND_LEN_MAX"
    using Cons.prems(6) by simp
  have "mem_write buf n (?out @ [NUL]) = Some (take n buf @ (?out @ [NUL]) @ drop (n + length (?out @ [NUL])) buf)"
    using fit Cons.prems(5) by (intro mem_write_Some) simp
  moreover have "take n buf = take n line"
    using Cons.prems(3,4) by simp
  ultimately have w: "mem_write buf n (?out @ [NUL]) = Some (?line @ NUL # drop (n + length (?out @ [NUL])) buf)"
    by simp
  have "NUL \<notin> set ?line"
    using Cons.prems(1,2) by (auto dest: in_set_takeD)
  moreover have "length (?line @ NUL # drop (n + length (?out @ [NUL])) buf) = COMMAND_LEN_MAX"
    using fit Cons.prems(4,5) by simp
  moreover have "list_all (\<lambda>b. length ?out + length b + 1 < COMMAND_LEN_MAX \<and> (\<forall>c \<in> set argv. length b + length c + 2 < COMMAND_LEN_MAX)) argv"
    using Cons.prems(6) by (auto simp: list_all_iff)
  ultimately have "\<exists>post'. process_args_loop argv (?line @ NUL # drop (n + length (?out @ [NUL])) buf) (length ?out)
      = Some (command_line ?line (length ?out) argv @ NUL # post') \<and> NUL \<notin> set (command_line ?line (length ?out) argv)"
    using Cons.prems(1) by (intro Cons.IH [OF _ _ refl]) simp_all
  moreover have "\<not> COMMAND_LEN_MAX - n \<le> Suc (length a)" and "COMMAND_LEN_MAX - n \<noteq> 0"
    and "take (COMMAND_LEN_MAX - n - 1) ?out = ?out"
    using fit by simp_all
  ultimately show ?case
    using w by (simp add: Let_def)
qed simp

lemma length_command_line:
  "n \<le> length line \<Longrightarrow> length (command_line line n (argv @ [a, b])) = length a + length b + 2"
  by (induction argv arbitrary: line n) simp_all

lemma command_line_joined:
  "argv \<noteq> [] \<Longrightarrow> command_line [] 0 argv = concat (map (\<lambda>a. a @ '' '') argv) \<longleftrightarrow> length argv \<le> 2"
proof -
  assume "argv \<noteq> []"
  then consider a where "argv = [a]" | a b where "argv = [a, b]" | c cs a b where "argv = (c # cs) @ [a, b]"
    by (metis append_Nil append_butlast_last_id append_Cons append_assoc neq_Nil_conv)
  then show ?thesis
  proof cases
    case (3 c cs a b)
    have "length (command_line [] 0 argv) = length a + length b + 2"
      unfolding 3 by (rule length_command_line) simp
    moreover have "length a + length b + 2 < length (concat (map (\<lambda>a. a @ '' '') argv))"
      by (simp add: 3)
    ultimately have "command_line [] 0 argv \<noteq> concat (map (\<lambda>a. a @ '' '') argv)"
      by auto
    then show ?thesis
      by (simp add: 3)
  qed simp_all
qed

text \<open>
  The command line that a process is started with stays within its buffer; it is the arguments one
  after the other exactly when there are at most two of them.
\<close>

lemma bscl_process_exec_overwrites:
  assumes "argv \<noteq> []" and "list_all (\<lambda>a. NUL \<notin> set a) argv"
    and "\<forall>a \<in> set argv. \<forall>b \<in> set argv. length a + length b + 2 < COMMAND_LEN_MAX"
    and "length buf = COMMAND_LEN_MAX" and "o_malloc W e = (True, e1)"
  shows "bscl_process_exec W buf command argv e = Some (o_CreateProcess W command (command_line [] 0 argv) e1)
    \<and> (command_line [] 0 argv = concat (map (\<lambda>a. a @ '' '') argv) \<longleftrightarrow> length argv \<le> 2)"
proof -
  obtain a argv' where argv: "argv = a # argv'"
    using assms(1) by (cases argv) auto
  let ?out = "a @ '' ''"
  have fit: "length ?out < COMMAND_LEN_MAX"
    using assms(3) by (simp add: argv)
  have w: "mem_write buf 0 (?out @ [NUL]) = Some (?out @ NUL # drop (length (?out @ [NUL])) buf)"
    using fit assms(4) by (subst mem_write_Some) simp_all
  have "list_all (\<lambda>b. length ?out + length b + 1 < COMMAND_LEN_MAX
      \<and> (\<forall>c \<in> set argv'. length b + length c + 2 < COMMAND_LEN_MAX)) argv'"
    using assms(3) by (auto simp: list_all_iff argv)
  moreover have "length (?out @ NUL # drop (length (?out @ [NUL])) buf) = COMMAND_LEN_MAX"
    using fit assms(4) by simp
  ultimately obtain post where
      "process_args_loop argv' (?out @ NUL # drop (length (?out @ [NUL])) buf) (length ?out)
        = Some (command_line ?out (length ?out) argv' @ NUL # post)"
      "NUL \<notin> set (command_line ?out (length ?out) argv')"
    using args_loop_line [of argv' ?out "?out @ NUL # drop (length (?out @ [NUL])) buf"
        "drop (length (?out @ [NUL])) buf" "length ?out"] assms(2) by (auto simp: argv)
  moreover have "take (COMMAND_LEN_MAX - 1) ?out = ?out" and "\<not> COMMAND_LEN_MAX \<le> length ?out" and "COMMAND_LEN_MAX \<noteq> 0"
    using fit by (simp_all add: COMMAND_LEN_MAX_def)
  ultimately have "process_args_loop argv buf 0 = Some (command_line [] 0 argv @ NUL # post)"
    and "NUL \<notin> set (command_line [] 0 argv)"
    using w by (simp_all add: argv Let_def)
  then show ?thesis
    using command_line_joined [OF assms(1)] assms(5) cstr_at_runs [of "command_line [] 0 argv" "[]"]
    by (simp add: bscl_process_exec_def)
qed

section \<open>Locks and clocks\<close>

text \<open>
  An abandoned mutex is owned by the caller after the wait, but locking it is reported to have
  failed, as is every other end of the wait but the first.
\<close>

lemma os_mutex_timedlock_result:
  "os_mutex_timedlock W (Os_Handle h) t e = Some (r, e') \<Longrightarrow>
    r = (if fst (o_WaitForSingleObject W h (word_of_int t) e) = WAIT_OBJECT_0 then 0 else -1)"
  by (auto simp: os_mutex_timedlock_def os_wait_def split: prod.splits wait_result.splits)

text \<open>The clock of microseconds goes round every 4294967 milliseconds.\<close>

lemma bscl_micro_time_wraps: "unat (bscl_micro_time W e) = unat (bscl_milli_time W e) * 1000 mod 2 ^ 32"
proof -
  have "unat (ucast (x :: u32) :: u64) = unat x" for x
    by (simp add: unsigned_ucast_eq take_bit_nat_eq_self_iff less_trans [OF u32_less_pow])
  then show ?thesis
    by (simp add: bscl_micro_time_def unat_word_ariths)
qed

section \<open>Threads\<close>

text \<open>
  \<open>bscl_thread_create\<close> starts the thread before it stores its argument: the creator's remaining step
  and the first step of the thread, which reads the argument, can come in either order. \<open>th_ran\<close> is
  the argument that the routine was called with.
\<close>

record 'a thread_state =
  th_arg :: 'a
  th_stored :: bool
  th_ran :: "'a option"

inductive thread_step :: "'a \<Rightarrow> 'a thread_state \<Rightarrow> 'a thread_state \<Rightarrow> bool" for arg :: 'a where
  store_arg: "\<not> th_stored s \<Longrightarrow> thread_step arg s (s\<lparr>th_arg := arg, th_stored := True\<rparr>)"
| thread_proc: "th_ran s = None \<Longrightarrow> thread_step arg s (s\<lparr>th_ran := Some (th_arg s)\<rparr>)"

definition thread_started :: "'a \<Rightarrow> 'a thread_state" where
  "thread_started junk = \<lparr>th_arg = junk, th_stored = False, th_ran = None\<rparr>"

definition INVALID_HANDLE_VALUE :: int where "INVALID_HANDLE_VALUE = -1"

text \<open>
  The result of the creation, and the new thread if there is one, before any further step of it or its creator;
  \<open>junk\<close> is what the memory for the argument holds.
\<close>

definition bscl_thread_create_win32 :: "'e win_os \<Rightarrow> 'a \<Rightarrow> 'e \<Rightarrow> (int \<times> 'a thread_state option) \<times> 'e" where
  "bscl_thread_create_win32 W junk e =
     (let (m, e) = o_malloc W e in
      if \<not> m then ((-1, None), e)
      else let (h, e) = o_CreateThread W e in
        ((if h = INVALID_HANDLE_VALUE then -1 else 0, if h = 0 then None else Some (thread_started junk)), e))"

definition bscl_thread_self_win32 :: nat where
  "bscl_thread_self_win32 = 0"

definition bscl_thread_join_win32 :: "'a thread_state \<Rightarrow> int" where
  "bscl_thread_join_win32 tid = 0"

text \<open>\<open>CreateThread\<close> reports a failure by a null handle, which the code takes for a thread.\<close>

lemma thread_create_unnoticed_failure:
  "o_malloc W e = (True, e1) \<Longrightarrow> o_CreateThread W e1 = (0, e2) \<Longrightarrow> bscl_thread_create_win32 W junk e = ((0, None), e2)"
  by (simp add: bscl_thread_create_win32_def INVALID_HANDLE_VALUE_def)

text \<open>Joining succeeds at once, with a thread that has not run.\<close>

lemma thread_join_does_not_wait:
  "bscl_thread_join_win32 (thread_started junk) = 0 \<and> th_ran (thread_started junk) = None"
  by (simp add: bscl_thread_join_win32_def thread_started_def)

lemma thread_runs_with:
  "(thread_step arg)\<^sup>*\<^sup>* (thread_started junk) s \<Longrightarrow> th_ran s = Some x \<Longrightarrow> x = arg \<or> x = junk"
proof -
  have "(thread_step arg)\<^sup>*\<^sup>* (thread_started junk) s \<Longrightarrow> (th_arg s = arg \<or> th_arg s = junk)
      \<and> (\<forall>x. th_ran s = Some x \<longrightarrow> x = arg \<or> x = junk)"
    by (induction rule: rtranclp_induct) (auto simp: thread_started_def elim!: thread_step.cases)
  then show "(thread_step arg)\<^sup>*\<^sup>* (thread_started junk) s \<Longrightarrow> th_ran s = Some x \<Longrightarrow> x = arg \<or> x = junk"
    by blast
qed

lemma thread_may_run_too_early:
  "\<exists>s. (thread_step arg)\<^sup>*\<^sup>* (thread_started junk) s \<and> th_stored s \<and> th_ran s = Some junk"
proof (intro exI conjI)
  let ?s1 = "(thread_started junk)\<lparr>th_ran := Some junk\<rparr>"
  have "thread_step arg (thread_started junk) ?s1"
    using thread_proc [of "thread_started junk" arg] by (simp add: thread_started_def)
  moreover have "thread_step arg ?s1 (?s1\<lparr>th_arg := arg, th_stored := True\<rparr>)"
    by (rule store_arg) (simp add: thread_started_def)
  ultimately show "(thread_step arg)\<^sup>*\<^sup>* (thread_started junk) (?s1\<lparr>th_arg := arg, th_stored := True\<rparr>)"
    by simp
qed simp_all

section \<open>A concrete system\<close>

definition demo_win :: "unit win_os" where
  "demo_win = \<lparr>o_malloc = \<lambda>e. (True, e), o_CreateMutex = \<lambda>e. (Some 1, e), o_ReleaseMutex = \<lambda>h e. (True, e),
     o_CreateSemaphore = \<lambda>n m e. (Some 2, e), o_ReleaseSemaphore = \<lambda>h e. (True, e),
     o_WaitForSingleObject = \<lambda>h t e. (WAIT_ABANDONED, e), o_CloseHandle = \<lambda>h e. e,
     o_CreateProcess = \<lambda>c line e. (if line = ''abce '' then Some 7 else None, e), o_GetTickCount = \<lambda>e. 5000000,
     o_CreateWaitableTimer = \<lambda>e. (3, e), o_SetWaitableTimer = \<lambda>h t e. e, o_CreateThread = \<lambda>e. (0, e)\<rparr>"

lemma bscl_process_exec_overwrites_witness:
  "bscl_process_exec demo_win (replicate 1024 NUL) ''x'' [''abcd'', ''zz'', ''e''] () = Some (Some 7, ())"
proof -
  have "command_line [] 0 [''abcd'', ''zz'', ''e''] = ''abce ''"
    by simp
  then show ?thesis
    using bscl_process_exec_overwrites [of "[''abcd'', ''zz'', ''e'']" "replicate 1024 NUL" demo_win "()" "()" "''x''"]
    by (simp add: COMMAND_LEN_MAX_def demo_win_def)
qed

end
