(* ===== verification/Os_Posix.thy ===== *)
theory Os_Posix
  imports Prelude
begin

text \<open>
  What the headers for Linux and for Apple, \<open>include/linux\<close> and \<open>include/apple\<close>, do on top of POSIX: the macros for
  sleeping and for threads, and the lock with a timeout that does not exist. The calls of POSIX are a parameter \<open>W\<close>, a
  record of functions on a state of their own. The other macros of these headers are names for calls of
  POSIX; the semaphores and mutexes that the tasklets use are part of \<open>Tasklet\<close>.
\<close>

section \<open>The code\<close>

record thread_attr =
  stack_area :: nat
  stack_size :: nat
  attr_priority :: int

record 'e posix_os =
  px_usleep :: "u32 \<Rightarrow> 'e \<Rightarrow> int \<times> 'e"
  px_pthread_create :: "thread_attr option \<Rightarrow> nat \<Rightarrow> nat \<Rightarrow> 'e \<Rightarrow> (int \<times> nat) \<times> 'e"

text \<open>The value of an expression of type \<open>int\<close>, which is undefined outside its range.\<close>

definition c_int :: "int \<Rightarrow> int option" where
  "c_int n = (if - (2 ^ 31) \<le> n \<and> n < 2 ^ 31 then Some n else None)"

definition bscl_usleep_posix :: "'e posix_os \<Rightarrow> int \<Rightarrow> 'e \<Rightarrow> (int \<times> 'e) option" where
  "bscl_usleep_posix W us e = Some (px_usleep W (word_of_int us) e)"

definition bscl_msleep_posix :: "'e posix_os \<Rightarrow> int \<Rightarrow> 'e \<Rightarrow> (int \<times> 'e) option" where
  "bscl_msleep_posix W ms e = do { us \<leftarrow> c_int (ms * 1000); Some (px_usleep W (word_of_int us) e) }"

definition bscl_sleep_posix :: "'e posix_os \<Rightarrow> int \<Rightarrow> 'e \<Rightarrow> (int \<times> 'e) option" where
  "bscl_sleep_posix W s e = do { ms \<leftarrow> c_int (s * 1000); bscl_msleep_posix W ms e }"

definition bscl_mutex_timedlock_posix :: "'m \<Rightarrow> u32 \<Rightarrow> int" where
  "bscl_mutex_timedlock_posix mutex timeout_ms = -1"

definition bscl_thread_create_posix ::
    "'e posix_os \<Rightarrow> thread_attr option \<Rightarrow> nat \<Rightarrow> nat \<Rightarrow> 'e \<Rightarrow> (int \<times> nat) \<times> 'e" where
  "bscl_thread_create_posix W attr routine arg e = px_pthread_create W None routine arg e"

section \<open>Sleeping\<close>

text \<open>
  The microseconds are computed as an \<open>int\<close>, so that sleeping is defined up to 2147 seconds only; within that
  it sleeps as long as it is asked to, and a negative time becomes more than half an hour.
\<close>

lemma bscl_sleep_posix_defined: "bscl_sleep_posix W s e \<noteq> None \<longleftrightarrow> -2147 \<le> s \<and> s \<le> 2147"
  by (auto simp: bscl_sleep_posix_def bscl_msleep_posix_def c_int_def)

lemma unat_word_of_int_u32: "unat (word_of_int n :: u32) = nat (n mod 2 ^ 32)"
  by (simp add: unat_eq_nat_uint unsigned_of_int take_bit_eq_mod)

lemma bscl_sleep_posix_exact:
  assumes "0 \<le> s" and "s \<le> 2147"
  shows "\<exists>us. bscl_sleep_posix W s e = Some (px_usleep W us e) \<and> unat us = nat s * 1000000"
proof (intro exI conjI)
  show "bscl_sleep_posix W s e = Some (px_usleep W (word_of_int (s * 1000 * 1000)) e)"
    using assms by (simp add: bscl_sleep_posix_def bscl_msleep_posix_def c_int_def)
  have "s * 1000 * 1000 mod 2 ^ 32 = s * 1000000"
    using assms by simp
  then show "unat (word_of_int (s * 1000 * 1000) :: u32) = nat s * 1000000"
    unfolding unat_word_of_int_u32 using assms by (simp add: nat_mult_distrib)
qed

lemma bscl_sleep_posix_negative:
  assumes "-2147 \<le> s" and "s < 0"
  shows "\<exists>us. bscl_sleep_posix W s e = Some (px_usleep W us e) \<and> 2 ^ 31 \<le> unat us"
proof (intro exI conjI)
  show "bscl_sleep_posix W s e = Some (px_usleep W (word_of_int (s * 1000 * 1000)) e)"
    using assms by (simp add: bscl_sleep_posix_def bscl_msleep_posix_def c_int_def)
  have "s * 1000 * 1000 mod 2 ^ 32 = (s * 1000000 + 2 ^ 32) mod 2 ^ 32"
    by (simp add: mult.commute)
  also have "\<dots> = s * 1000000 + 2 ^ 32"
    using assms by (intro mod_pos_pos_trivial) simp_all
  finally show "2 ^ 31 \<le> unat (word_of_int (s * 1000 * 1000) :: u32)"
    unfolding unat_word_of_int_u32 using assms by simp
qed

end
