(* ===== verification/Task.thy ===== *)
theory Task
  imports Circular
begin

text \<open>
  The cooperative tasks of \<open>src/bscl_task.c\<close>, as far as the language defines what they do.

  \<open>setjmp\<close> stores the frame of the function that calls it, and \<open>longjmp\<close> to a frame whose
  function has returned is undefined. The model keeps the stack of the frames that are alive, each
  with a number of its own. A task and the list of a scheduler are cells of a heap; the address of a scheduler is
  that of its list. A null or dangling pointer is \<open>None\<close>.
\<close>

section \<open>Frames and jumps\<close>

record coop_task = link +
  tk_jumper :: "nat option"
  tk_routine :: addr
  tk_scheduler :: addr

record tasks =
  tk_cells :: "coop_task heap"
  tk_stack :: "nat list"
  tk_frames :: nat

text \<open>Calling a function of the library and returning from it.\<close>

definition enter :: "tasks \<Rightarrow> tasks" where
  "enter st = st\<lparr>tk_stack := tk_frames st # tk_stack st, tk_frames := Suc (tk_frames st)\<rparr>"

definition leave :: "tasks \<Rightarrow> tasks" where
  "leave st = st\<lparr>tk_stack := tl (tk_stack st)\<rparr>"

definition setjmp :: "tasks \<Rightarrow> addr \<Rightarrow> tasks option" where
  "setjmp st p = do {
     h \<leftarrow> assign (tk_cells st) p (\<lambda>c. c\<lparr>tk_jumper := Some (hd (tk_stack st))\<rparr>);
     Some (st\<lparr>tk_cells := h\<rparr>)
   }"

text \<open>Where a jump would go: nowhere that was ever stored, to a frame that is gone, or to one that is alive.\<close>

datatype jump = Never_Stored | Frame_Gone nat | Frame_Alive nat

definition jump_target :: "tasks \<Rightarrow> nat option \<Rightarrow> jump" where
  "jump_target st j =
     (case j of None \<Rightarrow> Never_Stored
      | Some f \<Rightarrow> if f \<in> set (tk_stack st) then Frame_Alive f else Frame_Gone f)"

section \<open>Operations\<close>

definition bscl_scheduler_new :: "coop_task allocator \<Rightarrow> tasks \<Rightarrow> (addr \<times> tasks) option" where
  "bscl_scheduler_new new st = do {
     (scheduler, x) \<leftarrow> new (tk_cells st);
     h \<leftarrow> bscl_list_init ((tk_cells st)(scheduler \<mapsto> x)) scheduler;
     Some (scheduler, st\<lparr>tk_cells := h\<rparr>)
   }"

definition bscl_task_new :: "coop_task allocator \<Rightarrow> addr \<Rightarrow> tasks \<Rightarrow> addr \<times> tasks" where
  "bscl_task_new new routine st =
     (case new (tk_cells st) of
        None \<Rightarrow> (0, st)
      | Some (task, x) \<Rightarrow> (task, st\<lparr>tk_cells := (tk_cells st)(task \<mapsto> x\<lparr>tk_routine := routine\<rparr>)\<rparr>))"

text \<open>The first return of \<open>setjmp\<close>, after which the function returns.\<close>

definition bscl_task_start :: "tasks \<Rightarrow> addr \<Rightarrow> addr \<Rightarrow> (int \<times> tasks) option" where
  "bscl_task_start st scheduler task =
     (let st = enter st in do {
        h \<leftarrow> bscl_list_insert_tail (tk_cells st) scheduler task;
        h \<leftarrow> assign h task (\<lambda>c. c\<lparr>tk_scheduler := scheduler\<rparr>);
        st \<leftarrow> setjmp (st\<lparr>tk_cells := h\<rparr>) task;
        Some (0, leave st)
      })"

text \<open>
  The first pass over the list: without a task it ends, and the function sleeps and begins again;
  otherwise it jumps to the first task, with the target of the jump.
\<close>

datatype scheduler_pass = Pass_End | Pass_Jump addr jump

definition bscl_scheduler_start :: "tasks \<Rightarrow> addr \<Rightarrow> scheduler_pass option" where
  "bscl_scheduler_start st scheduler =
     (let st = enter st in do {
        task \<leftarrow> get_next (tk_cells st) scheduler;
        if task = scheduler then Some Pass_End
        else do {
          st \<leftarrow> setjmp st scheduler;
          c \<leftarrow> deref (tk_cells st) task;
          Some (Pass_Jump task (jump_target st (tk_jumper c)))
        }
      })"

text \<open>
  A task gives up its turn: the frame it stores is that of this call, and then it jumps to the frame that the
  scheduler has stored. The stack after the jump is what lies under that frame, with it.
\<close>

definition bscl_task_yeild :: "tasks \<Rightarrow> addr \<Rightarrow> (jump \<times> tasks) option" where
  "bscl_task_yeild st task =
     (let st = enter st in do {
        st \<leftarrow> setjmp st task;
        t \<leftarrow> deref (tk_cells st) task;
        s \<leftarrow> deref (tk_cells st) (tk_scheduler t);
        Some (jump_target st (tk_jumper s), st)
      })"

definition longjmp :: "tasks \<Rightarrow> nat \<Rightarrow> tasks" where
  "longjmp st f = st\<lparr>tk_stack := dropWhile (\<lambda>g. g \<noteq> f) (tk_stack st)\<rparr>"

section \<open>Started tasks\<close>

text \<open>A program that makes and starts one task for each of the routines; the result is the tasks in order.\<close>

fun start_tasks :: "coop_task allocator \<Rightarrow> addr \<Rightarrow> addr list \<Rightarrow> tasks \<Rightarrow> (addr list \<times> tasks) option" where
  "start_tasks new scheduler [] st = Some ([], st)"
| "start_tasks new scheduler (routine # routines) st = do {
     let (task, st) = bscl_task_new new routine st;
     (r, st) \<leftarrow> bscl_task_start st scheduler task;
     (ts, st) \<leftarrow> start_tasks new scheduler routines st;
     Some (task # ts, st)
   }"

text \<open>
  The frame that the jump buffer of a task holds. The tasks of the list hold the frames \<open>fs\<close>, none of which is
  on the stack any more.
\<close>

definition stored_frame :: "tasks \<Rightarrow> addr \<Rightarrow> nat option option" where
  "stored_frame st x = map_option tk_jumper (tk_cells st x)"

definition gone :: "tasks \<Rightarrow> nat \<Rightarrow> bool" where
  "gone st f \<longleftrightarrow> f < tk_frames st \<and> f \<notin> set (tk_stack st)"

definition tasks_ok :: "tasks \<Rightarrow> addr \<Rightarrow> addr list \<Rightarrow> nat list \<Rightarrow> bool" where
  "tasks_ok st scheduler xs fs \<longleftrightarrow> circle (tk_cells st) scheduler xs
     \<and> map (stored_frame st) xs = map (\<lambda>f. Some (Some f)) fs \<and> (\<forall>f \<in> set fs. gone st f)
     \<and> (\<forall>f \<in> set (tk_stack st). f < tk_frames st)"

lemma rest_jumper:
  "rest h' x = rest h x \<Longrightarrow> map_option tk_jumper (h' x) = map_option (tk_jumper :: coop_task \<Rightarrow> nat option) (h x)"
proof -
  assume r: "rest h' x = rest h x"
  show ?thesis
  proof (cases "h x")
    case None
    then show ?thesis using r by (simp add: rest_def)
  next
    case (Some c)
    then obtain c' where "h' x = Some c'" "link.more c' = link.more c"
      using r by (auto simp: rest_def)
    then show ?thesis
      using Some by (cases c; cases c') simp
  qed
qed

lemma new_task_ok:
  assumes "fresh_allocator new" and "tasks_ok st scheduler xs fs" and "bscl_task_new new routine st = (task, st')"
    and "task \<noteq> 0"
  shows "tasks_ok st' scheduler xs fs" and "tk_cells st' task \<noteq> None" and "task \<notin> set (scheduler # xs)"
    and "tk_stack st' = tk_stack st" "tk_frames st' = tk_frames st"
proof -
  obtain x where new: "new (tk_cells st) = Some (task, x)"
      and st': "st' = st\<lparr>tk_cells := (tk_cells st)(task \<mapsto> x\<lparr>tk_routine := routine\<rparr>)\<rparr>"
    using assms(3,4) by (auto simp: bscl_task_new_def split: option.splits)
  have c: "circle (tk_cells st) scheduler xs"
    using assms(2) by (simp add: tasks_ok_def)
  show fresh: "task \<notin> set (scheduler # xs)"
    using circle_dom [OF c] fresh_allocatorD(2) [OF assms(1) new] by blast
  have "circle (tk_cells st') scheduler xs"
    using fresh by (intro circle_same [OF c]) (auto simp: st')
  moreover have "map (stored_frame st') xs = map (stored_frame st) xs"
    using fresh by (auto simp: stored_frame_def st')
  moreover show stack: "tk_stack st' = tk_stack st" "tk_frames st' = tk_frames st"
    by (simp_all add: st')
  ultimately show "tasks_ok st' scheduler xs fs"
    using assms(2) unfolding tasks_ok_def gone_def stack by metis
  show "tk_cells st' task \<noteq> None"
    by (simp add: st')
qed

lemma start_task_ok:
  assumes "tasks_ok st scheduler xs fs" and "task \<noteq> 0" and "tk_cells st task \<noteq> None"
    and "task \<notin> set (scheduler # xs)"
  shows "\<exists>st'. bscl_task_start st scheduler task = Some (0, st')
    \<and> tasks_ok st' scheduler (xs @ [task]) (fs @ [tk_frames st])
    \<and> tk_stack st' = tk_stack st \<and> tk_frames st' = Suc (tk_frames st)"
proof -
  have c: "circle (tk_cells st) scheduler xs"
    using assms(1) by (simp add: tasks_ok_def)
  obtain h where h: "bscl_list_insert_tail (tk_cells st) scheduler task = Some h" "circle h scheduler (xs @ [task])"
      "\<forall>p. rest h p = rest (tk_cells st) p" "\<forall>p. h p = None \<longleftrightarrow> tk_cells st p = None"
    using insert_tail_circle [OF c assms(2,4,3)] by blast
  obtain y where y: "h task = Some y"
    using h(4) assms(3) by (metis not_None_eq)
  let ?y = "y\<lparr>tk_scheduler := scheduler, tk_jumper := Some (tk_frames st)\<rparr>"
  let ?st = "st\<lparr>tk_frames := Suc (tk_frames st), tk_cells := h(task \<mapsto> ?y)\<rparr>"
  have "bscl_task_start st scheduler task = Some (0, ?st)"
    using h(1) y assms(2)
    by (simp add: bscl_task_start_def enter_def leave_def setjmp_def assign_def deref_def)
  moreover have "circle (h(task \<mapsto> ?y)) scheduler (xs @ [task])"
    by (rule circle_frame [OF h(2)]) (auto simp: link_simps y nxt_def prv_def)
  moreover have "stored_frame ?st x = stored_frame st x" if "x \<in> set xs" for x
    using that assms(4) rest_jumper [of h x "tk_cells st"] h(3) by (auto simp: stored_frame_def)
  then have "map (stored_frame ?st) (xs @ [task]) = map (\<lambda>f. Some (Some f)) (fs @ [tk_frames st])"
    using assms(1) by (simp add: tasks_ok_def stored_frame_def cong: map_cong)
  moreover have "\<forall>f \<in> set (fs @ [tk_frames st]). gone ?st f"
    using assms(1) by (auto simp: tasks_ok_def gone_def)
  ultimately show ?thesis
    using assms(1) by (auto simp: tasks_ok_def less_SucI)
qed

lemma start_tasks_ok:
  assumes "fresh_allocator new"
  shows "tasks_ok st scheduler xs fs \<Longrightarrow> start_tasks new scheduler routines st = Some (ts, st')
    \<Longrightarrow> tasks_ok st' scheduler (xs @ ts) (fs @ [tk_frames st..<tk_frames st + length routines])
      \<and> length ts = length routines"
proof (induction routines arbitrary: st xs fs ts)
  case (Cons routine routines)
  obtain task st1 where new: "bscl_task_new new routine st = (task, st1)"
    by (cases "bscl_task_new new routine st")
  obtain r st2 ts' where start: "bscl_task_start st1 scheduler task = Some (r, st2)"
      and rest: "start_tasks new scheduler routines st2 = Some (ts', st')" and ts: "ts = task # ts'"
    using Cons.prems(2) new by (auto split: Option.bind_splits)
  have "bscl_task_start st1 scheduler 0 = None"
    by (auto simp: bscl_task_start_def Let_def assign_def deref_def bind_eq_None_conv)
  then have "task \<noteq> 0"
    using start by (cases "task = 0") simp_all
  note ok = new_task_ok [OF assms Cons.prems(1) new this]
  obtain st2' where "bscl_task_start st1 scheduler task = Some (0, st2')"
      "tasks_ok st2' scheduler (xs @ [task]) (fs @ [tk_frames st1])" "tk_frames st2' = Suc (tk_frames st1)"
    using start_task_ok [OF ok(1) \<open>task \<noteq> 0\<close> ok(2,3)] by blast
  then have "tasks_ok st2 scheduler (xs @ [task]) (fs @ [tk_frames st])" "tk_frames st2 = Suc (tk_frames st)"
    using start ok(5) by simp_all
  then show ?case
    using Cons.IH [of st2 "xs @ [task]" "fs @ [tk_frames st]" ts'] rest ts
    by (simp add: upt_conv_Cons del: upt_Suc)
qed simp

lemma new_scheduler_ok:
  assumes "fresh_allocator new" and "\<forall>f \<in> set (tk_stack st). f < tk_frames st"
    and "bscl_scheduler_new new st = Some (scheduler, st')"
  shows "tasks_ok st' scheduler [] []"
proof -
  obtain x where new: "new (tk_cells st) = Some (scheduler, x)"
    using assms(3) by (auto simp: bscl_scheduler_new_def split: Option.bind_splits)
  then have "scheduler \<noteq> 0"
    using fresh_allocatorD(1) [OF assms(1)] by blast
  then obtain h where "bscl_list_init ((tk_cells st)(scheduler \<mapsto> x)) scheduler = Some h" "circle h scheduler []"
    using list_init_circle [of scheduler "(tk_cells st)(scheduler \<mapsto> x)"] by auto
  then show ?thesis
    using assms(2,3) new by (auto simp: bscl_scheduler_new_def tasks_ok_def)
qed

text \<open>
  C40: However many tasks a program starts, the jump buffer of each of them holds the frame of its own
  call of \<open>bscl_task_start\<close>: frames are numbered as they are entered, so the calls have the numbers from
  \<open>tk_frames st1\<close> on. All of these calls have returned, so none of the frames is alive. The scheduler's first
  jump is to the first task and into the first of these frames, which is undefined. Without a task the
  scheduler sleeps.
\<close>

theorem bscl_scheduler_jumps_to_dead_frame:
  assumes "fresh_allocator new" and "\<forall>f \<in> set (tk_stack st). f < tk_frames st"
    and "bscl_scheduler_new new st = Some (scheduler, st1)"
    and "start_tasks new scheduler routines st1 = Some (ts, st2)"
  shows "bscl_scheduler_start st2 scheduler
      = Some (if routines = [] then Pass_End else Pass_Jump (hd ts) (Frame_Gone (tk_frames st1)))
    \<and> map (stored_frame st2) ts = map (\<lambda>f. Some (Some f)) [tk_frames st1..<tk_frames st1 + length routines]
    \<and> list_all (gone st2) [tk_frames st1..<tk_frames st1 + length routines]"
proof -
  have ok: "tasks_ok st2 scheduler ts [tk_frames st1..<tk_frames st1 + length routines]"
      and len: "length ts = length routines"
    using start_tasks_ok [OF assms(1) new_scheduler_ok [OF assms(1-3)] assms(4)] by simp_all
  have c: "circle (tk_cells st2) scheduler ts"
    and frames: "map (stored_frame st2) ts = map (\<lambda>f. Some (Some f)) [tk_frames st1..<tk_frames st1 + length routines]"
      "list_all (gone st2) [tk_frames st1..<tk_frames st1 + length routines]"
    using ok by (simp_all add: tasks_ok_def list_all_iff)
  have "bscl_scheduler_start st2 scheduler
      = Some (if routines = [] then Pass_End else Pass_Jump (hd ts) (Frame_Gone (tk_frames st1)))"
  proof (cases ts)
    case Nil
    then show ?thesis
      using circle_start [OF c] len by (simp add: bscl_scheduler_start_def enter_def)
  next
    case (Cons t ts')
    have t: "t \<noteq> 0" "t \<noteq> scheduler" "scheduler \<noteq> 0"
      using circle_distinct [OF c] Cons by auto
    obtain s where s: "tk_cells st2 scheduler = Some s"
      using circle_dom [OF c, of scheduler] by auto
    have first: "stored_frame st2 t = Some (Some (tk_frames st1))" "gone st2 (tk_frames st1)"
      using frames len Cons upt_conv_Cons [of "tk_frames st1" "tk_frames st1 + length routines"]
      by (cases routines; simp del: upt_Suc)+
    then obtain y where y: "tk_cells st2 t = Some y" "tk_jumper y = Some (tk_frames st1)"
      by (auto simp: stored_frame_def)
    show ?thesis
      using circle_start [OF c] Cons t s y len first(2)
      by (auto simp: bscl_scheduler_start_def enter_def setjmp_def assign_def deref_def jump_target_def gone_def)
  qed
  with frames show ?thesis
    by blast
qed

text \<open>
  Giving up the turn fails in the same way: the jump to the scheduler ends the call whose frame the task
  has stored, so that the next jump to the task would be undefined, too.
\<close>

lemma task_yeild_leaves_dead_frame:
  assumes "bscl_task_yeild st task = Some (Frame_Alive f, st1)" and "\<forall>g \<in> set (tk_stack st). g < tk_frames st"
    and "f \<noteq> tk_frames st"
  shows "\<exists>g. stored_frame (longjmp st1 f) task = Some (Some g) \<and> gone (longjmp st1 f) g"
proof -
  let ?g = "tk_frames st"
  have "tk_stack st1 = ?g # tk_stack st" "tk_frames st1 = Suc ?g"
      "map_option tk_jumper (tk_cells st1 task) = Some (Some ?g)"
    using assms(1) by (auto simp: bscl_task_yeild_def enter_def setjmp_def assign_def deref_def Let_def
      split: Option.bind_splits if_splits)
  then show ?thesis
    using assms(2,3) by (auto simp: stored_frame_def gone_def longjmp_def dest!: set_dropWhileD)
qed

section \<open>Two tasks\<close>

definition demo_cells :: "coop_task allocator" where
  "demo_cells h = map_option (\<lambda>p. (p, \<lparr>l_next = 0, l_prev = 0, tk_jumper = None, tk_routine = 0, tk_scheduler = 0\<rparr>))
     (if h 1 = None then Some 1 else if h 2 = None then Some 2 else if h 3 = None then Some 3 else None)"

definition in_main :: tasks where
  "in_main = \<lparr>tk_cells = \<lambda>p. None, tk_stack = [0], tk_frames = 1\<rparr>"

lemma demo_cells_fresh: "fresh_allocator demo_cells"
  by (auto simp: fresh_allocator_def demo_cells_def split: if_splits)

lemma bscl_scheduler_jumps_to_dead_frame_witness:
  "\<exists>st1 st2. bscl_scheduler_new demo_cells in_main = Some (1, st1)
    \<and> start_tasks demo_cells 1 [70, 80] st1 = Some ([2, 3], st2)
    \<and> bscl_scheduler_start st2 1 = Some (Pass_Jump 2 (Frame_Gone 1))"
proof -
  let ?cell = "\<lambda>n p. \<lparr>l_next = n, l_prev = p, tk_jumper = None, tk_routine = 0, tk_scheduler = 0\<rparr>"
  let ?task = "\<lambda>n p j r. \<lparr>l_next = n, l_prev = p, tk_jumper = Some j, tk_routine = r, tk_scheduler = 1\<rparr>"
  let ?st1 = "\<lparr>tk_cells = [1 \<mapsto> ?cell 1 1], tk_stack = [0], tk_frames = 1\<rparr>"
  let ?st2 = "\<lparr>tk_cells = [1 \<mapsto> ?cell 2 3, 2 \<mapsto> ?task 3 1 1 70, 3 \<mapsto> ?task 1 2 2 80], tk_stack = [0], tk_frames = 3\<rparr>"
  have st1: "bscl_scheduler_new demo_cells in_main = Some (1, ?st1)"
    by (simp add: bscl_scheduler_new_def demo_cells_def in_main_def bscl_list_init_def link_simps upd_next_def upd_prev_def)
  have st2: "start_tasks demo_cells 1 [70, 80] ?st1 = Some ([2, 3], ?st2)"
    by (simp add: bscl_task_new_def demo_cells_def bscl_task_start_def enter_def leave_def setjmp_def assign_def
      deref_def bscl_list_insert_tail_def bscl_list_head_insert_prev_def link_simps upd_next_def upd_prev_def prv_def
      nxt_def fun_upd_twist numeral_2_eq_2)
  show ?thesis
    using bscl_scheduler_jumps_to_dead_frame [OF demo_cells_fresh _ st1 st2] st1 st2 by (auto simp: in_main_def)
qed

end
