(* ===== verification/Tools.thy ===== *)
theory Tools
  imports Md5 Tea
begin

text \<open>
  The command line tools \<open>src/tools/md5/main.c\<close> and \<open>src/tools/encryptor/main.c\<close> over the library.

  A file is the list of its bytes, and \<open>files\<close> gives the files by their names. A result is the exit code
  with the output or the files; using a null stream is \<open>None\<close>.
\<close>

definition BUF_LEN :: nat where "BUF_LEN = 1024"

section \<open>The digest of a file\<close>

text \<open>
  \<open>while (!feof(fp))\<close>: a read that gets less than it asks for is at the end. \<open>rest\<close> is what is
  still to be read.
\<close>

function md5_file_loop :: "bscl_md5_context_t \<Rightarrow> u8 list \<Rightarrow> bscl_md5_context_t option" where
  "md5_file_loop ctx rest =
     (let buf = take BUF_LEN rest; len = length buf in
      case (if 0 < len then bscl_md5_accumulate ctx buf (word_of_nat len) else Some ctx) of
        None \<Rightarrow> None
      | Some ctx \<Rightarrow> if len < BUF_LEN then Some ctx else md5_file_loop ctx (drop BUF_LEN rest))"
  by pat_completeness auto

termination
  by (relation "measure (\<lambda>(ctx, rest). length rest)") (auto simp: BUF_LEN_def)

declare md5_file_loop.simps [simp del]

definition hex_byte :: "u8 \<Rightarrow> string" where
  "hex_byte b = [''0123456789abcdef'' ! (unat b div 16), ''0123456789abcdef'' ! (unat b mod 16)]"

text \<open>\<open>ctx\<close> is what the uninitialised context holds.\<close>

definition md5_main :: "bscl_md5_context_t \<Rightarrow> (string \<Rightarrow> u8 list option) \<Rightarrow> string list \<Rightarrow> (int \<times> string) option" where
  "md5_main ctx files argv =
     (if length argv < 2 then None
      else do {
        bytes \<leftarrow> files (argv ! 1);
        ctx \<leftarrow> md5_file_loop (bscl_md5_init ctx) bytes;
        (digest, ctx) \<leftarrow> bscl_md5_finish ctx;
        Some (0, concat (map (\<lambda>b. hex_byte b @ '' '') digest) @ [CHR 0x0A])
      })"

text \<open>The pieces that the file is read in.\<close>

function pieces :: "u8 list \<Rightarrow> u8 list list" where
  "pieces rest = (if rest = [] then [] else take BUF_LEN rest # pieces (drop BUF_LEN rest))"
  by pat_completeness auto

termination
  by (relation "measure length") (auto simp: BUF_LEN_def)

declare pieces.simps [simp del]

lemma concat_pieces: "concat (pieces bs) = bs"
proof (induction bs rule: pieces.induct)
  case (1 bs)
  then show ?case by (subst pieces.simps) simp
qed

lemma pieces_short: "xs \<in> set (pieces bs) \<Longrightarrow> length xs \<le> 1024"
proof (induction bs rule: pieces.induct)
  case (1 bs)
  then show ?case
    by (subst (asm) pieces.simps) (auto simp: BUF_LEN_def split: if_splits)
qed

lemma md5_file_loop_pieces: "md5_file_loop ctx bs = md5_accumulate_all ctx (pieces bs)"
proof (induction ctx bs rule: md5_file_loop.induct)
  case (1 ctx bs)
  show ?case
  proof (cases "bs = []")
    case True
    then show ?thesis
      by (simp add: md5_file_loop.simps [of ctx "[]"] pieces.simps [of "[]"] BUF_LEN_def)
  next
    case False
    let ?buf = "take BUF_LEN bs"
    have nonempty: "0 < length ?buf"
      using False by (simp add: BUF_LEN_def)
    have last: "pieces (drop BUF_LEN bs) = []" if "length ?buf < BUF_LEN"
      using that by (simp add: pieces.simps [of "[]"])
    show ?thesis
    proof (cases "bscl_md5_accumulate ctx ?buf (word_of_nat (length ?buf))")
      case None
      then show ?thesis
        using False nonempty by (simp add: md5_file_loop.simps [of ctx bs] pieces.simps [of bs] Let_def)
    next
      case (Some ctx')
      then show ?thesis
        using False nonempty last 1 [OF refl refl, of ctx']
        by (simp add: md5_file_loop.simps [of ctx bs] pieces.simps [of bs] Let_def)
    qed
  qed
qed

text \<open>
  C39: The tool prints the MD5 digest of the whole file, two hexadecimal digits for each byte, for a file
  of any length.
\<close>

theorem md5_main_prints_digest:
  assumes "length (md5_buffer ctx) = 64" and "files name = Some bytes"
  shows "md5_main ctx files [prog, name]
    = Some (0, concat (map (\<lambda>b. hex_byte b @ '' '') (md5_reference bytes)) @ [CHR 0x0A])"
proof -
  have "\<forall>xs \<in> set (pieces bytes). length xs + 63 < 2 ^ 32"
    using pieces_short [of _ bytes] by fastforce
  from md5_digest_of_pieces [OF assms(1) this] show ?thesis
    using assms(2) by (auto simp: md5_main_def md5_file_loop_pieces concat_pieces)
qed

lemma md5_main_prints_digest_witness:
  "md5_main \<lparr>md5_state = [], md5_count = (0, 0), md5_buffer = replicate 64 0\<rparr> [''f'' \<mapsto> [97, 98, 99]] [''md5'', ''f'']
    = Some (0, concat (map (\<lambda>b. hex_byte b @ '' '') (md5_reference [97, 98, 99])) @ [CHR 0x0A])"
  by (rule md5_main_prints_digest) simp_all

section \<open>Encrypting a file\<close>

text \<open>The chunks are encrypted in place; one whose length is no multiple of eight is refused and stays as it is.\<close>

function encryptor_loop :: "u8 list \<Rightarrow> u8 list option" where
  "encryptor_loop rest =
     (let buf = take BUF_LEN rest; len = length buf in
      case (if 0 < len then map_option snd (bscl_encryptData buf (word_of_nat len)) else Some []) of
        None \<Rightarrow> None
      | Some buf \<Rightarrow> if len < BUF_LEN then Some buf else map_option ((@) buf) (encryptor_loop (drop BUF_LEN rest)))"
  by pat_completeness auto

termination
  by (relation "measure length") (auto simp: BUF_LEN_def)

declare encryptor_loop.simps [simp del]

text \<open>
  Both streams are opened on the input: the second empties it. \<open>head\<close> is what the uninitialised head
  holds. What is written reaches the file when the stream is closed, as the output is shorter than
  the buffer of a stream.
\<close>

definition encryptor_main ::
    "u8 list \<Rightarrow> (string \<Rightarrow> u8 list option) \<Rightarrow> string list \<Rightarrow> (int \<times> (string \<Rightarrow> u8 list option)) option" where
  "encryptor_main head files argv =
     (if length argv < 2 then Some (-1, files)
      else let iname = argv ! 1 in
        case files iname of
          None \<Rightarrow> Some (-1, files)
        | Some bytes \<Rightarrow> do {
            let files = files(iname \<mapsto> []);
            rest \<leftarrow> files iname;
            out \<leftarrow> encryptor_loop rest;
            Some (0, files(iname \<mapsto> head @ out))
          })"

text \<open>Whatever the input holds, it is lost: only the uninitialised head is left, and no other file is written.\<close>

lemma encryptor_main_loses_input:
  assumes "files iname = Some bytes"
  shows "encryptor_main head files (prog # iname # argv) = Some (0, files(iname \<mapsto> head))"
  using assms by (simp add: encryptor_main_def encryptor_loop.simps [of "[]"] BUF_LEN_def)

end
