(* ===== verification/Log.thy ===== *)
theory Log
  imports Cstring "HOL-Library.Char_ord" "HOL-Library.Product_Lexorder"
begin

text \<open>
  The logging macros of \<open>include/bscl_log.h\<close>: a line with the time before it. The text of the
  message is what \<open>fprintf\<close> makes of its arguments. A log is what was written to its file; \<open>None\<close> is the null
  pointer. \<open>localtime\<close> may give a null pointer, too.
\<close>

section \<open>The code\<close>

record tm =
  tm_year :: int
  tm_mon :: int
  tm_mday :: int
  tm_hour :: int
  tm_min :: int
  tm_sec :: int

text \<open>\<open>%0wd\<close>\<close>

definition pad_zero :: "nat \<Rightarrow> string \<Rightarrow> string" where
  "pad_zero w s = replicate (w - length s) (digit 0) @ s"

definition print_int :: "nat \<Rightarrow> int \<Rightarrow> string" where
  "print_int w n = (if n < 0 then CHR ''-'' # pad_zero (w - 1) (dec (nat (- n))) else pad_zero w (dec (nat n)))"

definition log_stamp :: "tm \<Rightarrow> string" where
  "log_stamp p = ''['' @ print_int 4 (1900 + tm_year p) @ print_int 2 (1 + tm_mon p) @ print_int 2 (tm_mday p) @ '' ''
     @ print_int 2 (tm_hour p) @ '':'' @ print_int 2 (tm_min p) @ '':'' @ print_int 2 (tm_sec p) @ '']''"

text \<open>\<open>fopen(name, "w+")\<close> empties the file.\<close>

definition bscl_logger_new :: "bool \<Rightarrow> string option" where
  "bscl_logger_new opened = (if opened then Some [] else None)"

definition BSCL_LOG_release :: "string option \<Rightarrow> tm option \<Rightarrow> string \<Rightarrow> string option option" where
  "BSCL_LOG_release logger timep msg = do {
     log \<leftarrow> logger;
     p \<leftarrow> timep;
     Some (Some (log @ log_stamp p @ msg @ [CHR 0x0A]))
   }"

definition BSCL_LOG_debug :: "string option \<Rightarrow> tm option \<Rightarrow> string \<Rightarrow> string \<Rightarrow> nat \<Rightarrow> string option option" where
  "BSCL_LOG_debug logger timep msg file line = do {
     log \<leftarrow> logger;
     p \<leftarrow> timep;
     Some (Some (log @ log_stamp p @ msg @ '' '' @ file @ '','' @ dec line @ ''.'' @ [CHR 0x0A]))
   }"

section \<open>Numbers of a fixed width\<close>

lemma digits_value_foldl:
  "foldl (\<lambda>n c. 10 * n + (of_char c - 48)) a ds = a * 10 ^ length ds + digits_value ds" for a :: nat
proof (induction ds arbitrary: a)
  case (Cons d ds)
  have "digits_value (d # ds) = (of_char d - 48) * 10 ^ length ds + digits_value ds"
    using Cons.IH [of "of_char d - 48"] unfolding digits_value_def by simp
  then show ?case
    by (simp add: Cons.IH distrib_right)
qed (simp add: digits_value_def)

lemma digits_value_Cons: "digits_value (d # ds) = (of_char d - 48) * 10 ^ length ds + digits_value ds"
  using digits_value_foldl [of "of_char d - 48" ds] by (simp add: digits_value_def)

lemma digits_value_less: "list_all isdigit ds \<Longrightarrow> digits_value ds < 10 ^ length ds"
proof (induction ds)
  case (Cons d ds)
  then have "of_char d - 48 \<le> (9 :: nat)" and "digits_value ds < 10 ^ length ds"
    by (auto simp: isdigit_def)
  then have "(of_char d - 48) * 10 ^ length ds + digits_value ds < 9 * 10 ^ length ds + 10 ^ length ds"
    by (intro add_le_less_mono mult_right_mono) simp_all
  then show ?case
    by (simp add: digits_value_Cons)
qed (simp add: digits_value_def)

lemma less_scaled:
  fixes a b k x y :: nat
  assumes "a < b" and "x < k"
  shows "a * k + x < b * k + y"
  using assms mult_le_mono1 [of "Suc a" b k] by simp

text \<open>On digit strings of one length the order of dictionaries is that of the numbers.\<close>

lemma lexordp_digits:
  "length xs = length ys \<Longrightarrow> list_all isdigit xs \<Longrightarrow> list_all isdigit ys \<Longrightarrow>
    ord_class.lexordp xs ys \<longleftrightarrow> digits_value xs < digits_value ys"
proof (induction xs ys rule: list_induct2)
  case (Cons x xs y ys)
  let ?k = "10 ^ length ys :: nat"
  have small: "digits_value xs < ?k" "digits_value ys < ?k"
    using Cons digits_value_less [of xs] digits_value_less [of ys] by simp_all
  have d: "48 \<le> (of_char x :: nat)" "48 \<le> (of_char y :: nat)"
    using Cons.prems by (simp_all add: isdigit_def)
  consider "x < y" "of_char x - 48 < (of_char y - 48 :: nat)" | "y < x" "of_char y - 48 < (of_char x - 48 :: nat)"
    | "x = y"
    using d by (metis diff_less_mono less_char_def linorder_neqE)
  then show ?case
  proof cases
    case 1
    then show ?thesis
      using less_scaled [OF 1(2) small(1), of "digits_value ys"] Cons.hyps by (simp add: digits_value_Cons)
  next
    case 2
    then have "\<not> x < y" and "x \<noteq> y"
      by auto
    then show ?thesis
      using less_scaled [OF 2(2) small(2), of "digits_value xs"] 2(1) Cons.hyps by (simp add: digits_value_Cons)
  next
    case 3
    then show ?thesis
      using Cons by (simp add: digits_value_Cons)
  qed
qed simp

lemma pad_zero_digits:
  assumes "n < 10 ^ w" and "0 < w"
  shows "length (pad_zero w (dec n)) = w" and "list_all isdigit (pad_zero w (dec n))"
    and "digits_value (pad_zero w (dec n)) = n"
proof -
  have zeros: "digits_value (replicate k (digit 0) @ ds) = digits_value ds" for k ds
    by (induction k) (simp_all add: digits_value_Cons digit_def of_char_of)
  show "length (pad_zero w (dec n)) = w"
    using length_dec [OF assms] by (simp add: pad_zero_def)
  show "list_all isdigit (pad_zero w (dec n))"
    using dec_isdigit [of n] isdigit_digit [of 0] by (auto simp: pad_zero_def list_all_iff)
  show "digits_value (pad_zero w (dec n)) = n"
    by (simp add: pad_zero_def zeros) (simp add: digits_value_def foldl_digits)
qed

lemma lexordp_pad_zero:
  assumes "n < 10 ^ w" and "m < 10 ^ w" and "0 < w"
  shows "ord_class.lexordp (pad_zero w (dec n)) (pad_zero w (dec m)) \<longleftrightarrow> n < m"
    and "pad_zero w (dec n) = pad_zero w (dec m) \<longleftrightarrow> n = m"
proof -
  note n = pad_zero_digits [OF assms(1,3)] and m = pad_zero_digits [OF assms(2,3)]
  show "ord_class.lexordp (pad_zero w (dec n)) (pad_zero w (dec m)) \<longleftrightarrow> n < m"
    using lexordp_digits [OF _ n(2) m(2)] n m by simp
  show "pad_zero w (dec n) = pad_zero w (dec m) \<longleftrightarrow> n = m"
    using n(3) m(3) by metis
qed

lemma lexordp_append:
  fixes xs :: "'a::linorder list"
  shows "length xs = length ys \<Longrightarrow>
    ord_class.lexordp (xs @ us) (ys @ vs) \<longleftrightarrow> ord_class.lexordp xs ys \<or> xs = ys \<and> ord_class.lexordp us vs"
  by (induction xs ys rule: list_induct2) auto

section \<open>The order of the lines\<close>

definition valid_tm :: "tm \<Rightarrow> bool" where
  "valid_tm p \<longleftrightarrow> 0 \<le> 1900 + tm_year p \<and> 1900 + tm_year p < 10000 \<and> 0 \<le> tm_mon p \<and> tm_mon p < 12
     \<and> 1 \<le> tm_mday p \<and> tm_mday p < 32 \<and> 0 \<le> tm_hour p \<and> tm_hour p < 24 \<and> 0 \<le> tm_min p \<and> tm_min p < 60
     \<and> 0 \<le> tm_sec p \<and> tm_sec p < 62"

text \<open>The time as it is ordered: the year first, the second last.\<close>

definition tm_key :: "tm \<Rightarrow> int \<times> int \<times> int \<times> int \<times> int \<times> int" where
  "tm_key p = (tm_year p, tm_mon p, tm_mday p, tm_hour p, tm_min p, tm_sec p)"

lemma length_print_int: "0 \<le> n \<Longrightarrow> n < 10 ^ w \<Longrightarrow> 0 < w \<Longrightarrow> length (print_int w n) = w"
  by (simp add: print_int_def pad_zero_digits nat_less_iff)

lemma print_int_order:
  assumes "0 \<le> n" and "n < 10 ^ w" and "0 \<le> m" and "m < 10 ^ w" and "0 < w"
  shows "ord_class.lexordp (print_int w n) (print_int w m) \<longleftrightarrow> n < m" and "print_int w n = print_int w m \<longleftrightarrow> n = m"
proof -
  have "nat n < 10 ^ w" and "nat m < 10 ^ w"
    using assms by (simp_all add: nat_less_iff)
  then show "ord_class.lexordp (print_int w n) (print_int w m) \<longleftrightarrow> n < m"
    and "print_int w n = print_int w m \<longleftrightarrow> n = m"
    using assms by (auto simp: print_int_def lexordp_pad_zero)
qed

text \<open>
  The stamps of two valid times have the same length, and their order as strings is the
  order of the times, so that a log is in the order of time exactly when its lines are sorted by their stamps.
\<close>

lemma log_stamps_ordered:
  assumes "valid_tm p" and "valid_tm q"
  shows "length (log_stamp p) = length (log_stamp q)
    \<and> (ord_class.lexordp (log_stamp p) (log_stamp q) \<longleftrightarrow> tm_key p < tm_key q)"
  using assms
  by (simp add: log_stamp_def valid_tm_def tm_key_def length_print_int print_int_order lexordp_append) linarith

lemma log_stamps_ordered_witness:
  "ord_class.lexordp (log_stamp \<lparr>tm_year = 121, tm_mon = 11, tm_mday = 31, tm_hour = 23, tm_min = 59, tm_sec = 60\<rparr>)
    (log_stamp \<lparr>tm_year = 122, tm_mon = 0, tm_mday = 1, tm_hour = 0, tm_min = 0, tm_sec = 0\<rparr>)"
  using log_stamps_ordered [of "\<lparr>tm_year = 121, tm_mon = 11, tm_mday = 31, tm_hour = 23, tm_min = 59, tm_sec = 60\<rparr>"
    "\<lparr>tm_year = 122, tm_mon = 0, tm_mday = 1, tm_hour = 0, tm_min = 0, tm_sec = 0\<rparr>"]
  by (simp add: valid_tm_def tm_key_def)

end
