(* ===== verification/Spec2Isabelle.thy ===== *)
theory Spec2Isabelle
  imports Crc Buffer Ringbuffer Packet_Parse Packet_Receive Tea Md5 Sort Bheap Vector
    Linked_List Hashmap Bstree Rbtree Getopt Tasklet Url
    Ftpd_Session Http Json Wav Network
    Timer Timer_Win32 Fs_Win32 Fs_Linux Sterm Os_Win32 Os_Posix Task Tools Log
begin

text \<open>
  A verification library for bscl, a C library of data structures, codecs, protocols and wrappers
  of the operating system.

  \<^bold>\<open>How the code is modelled\<close>. A C function is a HOL function of the same name, which takes and returns the
  state it works on. \<open>None\<close> is a call that does not return normally: an access out of bounds or through a null
  or dangling pointer, a failed assertion, a loop without an end. What the code itself reports is a value. Integers
  have their width as words where they can overflow. A memory block is the list of its bytes, a C string
  the list of its characters, and linked structures live in a heap from addresses to nodes (\<open>Links\<close>).
  Loops are recursive functions: \<open>fun\<close> or \<open>function\<close> with a measure where they always end, and
  \<open>partial_function (option)\<close> where they may not; then returning is proved, or that it fails. No fuel is used, except
  that \<open>ftpd_run\<close>, a loop without an end, is given the number of its first rounds.
  Code outside the repository is a parameter: comparison and hash functions, callbacks, generators of random numbers, and the
  calls of the operating system, a record of functions on a state of their own for each component.

  \<^bold>\<open>Foundations\<close>. \<open>Prelude\<close> (words, byte memory), \<open>Bytes\<close> (integers in memory), \<open>Cstring\<close> (strings and characters),
  \<open>Compare\<close> (comparison callbacks), \<open>Ring\<close> (circular memory and the interface \<open>byte_fifo\<close>), \<open>Links\<close> and \<open>Circular\<close>
  (\<open>include/bscl_list_head.h\<close>: the macros, sequences and circles of linked nodes).

  \<^bold>\<open>Buffers and the packet protocol\<close>. \<open>Buffer\<close> (\<open>include/bscl_buffer.h\<close>) and \<open>Ringbuffer\<close>
  (\<open>src/bscl_ringbuffer.c\<close>) are circular buffers; each operation is an operation on the list of the
  stored bytes, both interpret \<open>byte_fifo\<close>, and every history of calls keeps the byte buffer well-formed. \<open>Packet\<close>, \<open>Packet_Parse\<close> and
  \<open>Packet_Receive\<close> (\<open>src/bscl_packet.c\<close>) frame messages in a byte buffer with the checksums of \<open>Crc\<close>
  (\<open>src/bscl_crc.c\<close>): the parser refines a specification on the stored bytes, the receiver's state
  depends on the bytes and not on how they are cut, and a packet that arrives in any chunks is parsed to its contents;
  but the writer's checksum is not the parser's.

  \<^bold>\<open>Codecs\<close>. \<open>Md5\<close> (\<open>src/bscl_md5.c\<close>) against a reference of 64 uniform steps, \<open>Tea\<close> (\<open>src/bscl_tea.c\<close>) with the
  round trip of its chained mode, \<open>Url\<close> (\<open>src/bscl_url.c\<close>), \<open>Json\<close> (\<open>src/bscl_json.c\<close>), \<open>Wav\<close> (\<open>src/bscl_wav.c\<close>) with
  round trips against printers and readers, and \<open>Tools\<close> (\<open>src/tools/md5\<close> and \<open>src/tools/encryptor\<close>), which compose them with files.

  \<^bold>\<open>Data structures\<close>. \<open>Sort\<close> (\<open>src/bscl_sort.c\<close>), \<open>Bheap\<close> (\<open>src/bscl_bheap.c\<close>), \<open>Vector\<close> (\<open>src/bscl_vector.c\<close>),
  \<open>Linked_List\<close> (\<open>src/bscl_list.c\<close>, \<open>include/bscl_queue.h\<close>), \<open>Hashmap\<close> (\<open>src/bscl_hashmap.c\<close>), \<open>Bstree\<close>
  (\<open>src/bscl_bstree.c\<close>) and \<open>Rbtree\<close> (\<open>src/bscl_rbtree.c\<close>): each pointer structure is related to
  a list or tree of HOL (\<open>list_rep\<close>, \<open>tree_at\<close>, chains of items), and every operation is shown to be the
  operation on it, failed allocations included. The red-black tree is unfinished in the source; what it does is stated as it is.

  \<^bold>\<open>Control\<close>. \<open>Getopt\<close> (\<open>src/bscl_getopt.c\<close>) groups a command line, \<open>Tasklet\<close> (\<open>src/bscl_tasklet.c\<close> with the semaphore and mutex for Linux) runs
  pending routines, \<open>Timer\<close> (\<open>src/linux/bscl_timer.c\<close>) fires callbacks from a signal and \<open>Timer_Win32\<close> (\<open>src/win32/timer.c\<close>) from
  the multimedia timers, \<open>Task\<close> (\<open>src/bscl_task.c\<close>) starts cooperative tasks up to the first jump of their scheduler, which is
  undefined, and \<open>Log\<close> (\<open>include/bscl_log.h\<close>) writes lines whose stamps are ordered like the times.

  \<^bold>\<open>Network\<close>. \<open>Network\<close> (\<open>src/bscl_network.c\<close>) wraps sockets, \<open>Http\<close> (\<open>src/bscl_http.c\<close>, with the types of \<open>include/bscl_http.h\<close> in
  \<open>Http_Types\<close>) is a client over a connection, and \<open>Ftpd_Line\<close>, \<open>Ftpd\<close> and \<open>Ftpd_Session\<close> (\<open>src/bscl_ftpd.c\<close>) are the FTP server, from the splitting of a
  command to whole sessions: in any sequence of plain commands each is answered by exactly one reply, in order.

  \<^bold>\<open>Operating systems\<close>. \<open>Fs\<close>, \<open>Fs_Win32\<close> and \<open>Fs_Linux\<close> (\<open>include/bscl_fs.h\<close>, \<open>src/win32/fs.c\<close>, \<open>src/linux/fs.c\<close>), \<open>Serial\<close>,
  \<open>Serial_Win32\<close> and \<open>Serial_Linux\<close> (\<open>serialport.c\<close> of both), \<open>Os_Win32\<close> (mutexes, semaphores, threads, processes and time for
  Windows), \<open>Os_Posix\<close> (the macros of \<open>include/linux\<close> and \<open>include/apple\<close>). Tables of descriptors have invariants over all
  histories of calls. \<open>Sterm\<close> (\<open>src/tools/sterm\<close>) is a terminal of two threads over the serial ports of either system: a step
  relation of their calls, with invariants of all reachable states.

  \<^bold>\<open>Interfaces\<close>. The locales are \<open>byte_fifo\<close> (a queue of bytes with a capacity), \<open>crc_register\<close> (a register clocked by a linear step),
  \<open>pointer_queue\<close> (a queue of pointers), \<open>chained_cipher\<close> (a block cipher in a chained mode) and \<open>serial_line\<close> (what is sent through a
  serial port, interpreted for Linux and for Windows over any system whose calls are recorded); each is interpreted on the code's own operations
  in the theory that provides them, and the properties that rest on them are stated over those.

  \<^bold>\<open>Bounds\<close>. Where a property holds only up to a size, the size is a hypothesis: pieces of a message for MD5 below \<open>2 ^ 32 - 63\<close> bytes, a WAV
  file below \<open>2 ^ 32\<close> bytes, the first \<open>2 ^ 32\<close> ticks of a timer. The sizes in the hash map are taken not to overflow.
  Positions in the binary heap are unbounded. Memory that \<open>malloc\<close> gives holds anything; where the code reads it before it is
  written, as the links of the first timer for Linux, the property says what each content leads to.

  \<^bold>\<open>Not modelled\<close>. What cooperative tasks do after the first jump; the FTP client
  (\<open>src/bscl_ftp.c\<close>), which \<open>#if 0\<close> leaves out; \<open>include/bscl_event.h\<close>, which does not compile; macros that only
  name a function of POSIX; the test programs. Of modelled parts, the running side by side of FTP sessions and messages on
  the terminal are left out.
\<close>

end
